(* ===== verification/Prelude.thy ===== *)
theory Prelude
  imports Main "HOL-Library.Word" "HOL-Library.Multiset"
begin

text \<open>
  Shared vocabulary of the development: the machine integer types of the C++ code, the
  result type that stands for a call that may throw, the loops over such calls, and the
  arithmetic of sizes (overflow tests, powers of two, masking by an alignment) that the
  range planner, the mapped weight store, the batch planner and the merge index share.
\<close>

unbundle bit_operations_syntax

subsection \<open>Machine integers\<close>

text \<open>\<open>size_t\<close> and \<open>uint64_t\<close> are 64 bits wide on every platform the library supports.\<close>

type_synonym u8 = "8 word"
type_synonym u32 = "32 word"
type_synonym u64 = "64 word"

definition SIZE_MAX :: nat where
  "SIZE_MAX = 2 ^ 64 - 1"

definition INT32_MAX :: nat where
  "INT32_MAX = 2 ^ 31 - 1"

definition INT64_MAX :: nat where
  "INT64_MAX = 2 ^ 63 - 1"

text \<open>\<open>static_cast<int32_t>\<close> of a size: the low 32 bits read as two's complement.\<close>

definition i32_of_nat :: "nat \<Rightarrow> int" where
  "i32_of_nat n = sint (word_of_nat n :: u32)"

lemma i32_of_nat_id: "n \<le> INT32_MAX \<Longrightarrow> i32_of_nat n = int n"
  unfolding i32_of_nat_def INT32_MAX_def
  by (simp add: sint_uint uint_nat unat_of_nat signed_take_bit_int_eq_self take_bit_nat_eq_self)

subsection \<open>Calls that may throw\<close>

text \<open>
  A C++ call that may throw is a value of \<open>'e + 'a\<close>: \<open>Inl\<close> is the exception, \<open>Inr\<close> the
  returned value. \<open>bindE\<close> is the sequencing of two statements: an exception of the first
  one skips the second.
\<close>

named_theorems throwing

fun bindE :: "'e + 'a \<Rightarrow> ('a \<Rightarrow> 'e + 'b) \<Rightarrow> 'e + 'b" where
  "bindE (Inl e) f = Inl e"
| "bindE (Inr x) f = f x"

definition guardE :: "bool \<Rightarrow> 'e \<Rightarrow> 'e + unit" where
  "guardE ok e = (if ok then Inr () else Inl e)"

text \<open>\<open>mapE\<close> is a loop that pushes one result per element, \<open>foldE\<close> one that threads a state.\<close>

fun mapE :: "('a \<Rightarrow> 'e + 'b) \<Rightarrow> 'a list \<Rightarrow> 'e + 'b list" where
  "mapE f [] = Inr []"
| "mapE f (x # xs) = bindE (f x) (\<lambda>y. bindE (mapE f xs) (\<lambda>ys. Inr (y # ys)))"

fun foldE :: "('a \<Rightarrow> 's \<Rightarrow> 'e + 's) \<Rightarrow> 'a list \<Rightarrow> 's \<Rightarrow> 'e + 's" where
  "foldE f [] s = Inr s"
| "foldE f (x # xs) s = bindE (f x s) (foldE f xs)"

lemma bindE_Inr_iff [throwing]: "bindE m f = Inr y \<longleftrightarrow> (\<exists>x. m = Inr x \<and> f x = Inr y)"
  by (cases m) auto

lemma bindE_Inl_iff [throwing]:
  "bindE m f = Inl e \<longleftrightarrow> m = Inl e \<or> (\<exists>x. m = Inr x \<and> f x = Inl e)"
  by (cases m) auto

lemma bindE_assoc: "bindE (bindE m f) h = bindE m (\<lambda>x. bindE (f x) h)"
  by (cases m) auto

lemma guardE_Inr_iff [simp]: "guardE ok e = Inr u \<longleftrightarrow> ok"
  by (simp add: guardE_def)

lemma guardE_Inl_iff [simp]: "guardE ok e = Inl e' \<longleftrightarrow> \<not> ok \<and> e' = e"
  by (auto simp: guardE_def)

lemma guardE_True [simp]: "guardE True e = Inr ()"
  by (simp add: guardE_def)

lemma guardE_False [simp]: "guardE False e = Inl e"
  by (simp add: guardE_def)

lemma mapE_Inr_iff: "mapE f xs = Inr ys \<longleftrightarrow> list_all2 (\<lambda>x y. f x = Inr y) xs ys"
proof (induction xs arbitrary: ys)
  case Nil
  then show ?case by auto
next
  case (Cons x xs)
  then show ?case by (cases ys) (auto simp: throwing)
qed

lemma mapE_length: "mapE f xs = Inr ys \<Longrightarrow> length ys = length xs"
  by (auto simp: mapE_Inr_iff dest: list_all2_lengthD)

lemma mapE_total: "(\<And>x. x \<in> set xs \<Longrightarrow> f x = Inr (g x)) \<Longrightarrow> mapE f xs = Inr (map g xs)"
  by (induction xs) auto

lemma mapE_Inr_each: "mapE f xs = Inr ys \<Longrightarrow> x \<in> set xs \<Longrightarrow> \<exists>y\<in>set ys. f x = Inr y"
  by (auto simp: mapE_Inr_iff list_all2_conv_all_nth in_set_conv_nth)

lemma mapE_Inr_from: "mapE f xs = Inr ys \<Longrightarrow> y \<in> set ys \<Longrightarrow> \<exists>x\<in>set xs. f x = Inr y"
  by (fastforce simp: mapE_Inr_iff list_all2_conv_all_nth in_set_conv_nth)

text \<open>A list of checks, run in order until one throws.\<close>

lemma mapE_checks: "mapE (\<lambda>c. c) cs = Inr us \<longleftrightarrow> (\<forall>c\<in>set cs. c = Inr ()) \<and> us = map (\<lambda>_. ()) cs"
  for cs :: "('e + unit) list"
  by (induction cs arbitrary: us) (auto simp: throwing)

lemma mapE_Inl_iff:
  "(\<exists>e. mapE f xs = Inl e) \<longleftrightarrow> (\<exists>x\<in>set xs. \<exists>e. f x = Inl e)"
proof (induction xs)
  case Nil
  then show ?case by simp
next
  case (Cons x xs)
  then show ?case by (cases "f x"; cases "mapE f xs") auto
qed

lemma foldE_append: "foldE f (xs @ ys) s = bindE (foldE f xs s) (foldE f ys)"
proof (induction xs arbitrary: s)
  case Nil
  then show ?case by simp
next
  case (Cons x xs)
  then show ?case by (cases "f x s") auto
qed

text \<open>An invariant of the state that every iteration keeps holds after the loop.\<close>

lemma foldE_invariant:
  assumes "foldE f xs s = Inr t" and "I s"
    and "\<And>x s t. x \<in> set xs \<Longrightarrow> I s \<Longrightarrow> f x s = Inr t \<Longrightarrow> I t"
  shows "I t"
  using assms
proof (induction xs arbitrary: s)
  case Nil
  then show ?case by simp
next
  case (Cons x xs)
  then obtain u where u: "f x s = Inr u" "foldE f xs u = Inr t"
    by (auto simp: throwing)
  then have "I u" using Cons.prems by auto
  with u Cons show ?case by auto
qed

subsection \<open>Methods that change an object and may throw\<close>

text \<open>
  A method of an object with state \<open>'s\<close> returns its result and the state it leaves behind,
  also when it throws: what was assigned before the \<open>throw\<close> stays assigned.
\<close>

type_synonym ('s, 'e, 'a) action = "'s \<Rightarrow> ('e + 'a) \<times> 's"

named_theorems stateful

definition retM :: "'a \<Rightarrow> ('s, 'e, 'a) action" where
  "retM x = (\<lambda>s. (Inr x, s))"

definition throwM :: "'e \<Rightarrow> ('s, 'e, 'a) action" where
  "throwM e = (\<lambda>s. (Inl e, s))"

definition bindM :: "('s, 'e, 'a) action \<Rightarrow> ('a \<Rightarrow> ('s, 'e, 'b) action) \<Rightarrow> ('s, 'e, 'b) action" where
  "bindM m f = (\<lambda>s. case m s of (Inl e, t) \<Rightarrow> (Inl e, t) | (Inr x, t) \<Rightarrow> f x t)"

text \<open>Reading the object, assigning to it, and calling a pure function that may throw.\<close>

definition getM :: "('s \<Rightarrow> 'a) \<Rightarrow> ('s, 'e, 'a) action" where
  "getM f = (\<lambda>s. (Inr (f s), s))"

definition modifyM :: "('s \<Rightarrow> 's) \<Rightarrow> ('s, 'e, unit) action" where
  "modifyM f = (\<lambda>s. (Inr (), f s))"

definition liftM :: "('x \<Rightarrow> 'e) \<Rightarrow> 'x + 'a \<Rightarrow> ('s, 'e, 'a) action" where
  "liftM c r = (\<lambda>s. (map_sum c (\<lambda>x. x) r, s))"

definition catchM :: "('s, 'e, 'a) action \<Rightarrow> ('e \<Rightarrow> ('s, 'e, 'a) action) \<Rightarrow> ('s, 'e, 'a) action" where
  "catchM m h = (\<lambda>s. case m s of (Inl e, t) \<Rightarrow> h e t | (Inr x, t) \<Rightarrow> (Inr x, t))"

definition mapErrM :: "('e \<Rightarrow> 'f) \<Rightarrow> ('s, 'e, 'a) action \<Rightarrow> ('s, 'f, 'a) action" where
  "mapErrM c m = (\<lambda>s. case m s of (Inl e, t) \<Rightarrow> (Inl (c e), t) | (Inr x, t) \<Rightarrow> (Inr x, t))"

fun forM :: "'x list \<Rightarrow> ('x \<Rightarrow> ('s, 'e, unit) action) \<Rightarrow> ('s, 'e, unit) action" where
  "forM [] f = retM ()"
| "forM (x # xs) f = bindM (f x) (\<lambda>_. forM xs f)"

text \<open>A loop that pushes one result per element.\<close>

fun mapM :: "('x \<Rightarrow> ('s, 'e, 'a) action) \<Rightarrow> 'x list \<Rightarrow> ('s, 'e, 'a list) action" where
  "mapM f [] = retM []"
| "mapM f (x # xs) = bindM (f x) (\<lambda>y. bindM (mapM f xs) (\<lambda>ys. retM (y # ys)))"

text \<open>A loop that carries a local value from iteration to iteration.\<close>

fun foldM :: "('x \<Rightarrow> 'a \<Rightarrow> ('s, 'e, 'a) action) \<Rightarrow> 'x list \<Rightarrow> 'a \<Rightarrow> ('s, 'e, 'a) action" where
  "foldM f [] a = retM a"
| "foldM f (x # xs) a = bindM (f x a) (foldM f xs)"

lemma retM_run [simp, stateful]: "retM x s = (Inr x, s)"
  by (simp add: retM_def)

lemma throwM_run [simp, stateful]: "throwM e s = (Inl e, s)"
  by (simp add: throwM_def)

lemma getM_run [simp, stateful]: "getM f s = (Inr (f s), s)"
  by (simp add: getM_def)

lemma modifyM_run [simp, stateful]: "modifyM f s = (Inr (), f s)"
  by (simp add: modifyM_def)

lemma liftM_run [simp, stateful]:
  "liftM c (Inr x) s = (Inr x, s)" "liftM c (Inl y) s = (Inl (c y), s)"
  by (simp_all add: liftM_def)

lemma bindM_eq:
  "m s = (Inr x, t) \<Longrightarrow> bindM m f s = f x t"
  "m s = (Inl e, t) \<Longrightarrow> bindM m f s = (Inl e, t)"
  by (simp_all add: bindM_def)

lemma bindM_run [stateful]:
  "bindM m f s = (case m s of (Inl e, t) \<Rightarrow> (Inl e, t) | (Inr x, t) \<Rightarrow> f x t)"
  by (simp add: bindM_def)

lemma bindM_retM [simp]: "bindM (retM x) f s = f x s"
  by (simp add: bindM_def)

lemma bindM_throwM [simp]: "bindM (throwM e) f s = (Inl e, s)"
  by (simp add: bindM_def)

lemma bindM_getM [simp]: "bindM (getM g) f s = f (g s) s"
  by (simp add: bindM_def)

lemma bindM_modifyM [simp]: "bindM (modifyM h) f s = f () (h s)"
  by (simp add: bindM_def)

lemma bindM_liftM_Inr [simp]: "bindM (liftM c (Inr y)) f s = f y s"
  by (simp add: bindM_def)

lemma bindM_liftM_Inl [simp]: "bindM (liftM c (Inl z)) f s = (Inl (c z), s)"
  by (simp add: bindM_def)

lemma bindM_Inr_iff: "bindM m f s = (Inr y, t) \<longleftrightarrow> (\<exists>x u. m s = (Inr x, u) \<and> f x u = (Inr y, t))"
  by (cases "m s"; cases "fst (m s)") (auto simp: bindM_def)

lemma liftM_Inr_iff: "liftM c r s = (Inr x, t) \<longleftrightarrow> r = Inr x \<and> t = s"
  by (cases r) (auto simp: liftM_def)

lemma mapErrM_Inr_iff: "mapErrM c m s = (Inr x, t) \<longleftrightarrow> m s = (Inr x, t)"
  by (cases "m s"; cases "fst (m s)") (auto simp: mapErrM_def)

text \<open>An invariant that a method keeps, whether it returns or throws.\<close>

definition keeps :: "('s \<Rightarrow> bool) \<Rightarrow> ('s, 'e, 'a) action \<Rightarrow> bool" where
  "keeps I m \<longleftrightarrow> (\<forall>s. I s \<longrightarrow> I (snd (m s)))"

lemma keepsD: "keeps I m \<Longrightarrow> I s \<Longrightarrow> m s = (r, t) \<Longrightarrow> I t"
  by (metis keeps_def snd_conv)

lemma keeps_bindM:
  "keeps I m \<Longrightarrow> (\<And>x. keeps I (f x)) \<Longrightarrow> keeps I (bindM m f)"
  unfolding keeps_def bindM_def by (auto split: prod.split sum.split)

lemma keeps_forM: "(\<And>x. keeps I (f x)) \<Longrightarrow> keeps I (forM xs f)"
  by (induction xs) (auto simp: keeps_def [of I "retM ()"] intro: keeps_bindM)

subsection \<open>The interface of a range planner\<close>

text \<open>
  What the residency coordinator relies on when it plans which bytes to advise: ranges can be
  planned for a file geometry and subtracted from each other, and both operations are exact on
  the bytes the ranges stand for. \<open>planned\<close> ranges are what a plan returns for the geometry,
  \<open>tidy\<close> ones are ordered and disjoint.
\<close>

locale lease_planner =
  fixes plan :: "'g \<Rightarrow> 'r list \<Rightarrow> 'e + 'r list"
    and sub :: "'r list \<Rightarrow> 'r list \<Rightarrow> 'e + 'r list"
    and bytes :: "'r list \<Rightarrow> nat set"
    and geometry :: "'g \<Rightarrow> bool"
    and planned :: "'g \<Rightarrow> 'r list \<Rightarrow> bool"
    and tidy :: "'r list \<Rightarrow> bool"
  assumes plan_planned: "geometry g \<Longrightarrow> planned g rs \<Longrightarrow>
      \<exists>out. plan g rs = Inr out \<and> planned g out \<and> tidy out \<and> bytes out = bytes rs"
    and sub_tidy: "tidy a \<Longrightarrow> tidy b \<Longrightarrow> \<exists>out. sub a b = Inr out \<and> tidy out \<and> bytes out = bytes a - bytes b"
    and tidy_Nil: "tidy []"
begin

lemma plan_unless_empty:
  assumes "geometry g" and "planned g rs"
  shows "\<exists>out. (if rs \<noteq> [] then plan g rs else Inr rs) = Inr out \<and> tidy out \<and> bytes out = bytes rs"
  using plan_planned [OF assms] tidy_Nil by auto

lemma plan_and_subtract:
  assumes "geometry g" and "planned g a" and "planned g b"
  shows "\<exists>p q out. plan g a = Inr p \<and> (if b \<noteq> [] then plan g b else Inr b) = Inr q \<and> sub p q = Inr out
    \<and> tidy out \<and> bytes out = bytes a - bytes b"
proof -
  obtain p where p: "plan g a = Inr p" "tidy p" "bytes p = bytes a"
    using plan_planned [OF assms(1,2)] by blast
  obtain q where q: "(if b \<noteq> [] then plan g b else Inr b) = Inr q" "tidy q" "bytes q = bytes b"
    using plan_unless_empty [OF assms(1,3)] by blast
  from sub_tidy [OF p(2) q(2)] p q show ?thesis by (metis)
qed

lemma plan_and_subtract_tidy:
  assumes "geometry g" and "planned g a" and "tidy b"
  shows "\<exists>p out. (if a \<noteq> [] then bindE (plan g a) (\<lambda>p. sub p b) else Inr a) = Inr out
    \<and> tidy out \<and> (a \<noteq> [] \<longrightarrow> bytes out = bytes a - bytes b) \<and> (a = [] \<longrightarrow> out = [])"
proof (cases "a = []")
  case False
  obtain p where "plan g a = Inr p" "tidy p" "bytes p = bytes a"
    using plan_planned [OF assms(1,2)] by blast
  with sub_tidy [OF this(2) assms(3)] False show ?thesis by auto
qed (use tidy_Nil in auto)

end

subsection \<open>Sizes: overflow, powers of two, masking by an alignment\<close>

text \<open>
  The code tests \<open>rhs > max - lhs\<close> before it adds. On words that test is exactly "the sum of
  the two numbers does not fit".
\<close>

lemma word_eq_pow_if_unat: "unat p = 2 ^ k \<Longrightarrow> p = 2 ^ k" for p :: "'a::len word"
  by (metis of_nat_numeral of_nat_power of_nat_unat ucast_id)

lemma unat_minus_one_minus: "unat (- 1 - a :: 'a::len word) = 2 ^ LENGTH('a) - 1 - unat a"
proof -
  have "unat (- 1 - a) = unat (- 1 :: 'a word) - unat a"
    by (rule unat_sub) simp
  then show ?thesis by (simp add: unsigned_minus_1_eq_mask mask_eq_exp_minus_1)
qed

lemma add_overflow_iff:
  "(b > - 1 - a) \<longleftrightarrow> unat a + unat b \<ge> 2 ^ LENGTH('a)" for a b :: "'a::len word"
proof -
  have "unat a < 2 ^ LENGTH('a)" by (rule unsigned_less)
  then show ?thesis
    unfolding word_less_nat_alt unat_minus_one_minus by arith
qed

lemma unat_add_no_overflow:
  "unat a + unat b < 2 ^ LENGTH('a) \<Longrightarrow> unat (a + b) = unat a + unat b" for a b :: "'a::len word"
  by (simp add: unat_word_ariths)

lemma and_pred_zero_nat:
  "0 < p \<Longrightarrow> p AND (p - 1) = 0 \<Longrightarrow> \<exists>k. p = 2 ^ k" for p :: nat
proof (induction p rule: less_induct)
  case (less p)
  show ?case
  proof (cases "even p")
    case True
    then obtain q where p: "p = 2 * q" by auto
    with less.prems have "0 < q" by simp
    then have "p - 1 = 2 * (q - 1) + 1" using p by simp
    then have "p AND (p - 1) = 2 * (q AND (q - 1))"
      using p by (simp add: and_nat_rec [of "2 * q"])
    with less.prems have "q AND (q - 1) = 0" by simp
    with \<open>0 < q\<close> p less.IH [of q] obtain k where "q = 2 ^ k" by auto
    with p have "p = 2 ^ Suc k" by simp
    then show ?thesis by blast
  next
    case False
    then obtain q where p: "p = 2 * q + 1" by (auto elim: oddE)
    then have "p AND (p - 1) = 2 * q"
      by (simp add: and_nat_rec [of "Suc (2 * q)"])
    with less.prems p have "p = 2 ^ 0" by simp
    then show ?thesis by blast
  qed
qed

definition is_power_of_two :: "'a::len word \<Rightarrow> bool" where
  "is_power_of_two x \<longleftrightarrow> x \<noteq> 0 \<and> x AND (x - 1) = 0"

lemma power_of_two_wordE:
  fixes p :: "'a::len word"
  assumes "p \<noteq> 0" and "p AND (p - 1) = 0"
  obtains k where "p = 2 ^ k" and "k < LENGTH('a)" and "unat p = 2 ^ k"
proof -
  have pos: "0 < unat p" using assms(1) by (simp add: unat_gt_0)
  have "unat (p - 1) = unat p - 1"
    using assms(1) by (simp add: unat_minus_one)
  moreover have "unat (p AND (p - 1)) = 0" using assms(2) by simp
  ultimately have "unat p AND (unat p - 1) = 0" by (simp add: unsigned_and_eq)
  with pos and_pred_zero_nat [of "unat p"] obtain k where k: "unat p = 2 ^ k" by auto
  moreover have "unat p < 2 ^ LENGTH('a)" by (rule unsigned_less)
  ultimately have "k < LENGTH('a)" by simp
  moreover from k have "p = 2 ^ k" by (rule word_eq_pow_if_unat)
  ultimately show ?thesis using that k by blast
qed

lemma power_of_two_and_pred: "(2 ^ k :: 'a::len word) AND (2 ^ k - 1) = 0"
proof (rule bit_eqI)
  fix n
  show "bit ((2 ^ k :: 'a word) AND (2 ^ k - 1)) n = bit (0 :: 'a word) n"
    by (auto simp: bit_and_iff bit_exp_iff bit_mask_iff simp flip: mask_eq_exp_minus_1)
qed

lemma unat_and_pred:
  fixes x p :: "'a::len word"
  assumes "unat p = 2 ^ k" shows "unat (x AND (p - 1)) = unat x mod unat p"
proof -
  have "p \<noteq> 0" using assms by (metis unat_0 power_eq_0_iff zero_neq_numeral)
  then have "unat (p - 1) = mask k" using assms by (simp add: unat_minus_one mask_eq_exp_minus_1)
  then show ?thesis using assms by (simp add: unsigned_and_eq take_bit_eq_mod flip: take_bit_eq_mask)
qed

lemma unat_and_not_pred:
  fixes x p :: "'a::len word"
  assumes "unat p = 2 ^ k" shows "unat (x AND NOT (p - 1)) = unat x div unat p * unat p"
proof -
  have pk: "k < LENGTH('a)"
    using assms unsigned_less [of p] by (metis power_less_imp_less_exp one_less_numeral_iff semiring_norm(76))
  from assms have p: "p = 2 ^ k" by (rule word_eq_pow_if_unat)
  have "x AND NOT (p - 1) = push_bit k (drop_bit k x)"
    unfolding p by (rule bit_eqI)
      (auto simp: bit_simps simp flip: mask_eq_exp_minus_1 dest: bit_imp_le_length)
  then have "(x AND NOT (p - 1)) + (x AND (p - 1)) = x"
    using p by (simp add: bits_ident flip: mask_eq_exp_minus_1 take_bit_eq_mask)
  then have eq: "x AND NOT (p - 1) = x - (x AND (p - 1))"
    by (metis add_diff_cancel_right')
  have "(x AND (p - 1)) \<le> x" by (rule word_and_le2)
  then have "unat (x AND NOT (p - 1)) = unat x - unat (x AND (p - 1))"
    unfolding eq by (rule unat_sub)
  then show ?thesis using assms by (simp add: unat_and_pred minus_mod_eq_div_mult)
qed

subsection \<open>Rounding up, and hitting a page\<close>

lemma unat_less_u64: "unat (x :: u64) < 2 ^ 64"
  using unsigned_less [of x] by simp

lemma unat_small_u64: "i \<le> INT64_MAX \<Longrightarrow> unat (word_of_nat i :: u64) = i"
  by (simp add: INT64_MAX_def unat_of_nat take_bit_nat_eq_self)

lemma word_of_unat_eq: "unat x = v \<Longrightarrow> x = word_of_nat v" for x :: "'a::len word"
  by (metis of_nat_unat ucast_id)

lemma word_of_nat_small_inj:
  "i \<le> INT64_MAX \<Longrightarrow> j \<le> INT64_MAX \<Longrightarrow> (word_of_nat i :: u64) = word_of_nat j \<Longrightarrow> i = j"
  by (metis unat_small_u64)

lemma word_of_nat_not_max: "i \<le> INT64_MAX \<Longrightarrow> (word_of_nat i :: u64) \<noteq> - 1"
proof
  assume "i \<le> INT64_MAX" "(word_of_nat i :: u64) = - 1"
  then have "i = unat (- 1 :: u64)" by (metis unat_small_u64)
  then show False using \<open>i \<le> INT64_MAX\<close> by (simp add: INT64_MAX_def unsigned_minus_1_eq_mask mask_eq_exp_minus_1)
qed

lemma round_up_div: "0 < p \<Longrightarrow> (e + p - 1) div p = e div p + (if e mod p = 0 then 0 else 1)" for e p :: nat
proof -
  assume p: "0 < p"
  define q r where "q = e div p" and "r = e mod p"
  have r: "r < p" using p by (simp add: r_def)
  have e: "e = p * q + r" by (simp add: q_def r_def)
  have "e + p - 1 = p * q + (r + p - 1)" using p e by linarith
  then have "(e + p - 1) div p = (p * q + (r + p - 1)) div p" by simp
  also have "\<dots> = q + (r + p - 1) div p" using p div_mult_self4 [of p q "r + p - 1"] by (simp only: ac_simps)
  also have "(r + p - 1) div p = (if r = 0 then 0 else 1)"
  proof (cases "r = 0")
    case False
    then have "r + p - 1 = p + (r - 1)" by simp
    then have "(r + p - 1) div p = (p + (r - 1)) div p" by (rule arg_cong)
    also have "\<dots> = 1" using p r by (subst div_add_self1) auto
    finally show ?thesis using False by simp
  qed (use p in simp)
  finally show ?thesis unfolding q_def r_def .
qed

definition round_up :: "nat \<Rightarrow> nat \<Rightarrow> nat" where
  "round_up p e = (e + p - 1) div p * p"

lemma round_up_multiple: "0 < p \<Longrightarrow> e mod p = 0 \<Longrightarrow> round_up p e = e"
  unfolding round_up_def by (subst round_up_div) (auto simp: mod_0_imp_dvd)

lemma round_up_other: "0 < p \<Longrightarrow> e mod p \<noteq> 0 \<Longrightarrow> round_up p e = e + (p - e mod p)"
proof -
  assume p: "0 < p" and nz: "e mod p \<noteq> 0"
  have "round_up p e = e div p * p + p"
    unfolding round_up_def using nz by (subst round_up_div [OF p]) simp
  then show ?thesis using div_mult_mod_eq [of e p] mod_less_divisor [OF p, of e] by linarith
qed

lemma round_up_ge: "0 < p \<Longrightarrow> e \<le> round_up p e"
  by (metis round_up_multiple round_up_other le_add1 order_refl)

lemma round_up_less_iff: "0 < p \<Longrightarrow> 0 < e \<Longrightarrow> b < round_up p e \<longleftrightarrow> b div p \<le> (e - 1) div p"
proof -
  assume p: "0 < p" and e: "0 < e"
  have "(e + p - 1) div p = (e - 1) div p + 1"
    using p e by (metis Nat.add_diff_assoc2 Suc_leI One_nat_def div_add_self2 neq0_conv)
  then have "b < round_up p e \<longleftrightarrow> b < ((e - 1) div p + 1) * p" by (simp add: round_up_def)
  also have "\<dots> \<longleftrightarrow> b div p < (e - 1) div p + 1" using p by (simp add: div_less_iff_less_mult)
  finally show ?thesis by linarith
qed

lemma page_hit_iff:
  fixes p lo hi b :: nat
  assumes "0 < p" and "lo < hi"
  shows "(\<exists>x\<in>{lo ..< hi}. x div p = b div p) \<longleftrightarrow> lo div p \<le> b div p \<and> b div p \<le> (hi - 1) div p"
proof
  assume "\<exists>x\<in>{lo ..< hi}. x div p = b div p"
  then obtain x where "lo \<le> x" "x \<le> hi - 1" "x div p = b div p" by auto
  then show "lo div p \<le> b div p \<and> b div p \<le> (hi - 1) div p"
    using div_le_mono [of lo x p] div_le_mono [of x "hi - 1" p] by simp
next
  assume h: "lo div p \<le> b div p \<and> b div p \<le> (hi - 1) div p"
  define x where "x = max lo (b div p * p)"
  have "b div p * p \<le> hi - 1" using h by (metis div_times_less_eq_dividend le_trans mult_le_mono1)
  then have "x \<in> {lo ..< hi}" using assms by (auto simp: x_def)
  moreover have "x div p = b div p"
  proof (cases "lo \<le> b div p * p")
    case True
    then show ?thesis using assms by (simp add: x_def)
  next
    case False
    then have "b div p \<le> lo div p" using assms
      by (metis div_le_mono nat_le_linear nonzero_mult_div_cancel_right not_gr0)
    then show ?thesis using h False by (simp add: x_def)
  qed
  ultimately show "\<exists>x\<in>{lo ..< hi}. x div p = b div p" by blast
qed

end
