(* ===== verification/Ranges.thy ===== *)
theory Ranges
  imports Prelude "HOL-Library.Product_Lexorder"
begin

text \<open>
  The byte-range planner of \<open>src/streaming_execution.cpp\<close>: which bytes of the mapped
  model file a residency lease advises. A range is an offset and a length of 64-bit sizes.
  The planner aligns ranges outwards to pages, sorts them, merges the ones that touch,
  subtracts protected ranges and counts bytes and pages.
\<close>

unbundle bit_operations_syntax

subsection \<open>Ranges and their order\<close>

text \<open>\<open>StreamingByteRange\<close>.\<close>

datatype byte_range = ByteRange (offset: u64) (len: u64)

text \<open>The comparator of \<open>std::sort\<close> in the planner: by offset, then by length.\<close>

instantiation byte_range :: linorder
begin
definition less_eq_byte_range :: "byte_range \<Rightarrow> byte_range \<Rightarrow> bool" where
  "less_eq_byte_range l r \<longleftrightarrow> offset l < offset r \<or> (offset l = offset r \<and> len l \<le> len r)"
definition less_byte_range :: "byte_range \<Rightarrow> byte_range \<Rightarrow> bool" where
  "less_byte_range l r \<longleftrightarrow> offset l < offset r \<or> (offset l = offset r \<and> len l < len r)"
instance
  by standard (auto simp: less_eq_byte_range_def less_byte_range_def byte_range.expand)
end

text \<open>\<open>operator==\<close> on ranges.\<close>

definition range_eq :: "byte_range \<Rightarrow> byte_range \<Rightarrow> bool" where
  "range_eq lhs rhs \<longleftrightarrow> offset lhs = offset rhs \<and> len lhs = len rhs"

text \<open>The exceptions of the planner, one constructor per \<open>throw\<close>; all are \<open>std::runtime_error\<close>.\<close>

datatype range_error =
    RangeOverflow string
  | PlannerArguments
  | RangeEmpty
  | RangeExceedsFile
  | TokenRequestInvalid
  | TokenStrideExceedsTensor
  | TokenIdOutsideTable
  | TokenRowExceedsTensor

subsection \<open>The operations\<close>

definition checked_add :: "u64 \<Rightarrow> u64 \<Rightarrow> string \<Rightarrow> range_error + u64" where
  "checked_add lhs rhs subject =
     (if rhs > - 1 - lhs then Inl (RangeOverflow subject) else Inr (lhs + rhs))"

definition page_count :: "byte_range list \<Rightarrow> u64 \<Rightarrow> range_error + u64" where
  "page_count ranges page_size =
     foldE (\<lambda>br pages.
       let range_pages = len br div page_size + (if len br mod page_size = 0 then 0 else 1)
       in checked_add pages range_pages ''page count'') ranges 0"

definition byte_count :: "byte_range list \<Rightarrow> range_error + u64" where
  "byte_count ranges = foldE (\<lambda>br bytes. checked_add bytes (len br) ''byte count'') ranges 0"

text \<open>
  The inner loop of \<open>subtract_ranges\<close> over the protected ranges, for one source item that
  ends at \<open>fin\<close>: it returns the cursor it stopped at and what it pushed.
\<close>

fun subtract_guards ::
  "byte_range list \<Rightarrow> u64 \<Rightarrow> u64 \<Rightarrow> byte_range list \<Rightarrow> range_error + u64 \<times> byte_range list" where
  "subtract_guards [] cursor fin out = Inr (cursor, out)"
| "subtract_guards (guard # guards) cursor fin out =
     bindE (checked_add (offset guard) (len guard) ''subtract guard'') (\<lambda>guard_end.
       if guard_end \<le> cursor then subtract_guards guards cursor fin out
       else if offset guard \<ge> fin then Inr (cursor, out)
       else
         let out' = (if offset guard > cursor
                     then out @ [ByteRange cursor (offset guard - cursor)] else out);
             cursor' = max cursor guard_end
         in if cursor' \<ge> fin then Inr (cursor', out')
            else subtract_guards guards cursor' fin out')"

definition subtract_ranges ::
  "byte_range list \<Rightarrow> byte_range list \<Rightarrow> range_error + byte_range list" where
  "subtract_ranges source protected_ranges =
     foldE (\<lambda>item out.
       bindE (checked_add (offset item) (len item) ''subtract source'') (\<lambda>fin.
       bindE (subtract_guards protected_ranges (offset item) fin out) (\<lambda>(cursor, out').
         Inr (if cursor < fin then out' @ [ByteRange cursor (fin - cursor)] else out')))) source []"

text \<open>The first loop of \<open>page_align_and_coalesce\<close>: one range, checked and aligned outwards.\<close>

definition align_range :: "u64 \<Rightarrow> u64 \<Rightarrow> byte_range \<Rightarrow> range_error + byte_range" where
  "align_range mapping_size page_size br =
     (if len br = 0 then Inl RangeEmpty
      else bindE (checked_add (offset br) (len br) ''tensor end'') (\<lambda>fin.
        if offset br \<ge> mapping_size \<or> fin > mapping_size then Inl RangeExceedsFile
        else
          let begin_page = offset br AND NOT (page_size - 1);
              remainder = fin AND (page_size - 1);
              end_page = (if remainder \<noteq> 0
                          then (let padding = page_size - remainder
                                in if padding > mapping_size - fin then mapping_size
                                   else fin + padding)
                          else fin);
              end_page' = min end_page mapping_size
          in Inr (ByteRange begin_page (end_page' - begin_page))))"

text \<open>
  The second loop: \<open>tail\<close> is \<open>result.back()\<close>, which the loop widens in place while the next
  range starts at or before its end.
\<close>

fun coalesce_from :: "byte_range \<Rightarrow> byte_range list \<Rightarrow> range_error + byte_range list" where
  "coalesce_from tail [] = Inr [tail]"
| "coalesce_from tail (br # ranges) =
     bindE (checked_add (offset tail) (len tail) ''coalesce tail'') (\<lambda>tail_end.
     bindE (checked_add (offset br) (len br) ''coalesce range'') (\<lambda>range_end.
       if offset br \<le> tail_end
       then coalesce_from (ByteRange (offset tail) (max tail_end range_end - offset tail)) ranges
       else bindE (coalesce_from br ranges) (\<lambda>rest. Inr (tail # rest))))"

definition coalesce :: "byte_range list \<Rightarrow> range_error + byte_range list" where
  "coalesce aligned = (case aligned of [] \<Rightarrow> Inr [] | br # ranges \<Rightarrow> coalesce_from br ranges)"

definition page_align_and_coalesce ::
  "byte_range list \<Rightarrow> u64 \<Rightarrow> u64 \<Rightarrow> range_error + byte_range list" where
  "page_align_and_coalesce ranges mapping_size page_size =
     (if mapping_size = 0 \<or> page_size = 0 \<or> page_size AND (page_size - 1) \<noteq> 0
      then Inl PlannerArguments
      else bindE (mapE (align_range mapping_size page_size) ranges) (\<lambda>aligned.
             coalesce (sort aligned)))"

text \<open>
  \<open>token_row_ranges\<close>: \<open>row_count\<close> is an \<open>int64_t\<close>, the identifiers are \<open>int\<close>s, and the
  products are \<open>size_t\<close> products. \<open>unique_ids\<close> is the \<open>std::set\<close> of the identifiers seen.
\<close>

definition token_row_step ::
  "u64 \<Rightarrow> u64 \<Rightarrow> u64 \<Rightarrow> int \<Rightarrow> int \<Rightarrow> int list \<times> byte_range list \<Rightarrow> range_error + int list \<times> byte_range list"
where
  "token_row_step tensor_offset tensor_nbytes row_stride row_count tid = (\<lambda>(unique_ids, raw).
     if tid < 0 \<or> tid \<ge> row_count then Inl TokenIdOutsideTable
     else if tid \<in> set unique_ids then Inr (unique_ids, raw)
     else
       let relative = word_of_int tid * row_stride in
       bindE (checked_add tensor_offset relative ''token row offset'') (\<lambda>start.
       bindE (checked_add tensor_offset tensor_nbytes ''token tensor end'') (\<lambda>tensor_end.
       bindE (checked_add start row_stride ''token row end'') (\<lambda>row_end.
         if row_end > tensor_end then Inl TokenRowExceedsTensor
         else Inr (tid # unique_ids, raw @ [ByteRange start row_stride])))))"

definition token_row_ranges ::
  "u64 \<Rightarrow> u64 \<Rightarrow> u64 \<Rightarrow> int \<Rightarrow> int list \<Rightarrow> u64 \<Rightarrow> u64 \<Rightarrow> range_error + byte_range list" where
  "token_row_ranges tensor_offset tensor_nbytes row_stride row_count token_ids mapping_size page_size =
     (if row_stride = 0 \<or> row_count \<le> 0 \<or> token_ids = [] then Inl TokenRequestInvalid
      else
        let rows = word_of_int row_count in
        if rows > tensor_nbytes div row_stride \<or> rows * row_stride > tensor_nbytes
        then Inl TokenStrideExceedsTensor
        else bindE (foldE (token_row_step tensor_offset tensor_nbytes row_stride row_count)
                          token_ids ([], [])) (\<lambda>(unique_ids, raw).
               page_align_and_coalesce raw mapping_size page_size))"

subsection \<open>What a list of ranges covers\<close>

text \<open>
  The abstraction: a range is the set of byte positions it covers, as natural numbers. A
  range fits when its end is representable; \<open>fin_of\<close> is that end.
\<close>

definition fin_of :: "byte_range \<Rightarrow> nat" where
  "fin_of r = unat (offset r) + unat (len r)"

definition fits :: "byte_range \<Rightarrow> bool" where
  "fits r \<longleftrightarrow> fin_of r < 2 ^ 64"

definition bytes_of :: "byte_range \<Rightarrow> nat set" where
  "bytes_of r = {unat (offset r) ..< fin_of r}"

definition cover :: "byte_range list \<Rightarrow> nat set" where
  "cover rs = (\<Union>r\<in>set rs. bytes_of r)"

definition page_closure :: "nat \<Rightarrow> nat \<Rightarrow> nat set \<Rightarrow> nat set" where
  "page_closure page mapping B = {b. b < mapping \<and> (\<exists>x\<in>B. x div page = b div page)}"

text \<open>The shape of the planner's results: non-empty ranges in order, no two touching.\<close>

definition canonical :: "byte_range list \<Rightarrow> bool" where
  "canonical rs \<longleftrightarrow> (\<forall>r\<in>set rs. len r \<noteq> 0 \<and> fits r) \<and>
     sorted_wrt (\<lambda>a b. fin_of a < unat (offset b)) rs"

lemma cover_Nil [simp]: "cover [] = {}"
  by (simp add: cover_def)

lemma cover_Cons [simp]: "cover (r # rs) = bytes_of r \<union> cover rs"
  by (simp add: cover_def)

lemma cover_append [simp]: "cover (rs @ ss) = cover rs \<union> cover ss"
  by (simp add: cover_def)

lemma cover_sort [simp]: "cover (sort rs) = cover rs"
  by (simp add: cover_def)

lemma canonical_Nil [simp]: "canonical []"
  by (simp add: canonical_def)

lemma canonical_Cons [simp]:
  "canonical (r # rs) \<longleftrightarrow> len r \<noteq> 0 \<and> fits r \<and> (\<forall>s\<in>set rs. fin_of r < unat (offset s)) \<and> canonical rs"
  by (auto simp: canonical_def)

lemma checked_add_Inr_iff [throwing]:
  "checked_add a b s = Inr c \<longleftrightarrow> unat a + unat b < 2 ^ 64 \<and> c = a + b"
  using add_overflow_iff [of a b] by (auto simp: checked_add_def)

lemma checked_add_Inl_iff [throwing]:
  "checked_add a b s = Inl e \<longleftrightarrow> unat a + unat b \<ge> 2 ^ 64 \<and> e = RangeOverflow s"
  using add_overflow_iff [of a b] by (auto simp: checked_add_def)

lemma unat_end: "fits r \<Longrightarrow> unat (offset r + len r) = fin_of r"
  using unat_add_no_overflow [of "offset r" "len r"] by (simp add: fits_def fin_of_def)

lemma checked_end [simp]: "fits r \<Longrightarrow> checked_add (offset r) (len r) s = Inr (offset r + len r)"
  by (simp add: throwing fits_def fin_of_def)

lemma bytes_of_empty_iff [simp]: "bytes_of r = {} \<longleftrightarrow> len r = 0"
  by (simp add: bytes_of_def fin_of_def unat_eq_0)

subsection \<open>Aligning one range\<close>

definition in_file :: "u64 \<Rightarrow> byte_range \<Rightarrow> bool" where
  "in_file mapping r \<longleftrightarrow> len r \<noteq> 0 \<and> fin_of r \<le> unat mapping"

lemma in_file_fits: "in_file m r \<Longrightarrow> fits r"
  using unat_less_u64 [of m] by (simp add: in_file_def fits_def)

lemma align_range_Inr:
  assumes "align_range m p r = Inr a"
  shows "in_file m r"
proof -
  have nz: "len r \<noteq> 0" using assms by (auto simp: align_range_def split: if_splits)
  with assms obtain e where e: "checked_add (offset r) (len r) ''tensor end'' = Inr e"
    and "\<not> (offset r \<ge> m \<or> e > m)"
    by (auto simp: align_range_def throwing simp del: Let_def split: if_splits)
  moreover from e have "unat e = fin_of r"
    by (auto simp: throwing fin_of_def unat_add_no_overflow)
  ultimately show ?thesis using nz by (simp add: in_file_def word_le_nat_alt not_less)
qed

lemma align_range_in_file:
  assumes r: "in_file m r" and P: "unat p = 2 ^ k"
  obtains a where "align_range m p r = Inr a"
    and "unat (offset a) = unat (offset r) div unat p * unat p"
    and "fin_of a = min (unat m) (round_up (unat p) (fin_of r))"
    and "fits a" and "len a \<noteq> 0"
proof -
  define e where "e = offset r + len r"
  have fits: "fits r" using r by (rule in_file_fits)
  then have ue: "unat e = fin_of r" by (simp add: e_def unat_end)
  have lr: "0 < unat (len r)" using r by (simp add: in_file_def unat_gt_0)
  then have lim: "unat e \<le> unat m" "unat (offset r) < unat e"
    using r ue by (simp_all add: in_file_def fin_of_def)
  have pos: "0 < unat p" using P by simp
  define b where "b = offset r AND NOT (p - 1)"
  have ub: "unat b = unat (offset r) div unat p * unat p"
    unfolding b_def using P by (rule unat_and_not_pred)
  define rem where "rem = e AND (p - 1)"
  have ur: "unat rem = unat e mod unat p"
    unfolding rem_def using P by (rule unat_and_pred)
  define ep where "ep = (if rem \<noteq> 0 then (if p - rem > m - e then m else e + (p - rem)) else e)"
  have up: "unat (min ep m) = min (unat m) (round_up (unat p) (unat e))"
  proof (cases "rem = 0")
    case True
    then have "unat e mod unat p = 0" using ur by simp
    then show ?thesis using True lim pos
      by (simp add: ep_def round_up_multiple min_def word_le_nat_alt)
  next
    case False
    then have nz: "unat e mod unat p \<noteq> 0" using ur by (metis unat_eq_0)
    note ru = round_up_other [OF pos nz]
    have "rem \<le> p" using ur pos by (simp add: word_le_nat_alt less_imp_le)
    then have up': "unat (p - rem) = unat p - unat e mod unat p"
      using ur by (simp add: unat_sub)
    have um: "unat (m - e) = unat m - unat e" using lim by (simp add: unat_sub word_le_nat_alt)
    show ?thesis
    proof (cases "p - rem > m - e")
      case True
      then show ?thesis using False ru up' um by (simp add: ep_def word_less_nat_alt)
    next
      case small: False
      then have le: "unat e + (unat p - unat e mod unat p) \<le> unat m"
        using up' um lim by (simp add: word_less_nat_alt)
      then have "unat (e + (p - rem)) = unat e + (unat p - unat e mod unat p)"
        using unat_less_u64 [of m] up' by (simp add: unat_add_no_overflow)
      then show ?thesis using False small ru le
        by (simp add: ep_def min_def word_le_nat_alt)
    qed
  qed
  have eq: "align_range m p r = Inr (ByteRange b (min ep m - b))"
    using r fits lim ue
    by (simp add: align_range_def in_file_def e_def [symmetric] word_le_nat_alt word_less_nat_alt
        b_def rem_def ep_def Let_def)
  have "unat b \<le> unat (offset r)" using ub by simp
  also have "unat (offset r) < unat (min ep m)"
    using lim up round_up_ge [OF pos, of "unat e"] by simp
  finally have less: "unat b < unat (min ep m)" .
  then have ul: "unat (min ep m - b) = unat (min ep m) - unat b"
    by (simp add: unat_sub word_le_nat_alt less_imp_le)
  show ?thesis
  proof (rule that [OF eq])
    show "fin_of (ByteRange b (min ep m - b)) = min (unat m) (round_up (unat p) (fin_of r))"
      using ul less up ue by (simp add: fin_of_def)
    then show "fits (ByteRange b (min ep m - b))"
      using unat_less_u64 [of m] by (simp add: fits_def)
    show "len (ByteRange b (min ep m - b)) \<noteq> 0"
      using ul less by (metis byte_range.sel(2) unat_0 zero_less_diff less_irrefl)
  qed (simp add: ub)
qed


lemma align_range_bytes:
  assumes r: "in_file m r" and P: "unat p = 2 ^ k" and a: "align_range m p r = Inr a"
  shows "bytes_of a = page_closure (unat p) (unat m) (bytes_of r)"
proof -
  obtain a' where a': "align_range m p r = Inr a'"
    and oa: "unat (offset a') = unat (offset r) div unat p * unat p"
    and fa: "fin_of a' = min (unat m) (round_up (unat p) (fin_of r))"
    using align_range_in_file [OF r P] by metis
  have pos: "0 < unat p" using P by simp
  have ne: "unat (offset r) < fin_of r" using r by (simp add: in_file_def fin_of_def unat_gt_0)
  have "b \<in> bytes_of a' \<longleftrightarrow> b \<in> page_closure (unat p) (unat m) (bytes_of r)" for b
  proof -
    have "b \<in> bytes_of a' \<longleftrightarrow> unat (offset r) div unat p \<le> b div unat p \<and> b < unat m
        \<and> b div unat p \<le> (fin_of r - 1) div unat p"
      using pos ne round_up_less_iff [OF pos, of "fin_of r" b]
      by (auto simp: bytes_of_def oa fa less_eq_div_iff_mult_less_eq)
    also have "unat (offset r) div unat p \<le> b div unat p \<and> b < unat m
        \<and> b div unat p \<le> (fin_of r - 1) div unat p
        \<longleftrightarrow> b < unat m \<and> (\<exists>x\<in>{unat (offset r) ..< fin_of r}. x div unat p = b div unat p)"
      using page_hit_iff [OF pos ne] by blast
    finally show ?thesis by (simp add: page_closure_def bytes_of_def)
  qed
  with a a' show ?thesis by auto
qed


subsection \<open>Merging sorted ranges\<close>

lemma coalesce_from_ok:
  assumes "sorted_wrt (\<lambda>a b. offset a \<le> offset b) (tail # rs)"
    and "\<forall>r\<in>set (tail # rs). fits r \<and> len r \<noteq> 0"
  shows "\<exists>out. coalesce_from tail rs = Inr out \<and> canonical out \<and> cover out = cover (tail # rs)
    \<and> (\<forall>r\<in>set out. offset tail \<le> offset r)
    \<and> offset ` set out \<subseteq> offset ` set (tail # rs) \<and> fin_of ` set out \<subseteq> fin_of ` set (tail # rs)"
  using assms
proof (induction rs arbitrary: tail)
  case Nil
  then show ?case by auto
next
  case (Cons r rs)
  have ft: "fits tail" and fr: "fits r" and lr: "len r \<noteq> 0" and lt: "len tail \<noteq> 0"
    using Cons.prems by auto
  have le: "unat (offset tail) \<le> unat (offset r)" using Cons.prems by (simp add: word_le_nat_alt)
  have sr: "sorted_wrt (\<lambda>a b. offset a \<le> offset b) (r # rs)" using Cons.prems by simp
  define te where "te = offset tail + len tail"
  define re where "re = offset r + len r"
  have ute: "unat te = fin_of tail" and ure: "unat re = fin_of r"
    using ft fr by (simp_all add: te_def re_def unat_end)
  show ?case
  proof (cases "offset r \<le> te")
    case True
    define t' where "t' = ByteRange (offset tail) (max te re - offset tail)"
    have um: "unat (max te re) = max (fin_of tail) (fin_of r)"
      using ute ure by (simp add: max_def word_le_nat_alt)
    have pos: "unat (offset tail) < fin_of tail" using lt by (simp add: fin_of_def unat_gt_0)
    have "unat (max te re - offset tail) = unat (max te re) - unat (offset tail)"
      using um pos by (intro unat_sub) (simp add: word_le_nat_alt)
    then have lt': "unat (len t') = max (fin_of tail) (fin_of r) - unat (offset tail)"
      using um by (simp add: t'_def)
    then have ft': "fin_of t' = max (fin_of tail) (fin_of r)"
      using pos by (simp add: fin_of_def t'_def)
    have "fits t'" using ft' ft fr by (simp add: fits_def)
    moreover have "len t' \<noteq> 0" using lt' pos by (metis unat_0 less_max_iff_disj zero_less_diff less_irrefl)
    moreover have off: "offset t' = offset tail" by (simp add: t'_def)
    ultimately obtain out where out: "coalesce_from t' rs = Inr out" "canonical out"
      "cover out = cover (t' # rs)" "\<forall>r\<in>set out. offset t' \<le> offset r"
      "offset ` set out \<subseteq> offset ` set (t' # rs)" "fin_of ` set out \<subseteq> fin_of ` set (t' # rs)"
      using Cons.IH [of t'] Cons.prems by auto
    have "unat (offset r) \<le> fin_of tail" using True ute by (simp add: word_le_nat_alt)
    then have "bytes_of t' = bytes_of tail \<union> bytes_of r"
      using le pos by (auto simp: bytes_of_def ft' off less_max_iff_disj)
    moreover have "fin_of t' \<in> {fin_of tail, fin_of r}" using ft' by (simp add: max_def)
    ultimately show ?thesis using out ft fr True
      by (auto simp: te_def [symmetric] re_def [symmetric] t'_def [symmetric] off)
  next
    case False
    from Cons.IH [OF sr] Cons.prems obtain out where out: "coalesce_from r rs = Inr out" "canonical out"
      "cover out = cover (r # rs)" "\<forall>s\<in>set out. offset r \<le> offset s"
      "offset ` set out \<subseteq> offset ` set (r # rs)" "fin_of ` set out \<subseteq> fin_of ` set (r # rs)"
      by auto
    have "\<forall>s\<in>set out. fin_of tail < unat (offset s)"
      using False ute out(4) by (force simp: word_le_nat_alt)
    then show ?thesis using out ft fr lt le False
      by (auto simp: te_def [symmetric] re_def [symmetric] word_le_nat_alt)
  qed
qed


lemma canonical_unique_fin: "canonical rs \<Longrightarrow> r \<in> set rs \<Longrightarrow> unat (offset r) < fin_of r"
  by (auto simp: canonical_def fin_of_def unat_gt_0)

lemma coalesce_sorted:
  assumes "\<forall>r\<in>set rs. fits r \<and> len r \<noteq> 0"
  shows "\<exists>out. coalesce (sort rs) = Inr out \<and> canonical out \<and> cover out = cover rs
    \<and> offset ` set out \<subseteq> offset ` set rs \<and> fin_of ` set out \<subseteq> fin_of ` set rs"
proof (cases "sort rs")
  case Nil
  then have "rs = []" by (metis set_empty set_sort)
  then show ?thesis by (simp add: coalesce_def)
next
  case (Cons t ts)
  have "sorted (t # ts)" by (metis Cons sorted_sort)
  then have "sorted_wrt (\<lambda>a b. offset a \<le> offset b) (t # ts)"
    by (rule sorted_wrt_mono_rel [rotated]) (auto simp: less_eq_byte_range_def)
  moreover have st: "set (t # ts) = set rs" by (metis Cons set_sort)
  moreover have "\<forall>r\<in>set (t # ts). fits r \<and> len r \<noteq> 0" using assms by (simp only: st)
  ultimately obtain out where "coalesce_from t ts = Inr out" "canonical out"
    "cover out = cover (t # ts)" "offset ` set out \<subseteq> offset ` set (t # ts)"
    "fin_of ` set out \<subseteq> fin_of ` set (t # ts)"
    using coalesce_from_ok [of t ts] by blast
  moreover from st have "cover (t # ts) = cover rs" unfolding cover_def by (rule arg_cong)
  ultimately show ?thesis unfolding coalesce_def Cons list.case st by metis
qed

lemma page_closure_Union: "page_closure p m (\<Union>i\<in>I. B i) = (\<Union>i\<in>I. page_closure p m (B i))"
  by (auto simp: page_closure_def)

lemma page_align_in_file:
  assumes m: "m \<noteq> 0" and p: "is_power_of_two p" and rs: "\<forall>r\<in>set rs. in_file m r"
  shows "\<exists>out. page_align_and_coalesce rs m p = Inr out \<and> canonical out
    \<and> cover out = page_closure (unat p) (unat m) (cover rs)
    \<and> (\<forall>r\<in>set out. unat p dvd unat (offset r) \<and> (unat p dvd fin_of r \<or> fin_of r = unat m))"
proof -
  obtain k where P: "unat p = 2 ^ k"
    using p power_of_two_wordE [of p] by (auto simp: is_power_of_two_def)
  define f where "f r = projr (align_range m p r)" for r
  have f: "align_range m p r = Inr (f r) \<and> unat p dvd unat (offset (f r))
      \<and> fin_of (f r) = min (unat m) (round_up (unat p) (fin_of r)) \<and> fits (f r) \<and> len (f r) \<noteq> 0"
    if "r \<in> set rs" for r
    using align_range_in_file [OF bspec [OF rs that] P] by (metis dvd_triv_right f_def sum.sel(2))
  then have "mapE (align_range m p) rs = Inr (map f rs)" by (intro mapE_total) auto
  moreover obtain out where out: "coalesce (sort (map f rs)) = Inr out" "canonical out"
    "cover out = cover (map f rs)" "offset ` set out \<subseteq> offset ` set (map f rs)"
    "fin_of ` set out \<subseteq> fin_of ` set (map f rs)"
    using coalesce_sorted [of "map f rs"] f by auto
  moreover have "cover (map f rs) = page_closure (unat p) (unat m) (cover rs)"
  proof -
    have "bytes_of (f r) = page_closure (unat p) (unat m) (bytes_of r)" if "r \<in> set rs" for r
      using align_range_bytes [OF _ P] f [OF that] rs that by blast
    then show ?thesis by (simp add: cover_def page_closure_Union)
  qed
  moreover have "unat p dvd unat (offset r) \<and> (unat p dvd fin_of r \<or> fin_of r = unat m)"
    if r: "r \<in> set out" for r
  proof -
    obtain r1 where r1: "r1 \<in> set rs" "offset r = offset (f r1)" using out(4) r by force
    obtain r2 where r2: "r2 \<in> set rs" "fin_of r = fin_of (f r2)" using out(5) r by force
    have "unat p dvd round_up (unat p) n" for n by (simp add: round_up_def)
    then show ?thesis using f [OF r1(1)] f [OF r2(1)] r1 r2 by (metis min_def)
  qed
  ultimately show ?thesis
    using m p by (simp add: page_align_and_coalesce_def is_power_of_two_def)
qed

lemma page_align_Inr:
  "page_align_and_coalesce rs m p = Inr out \<Longrightarrow>
     m \<noteq> 0 \<and> is_power_of_two p \<and> (\<forall>r\<in>set rs. in_file m r)"
  by (auto simp: page_align_and_coalesce_def is_power_of_two_def throwing split: if_splits
      dest!: mapE_Inr_each align_range_Inr)

lemma page_align_total:
  "(\<exists>out. page_align_and_coalesce rs m p = Inr out) \<longleftrightarrow>
     m \<noteq> 0 \<and> is_power_of_two p \<and> (\<forall>r\<in>set rs. in_file m r)"
  using page_align_Inr page_align_in_file by metis


subsection \<open>Subtraction\<close>

lemma subtract_guards_ok:
  assumes "canonical guards" and "cursor \<le> fin"
  shows "\<exists>c pieces. subtract_guards guards cursor fin out = Inr (c, out @ pieces) \<and> cursor \<le> c
    \<and> cover pieces \<union> {unat c ..< unat fin} = {unat cursor ..< unat fin} - cover guards
    \<and> canonical pieces
    \<and> (\<forall>q\<in>set pieces. cursor \<le> offset q \<and> fin_of q < unat c \<and> fin_of q \<le> unat fin)"
  using assms
proof (induction guards arbitrary: cursor out)
  case Nil
  then show ?case by auto
next
  case (Cons g gs)
  have fg: "fits g" and lg: "len g \<noteq> 0" and gs: "canonical gs"
    and after: "\<forall>s\<in>set gs. fin_of g < unat (offset s)"
    using Cons.prems by auto
  define ge where "ge = offset g + len g"
  have uge: "unat ge = fin_of g" using fg by (simp add: ge_def unat_end)
  have og: "unat (offset g) < fin_of g" using lg by (simp add: fin_of_def unat_gt_0)
  have bg: "bytes_of g = {unat (offset g) ..< fin_of g}" by (simp add: bytes_of_def)
  have later: "cover gs \<inter> {..< fin_of g} = {}"
    using after by (fastforce simp: cover_def bytes_of_def)
  consider "ge \<le> cursor" | "cursor < ge" "offset g \<ge> fin" | "cursor < ge" "offset g < fin"
    by (meson not_le)
  then show ?case
  proof cases
    case 1
    then have "bytes_of g \<inter> {unat cursor ..< unat fin} = {}"
      by (auto simp: bg uge [symmetric] word_le_nat_alt)
    then show ?thesis
      using Cons.IH [OF gs Cons.prems(2), of out] fg 1 by (auto simp: ge_def)
  next
    case 2
    then have "cover (g # gs) \<inter> {unat cursor ..< unat fin} = {}"
      using later og by (fastforce simp: bg word_le_nat_alt)
    then show ?thesis using fg 2 by (auto simp: ge_def not_le)
  next
    case 3
    define out' where "out' = (if offset g > cursor then out @ [ByteRange cursor (offset g - cursor)] else out)"
    define c' where "c' = max cursor ge"
    have c': "c' = ge" using 3 by (simp add: c'_def)
    define ps where "ps = (if offset g > cursor then [ByteRange cursor (offset g - cursor)] else [])"
    have out': "out' = out @ ps" by (simp add: out'_def ps_def)
    have fp: "fin_of q = unat (offset g) \<and> offset q = cursor" if "q \<in> set ps" for q
      using that by (auto simp: ps_def fin_of_def unat_sub word_le_nat_alt word_less_nat_alt split: if_splits)
    have cp: "cover ps = {unat cursor ..< unat (offset g)}"
      by (auto simp: ps_def bytes_of_def fin_of_def unat_sub word_le_nat_alt word_less_nat_alt)
    have canp: "canonical ps"
      using fp unat_less_u64 [of "offset g"] by (auto simp: ps_def fits_def)
    have step: "subtract_guards (g # gs) cursor fin out =
        (if ge \<ge> fin then Inr (ge, out @ ps) else subtract_guards gs ge fin (out @ ps))"
    proof -
      have no: "(ge \<le> cursor) = False" "(fin \<le> offset g) = False" using 3 by auto
      show ?thesis using fg c' out'
        by (simp add: ge_def [symmetric] out'_def [symmetric] c'_def [symmetric] no Let_def)
    qed
    show ?thesis
    proof (cases "ge \<ge> fin")
      case True
      then have "{unat cursor ..< unat fin} - cover (g # gs) = cover ps"
        using later uge og 3 by (auto simp: cp bg word_le_nat_alt word_less_nat_alt)
      then show ?thesis using True step 3 canp fp og uge
        by (intro exI [of _ ge] exI [of _ ps]) (auto simp: word_le_nat_alt word_less_nat_alt)
    next
      case False
      then have le: "ge \<le> fin" by simp
      obtain c pieces where IH: "subtract_guards gs ge fin (out @ ps) = Inr (c, (out @ ps) @ pieces)"
        "ge \<le> c" "cover pieces \<union> {unat c ..< unat fin} = {unat ge ..< unat fin} - cover gs"
        "canonical pieces" "\<forall>q\<in>set pieces. ge \<le> offset q \<and> fin_of q < unat c \<and> fin_of q \<le> unat fin"
        using Cons.IH [OF gs le, of "out @ ps"] by blast
      have "{unat cursor ..< unat fin} - cover (g # gs) = cover ps \<union> ({unat ge ..< unat fin} - cover gs)"
        using later uge og 3 le by (auto simp: cp bg word_le_nat_alt word_less_nat_alt)
      moreover have "canonical (ps @ pieces)"
        using canp IH(4,5) fp og uge
        by (fastforce simp: canonical_def sorted_wrt_append word_le_nat_alt)
      moreover have "\<forall>q\<in>set (ps @ pieces). cursor \<le> offset q \<and> fin_of q < unat c \<and> fin_of q \<le> unat fin"
        using IH(2,5) fp og uge 3 by (fastforce simp: word_le_nat_alt word_less_nat_alt)
      ultimately show ?thesis using step False IH(1,2,3) 3
        by (intro exI [of _ c] exI [of _ "ps @ pieces"]) auto
    qed
  qed
qed


lemma subtract_ranges_ok:
  assumes guards: "canonical guards" and src: "canonical source"
  shows "\<exists>out. subtract_ranges source guards = Inr out \<and> canonical out
    \<and> cover out = cover source - cover guards"
proof -
  let ?step = "\<lambda>item out. bindE (checked_add (offset item) (len item) ''subtract source'') (\<lambda>fin.
       bindE (subtract_guards guards (offset item) fin out) (\<lambda>(cursor, out').
         Inr (if cursor < fin then out' @ [ByteRange cursor (fin - cursor)] else out')))"
  have "\<exists>out. foldE ?step source acc = Inr (acc @ out) \<and> canonical out
      \<and> cover out = cover source - cover guards
      \<and> (\<forall>q\<in>set out. \<exists>r\<in>set source. offset r \<le> offset q)" for acc
    using src
  proof (induction source arbitrary: acc)
    case Nil
    then show ?case by simp
  next
    case (Cons r rs)
    have fr: "fits r" and rs: "canonical rs" and after: "\<forall>s\<in>set rs. fin_of r < unat (offset s)"
      using Cons.prems by auto
    define fin where "fin = offset r + len r"
    have uf: "unat fin = fin_of r" using fr by (simp add: fin_def unat_end)
    then have le: "offset r \<le> fin" by (simp add: word_le_nat_alt fin_of_def)
    obtain c ps where g: "subtract_guards guards (offset r) fin acc = Inr (c, acc @ ps)" "offset r \<le> c"
      "cover ps \<union> {unat c ..< unat fin} = {unat (offset r) ..< unat fin} - cover guards"
      "canonical ps" "\<forall>q\<in>set ps. offset r \<le> offset q \<and> fin_of q < unat c \<and> fin_of q \<le> unat fin"
      using subtract_guards_ok [OF guards le, of acc] by blast
    define ps' where "ps' = ps @ (if c < fin then [ByteRange c (fin - c)] else [])"
    have cp: "cover ps' = bytes_of r - cover guards"
      using g(3) uf by (auto simp: ps'_def bytes_of_def fin_of_def unat_sub word_le_nat_alt word_less_nat_alt)
    have canp: "canonical ps'"
      using g(4,5) unat_less_u64 [of fin]
      by (auto simp: ps'_def canonical_def sorted_wrt_append fits_def fin_of_def unat_sub
          word_le_nat_alt word_less_nat_alt)
    have bnd: "\<forall>q\<in>set ps'. offset r \<le> offset q \<and> fin_of q \<le> fin_of r"
      using g(2,5) uf by (auto simp: ps'_def fin_of_def unat_sub word_le_nat_alt word_less_nat_alt)
    have step: "?step r acc = Inr (acc @ ps')"
      using fr g(1) by (simp add: fin_def [symmetric] ps'_def)
    obtain out where IH: "foldE ?step rs (acc @ ps') = Inr ((acc @ ps') @ out)" "canonical out"
      "cover out = cover rs - cover guards" "\<forall>q\<in>set out. \<exists>s\<in>set rs. offset s \<le> offset q"
      using Cons.IH [OF rs, of "acc @ ps'"] by blast
    have "fin_of q < unat (offset q')" if "q \<in> set ps'" "q' \<in> set out" for q q'
      using that bnd IH(4) after by (fastforce simp: word_le_nat_alt)
    then have "canonical (ps' @ out)"
      using canp IH(2) by (auto simp: canonical_def sorted_wrt_append)
    moreover have "cover (ps' @ out) = cover (r # rs) - cover guards"
      using cp IH(3) by auto
    moreover have "\<forall>q\<in>set (ps' @ out). \<exists>s\<in>set (r # rs). offset s \<le> offset q"
      using bnd IH(4) by auto
    ultimately show ?case using step IH(1)
      by (intro exI [of _ "ps' @ out"]) simp
  qed
  from this [of "[]"] show ?thesis by (auto simp: subtract_ranges_def)
qed

subsection \<open>Counting\<close>

lemma finite_cover [simp]: "finite (cover rs)"
  by (simp add: cover_def bytes_of_def)

lemma cover_below: "\<forall>r\<in>set rs. fits r \<Longrightarrow> cover rs \<subseteq> {..< 2 ^ 64 - 1}"
  by (auto simp: cover_def bytes_of_def fits_def)

lemma card_cover_Cons:
  assumes "canonical (r # rs)"
  shows "card (cover (r # rs)) = unat (len r) + card (cover rs)"
proof -
  have "bytes_of r \<inter> cover rs = {}"
    using assms by (fastforce simp: cover_def bytes_of_def)
  moreover have "card (bytes_of r) = unat (len r)" by (simp add: bytes_of_def fin_of_def)
  ultimately show ?thesis
    by (simp add: card_Un_disjoint) (simp add: bytes_of_def card_Un_disjoint)
qed

lemma byte_count_canonical:
  assumes "canonical rs"
  shows "\<exists>n. byte_count rs = Inr n \<and> unat n = card (cover rs)"
proof -
  let ?add = "\<lambda>br bytes. checked_add bytes (len br) ''byte count''"
  have main: "\<exists>n. foldE ?add rs a = Inr n \<and> unat n = unat a + card (cover rs)"
    if "unat a + card (cover rs) < 2 ^ 64" for a
    using assms that
  proof (induction rs arbitrary: a)
    case Nil
    then show ?case by simp
  next
    case (Cons r rs)
    have c: "card (cover (r # rs)) = unat (len r) + card (cover rs)"
      using Cons.prems(1) by (rule card_cover_Cons)
    then have lt: "unat a + unat (len r) < 2 ^ 64" using Cons.prems(2) by simp
    then have u: "unat (a + len r) = unat a + unat (len r)" by (simp add: unat_add_no_overflow)
    have "?add r a = Inr (a + len r)" using lt by (simp add: throwing)
    moreover have "unat (a + len r) + card (cover rs) < 2 ^ 64"
      using Cons.prems(2) c u by simp
    then obtain n where "foldE ?add rs (a + len r) = Inr n" "unat n = unat (a + len r) + card (cover rs)"
      using Cons.IH [of "a + len r"] Cons.prems(1) by auto
    ultimately show ?case using c u by (auto simp del: cover_Cons)
  qed
  have "card (cover rs) \<le> card {..< (2::nat) ^ 64 - 1}"
    using assms by (intro card_mono cover_below) (auto simp: canonical_def)
  then have "unat (0 :: u64) + card (cover rs) < 2 ^ 64" by simp
  from main [OF this] show ?thesis by (simp add: byte_count_def)
qed


subsection \<open>The rows a request touches\<close>

definition row_bytes :: "nat \<Rightarrow> nat \<Rightarrow> int \<Rightarrow> nat set" where
  "row_bytes base stride tid = {base + nat tid * stride ..< base + nat tid * stride + stride}"

lemma unat_word_of_int_nat: "0 \<le> i \<Longrightarrow> i < 2 ^ 63 \<Longrightarrow> unat (word_of_int i :: u64) = nat i"
  by (simp add: unat_eq_nat_uint uint_word_of_int)

lemma token_row_step_ok:
  assumes tid: "0 \<le> tid" "tid < row_count" "row_count < 2 ^ 63"
    and table: "nat row_count * unat stride \<le> unat nbytes" "unat off + unat nbytes < 2 ^ 64"
    and new: "tid \<notin> set seen"
  shows "\<exists>start. token_row_step off nbytes stride row_count tid (seen, raw)
      = Inr (tid # seen, raw @ [ByteRange start stride])
    \<and> unat start = unat off + nat tid * unat stride
    \<and> unat start + unat stride \<le> unat off + unat nbytes"
proof -
  have ui: "unat (word_of_int tid :: u64) = nat tid" using tid by (intro unat_word_of_int_nat) auto
  have row: "nat tid * unat stride + unat stride \<le> unat nbytes"
  proof -
    have "nat tid * unat stride + unat stride = (nat tid + 1) * unat stride" by simp
    also have "\<dots> \<le> nat row_count * unat stride" using tid by (intro mult_le_mono1) simp
    finally show ?thesis using table by simp
  qed
  define rel where "rel = word_of_int tid * stride"
  have ur: "unat rel = nat tid * unat stride"
    using row unat_less_u64 [of nbytes] ui by (simp add: rel_def unat_word_ariths)
  define start where "start = off + rel"
  have us: "unat start = unat off + nat tid * unat stride"
    using ur row table by (simp add: start_def unat_add_no_overflow)
  have c1: "checked_add off rel s = Inr start" for s
    using ur row table by (simp add: throwing start_def)
  have c2: "checked_add off nbytes s = Inr (off + nbytes)" for s
    using table by (simp add: throwing)
  have c3: "checked_add start stride s = Inr (start + stride)" for s
    using us row table by (simp add: throwing)
  have "unat (start + stride) \<le> unat (off + nbytes)"
    using us row table by (simp add: unat_add_no_overflow)
  then show ?thesis using tid new us row
    by (simp add: token_row_step_def rel_def [symmetric] c1 c2 c3 Let_def word_less_nat_alt)
qed

lemma token_rows_fold:
  assumes ids: "\<forall>tid\<in>set ids. 0 \<le> tid \<and> tid < row_count" and rc: "row_count < 2 ^ 63"
    and table: "nat row_count * unat stride \<le> unat nbytes" "unat off + unat nbytes \<le> unat m"
    and stride: "stride \<noteq> 0"
    and start: "\<forall>r\<in>set raw. in_file m r" "cover raw = (\<Union>tid\<in>set seen. row_bytes (unat off) (unat stride) tid)"
  shows "\<exists>seen' raw'. foldE (token_row_step off nbytes stride row_count) ids (seen, raw) = Inr (seen', raw')
    \<and> (\<forall>r\<in>set raw'. in_file m r)
    \<and> cover raw' = (\<Union>tid\<in>set seen \<union> set ids. row_bytes (unat off) (unat stride) tid)"
  using ids start
proof (induction ids arbitrary: seen raw)
  case Nil
  then show ?case by auto
next
  case (Cons tid ids)
  show ?case
  proof (cases "tid \<in> set seen")
    case True
    then have "token_row_step off nbytes stride row_count tid (seen, raw) = Inr (seen, raw)"
      using Cons.prems(1) by (simp add: token_row_step_def)
    moreover have "set seen \<union> set (tid # ids) = set seen \<union> set ids" using True by auto
    ultimately show ?thesis using Cons.IH [of raw seen] Cons.prems by simp
  next
    case False
    have lim: "unat off + unat nbytes < 2 ^ 64"
      using table(2) unat_less_u64 [of m] by linarith
    obtain s where s: "token_row_step off nbytes stride row_count tid (seen, raw)
        = Inr (tid # seen, raw @ [ByteRange s stride])"
      "unat s = unat off + nat tid * unat stride" "unat s + unat stride \<le> unat off + unat nbytes"
      using token_row_step_ok [of tid row_count stride nbytes off seen raw] Cons.prems(1) rc table(1) lim False
      by auto
    have "in_file m (ByteRange s stride)"
      using s(3) table(2) stride by (simp add: in_file_def fin_of_def)
    moreover have "bytes_of (ByteRange s stride) = row_bytes (unat off) (unat stride) tid"
      using s(2) by (simp add: bytes_of_def row_bytes_def fin_of_def)
    moreover have "set (tid # seen) \<union> set ids = set seen \<union> set (tid # ids)" by auto
    ultimately show ?thesis
      using Cons.IH [of "raw @ [ByteRange s stride]" "tid # seen"] Cons.prems s(1) by auto
  qed
qed

lemma token_rows_reject:
  fixes stride nbytes off m :: u64
  assumes ids: "\<exists>tid\<in>set ids. tid < 0 \<or> row_count \<le> tid" and rc: "row_count < 2 ^ 63"
    and table: "nat row_count * unat stride \<le> unat nbytes" "unat off + unat nbytes \<le> unat m"
    and stride: "stride \<noteq> 0"
  shows "foldE (token_row_step off nbytes stride row_count) ids ([], []) = Inl TokenIdOutsideTable"
proof -
  obtain good bad rest where ids': "ids = good @ bad # rest" "bad < 0 \<or> row_count \<le> bad"
    "\<forall>tid\<in>set good. \<not> (tid < 0 \<or> row_count \<le> tid)"
    using split_list_first_prop [OF ids] by blast
  obtain seen raw where "foldE (token_row_step off nbytes stride row_count) good ([], []) = Inr (seen, raw)"
    using token_rows_fold [of good row_count stride nbytes off m "[]" "[]"] ids'(3) rc table stride
    by (auto simp: not_less not_le)
  moreover have "token_row_step off nbytes stride row_count bad (seen, raw) = Inl TokenIdOutsideTable"
    using ids'(2) by (auto simp: token_row_step_def)
  ultimately show ?thesis by (simp add: ids'(1) foldE_append)
qed

lemma token_stride_ok:
  fixes stride nbytes :: u64
  assumes "nat row_count * unat stride \<le> unat nbytes" "0 < row_count" "row_count < 2 ^ 63" "stride \<noteq> 0"
  shows "\<not> (word_of_int row_count > nbytes div stride \<or> word_of_int row_count * stride > nbytes)"
proof -
  have r: "unat (word_of_int row_count :: u64) = nat row_count"
    using assms by (intro unat_word_of_int_nat) auto
  have "unat (word_of_int row_count * stride) = nat row_count * unat stride"
    using assms(1) unat_less_u64 [of nbytes] by (simp add: unat_word_ariths r)
  moreover have "nat row_count \<le> unat nbytes div unat stride"
    using assms by (simp add: less_eq_div_iff_mult_less_eq unat_gt_0)
  ultimately show ?thesis using assms(1) by (simp add: not_less word_le_nat_alt unat_div r)
qed

subsection \<open>The planner as the interface of the residency coordinator\<close>

text \<open>
  The geometry of a mapping is its size and page size. Ranges are planned for it when each lies
  in the file, begins on a page boundary and ends on one or at the end of the mapping.
\<close>

definition planner_geometry :: "u64 \<times> u64 \<Rightarrow> bool" where
  "planner_geometry = (\<lambda>(m, p). m \<noteq> 0 \<and> is_power_of_two p)"

definition planned_ranges :: "u64 \<times> u64 \<Rightarrow> byte_range list \<Rightarrow> bool" where
  "planned_ranges = (\<lambda>(m, p) rs. \<forall>r\<in>set rs. in_file m r \<and> unat p dvd unat (offset r)
     \<and> (unat p dvd fin_of r \<or> fin_of r = unat m))"

lemma planned_ranges_append [simp]:
  "planned_ranges g (rs @ ss) \<longleftrightarrow> planned_ranges g rs \<and> planned_ranges g ss"
  by (cases g) (auto simp: planned_ranges_def)

lemma planned_ranges_Nil [simp]: "planned_ranges g []"
  by (cases g) (simp add: planned_ranges_def)

lemma planned_ranges_concat [simp]:
  "planned_ranges g (concat rss) \<longleftrightarrow> (\<forall>rs\<in>set rss. planned_ranges g rs)"
  by (induction rss) auto

lemma same_page_dvd:
  fixes p x b :: nat
  assumes "0 < p" "x div p = b div p"
  shows "p dvd lo \<Longrightarrow> lo \<le> x \<Longrightarrow> lo \<le> b" and "p dvd hi \<Longrightarrow> x < hi \<Longrightarrow> b < hi"
proof -
  show "lo \<le> b" if "p dvd lo" "lo \<le> x"
  proof -
    define k where "k = lo div p"
    have k: "lo = k * p" using that(1) by (simp add: k_def)
    then have "k \<le> x div p" using that(2) assms(1) by (simp add: less_eq_div_iff_mult_less_eq)
    then show ?thesis using k assms by (simp add: less_eq_div_iff_mult_less_eq)
  qed
  show "b < hi" if "p dvd hi" "x < hi"
  proof -
    define k where "k = hi div p"
    have k: "hi = k * p" using that(1) by (simp add: k_def)
    then have "x div p < k" using that(2) assms(1) by (simp add: div_less_iff_less_mult)
    then show ?thesis using k assms by (simp add: div_less_iff_less_mult)
  qed
qed

lemma page_closure_planned:
  assumes "planner_geometry (m, p)" and "planned_ranges (m, p) rs"
  shows "page_closure (unat p) (unat m) (cover rs) = cover rs"
proof
  have p: "0 < unat p" using assms(1) by (simp add: planner_geometry_def is_power_of_two_def unat_gt_0)
  show "page_closure (unat p) (unat m) (cover rs) \<subseteq> cover rs"
  proof
    fix b assume "b \<in> page_closure (unat p) (unat m) (cover rs)"
    then obtain x r where b: "b < unat m" "x div unat p = b div unat p" "r \<in> set rs" "x \<in> bytes_of r"
      by (auto simp: page_closure_def cover_def)
    then have "unat p dvd unat (offset r)" "unat p dvd fin_of r \<or> fin_of r = unat m"
      using assms(2) by (auto simp: planned_ranges_def)
    moreover have "unat (offset r) \<le> x" "x < fin_of r" using b(4) by (auto simp: bytes_of_def)
    ultimately have "unat (offset r) \<le> b" "b < fin_of r"
      using same_page_dvd(1) [OF p b(2)] same_page_dvd(2) [OF p b(2)] b(1) by (blast, metis)
    then have "b \<in> bytes_of r" by (simp add: bytes_of_def)
    then show "b \<in> cover rs" using b(3) by (auto simp: cover_def)
  qed
  show "cover rs \<subseteq> page_closure (unat p) (unat m) (cover rs)"
  proof
    fix b assume b: "b \<in> cover rs"
    then obtain r where "r \<in> set rs" "b \<in> bytes_of r" by (auto simp: cover_def)
    moreover have "in_file m r" using \<open>r \<in> set rs\<close> assms(2) by (auto simp: planned_ranges_def)
    ultimately have "b < unat m" by (auto simp: bytes_of_def in_file_def)
    with b show "b \<in> page_closure (unat p) (unat m) (cover rs)" by (auto simp: page_closure_def)
  qed
qed

lemma cover_in_file: "(\<forall>r\<in>set rs. in_file m r) \<longleftrightarrow> (\<forall>r\<in>set rs. len r \<noteq> 0) \<and> cover rs \<subseteq> {..< unat m}"
proof
  assume "(\<forall>r\<in>set rs. len r \<noteq> 0) \<and> cover rs \<subseteq> {..< unat m}"
  then have h: "len r \<noteq> 0" "bytes_of r \<subseteq> {..< unat m}" if "r \<in> set rs" for r
    using that by (auto simp: cover_def)
  show "\<forall>r\<in>set rs. in_file m r"
  proof
    fix r assume r: "r \<in> set rs"
    then have "0 < unat (len r)" using h(1) by (simp add: unat_gt_0)
    then have "fin_of r - 1 \<in> bytes_of r" by (simp add: bytes_of_def fin_of_def)
    then have "fin_of r - 1 < unat m" using h(2) [OF r] by blast
    then show "in_file m r" using h(1) [OF r] by (simp add: in_file_def)
  qed
qed (auto simp: cover_def in_file_def bytes_of_def)

lemma planned_if_page_align:
  assumes "page_align_and_coalesce rs m p = Inr out"
  shows "planner_geometry (m, p)" "planned_ranges (m, p) out" "canonical out"
    "cover out = page_closure (unat p) (unat m) (cover rs)"
proof -
  have g: "m \<noteq> 0" "is_power_of_two p" "\<forall>r\<in>set rs. in_file m r"
    using page_align_Inr [OF assms] by auto
  from page_align_in_file [OF g] assms
  have out: "canonical out" "cover out = page_closure (unat p) (unat m) (cover rs)"
    "\<forall>r\<in>set out. unat p dvd unat (offset r) \<and> (unat p dvd fin_of r \<or> fin_of r = unat m)" by auto
  then have "\<forall>r\<in>set out. in_file m r"
    unfolding cover_in_file by (auto simp: canonical_def page_closure_def)
  with out g show "planner_geometry (m, p)" "planned_ranges (m, p) out" "canonical out"
    "cover out = page_closure (unat p) (unat m) (cover rs)"
    by (auto simp: planner_geometry_def planned_ranges_def)
qed

interpretation planner: lease_planner "\<lambda>(m, p) rs. page_align_and_coalesce rs m p" subtract_ranges
  cover planner_geometry planned_ranges canonical
proof unfold_locales
  fix g :: "u64 \<times> u64" and rs assume h: "planner_geometry g" "planned_ranges g rs"
  obtain m p where g: "g = (m, p)" by fastforce
  have "m \<noteq> 0" "is_power_of_two p" "\<forall>r\<in>set rs. in_file m r"
    using h by (auto simp: g planner_geometry_def planned_ranges_def)
  then obtain out where out: "page_align_and_coalesce rs m p = Inr out"
    using page_align_total by blast
  then show "\<exists>out. (case g of (m, p) \<Rightarrow> \<lambda>rs. page_align_and_coalesce rs m p) rs = Inr out
      \<and> planned_ranges g out \<and> canonical out \<and> cover out = cover rs"
    using planned_if_page_align [OF out] page_closure_planned [of m p rs] h by (simp add: g)
qed (auto intro: subtract_ranges_ok)

lemma page_count_canonical:
  assumes "canonical rs"
  shows "\<exists>n. page_count rs p = Inr n"
proof -
  let ?add = "\<lambda>br pages. let range_pages = len br div p + (if len br mod p = 0 then 0 else 1)
       in checked_add pages range_pages ''page count''"
  have pages: "unat (l div p + (if l mod p = 0 then 0 else 1)) \<le> unat l" if "l \<noteq> 0" for l :: u64
  proof (cases "p = 0 \<or> p = 1")
    case True
    then show ?thesis using that by (auto simp: Suc_leI unat_gt_0 word_div_def word_mod_def)
  next
    case False
    then have "unat p \<noteq> 0" "unat p \<noteq> 1" by (simp_all only: word_unat_eq_iff unat_0 unat_1 de_Morgan_disj simp_thms)
    then have p: "2 \<le> unat p" by linarith
    have l: "1 \<le> unat l" using that by (simp add: Suc_leI unat_gt_0)
    have "unat l div unat p \<le> unat l div 2" using p by (intro div_le_mono2) auto
    then have "unat l div unat p + 1 \<le> unat l \<or> unat l = 1" using l by linarith
    moreover have "unat (l div p + 1) = unat l div unat p + 1" if "unat l div unat p + 1 \<le> unat l"
      using that unat_less_u64 [of l] by (simp add: unat_word_ariths unat_div)
    moreover have "l div p = 0" if "unat l = 1"
      using that p by (simp add: unat_eq_0 [symmetric] unat_div)
    ultimately show ?thesis using l by (auto simp: unat_div)
  qed
  have main: "\<exists>n. foldE ?add rs a = Inr n" if "unat a + card (cover rs) < 2 ^ 64" for a
    using assms that
  proof (induction rs arbitrary: a)
    case (Cons r rs)
    have c: "card (cover (r # rs)) = unat (len r) + card (cover rs)"
      using Cons.prems(1) by (rule card_cover_Cons)
    define q where "q = len r div p + (if len r mod p = 0 then 0 else 1)"
    have q: "unat q \<le> unat (len r)" using pages [of "len r"] Cons.prems(1) by (simp add: q_def)
    then have lt: "unat a + unat q < 2 ^ 64" using Cons.prems(2) c by simp
    then have "?add r a = Inr (a + q)" by (simp add: throwing q_def)
    moreover have "unat (a + q) + card (cover rs) < 2 ^ 64"
      using Cons.prems(2) c q lt by (simp add: unat_add_no_overflow)
    ultimately show ?case using Cons.IH [of "a + q"] Cons.prems(1) by auto
  qed simp
  have "card (cover rs) \<le> card {..< (2::nat) ^ 64 - 1}"
    using assms by (intro card_mono cover_below) (auto simp: canonical_def)
  then have "unat (0 :: u64) + card (cover rs) < 2 ^ 64" by simp
  from main [OF this] show ?thesis unfolding page_count_def .
qed

subsection \<open>What the planner promises\<close>

text \<open>
  C14: page alignment and coalescing. \<open>page_align_and_coalesce\<close> succeeds exactly on a mapping of
  non-zero size, a power-of-two page size and non-empty ranges that lie inside the mapping; its
  result then covers exactly the bytes of the mapping that share a page with a requested byte,
  as non-empty ranges in increasing order of which no two touch, each beginning on a page
  boundary and ending on one or at the end of the mapping.
\<close>

theorem page_align_correct:
  "case page_align_and_coalesce ranges mapping_size page_size of
     Inl _ \<Rightarrow> mapping_size = 0 \<or> \<not> is_power_of_two page_size \<or> (\<exists>r\<in>set ranges. \<not> in_file mapping_size r)
   | Inr out \<Rightarrow> mapping_size \<noteq> 0 \<and> is_power_of_two page_size \<and> (\<forall>r\<in>set ranges. in_file mapping_size r)
       \<and> canonical out
       \<and> cover out = page_closure (unat page_size) (unat mapping_size) (cover ranges)
       \<and> (\<forall>r\<in>set out. unat page_size dvd unat (offset r)
            \<and> (unat page_size dvd fin_of r \<or> fin_of r = unat mapping_size))"
proof (cases "page_align_and_coalesce ranges mapping_size page_size")
  case (Inl e)
  then show ?thesis using page_align_total [of ranges mapping_size page_size] by auto
next
  case (Inr out)
  from page_align_Inr [OF this] Inr show ?thesis
    using page_align_in_file [of mapping_size page_size ranges] by fastforce
qed

theorem page_align_correct_witness:
  "page_align_and_coalesce [ByteRange 9000 10, ByteRange 100 50] 10000 4096
     = Inr [ByteRange 0 4096, ByteRange 8192 1808]
   \<and> canonical [ByteRange 0 4096, ByteRange 8192 1808]"
proof -
  have "page_align_and_coalesce [ByteRange 9000 10, ByteRange 100 50] 10000 4096
     = Inr [ByteRange 0 4096, ByteRange 8192 1808]" by code_simp
  then show ?thesis
    using page_align_correct [where ranges = "[ByteRange 9000 10, ByteRange 100 50]"
      and mapping_size = 10000 and page_size = 4096] by simp
qed

text \<open>
  C15: subtraction of protected ranges. For a source and guards in the planner's form,
  \<open>subtract_ranges\<close> never overflows and returns, again in that form, exactly the bytes of the
  source that no guard covers; \<open>byte_count\<close> of the result is the number of those bytes.
\<close>

theorem subtract_ranges_exact:
  assumes "canonical source" and "canonical protected_ranges"
  shows "\<exists>out n. subtract_ranges source protected_ranges = Inr out \<and> canonical out
    \<and> cover out = cover source - cover protected_ranges
    \<and> byte_count out = Inr n \<and> unat n = card (cover source - cover protected_ranges)"
proof -
  obtain out where out: "subtract_ranges source protected_ranges = Inr out" "canonical out"
    "cover out = cover source - cover protected_ranges"
    using subtract_ranges_ok [OF assms(2,1)] by blast
  with byte_count_canonical [OF out(2)] show ?thesis by auto
qed

theorem subtract_ranges_exact_witness:
  "subtract_ranges [ByteRange 0 4096, ByteRange 8192 4096] [ByteRange 100 8192]
     = Inr [ByteRange 0 100, ByteRange 8292 3996]
   \<and> cover [ByteRange 0 100, ByteRange 8292 3996]
       = cover [ByteRange 0 4096, ByteRange 8192 4096] - cover [ByteRange 100 8192]"
proof -
  have "subtract_ranges [ByteRange 0 4096, ByteRange 8192 4096] [ByteRange 100 8192]
     = Inr [ByteRange 0 100, ByteRange 8292 3996]" by code_simp
  moreover have "canonical [ByteRange 0 4096, ByteRange 8192 4096]" "canonical [ByteRange 100 8192]"
    by (simp_all add: fits_def fin_of_def)
  ultimately show ?thesis
    using subtract_ranges_exact [of "[ByteRange 0 4096, ByteRange 8192 4096]" "[ByteRange 100 8192]"]
    by (auto simp del: cover_Cons)
qed

text \<open>
  C16: token rows. For a token table that lies inside the mapping and whose rows fit it, the
  plan of a request covers exactly the pages its rows touch; an identifier outside the table
  is refused, whatever the others are.
\<close>

theorem token_row_ranges_exact:
  assumes "0 < row_count" and "row_count < 2 ^ 63" and "row_stride \<noteq> 0"
    and "nat row_count * unat row_stride \<le> unat tensor_nbytes"
    and "unat tensor_offset + unat tensor_nbytes \<le> unat mapping_size"
    and "is_power_of_two page_size" and "token_ids \<noteq> []"
  shows "if \<forall>tid\<in>set token_ids. 0 \<le> tid \<and> tid < row_count
    then \<exists>out. token_row_ranges tensor_offset tensor_nbytes row_stride row_count token_ids
                mapping_size page_size = Inr out
           \<and> canonical out
           \<and> cover out = page_closure (unat page_size) (unat mapping_size)
               (\<Union>tid\<in>set token_ids. row_bytes (unat tensor_offset) (unat row_stride) tid)
    else token_row_ranges tensor_offset tensor_nbytes row_stride row_count token_ids
           mapping_size page_size = Inl TokenIdOutsideTable"
proof -
  let ?fold = "foldE (token_row_step tensor_offset tensor_nbytes row_stride row_count) token_ids ([], [])"
  have guard: "token_row_ranges tensor_offset tensor_nbytes row_stride row_count token_ids mapping_size page_size
      = bindE ?fold (\<lambda>(unique_ids, raw). page_align_and_coalesce raw mapping_size page_size)"
    using assms token_stride_ok [OF assms(4,1,2,3)] by (simp add: token_row_ranges_def Let_def)
  have m: "mapping_size \<noteq> 0"
  proof
    assume "mapping_size = 0"
    then have "nat row_count * unat row_stride = 0" using assms(4,5) by simp
    then show False using assms(1,3) by (simp add: unat_eq_0)
  qed
  show ?thesis
  proof (cases "\<forall>tid\<in>set token_ids. 0 \<le> tid \<and> tid < row_count")
    case True
    obtain seen raw where "?fold = Inr (seen, raw)" "\<forall>r\<in>set raw. in_file mapping_size r"
      "cover raw = (\<Union>tid\<in>set token_ids. row_bytes (unat tensor_offset) (unat row_stride) tid)"
      using token_rows_fold [of token_ids row_count row_stride tensor_nbytes tensor_offset mapping_size "[]" "[]"]
        True assms by auto
    then show ?thesis using True guard page_align_in_file [OF m assms(6)] by fastforce
  next
    case False
    then have "\<exists>tid\<in>set token_ids. tid < 0 \<or> row_count \<le> tid" by force
    from token_rows_reject [OF this assms(2,4,5,3)] False guard show ?thesis by simp
  qed
qed

theorem token_row_ranges_exact_witness:
  "token_row_ranges 5000 1000 100 10 [3, 0, 3] 20000 4096 = Inr [ByteRange 4096 4096]
   \<and> token_row_ranges 5000 1000 100 10 [3, 10] 20000 4096 = Inl TokenIdOutsideTable"
proof -
  have "is_power_of_two (4096 :: u64)" by (simp add: is_power_of_two_def)
  then have "token_row_ranges 5000 1000 100 10 [3, 10] 20000 4096 = Inl TokenIdOutsideTable"
    using token_row_ranges_exact [where row_count = 10 and row_stride = 100 and tensor_nbytes = 1000
      and tensor_offset = 5000 and mapping_size = 20000 and page_size = 4096 and token_ids = "[3, 10]"]
    by simp
  moreover have "token_row_ranges 5000 1000 100 10 [3, 0, 3] 20000 4096 = Inr [ByteRange 4096 4096]"
    by code_simp
  ultimately show ?thesis by simp
qed

end
