(* ===== verification/Partition.thy ===== *)
theory Partition
  imports Prelude
begin

text \<open>
  How the streaming runner cuts a layer into graphs: \<open>partition_runs\<close> chooses the lengths of
  the contiguous runs of units for a preset, \<open>resolve_group_slots\<close> computes what each run
  exchanges with the rest (\<open>src/streaming_execution.cpp\<close>). The abstract contract is that
  executing the runs one after another, passing on only the declared slots, computes what
  executing the units one after another computes; \<open>run_units\<close> and \<open>run_groups\<close> below are that
  specification.
\<close>

subsection \<open>The data\<close>

type_synonym slot_id = "16 word"

text \<open>\<open>StreamingStage\<close>, \<open>UnitSlots\<close> and \<open>GroupSlots\<close>.\<close>

datatype streaming_stage = StageAttention | StageFfn | StageOther

record unit_slots =
  unit_inputs :: "slot_id list"
  unit_outputs :: "slot_id list"

record group_slots =
  group_inputs :: "slot_id list"
  group_outputs :: "slot_id list"

datatype partition_error =
    EmptyRun
  | RunLengthOverflow
  | RunsDoNotCover
  | GroupProducesNothing
  | UnitCountsDisagree
  | NoUnits
  | BudgetNeedsByteCount string
  | BudgetNotPositive
  | UnknownPreset string

subsection \<open>\<open>resolve_group_slots\<close>\<close>

definition push_unique :: "slot_id list \<Rightarrow> slot_id \<Rightarrow> slot_id list" where
  "push_unique out sid = (if sid \<in> set out then out else out @ [sid])"

text \<open>The total of the run lengths, with the two checks of the first loop.\<close>

definition total_run_length :: "nat list \<Rightarrow> partition_error + nat" where
  "total_run_length run_lengths =
     foldE (\<lambda>run_length total.
       if run_length = 0 then Inl EmptyRun
       else if run_length > SIZE_MAX - total then Inl RunLengthOverflow
       else Inr (total + run_length)) run_lengths 0"

text \<open>
  The two loops over one run \<open>[begin, end)\<close>. \<open>run\<close> holds the units of the run and \<open>later\<close> the
  units from \<open>end\<close> on; \<open>produced\<close> are the units of the run already passed.
\<close>

definition run_inputs_unit :: "'u unit_slots_scheme list \<Rightarrow> 'u unit_slots_scheme \<Rightarrow> slot_id list \<Rightarrow> slot_id list" where
  "run_inputs_unit produced u ins =
     foldl (\<lambda>ins sid.
       if \<not> (\<exists>p\<in>set produced. sid \<in> set (unit_outputs p)) then push_unique ins sid else ins)
       ins (unit_inputs u)"

fun run_inputs :: "'u unit_slots_scheme list \<Rightarrow> 'u unit_slots_scheme list \<Rightarrow> slot_id list \<Rightarrow> slot_id list" where
  "run_inputs produced [] ins = ins"
| "run_inputs produced (u # us) ins =
     run_inputs (produced @ [u]) us (run_inputs_unit produced u ins)"

definition run_outputs :: "'u unit_slots_scheme list \<Rightarrow> 'u unit_slots_scheme list \<Rightarrow> slot_id \<Rightarrow> slot_id list" where
  "run_outputs run later layer_output_slot =
     foldl (\<lambda>outs u. foldl (\<lambda>outs sid.
       if sid = layer_output_slot \<or> (\<exists>k\<in>set later. sid \<in> set (unit_inputs k))
       then push_unique outs sid else outs) outs (unit_outputs u)) [] run"

fun resolve_runs ::
  "'u unit_slots_scheme list \<Rightarrow> nat list \<Rightarrow> slot_id \<Rightarrow> partition_error + group_slots list" where
  "resolve_runs units [] layer_output_slot = Inr []"
| "resolve_runs units (run_length # run_lengths) layer_output_slot =
     (let run = take run_length units;
          later = drop run_length units;
          group = \<lparr>group_inputs = run_inputs [] run [],
                   group_outputs = run_outputs run later layer_output_slot\<rparr>
      in if group_outputs group = [] then Inl GroupProducesNothing
         else bindE (resolve_runs later run_lengths layer_output_slot) (\<lambda>groups.
                Inr (group # groups)))"

definition resolve_group_slots ::
  "'u unit_slots_scheme list \<Rightarrow> nat list \<Rightarrow> slot_id \<Rightarrow> partition_error + group_slots list" where
  "resolve_group_slots units run_lengths layer_output_slot =
     bindE (total_run_length run_lengths) (\<lambda>total.
       if total \<noteq> length units then Inl RunsDoNotCover
       else resolve_runs units run_lengths layer_output_slot)"

subsection \<open>\<open>partition_runs\<close>\<close>

text \<open>\<open>++runs.back()\<close>.\<close>

definition bump_back :: "nat list \<Rightarrow> nat list" where
  "bump_back runs = butlast runs @ [last runs + 1]"

definition attn_ffn_step :: "streaming_stage list \<Rightarrow> nat list \<Rightarrow> nat \<Rightarrow> nat list" where
  "attn_ffn_step stages runs i =
     (if stages ! i \<noteq> stages ! (i - 1) then runs @ [1] else bump_back runs)"

definition attn_ffn_runs :: "streaming_stage list \<Rightarrow> nat list" where
  "attn_ffn_runs stages = foldl (attn_ffn_step stages) [1] [1 ..< length stages]"

definition budget_step :: "u64 \<Rightarrow> nat list \<times> u64 \<Rightarrow> u64 \<Rightarrow> nat list \<times> u64" where
  "budget_step budget = (\<lambda>(runs, running) weight.
     if running + weight \<le> budget then (bump_back runs, running + weight)
     else (runs @ [1], weight))"

definition budget_runs :: "u64 \<Rightarrow> u64 list \<Rightarrow> nat list" where
  "budget_runs budget weight_bytes =
     fst (foldl (budget_step budget) ([1], hd weight_bytes) (tl weight_bytes))"

text \<open>\<open>strtoull\<close> of a string of decimal digits: the value, or the largest one on overflow.\<close>

definition digit_value :: "char \<Rightarrow> nat" where
  "digit_value c = of_char c - of_char (CHR ''0'')"

definition is_digit :: "char \<Rightarrow> bool" where
  "is_digit c \<longleftrightarrow> c \<in> set ''0123456789''"

definition strtoull :: "string \<Rightarrow> u64" where
  "strtoull digits =
     word_of_nat (min (foldl (\<lambda>n c. 10 * n + digit_value c) 0 digits) (2 ^ 64 - 1))"

definition budget_prefix :: string where
  "budget_prefix = ''budget:''"

definition partition_runs ::
  "u64 list \<Rightarrow> streaming_stage list \<Rightarrow> string \<Rightarrow> partition_error + nat list" where
  "partition_runs weight_bytes stages preset =
     (if length weight_bytes \<noteq> length stages then Inl UnitCountsDisagree
      else if weight_bytes = [] then Inl NoUnits
      else if preset = ''layer'' then Inr [length weight_bytes]
      else if preset = ''unit'' then Inr (replicate (length weight_bytes) 1)
      else if preset = ''attn-ffn'' then Inr (attn_ffn_runs stages)
      else if take (length budget_prefix) preset = budget_prefix then
        (let digits = drop (length budget_prefix) preset in
         if digits = [] \<or> \<not> list_all is_digit digits then Inl (BudgetNeedsByteCount preset)
         else (let budget = strtoull digits in
               if budget = 0 then Inl BudgetNotPositive
               else Inr (budget_runs budget weight_bytes)))
      else Inl (UnknownPreset preset))"

subsection \<open>The specification: executing units and executing groups\<close>

text \<open>
  A store gives each slot its value, if any. A unit computes from the slots it declares as
  inputs the slots it declares as outputs; \<open>compute u\<close> stands for its graph. A group starts
  from its declared inputs alone, runs its units, and hands on its declared outputs alone.
\<close>

type_synonym 'v store = "slot_id \<Rightarrow> 'v option"
type_synonym ('u, 'v) compute = "'u unit_slots_scheme \<Rightarrow> 'v option list \<Rightarrow> slot_id \<Rightarrow> 'v option"

definition run_unit :: "('u, 'v) compute \<Rightarrow> 'u unit_slots_scheme \<Rightarrow> 'v store \<Rightarrow> 'v store" where
  "run_unit compute u s = (\<lambda>sid. if sid \<in> set (unit_outputs u)
     then compute u (map s (unit_inputs u)) sid else s sid)"

definition run_units :: "('u, 'v) compute \<Rightarrow> 'u unit_slots_scheme list \<Rightarrow> 'v store \<Rightarrow> 'v store" where
  "run_units compute us s = foldl (\<lambda>s u. run_unit compute u s) s us"

definition run_one_group ::
  "('u, 'v) compute \<Rightarrow> 'u unit_slots_scheme list \<Rightarrow> group_slots \<Rightarrow> 'v store \<Rightarrow> 'v store" where
  "run_one_group compute us g s =
     (let local = run_units compute us (\<lambda>sid. if sid \<in> set (group_inputs g) then s sid else None)
      in (\<lambda>sid. if sid \<in> set (group_outputs g) then local sid else s sid))"

fun run_groups ::
  "('u, 'v) compute \<Rightarrow> 'u unit_slots_scheme list \<Rightarrow> nat list \<Rightarrow> group_slots list \<Rightarrow> 'v store \<Rightarrow> 'v store" where
  "run_groups compute us (n # ns) (g # gs) s =
     run_groups compute (drop n us) ns gs (run_one_group compute (take n us) g s)"
| "run_groups compute us ns gs s = s"

text \<open>The slots that still matter before the units \<open>us\<close>: what they read, and the layer's output.\<close>

definition live :: "'u unit_slots_scheme list \<Rightarrow> slot_id \<Rightarrow> slot_id set" where
  "live us layer_output_slot = insert layer_output_slot (\<Union>u\<in>set us. set (unit_inputs u))"

text \<open>What a run reads before it wrote it.\<close>

fun reads_first :: "'u unit_slots_scheme list \<Rightarrow> slot_id set" where
  "reads_first [] = {}"
| "reads_first (u # us) = set (unit_inputs u) \<union> (reads_first us - set (unit_outputs u))"

definition writes :: "'u unit_slots_scheme list \<Rightarrow> slot_id set" where
  "writes us = (\<Union>u\<in>set us. set (unit_outputs u))"

lemma writes_simps [simp]: "writes [] = {}" "writes (u # us) = set (unit_outputs u) \<union> writes us"
  by (auto simp: writes_def)

lemma set_push_unique [simp]: "set (push_unique out sid) = insert sid (set out)"
  by (auto simp: push_unique_def)

lemma distinct_push_unique [simp]: "distinct (push_unique out sid) = distinct out"
  by (auto simp: push_unique_def)

lemma foldl_push_unique:
  "set (foldl (\<lambda>ins sid. if P sid then push_unique ins sid else ins) ins xs) = set ins \<union> {x \<in> set xs. P x}"
  "distinct ins \<Longrightarrow> distinct (foldl (\<lambda>ins sid. if P sid then push_unique ins sid else ins) ins xs)"
  by (induction xs arbitrary: ins) auto

lemma run_inputs_unit_set:
  "set (run_inputs_unit produced u ins) = set ins \<union> (set (unit_inputs u) - writes produced)"
  unfolding run_inputs_unit_def foldl_push_unique(1) by (auto simp: writes_def)

lemma run_inputs_set:
  "set (run_inputs produced us ins) = set ins \<union> (reads_first us - writes produced)"
proof (induction us arbitrary: produced ins)
  case Nil
  then show ?case by simp
next
  case (Cons u us)
  have "writes (produced @ [u]) = writes produced \<union> set (unit_outputs u)"
    by (auto simp: writes_def)
  then show ?case by (auto simp: Cons.IH run_inputs_unit_set)
qed

lemma run_inputs_distinct: "distinct ins \<Longrightarrow> distinct (run_inputs produced us ins)"
  by (induction us arbitrary: produced ins)
    (simp_all add: run_inputs_unit_def foldl_push_unique(2))

lemma run_outputs_fold:
  "set (foldl (\<lambda>outs u. foldl (\<lambda>outs sid. if P sid then push_unique outs sid else outs)
       outs (unit_outputs u)) outs us) = set outs \<union> {x \<in> writes us. P x}"
  "distinct outs \<Longrightarrow> distinct (foldl (\<lambda>outs u. foldl (\<lambda>outs sid.
       if P sid then push_unique outs sid else outs) outs (unit_outputs u)) outs us)"
proof (induction us arbitrary: outs)
  case (Cons u us)
  { case 1 show ?case by (simp add: Cons.IH(1) foldl_push_unique(1)) auto }
  { case 2 then show ?case by (simp add: Cons.IH(2) foldl_push_unique(2)) }
qed simp_all

lemma run_outputs_set:
  "set (run_outputs us later out) = writes us \<inter> live later out"
  unfolding run_outputs_def run_outputs_fold(1) by (auto simp: live_def)

lemma run_outputs_distinct: "distinct (run_outputs us later out)"
  unfolding run_outputs_def by (rule run_outputs_fold(2)) simp

subsection \<open>The totals\<close>

lemma total_run_length_fold:
  "foldE (\<lambda>run_length total.
       if run_length = 0 then Inl EmptyRun
       else if run_length > SIZE_MAX - total then Inl RunLengthOverflow
       else Inr (total + run_length)) ns t = Inr n
   \<Longrightarrow> n = t + sum_list ns \<and> 0 \<notin> set ns"
proof (induction ns arbitrary: t)
  case (Cons m ns)
  then have "m \<noteq> 0" by (auto split: if_splits)
  with Cons show ?case by (fastforce simp: throwing split: if_splits)
qed simp

lemma total_run_length_Inr:
  "total_run_length ns = Inr n \<Longrightarrow> n = sum_list ns \<and> 0 \<notin> set ns"
  unfolding total_run_length_def by (drule total_run_length_fold) simp

lemma total_run_length_fold_ok:
  "0 \<notin> set ns \<Longrightarrow> t + sum_list ns \<le> SIZE_MAX \<Longrightarrow>
   foldE (\<lambda>run_length total.
       if run_length = 0 then Inl EmptyRun
       else if run_length > SIZE_MAX - total then Inl RunLengthOverflow
       else Inr (total + run_length)) ns t = Inr (t + sum_list ns)"
  by (induction ns arbitrary: t) auto

lemma total_run_length_ok:
  "0 \<notin> set ns \<Longrightarrow> sum_list ns \<le> SIZE_MAX \<Longrightarrow> total_run_length ns = Inr (sum_list ns)"
  unfolding total_run_length_def by (simp add: total_run_length_fold_ok)

lemma resolve_group_slots_Inr:
  assumes "resolve_group_slots us ns out = Inr gs"
  shows "sum_list ns = length us" "0 \<notin> set ns" "resolve_runs us ns out = Inr gs"
  using assms by (auto simp: resolve_group_slots_def throwing dest: total_run_length_Inr split: if_splits)

subsection \<open>Executing a run\<close>

lemma run_units_Nil [simp]: "run_units c [] s = s"
  by (simp add: run_units_def)

lemma run_units_Cons [simp]: "run_units c (u # us) s = run_units c us (run_unit c u s)"
  by (simp add: run_units_def)

lemma run_units_append: "run_units c (us @ vs) s = run_units c vs (run_units c us s)"
  by (simp add: run_units_def)

lemma run_unit_inputs_cong:
  "(\<And>x. x \<in> set (unit_inputs u) \<Longrightarrow> s x = t x) \<Longrightarrow> x \<in> set (unit_outputs u) \<Longrightarrow>
   run_unit c u s x = run_unit c u t x"
  by (simp add: run_unit_def cong: map_cong)

lemma run_unit_other [simp]: "x \<notin> set (unit_outputs u) \<Longrightarrow> run_unit c u s x = s x"
  by (simp add: run_unit_def)

lemma run_units_other: "x \<notin> writes us \<Longrightarrow> run_units c us s x = s x"
  by (induction us arbitrary: s) auto

text \<open>
  Two stores that agree on what a run reads before writing it agree, after the run, on all it
  wrote and on everything they agreed on before.
\<close>

lemma run_units_agree:
  assumes "\<And>x. x \<in> reads_first us \<union> A \<Longrightarrow> s x = t x" and "x \<in> writes us \<union> A"
  shows "run_units c us s x = run_units c us t x"
  using assms
proof (induction us arbitrary: s t A)
  case (Cons u us)
  have eq: "run_unit c u s y = run_unit c u t y" if "y \<in> reads_first us \<union> (A \<union> set (unit_outputs u))" for y
  proof (cases "y \<in> set (unit_outputs u)")
    case True
    then show ?thesis using Cons.prems(1) by (intro run_unit_inputs_cong) auto
  next
    case False
    then show ?thesis using Cons.prems(1) that by auto
  qed
  have "x \<in> writes us \<union> (A \<union> set (unit_outputs u))" using Cons.prems(2) by auto
  from Cons.IH [OF eq this] show ?case by simp
qed simp

lemma run_one_group_agree:
  assumes agree: "\<And>x. x \<in> live (us @ later) out \<Longrightarrow> s x = t x"
    and ins: "set (group_inputs g) = reads_first us"
    and outs: "set (group_outputs g) = writes us \<inter> live later out"
    and x: "x \<in> live later out"
  shows "run_one_group c us g s x = run_units c us t x"
proof (cases "x \<in> writes us")
  case True
  have sub: "reads_first us \<subseteq> live (us @ later) out"
  proof -
    have "reads_first us \<subseteq> (\<Union>u\<in>set us. set (unit_inputs u))" by (induction us) auto
    then show ?thesis by (auto simp: live_def)
  qed
  have "run_units c us (\<lambda>y. if y \<in> set (group_inputs g) then s y else None) x = run_units c us t x"
    using agree sub ins True by (intro run_units_agree [where A = "{}"]) auto
  then show ?thesis using True outs x by (simp add: run_one_group_def)
next
  case False
  then have "run_one_group c us g s x = s x" using outs by (simp add: run_one_group_def)
  also have "\<dots> = t x" using x by (intro agree) (auto simp: live_def)
  finally show ?thesis using False by (simp add: run_units_other)
qed

lemma resolve_runs_agree:
  assumes "resolve_runs us ns out = Inr gs" and "sum_list ns = length us"
    and "\<And>x. x \<in> live us out \<Longrightarrow> s x = t x"
  shows "run_groups c us ns gs s out = run_units c us t out"
  using assms
proof (induction ns arbitrary: us gs s t)
  case Nil
  then show ?case by (simp add: live_def)
next
  case (Cons n ns)
  let ?run = "take n us" and ?later = "drop n us"
  obtain g gs' where g: "gs = g # gs'" "resolve_runs ?later ns out = Inr gs'"
    "g = \<lparr>group_inputs = run_inputs [] ?run [], group_outputs = run_outputs ?run ?later out\<rparr>"
    using Cons.prems(1) by (auto simp: throwing Let_def split: if_splits)
  have step: "run_one_group c ?run g s x = run_units c ?run t x" if "x \<in> live ?later out" for x
    using that Cons.prems(3)
    by (intro run_one_group_agree [where later = ?later and out = out])
      (auto simp: g(3) run_inputs_set run_outputs_set)
  have "run_groups c us (n # ns) gs s out
      = run_groups c ?later ns gs' (run_one_group c ?run g s) out"
    by (simp add: g(1))
  also have "\<dots> = run_units c ?later (run_units c ?run t) out"
    using Cons.prems(2) by (intro Cons.IH [OF g(2) _ step]) auto
  also have "\<dots> = run_units c us t out"
    by (metis run_units_append append_take_drop_id)
  finally show ?case .
qed

subsection \<open>When slots resolve\<close>

text \<open>A layer in which no unit is idle: each writes something a later unit reads, or the output.\<close>

fun no_idle_unit :: "'u unit_slots_scheme list \<Rightarrow> slot_id \<Rightarrow> bool" where
  "no_idle_unit [] out \<longleftrightarrow> True"
| "no_idle_unit (u # us) out \<longleftrightarrow>
     (\<exists>sid\<in>set (unit_outputs u). sid = out \<or> (\<exists>k\<in>set us. sid \<in> set (unit_inputs k)))
     \<and> no_idle_unit us out"

lemma no_idle_unit_nth:
  "no_idle_unit us out \<longleftrightarrow> (\<forall>i<length us. set (unit_outputs (us ! i)) \<inter> live (drop (Suc i) us) out \<noteq> {})"
proof (induction us)
  case (Cons u us)
  have "(\<forall>i<length (u # us). P i) \<longleftrightarrow> P 0 \<and> (\<forall>i<length us. P (Suc i))" for P
    by (auto simp: less_Suc_eq_0_disj)
  with Cons show ?case by (auto simp: live_def)
qed simp

lemma no_idle_unit_drop: "no_idle_unit us out \<Longrightarrow> no_idle_unit (drop n us) out"
  by (induction us arbitrary: n) (auto simp: drop_Cons split: nat.split)

lemma resolve_runs_ok:
  assumes "no_idle_unit us out" and "sum_list ns = length us" and "0 \<notin> set ns"
  shows "\<exists>gs. resolve_runs us ns out = Inr gs \<and> length gs = length ns"
  using assms
proof (induction ns arbitrary: us)
  case (Cons n ns)
  let ?run = "take n us" and ?later = "drop n us"
  have n: "0 < n" "n \<le> length us" using Cons.prems by auto
  then have "set (unit_outputs (us ! (n - 1))) \<inter> live (drop n us) out \<noteq> {}"
    using Cons.prems(1) by (simp add: no_idle_unit_nth)
      (metis Suc_diff_1 Suc_le_lessD diff_less less_one order_less_le_trans)
  moreover have "us ! (n - 1) \<in> set ?run" using n by (auto simp: in_set_conv_nth intro!: exI [of _ "n - 1"])
  ultimately have "writes ?run \<inter> live ?later out \<noteq> {}" by (auto simp: writes_def)
  then have "run_outputs ?run ?later out \<noteq> []"
    by (metis run_outputs_set list.set(1))
  moreover obtain gs where "resolve_runs ?later ns out = Inr gs" "length gs = length ns"
    using Cons.IH [OF no_idle_unit_drop [OF Cons.prems(1), of n]] Cons.prems(2,3) by force
  ultimately show ?case by (simp add: Let_def)
qed simp

lemma resolve_runs_length: "resolve_runs us ns out = Inr gs \<Longrightarrow> length gs = length ns"
  by (induction ns arbitrary: us gs) (auto simp: throwing Let_def split: if_splits)

lemma resolve_runs_nth:
  assumes "resolve_runs us ns out = Inr gs" and "i < length gs"
  shows "let rest = drop (sum_list (take i ns)) us; run = take (ns ! i) rest; later = drop (ns ! i) rest
    in set (group_inputs (gs ! i)) = reads_first run \<and> distinct (group_inputs (gs ! i))
      \<and> set (group_outputs (gs ! i)) = writes run \<inter> live later out
      \<and> distinct (group_outputs (gs ! i)) \<and> group_outputs (gs ! i) \<noteq> []"
  using assms
proof (induction ns arbitrary: us gs i)
  case (Cons n ns)
  obtain g gs' where g: "gs = g # gs'" "resolve_runs (drop n us) ns out = Inr gs'" "group_outputs g \<noteq> []"
    "g = \<lparr>group_inputs = run_inputs [] (take n us) [], group_outputs = run_outputs (take n us) (drop n us) out\<rparr>"
    using Cons.prems(1) by (auto simp: throwing Let_def split: if_splits)
  show ?case
  proof (cases i)
    case 0
    then show ?thesis using g(1,3,4)
      by (simp add: Let_def run_inputs_set run_outputs_set run_inputs_distinct run_outputs_distinct)
  next
    case (Suc j)
    then show ?thesis using Cons.IH [OF g(2), of j] Cons.prems(2) g(1)
      by (simp add: Let_def drop_drop add.commute)
  qed
qed simp

subsection \<open>The runs as blocks of the unit sequence\<close>

fun chop :: "nat list \<Rightarrow> 'a list \<Rightarrow> 'a list list" where
  "chop [] xs = []"
| "chop (n # ns) xs = take n xs # chop ns (drop n xs)"

text \<open>
  Blocks that are non-empty and satisfy \<open>Q\<close>, each followed by a block whose first element
  justified the cut, \<open>C\<close>.
\<close>

definition cut_well :: "('a list \<Rightarrow> bool) \<Rightarrow> ('a list \<Rightarrow> 'a \<Rightarrow> bool) \<Rightarrow> 'a list list \<Rightarrow> bool" where
  "cut_well Q C bs \<longleftrightarrow> (\<forall>b\<in>set bs. b \<noteq> [] \<and> Q b) \<and> successively (\<lambda>b c. C b (hd c)) bs"

lemma chop_append:
  "sum_list ns = length xs \<Longrightarrow> chop (ns @ ms) (xs @ ys) = chop ns xs @ chop ms ys"
proof (induction ns arbitrary: xs)
  case (Cons n ns)
  then show ?case by simp
qed simp

lemma concat_chop: "sum_list ns = length xs \<Longrightarrow> concat (chop ns xs) = xs"
  by (induction ns arbitrary: xs) auto

lemma chop_eq_Nil [simp]: "chop ns xs = [] \<longleftrightarrow> ns = []"
  by (cases ns) auto

lemma chop_new: "sum_list ns = length xs \<Longrightarrow> chop (ns @ [1]) (xs @ [x]) = chop ns xs @ [[x]]"
  by (simp add: chop_append)

lemma sum_bump_back [simp]: "ns \<noteq> [] \<Longrightarrow> sum_list (bump_back ns) = sum_list ns + 1"
  by (cases ns rule: rev_cases) (auto simp: bump_back_def)

lemma bump_back_not_Nil [simp]: "bump_back ns \<noteq> []"
  by (simp add: bump_back_def)

lemma chop_bump:
  assumes "sum_list ns = length xs" and "ns \<noteq> []"
  shows "chop (bump_back ns) (xs @ [x]) = butlast (chop ns xs) @ [last (chop ns xs) @ [x]]"
proof -
  obtain ms m where ns: "ns = ms @ [m]" using assms(2) by (cases ns rule: rev_cases) auto
  define ys zs where "ys = take (sum_list ms) xs" and "zs = drop (sum_list ms) xs"
  have xs: "xs = ys @ zs" "sum_list ms = length ys" "length zs = m"
    using assms(1) by (simp_all add: ys_def zs_def ns)
  have "chop (bump_back ns) (xs @ [x]) = chop ms ys @ [zs @ [x]]"
    using chop_append [OF xs(2), of "[m + 1]" "zs @ [x]"] xs by (simp add: ns bump_back_def)
  moreover have "chop ns xs = chop ms ys @ [zs]"
    using chop_append [OF xs(2), of "[m]" zs] xs by (simp add: ns)
  ultimately show ?thesis by simp
qed

lemma cut_well_new:
  "cut_well Q C bs \<Longrightarrow> bs \<noteq> [] \<Longrightarrow> C (last bs) x \<Longrightarrow> Q [x] \<Longrightarrow> cut_well Q C (bs @ [[x]])"
  by (auto simp: cut_well_def successively_append_iff)

lemma cut_well_extend:
  "cut_well Q C bs \<Longrightarrow> bs \<noteq> [] \<Longrightarrow> Q (last bs @ [x]) \<Longrightarrow> cut_well Q C (butlast bs @ [last bs @ [x]])"
  by (cases bs rule: rev_cases) (auto simp: cut_well_def successively_append_iff)

definition same_stage :: "streaming_stage list \<Rightarrow> bool" where
  "same_stage b \<longleftrightarrow> (\<forall>x\<in>set b. x = hd b)"

lemma same_stage_snoc: "same_stage b \<Longrightarrow> b \<noteq> [] \<Longrightarrow> x = last b \<Longrightarrow> same_stage (b @ [x])"
  by (cases b) (auto simp: same_stage_def)

lemma last_chop:
  "sum_list ns = length xs \<Longrightarrow> ns \<noteq> [] \<Longrightarrow> last ns \<noteq> 0 \<Longrightarrow> last (last (chop ns xs)) = last xs"
proof (cases ns rule: rev_cases)
  case (snoc ms m)
  assume h: "sum_list ns = length xs" "last ns \<noteq> 0"
  define ys zs where "ys = take (sum_list ms) xs" and "zs = drop (sum_list ms) xs"
  have xs: "xs = ys @ zs" "sum_list ms = length ys" "length zs = m"
    using h by (simp_all add: ys_def zs_def snoc)
  then have "zs \<noteq> []" using h snoc by auto
  then show ?thesis using chop_append [OF xs(2), of "[m]" zs] xs snoc by simp
qed simp

lemma attn_ffn_prefix:
  assumes "0 < n" and "n \<le> length stages" and "runs = foldl (attn_ffn_step stages) [1] [1 ..< n]"
  shows "sum_list runs = n \<and> runs \<noteq> [] \<and> 0 \<notin> set runs
       \<and> cut_well same_stage (\<lambda>b x. last b \<noteq> x) (chop runs (take n stages))"
  using assms
proof (induction n arbitrary: runs)
  case (Suc n)
  show ?case
  proof (cases "n = 0")
    case True
    then show ?thesis using Suc.prems by (cases stages) (auto simp: cut_well_def same_stage_def)
  next
    case False
    define rs where "rs = foldl (attn_ffn_step stages) [1] [1 ..< n]"
    let ?bs = "chop rs (take n stages)"
    have ih: "sum_list rs = n" "rs \<noteq> []" "0 \<notin> set rs" "cut_well same_stage (\<lambda>b x. last b \<noteq> x) ?bs"
      using Suc.IH [OF _ _ rs_def] Suc.prems(2) False by auto
    have "[1 ..< Suc n] = [1 ..< n] @ [n]" using False by simp
    then have runs: "runs = attn_ffn_step stages rs n"
      by (simp only: Suc.prems(3) rs_def foldl_append foldl.simps)
    have tk: "take (Suc n) stages = take n stages @ [stages ! n]"
      using Suc.prems by (simp add: take_Suc_conv_app_nth)
    have len: "sum_list rs = length (take n stages)" using ih(1) Suc.prems by simp
    have "last rs \<noteq> 0" using ih(2,3) last_in_set by metis
    then have "last (last ?bs) = last (take n stages)" using ih len by (intro last_chop)
    moreover have "take n stages \<noteq> []" using Suc.prems False by auto
    ultimately have prev: "last (last ?bs) = stages ! (n - 1)"
      using Suc.prems False by (simp add: last_conv_nth min_def)
    have bs: "?bs \<noteq> []" using ih by simp
    have lastb: "same_stage (last ?bs)" "last ?bs \<noteq> []"
      using ih(4) last_in_set [OF bs] by (auto simp: cut_well_def)
    show ?thesis
    proof (cases "stages ! n = stages ! (n - 1)")
      case True
      then have "same_stage (last ?bs @ [stages ! n])"
        using lastb prev by (intro same_stage_snoc) auto
      moreover have "0 \<notin> set (bump_back rs)" using ih(3) by (auto simp: bump_back_def dest: in_set_butlastD)
      ultimately show ?thesis
        unfolding runs tk attn_ffn_step_def using True ih bs
        by (simp only: chop_bump [OF len ih(2)] cut_well_extend simp_thms if_False sum_bump_back
            bump_back_not_Nil add_0_right Suc_eq_plus1 not_False_eq_True)
    next
      case False
      have "same_stage [stages ! n]" by (simp add: same_stage_def)
      then have "cut_well same_stage (\<lambda>b x. last b \<noteq> x) (?bs @ [[stages ! n]])"
        using False ih bs prev by (intro cut_well_new) auto
      then show ?thesis
        unfolding runs tk attn_ffn_step_def chop_new [OF len, symmetric] using False ih(1,2,3) by simp
    qed
  qed
qed simp

text \<open>The sum of a block of weights, as a number.\<close>

definition weight_sum :: "u64 list \<Rightarrow> nat" where
  "weight_sum b = sum_list (map unat b)"

definition within_budget :: "u64 \<Rightarrow> u64 list \<Rightarrow> bool" where
  "within_budget budget b \<longleftrightarrow> length b = 1 \<or> weight_sum b \<le> unat budget"

definition exceeds_budget :: "u64 \<Rightarrow> u64 list \<Rightarrow> u64 \<Rightarrow> bool" where
  "exceeds_budget budget b w \<longleftrightarrow> weight_sum b + unat w > unat budget"

lemma weight_sum_simps [simp]:
  "weight_sum [] = 0" "weight_sum (w # ws) = unat w + weight_sum ws"
  "weight_sum (us @ ws) = weight_sum us + weight_sum ws"
  by (simp_all add: weight_sum_def)

lemma weight_sum_last: "bs \<noteq> [] \<Longrightarrow> weight_sum (last bs) \<le> weight_sum (concat bs)"
  by (cases bs rule: rev_cases) auto

lemma budget_fold:
  assumes "weight_sum (w # ws) < 2 ^ 64"
  shows "\<exists>runs running. foldl (budget_step budget) ([1], w) ws = (runs, running)
    \<and> sum_list runs = length (w # ws) \<and> runs \<noteq> [] \<and> 0 \<notin> set runs
    \<and> cut_well (within_budget budget) (exceeds_budget budget) (chop runs (w # ws))
    \<and> unat running = weight_sum (last (chop runs (w # ws)))"
  using assms
proof (induction ws rule: rev_induct)
  case Nil
  then show ?case by (simp add: cut_well_def within_budget_def)
next
  case (snoc v ws)
  then obtain runs running where ih: "foldl (budget_step budget) ([1], w) ws = (runs, running)"
    "sum_list runs = length (w # ws)" "runs \<noteq> []" "0 \<notin> set runs"
    "cut_well (within_budget budget) (exceeds_budget budget) (chop runs (w # ws))"
    "unat running = weight_sum (last (chop runs (w # ws)))" by auto
  let ?bs = "chop runs (w # ws)"
  have bs: "?bs \<noteq> []" using ih(3) by simp
  have "weight_sum (last ?bs) \<le> weight_sum (w # ws)"
    using weight_sum_last [OF bs] concat_chop [OF ih(2)] by simp
  then have "unat running + unat v < 2 ^ 64" using ih(6) snoc.prems by simp
  then have sum: "unat (running + v) = unat running + unat v" by (simp add: unat_add_no_overflow)
  show ?case
  proof (cases "running + v \<le> budget")
    case True
    then have "within_budget budget (last ?bs @ [v])"
      using sum ih(6) by (simp add: within_budget_def word_le_nat_alt)
    moreover have "0 \<notin> set (bump_back runs)" using ih(4) by (auto simp: bump_back_def dest: in_set_butlastD)
    ultimately show ?thesis
      using True ih(1,2,3,5,6) bs sum chop_bump [OF ih(2,3), of v]
      by (simp add: budget_step_def cut_well_extend)
  next
    case False
    then have "exceeds_budget budget (last ?bs) v"
      using sum ih(6) by (simp add: exceeds_budget_def word_le_nat_alt)
    moreover have "within_budget budget [v]" by (simp add: within_budget_def)
    ultimately show ?thesis
      using False ih(1,2,3,4,5) bs chop_new [OF ih(2), of v]
      by (simp add: budget_step_def cut_well_new)
  qed
qed

lemma attn_ffn_runs_ok:
  assumes "stages \<noteq> []"
  shows "sum_list (attn_ffn_runs stages) = length stages" "attn_ffn_runs stages \<noteq> []"
    "0 \<notin> set (attn_ffn_runs stages)"
    "cut_well same_stage (\<lambda>b x. last b \<noteq> x) (chop (attn_ffn_runs stages) stages)"
  using attn_ffn_prefix [OF _ _ attn_ffn_runs_def] assms by auto

lemma budget_runs_sum:
  assumes "ws \<noteq> []"
  shows "sum_list (budget_runs budget ws) = length ws \<and> 0 \<notin> set (budget_runs budget ws)"
proof -
  have "sum_list (fst (foldl (budget_step budget) (runs, running) vs)) = sum_list runs + length vs
      \<and> 0 \<notin> set (fst (foldl (budget_step budget) (runs, running) vs))"
    if "runs \<noteq> []" "0 \<notin> set runs" for vs runs running
    using that
  proof (induction vs arbitrary: runs running)
    case (Cons v vs)
    have "0 \<notin> set (bump_back runs)" using Cons.prems by (auto simp: bump_back_def dest: in_set_butlastD)
    with Cons show ?case by (simp add: budget_step_def)
  qed simp
  from this [of "[1]"] show ?thesis using assms by (cases ws) (simp_all add: budget_runs_def)
qed

lemma partition_runs_Inr:
  assumes "partition_runs weight_bytes stages preset = Inr runs"
  shows "weight_bytes \<noteq> []" "length stages = length weight_bytes"
    "sum_list runs = length weight_bytes" "0 \<notin> set runs"
proof -
  show "weight_bytes \<noteq> []" "length stages = length weight_bytes"
    using assms by (auto simp: partition_runs_def split: if_splits)
  moreover from this have "stages \<noteq> []" by auto
  ultimately show "sum_list runs = length weight_bytes" "0 \<notin> set runs"
    using assms attn_ffn_runs_ok [of stages] budget_runs_sum [of weight_bytes]
    by (auto simp: partition_runs_def Let_def sum_list_replicate split: if_splits)
qed

lemma strtoull_ten: "strtoull ''10'' = 10" "list_all is_digit ''10''" "is_digit CHR ''1''" "is_digit CHR ''0''"
  by (simp_all add: strtoull_def digit_value_def is_digit_def)

text \<open>The four forms of a preset.\<close>

definition preset_valid :: "string \<Rightarrow> bool" where
  "preset_valid preset \<longleftrightarrow> preset \<in> {''layer'', ''unit'', ''attn-ffn''}
     \<or> (\<exists>digits. preset = ''budget:'' @ digits \<and> digits \<noteq> [] \<and> list_all is_digit digits \<and> strtoull digits \<noteq> 0)"

lemma partition_runs_ok:
  assumes "length weight_bytes = length stages" and "weight_bytes \<noteq> []" and "preset_valid preset"
  shows "\<exists>runs. partition_runs weight_bytes stages preset = Inr runs"
  using assms(3) unfolding preset_valid_def
proof
  assume "preset \<in> {''layer'', ''unit'', ''attn-ffn''}"
  then show ?thesis using assms(1,2) by (elim insertE emptyE) (simp_all add: partition_runs_def)
next
  assume "\<exists>digits. preset = ''budget:'' @ digits \<and> digits \<noteq> [] \<and> list_all is_digit digits \<and> strtoull digits \<noteq> 0"
  then obtain digits where "preset = ''budget:'' @ digits" "digits \<noteq> []" "list_all is_digit digits"
    "strtoull digits \<noteq> 0" by blast
  then show ?thesis using assms(1,2) by (simp add: partition_runs_def budget_prefix_def)
qed

lemma partition_runs_valid:
  assumes "partition_runs weight_bytes stages preset = Inr runs"
  shows "preset_valid preset"
proof (cases "preset \<in> {''layer'', ''unit'', ''attn-ffn''}")
  case False
  then have no: "preset \<noteq> ''layer''" "preset \<noteq> ''unit''" "preset \<noteq> ''attn-ffn''" by blast+
  define digits where "digits = drop (length budget_prefix) preset"
  have h: "take (length budget_prefix) preset = budget_prefix" "digits \<noteq> []" "list_all is_digit digits"
    "strtoull digits \<noteq> 0"
    using assms no by (auto simp only: partition_runs_def Let_def digits_def split: if_splits)
  then have "preset = budget_prefix @ digits" by (metis append_take_drop_id digits_def)
  then show ?thesis using h unfolding preset_valid_def budget_prefix_def by blast
qed (simp only: preset_valid_def simp_thms)

subsection \<open>What partitioning promises\<close>

text \<open>
  C18: the runs of a preset. \<open>partition_runs\<close> succeeds exactly when the inputs agree, there is a
  unit, and the preset has one of the four forms, with a positive byte count where it has one;
  the runs it then returns are non-empty and cover the units exactly.
\<close>

theorem partition_runs_cover:
  "case partition_runs weight_bytes stages preset of
     Inl _ \<Rightarrow> length weight_bytes \<noteq> length stages \<or> weight_bytes = [] \<or> \<not> preset_valid preset
   | Inr runs \<Rightarrow> length weight_bytes = length stages \<and> weight_bytes \<noteq> [] \<and> preset_valid preset
       \<and> sum_list runs = length weight_bytes \<and> 0 \<notin> set runs
       \<and> concat (chop runs weight_bytes) = weight_bytes"
proof (cases "partition_runs weight_bytes stages preset")
  case (Inl e)
  then show ?thesis using partition_runs_ok [of weight_bytes stages preset] by auto
next
  case (Inr runs)
  then show ?thesis by (simp add: partition_runs_Inr partition_runs_valid concat_chop)
qed

theorem partition_runs_cover_witness:
  "partition_runs [5, 5, 5] [StageFfn, StageFfn, StageOther] ''budget:10'' = Inr [2, 1]
   \<and> concat (chop [2, 1] [5, 5, 5 :: u64]) = [5, 5, 5]"
proof -
  have "partition_runs [5, 5, 5] [StageFfn, StageFfn, StageOther] ''budget:10'' = Inr [2, 1]"
    by (simp add: partition_runs_def budget_prefix_def strtoull_ten budget_runs_def budget_step_def bump_back_def)
  then show ?thesis
    using partition_runs_cover [where weight_bytes = "[5, 5, 5]"
        and stages = "[StageFfn, StageFfn, StageOther]" and preset = "''budget:10''"] by simp
qed

text \<open>
  The stage preset. The runs of \<open>attn-ffn\<close> are exactly the maximal blocks of units with one
  stage: no run mixes two stages and no two neighbouring runs have the same stage.
\<close>

theorem partition_attn_ffn_maximal:
  assumes "length weight_bytes = length stages" and "stages \<noteq> []"
  shows "\<exists>runs. partition_runs weight_bytes stages ''attn-ffn'' = Inr runs
    \<and> concat (chop runs stages) = stages
    \<and> (\<forall>b\<in>set (chop runs stages). b \<noteq> [] \<and> same_stage b)
    \<and> successively (\<lambda>b c. last b \<noteq> hd c) (chop runs stages)"
proof -
  have "partition_runs weight_bytes stages ''attn-ffn'' = Inr (attn_ffn_runs stages)"
    using assms by (auto simp: partition_runs_def)
  then show ?thesis
    using attn_ffn_runs_ok [OF assms(2)] concat_chop [of "attn_ffn_runs stages" stages]
    by (simp add: cut_well_def)
qed

theorem partition_attn_ffn_maximal_witness:
  "partition_runs [1, 2, 3, 4] [StageAttention, StageAttention, StageFfn, StageAttention] ''attn-ffn''
     = Inr [2, 1, 1]
   \<and> (\<exists>runs. partition_runs [1, 2, 3, 4] [StageAttention, StageAttention, StageFfn, StageAttention] ''attn-ffn''
     = Inr runs \<and> successively (\<lambda>b c. last b \<noteq> hd c)
         (chop runs [StageAttention, StageAttention, StageFfn, StageAttention]))"
proof
  show "partition_runs [1, 2, 3, 4] [StageAttention, StageAttention, StageFfn, StageAttention] ''attn-ffn''
     = Inr [2, 1, 1]" by code_simp
next
  show "\<exists>runs. partition_runs [1, 2, 3, 4] [StageAttention, StageAttention, StageFfn, StageAttention] ''attn-ffn''
     = Inr runs \<and> successively (\<lambda>b c. last b \<noteq> hd c)
         (chop runs [StageAttention, StageAttention, StageFfn, StageAttention])"
    using partition_attn_ffn_maximal [of "[1, 2, 3, 4]" "[StageAttention, StageAttention, StageFfn, StageAttention]"]
    by fastforce
qed

text \<open>
  C19: the budget preset. When the weights of the layer do not overflow 64 bits, a run of the
  greedy cut holds a single unit or stays within the budget, and every run but the last was
  closed because the next unit would have exceeded the budget.
\<close>

theorem partition_budget_greedy:
  assumes "length weight_bytes = length stages" and "weight_bytes \<noteq> []"
    and "weight_sum weight_bytes < 2 ^ 64"
    and "digits \<noteq> []" and "list_all is_digit digits" and "strtoull digits \<noteq> 0"
  shows "\<exists>runs. partition_runs weight_bytes stages (''budget:'' @ digits) = Inr runs
    \<and> concat (chop runs weight_bytes) = weight_bytes
    \<and> (\<forall>b\<in>set (chop runs weight_bytes). length b = 1 \<or> weight_sum b \<le> unat (strtoull digits))
    \<and> successively (\<lambda>b c. weight_sum b + unat (hd c) > unat (strtoull digits)) (chop runs weight_bytes)"
proof -
  obtain w ws where ws: "weight_bytes = w # ws" using assms(2) by (cases weight_bytes) auto
  have "partition_runs weight_bytes stages (''budget:'' @ digits) = Inr (budget_runs (strtoull digits) weight_bytes)"
    using assms by (auto simp: partition_runs_def budget_prefix_def Let_def)
  moreover obtain runs running where
    "foldl (budget_step (strtoull digits)) ([1], w) ws = (runs, running)"
    "sum_list runs = length weight_bytes"
    "cut_well (within_budget (strtoull digits)) (exceeds_budget (strtoull digits)) (chop runs weight_bytes)"
    using budget_fold [of w ws "strtoull digits"] assms(3) ws by auto
  ultimately show ?thesis
    by (simp add: ws budget_runs_def cut_well_def within_budget_def exceeds_budget_def concat_chop)
qed

theorem partition_budget_greedy_witness:
  "\<exists>runs. partition_runs [5, 4, 30, 2] [StageFfn, StageFfn, StageFfn, StageFfn] ''budget:10'' = Inr runs
    \<and> (\<forall>b\<in>set (chop runs [5, 4, 30, 2 :: u64]). length b = 1 \<or> weight_sum b \<le> 10)"
proof -
  show ?thesis
    using strtoull_ten partition_budget_greedy [where weight_bytes = "[5, 4, 30, 2]"
        and stages = "[StageFfn, StageFfn, StageFfn, StageFfn]" and digits = "''10''"] by auto
qed

text \<open>
  C8: grouping preserves the computation. Whatever the units compute and whatever the
  slots held before, executing the groups that \<open>resolve_group_slots\<close> returns, each from its
  declared inputs alone and handing on its declared outputs alone, gives the layer's output
  slot the value that executing the units one after another gives it.
\<close>

theorem group_execution_refines_units:
  assumes "resolve_group_slots units run_lengths layer_output_slot = Inr groups"
  shows "run_groups compute units run_lengths groups store layer_output_slot
    = run_units compute units store layer_output_slot"
  using resolve_group_slots_Inr [OF assms] by (intro resolve_runs_agree) auto

definition demo_unit :: "nat \<Rightarrow> nat \<Rightarrow> nat \<Rightarrow> unit_slots" where
  "demo_unit a b c = \<lparr>unit_inputs = [word_of_nat a, word_of_nat b], unit_outputs = [word_of_nat c]\<rparr>"

definition demo_compute :: "(unit, nat) compute" where
  "demo_compute u vs sid = (if list_all (\<lambda>v. v \<noteq> None) vs then Some (sum_list (map the vs) + 1) else None)"

theorem group_execution_refines_units_witness:
  "resolve_group_slots [demo_unit 0 0 1, demo_unit 0 1 2, demo_unit 1 2 3] [2, 1] 3
     = Inr [\<lparr>group_inputs = [0], group_outputs = [1, 2]\<rparr>, \<lparr>group_inputs = [1, 2], group_outputs = [3]\<rparr>]
   \<and> run_groups demo_compute [demo_unit 0 0 1, demo_unit 0 1 2, demo_unit 1 2 3] [2, 1]
       [\<lparr>group_inputs = [0], group_outputs = [1, 2]\<rparr>, \<lparr>group_inputs = [1, 2], group_outputs = [3]\<rparr>]
       (\<lambda>sid. if sid = 0 then Some 7 else None) 3 = Some 39"
proof -
  have r: "resolve_group_slots [demo_unit 0 0 1, demo_unit 0 1 2, demo_unit 1 2 3] [2, 1] 3
     = Inr [\<lparr>group_inputs = [0], group_outputs = [1, 2]\<rparr>, \<lparr>group_inputs = [1, 2], group_outputs = [3]\<rparr>]"
    by (simp add: resolve_group_slots_def total_run_length_def SIZE_MAX_def demo_unit_def Let_def
        run_inputs_unit_def run_outputs_def push_unique_def)
  have "run_units demo_compute [demo_unit 0 0 1, demo_unit 0 1 2, demo_unit 1 2 3]
      (\<lambda>sid. if sid = 0 then Some 7 else None) 3 = Some 39"
    by (simp add: demo_unit_def demo_compute_def run_unit_def)
  then show ?thesis using r
    by (simp only: group_execution_refines_units [OF r, where compute = demo_compute] simp_thms)
qed

text \<open>
  C17: slots of the groups. When the slots resolve there is one group per run; the inputs of
  each group are exactly the slots its run reads before writing them and its outputs exactly
  the slots it writes that a later unit reads or that leave the layer, each once; and slots
  resolve for every partition of a layer in which no unit is idle.
\<close>

theorem group_slots_exact:
  "(\<forall>groups. resolve_group_slots units run_lengths layer_output_slot = Inr groups \<longrightarrow>
      length groups = length run_lengths
      \<and> (\<forall>i<length groups.
          let rest = drop (sum_list (take i run_lengths)) units;
              run = take (run_lengths ! i) rest;
              later = drop (run_lengths ! i) rest
          in set (group_inputs (groups ! i)) = reads_first run \<and> distinct (group_inputs (groups ! i))
            \<and> set (group_outputs (groups ! i)) = writes run \<inter> live later layer_output_slot
            \<and> distinct (group_outputs (groups ! i)) \<and> group_outputs (groups ! i) \<noteq> []))
   \<and> (no_idle_unit units layer_output_slot \<and> length units \<le> SIZE_MAX \<and> 0 \<notin> set run_lengths
      \<and> sum_list run_lengths = length units
      \<longrightarrow> (\<exists>groups. resolve_group_slots units run_lengths layer_output_slot = Inr groups))"
proof (intro conjI allI impI)
  fix groups assume h: "resolve_group_slots units run_lengths layer_output_slot = Inr groups"
  note r = resolve_group_slots_Inr(3) [OF h]
  show "length groups = length run_lengths" using r by (rule resolve_runs_length)
  fix i assume "i < length groups"
  with r show "let rest = drop (sum_list (take i run_lengths)) units;
              run = take (run_lengths ! i) rest;
              later = drop (run_lengths ! i) rest
          in set (group_inputs (groups ! i)) = reads_first run \<and> distinct (group_inputs (groups ! i))
            \<and> set (group_outputs (groups ! i)) = writes run \<inter> live later layer_output_slot
            \<and> distinct (group_outputs (groups ! i)) \<and> group_outputs (groups ! i) \<noteq> []"
    by (rule resolve_runs_nth)
next
  assume h: "no_idle_unit units layer_output_slot \<and> length units \<le> SIZE_MAX \<and> 0 \<notin> set run_lengths
      \<and> sum_list run_lengths = length units"
  then have "total_run_length run_lengths = Inr (length units)"
    using total_run_length_ok [of run_lengths] by simp
  then show "\<exists>groups. resolve_group_slots units run_lengths layer_output_slot = Inr groups"
    using resolve_runs_ok [of units layer_output_slot run_lengths] h
    by (auto simp: resolve_group_slots_def)
qed

theorem group_slots_exact_witness:
  "\<exists>groups. resolve_group_slots [demo_unit 0 0 1, demo_unit 0 1 2, demo_unit 1 2 3] [1, 1, 1] 3 = Inr groups
    \<and> length groups = 3
    \<and> set (group_inputs (groups ! 1)) = {0, 1} \<and> set (group_outputs (groups ! 1)) = {2}"
proof -
  let ?units = "[demo_unit 0 0 1, demo_unit 0 1 2, demo_unit 1 2 3]"
  have n: "no_idle_unit ?units 3" by (simp add: demo_unit_def)
  note g = group_slots_exact [where units = ?units and run_lengths = "[1, 1, 1]" and layer_output_slot = 3]
  then obtain groups where r: "resolve_group_slots ?units [1, 1, 1] 3 = Inr groups"
    using n by (auto simp: SIZE_MAX_def)
  have len: "length groups = 3" using g r by auto
  then have "set (group_inputs (groups ! 1)) = {0, 1} \<and> set (group_outputs (groups ! 1)) = {2}"
    using g r by (auto simp: demo_unit_def live_def Let_def dest!: spec [of _ "1 :: nat"])
  with r len show ?thesis by blast
qed

end
