(* ===== verification/Residency.thy ===== *)
theory Residency
  imports Ranges
begin

text \<open>
  The residency coordinator and its leases (\<open>ResidencyCoordinator\<close>, \<open>Lease\<close> in
  \<open>src/streaming_execution.cpp\<close>): which ranges of the mapped file are advised in and when they
  are advised out again. The advice system call is a parameter; the calls made so far are kept
  in a log, which the code does not have, so that what is resident can be stated.
\<close>

subsection \<open>The state\<close>

datatype advice_kind = WillNeed | DontNeed

datatype residency_error =
    AdviceFunctionEmpty
  | CommonAlreadyRetained
  | EmptyLease
  | CoordinatorPoisoned
  | AdviceFailed advice_kind string
  | PrematureRelease
  | AccountingUnderflow
  | PlannerFailed range_error

text \<open>One call of the advice function: its kind and range, and whether it returned 0.\<close>

datatype advice_call = AdviceCall (call_kind: advice_kind) (call_range: byte_range) (call_ok: bool)

text \<open>The advice function: given the calls before it, a range and a kind, an error message or success.\<close>

type_synonym advice_function = "advice_call list \<Rightarrow> byte_range \<Rightarrow> advice_kind \<Rightarrow> string option"

record active_lease =
  al_key :: string
  al_ranges :: "byte_range list"

record region =
  rg_count :: nat
  rg_pending :: "byte_range list"

record residency_diagnostics =
  common_class_bytes :: u64
  common_class_pages :: u64
  token_class_bytes :: u64
  token_class_pages :: u64
  layer_class_bytes :: u64
  layer_class_pages :: u64
  token_advised_bytes :: u64
  token_advised_pages :: u64
  advised_bytes_high_water :: u64
  willneed_calls :: nat
  willneed_failures :: nat
  dontneed_calls :: nat
  dontneed_failures :: nat
  leases_acquired :: nat
  leases_released :: nat
  active_leases :: nat
  lease_high_water :: nat
  compute_completions :: nat
  premature_release_attempts :: nat
  poisoned :: bool
  resolved_mode :: string

text \<open>
  \<open>ResidencyCoordinator::Impl\<close>. \<open>active\<close> is the \<open>std::map\<close> by lease identifier, in key order:
  identifiers grow, so a new entry goes to the end.
\<close>

record coordinator =
  mapping_size :: u64
  page_size :: u64
  next_id :: nat
  active :: "(nat \<times> active_lease) list"
  regions :: "string \<Rightarrow> region option"
  common :: "byte_range list"
  common_bytes :: u64
  diag :: residency_diagnostics
  advice_log :: "advice_call list"

definition initial_diagnostics :: residency_diagnostics where
  "initial_diagnostics = \<lparr>common_class_bytes = 0, common_class_pages = 0, token_class_bytes = 0,
     token_class_pages = 0, layer_class_bytes = 0, layer_class_pages = 0, token_advised_bytes = 0,
     token_advised_pages = 0, advised_bytes_high_water = 0, willneed_calls = 0, willneed_failures = 0,
     dontneed_calls = 0, dontneed_failures = 0, leases_acquired = 0, leases_released = 0,
     active_leases = 0, lease_high_water = 0, compute_completions = 0,
     premature_release_attempts = 0, poisoned = False,
     resolved_mode = ''internal-streaming-linux''\<rparr>"

text \<open>The constructor; the advice function may be empty.\<close>

definition new_coordinator :: "u64 \<Rightarrow> u64 \<Rightarrow> advice_function option \<Rightarrow> residency_error + coordinator" where
  "new_coordinator mapped page advice = (case advice of
     None \<Rightarrow> Inl AdviceFunctionEmpty
   | Some _ \<Rightarrow> Inr \<lparr>mapping_size = mapped, page_size = page, next_id = 1, active = [],
       regions = (\<lambda>_. None), common = [], common_bytes = 0, diag = initial_diagnostics,
       advice_log = []\<rparr>)"

subsection \<open>The operations\<close>

abbreviation update_diag :: "(residency_diagnostics \<Rightarrow> residency_diagnostics) \<Rightarrow> coordinator \<Rightarrow> coordinator" where
  "update_diag f c \<equiv> c\<lparr>diag := f (diag c)\<rparr>"

definition current_advised_bytes :: "coordinator \<Rightarrow> range_error + u64" where
  "current_advised_bytes c =
     (let ranges = concat (map (al_ranges \<circ> snd) (active c)) in
      bindE (if ranges \<noteq> []
             then bindE (page_align_and_coalesce ranges (mapping_size c) (page_size c)) (\<lambda>planned.
                    subtract_ranges planned (common c))
             else Inr ranges) byte_count)"

definition note_advised_peak :: "(coordinator, residency_error, unit) action" where
  "note_advised_peak =
     bindM (getM current_advised_bytes) (\<lambda>current.
     bindM (liftM PlannerFailed current) (\<lambda>bytes.
     modifyM (\<lambda>c. update_diag (\<lambda>d. d\<lparr>advised_bytes_high_water :=
       max (advised_bytes_high_water d) (bytes + common_bytes c)\<rparr>) c)))"

definition call_advice ::
  "advice_function \<Rightarrow> advice_kind \<Rightarrow> byte_range \<Rightarrow> (coordinator, residency_error, unit) action" where
  "call_advice advice kind br = (\<lambda>c.
     let counted = update_diag (\<lambda>d. case kind of
             WillNeed \<Rightarrow> d\<lparr>willneed_calls := willneed_calls d + 1\<rparr>
           | DontNeed \<Rightarrow> d\<lparr>dontneed_calls := dontneed_calls d + 1\<rparr>) c
     in case advice (advice_log c) br kind of
          None \<Rightarrow> (Inr (), counted\<lparr>advice_log := advice_log c @ [AdviceCall kind br True]\<rparr>)
        | Some message \<Rightarrow> (Inl (AdviceFailed kind message),
            (update_diag (\<lambda>d. case kind of
                WillNeed \<Rightarrow> d\<lparr>willneed_failures := willneed_failures d + 1\<rparr>
              | DontNeed \<Rightarrow> d\<lparr>dontneed_failures := dontneed_failures d + 1\<rparr>) counted)
              \<lparr>advice_log := advice_log c @ [AdviceCall kind br False]\<rparr>))"

definition set_classification ::
  "byte_range list \<Rightarrow> byte_range list \<Rightarrow> byte_range list list \<Rightarrow> (coordinator, residency_error, unit) action"
where
  "set_classification common_ranges token layers =
     bindM (liftM PlannerFailed (byte_count common_ranges)) (\<lambda>n.
     bindM (modifyM (update_diag (\<lambda>d. d\<lparr>common_class_bytes := n\<rparr>))) (\<lambda>_.
     bindM (getM page_size) (\<lambda>page.
     bindM (liftM PlannerFailed (page_count common_ranges page)) (\<lambda>n.
     bindM (modifyM (update_diag (\<lambda>d. d\<lparr>common_class_pages := n\<rparr>))) (\<lambda>_.
     bindM (liftM PlannerFailed (byte_count token)) (\<lambda>n.
     bindM (modifyM (update_diag (\<lambda>d. d\<lparr>token_class_bytes := n\<rparr>))) (\<lambda>_.
     bindM (liftM PlannerFailed (page_count token page)) (\<lambda>n.
     bindM (modifyM (update_diag (\<lambda>d. d\<lparr>token_class_pages := n\<rparr>))) (\<lambda>_.
     forM layers (\<lambda>layer.
       bindM (liftM PlannerFailed (byte_count layer)) (\<lambda>n.
       bindM (modifyM (update_diag (\<lambda>d. d\<lparr>layer_class_bytes := layer_class_bytes d + n\<rparr>))) (\<lambda>_.
       bindM (liftM PlannerFailed (page_count layer page)) (\<lambda>n.
       modifyM (update_diag (\<lambda>d. d\<lparr>layer_class_pages := layer_class_pages d + n\<rparr>)))))))))))))))"

definition retain_common ::
  "advice_function \<Rightarrow> byte_range list \<Rightarrow> (coordinator, residency_error, unit) action" where
  "retain_common advice ranges =
     bindM (getM common) (\<lambda>retained.
     if retained \<noteq> [] then throwM CommonAlreadyRetained
     else bindM (forM ranges (call_advice advice WillNeed)) (\<lambda>_.
          bindM (modifyM (\<lambda>c. c\<lparr>common := ranges\<rparr>)) (\<lambda>_.
          bindM (liftM PlannerFailed (byte_count ranges)) (\<lambda>n.
          bindM (modifyM (\<lambda>c. c\<lparr>common_bytes := n\<rparr>)) (\<lambda>_.
          note_advised_peak)))))"

text \<open>
  A lease object: \<open>owned\<close> is whether its \<open>owner_\<close> is not null.
\<close>

record lease =
  owned :: bool
  lease_id :: nat
  lease_key :: string
  lease_token_rows :: bool
  compute_complete :: bool

definition empty_lease :: lease where
  "empty_lease = \<lparr>owned = False, lease_id = 0, lease_key = [], lease_token_rows = False,
     compute_complete = False\<rparr>"

text \<open>\<open>regions[key]\<close>: a missing region is created.\<close>

definition region_at :: "coordinator \<Rightarrow> string \<Rightarrow> region" where
  "region_at c key = (case regions c key of None \<Rightarrow> \<lparr>rg_count = 0, rg_pending = []\<rparr> | Some r \<Rightarrow> r)"

definition register_lease :: "string \<Rightarrow> byte_range list \<Rightarrow> coordinator \<Rightarrow> coordinator" where
  "register_lease key ranges c =
     (let r = region_at c key in
      update_diag (\<lambda>d. d\<lparr>leases_acquired := leases_acquired d + 1,
                          active_leases := active_leases d + 1,
                          lease_high_water := max (lease_high_water d) (active_leases d + 1)\<rparr>)
       (c\<lparr>next_id := next_id c + 1,
          active := active c @ [(next_id c, \<lparr>al_key = key, al_ranges = ranges\<rparr>)],
          regions := (regions c)(key \<mapsto> \<lparr>rg_count = rg_count r + 1, rg_pending = rg_pending r @ ranges\<rparr>)\<rparr>))"

text \<open>The last statements of \<open>acquire\<close>, for a lease of token rows.\<close>

definition count_token_rows :: "byte_range list \<Rightarrow> bool \<Rightarrow> (coordinator, residency_error, unit) action" where
  "count_token_rows ranges token_rows =
     (if token_rows
      then bindM (liftM PlannerFailed (byte_count ranges)) (\<lambda>n.
           bindM (modifyM (update_diag (\<lambda>d. d\<lparr>token_advised_bytes := token_advised_bytes d + n\<rparr>))) (\<lambda>_.
           bindM (getM page_size) (\<lambda>page.
           bindM (liftM PlannerFailed (page_count ranges page)) (\<lambda>n.
           modifyM (update_diag (\<lambda>d. d\<lparr>token_advised_pages := token_advised_pages d + n\<rparr>))))))
      else retM ())"

definition acquire ::
  "advice_function \<Rightarrow> string \<Rightarrow> byte_range list \<Rightarrow> bool \<Rightarrow> (coordinator, residency_error, lease) action" where
  "acquire advice key ranges token_rows =
     (if ranges = [] then throwM EmptyLease
      else bindM (getM (poisoned \<circ> diag)) (\<lambda>is_poisoned.
        if is_poisoned then throwM CoordinatorPoisoned
        else bindM (forM ranges (call_advice advice WillNeed)) (\<lambda>_.
             bindM (getM next_id) (\<lambda>new_id.
             bindM (modifyM (register_lease key ranges)) (\<lambda>_.
             bindM note_advised_peak (\<lambda>_.
             bindM (count_token_rows ranges token_rows) (\<lambda>_.
             retM \<lparr>owned = True, lease_id = new_id, lease_key = key,
                    lease_token_rows = token_rows, compute_complete = False\<rparr>)))))))"

text \<open>What the last release of a region advises out, computed from the state after the release.\<close>

definition releasable_ranges :: "byte_range list \<Rightarrow> coordinator \<Rightarrow> range_error + byte_range list" where
  "releasable_ranges pending c =
     (let protected_ranges = common c @ concat (map (al_ranges \<circ> snd) (active c)) in
      bindE (page_align_and_coalesce pending (mapping_size c) (page_size c)) (\<lambda>planned.
      bindE (if protected_ranges \<noteq> []
             then page_align_and_coalesce protected_ranges (mapping_size c) (page_size c)
             else Inr protected_ranges) (\<lambda>kept.
      subtract_ranges planned kept)))"

text \<open>
  The end of \<open>release\<close>, when the region's count reached 0. \<open>page_align_and_coalesce\<close> of the
  pending ranges runs before they are cleared and outside the \<open>try\<close> block; the rest of the
  planning after; only the advice calls are inside the block.
\<close>

definition drop_region ::
  "advice_function \<Rightarrow> string \<Rightarrow> (coordinator, residency_error, unit) action" where
  "drop_region advice key =
     bindM (getM (\<lambda>c. rg_pending (region_at c key))) (\<lambda>pending.
     bindM (getM (\<lambda>c. page_align_and_coalesce pending (mapping_size c) (page_size c))) (\<lambda>planned.
     bindM (liftM PlannerFailed planned) (\<lambda>_.
     bindM (modifyM (\<lambda>c. c\<lparr>regions := (regions c)(key \<mapsto> (region_at c key)\<lparr>rg_pending := []\<rparr>)\<rparr>)) (\<lambda>_.
     bindM (getM (releasable_ranges pending)) (\<lambda>ranges.
     bindM (liftM PlannerFailed ranges) (\<lambda>releasable.
     catchM (forM releasable (call_advice advice DontNeed)) (\<lambda>e.
       bindM (modifyM (update_diag (\<lambda>d. d\<lparr>poisoned := True\<rparr>))) (\<lambda>_. throwM e))))))))"

definition release_lease ::
  "advice_function \<Rightarrow> nat \<Rightarrow> string \<Rightarrow> bool \<Rightarrow> (coordinator, residency_error, unit) action" where
  "release_lease advice lid key complete =
     bindM (getM (\<lambda>c. map_of (active c) lid)) (\<lambda>found.
     if found = None then retM ()
     else if \<not> complete then
       bindM (modifyM (update_diag (\<lambda>d. d\<lparr>premature_release_attempts := premature_release_attempts d + 1,
                                          poisoned := True\<rparr>))) (\<lambda>_.
       throwM PrematureRelease)
     else
       bindM (modifyM (update_diag (\<lambda>d. d\<lparr>compute_completions := compute_completions d + 1\<rparr>))) (\<lambda>_.
       bindM (getM (\<lambda>c. rg_count (region_at c key))) (\<lambda>count.
       if count = 0 then
         bindM (modifyM (update_diag (\<lambda>d. d\<lparr>poisoned := True\<rparr>))) (\<lambda>_. throwM AccountingUnderflow)
       else
         bindM (modifyM (\<lambda>c. update_diag (\<lambda>d. d\<lparr>active_leases := active_leases d - 1,
                                                leases_released := leases_released d + 1\<rparr>)
           (c\<lparr>regions := (regions c)(key \<mapsto> (region_at c key)\<lparr>rg_count := count - 1\<rparr>),
              active := filter (\<lambda>(i, _). i \<noteq> lid) (active c)\<rparr>))) (\<lambda>_.
         if count - 1 \<noteq> 0 then retM () else drop_region advice key))))"

text \<open>
  The methods of \<open>Lease\<close>. Each returns the lease object it leaves behind beside the result;
  \<open>owner_\<close> is cleared before the coordinator is called. The destructor and the move
  assignment swallow the exception.
\<close>

definition mark_compute_complete :: "lease \<Rightarrow> lease" where
  "mark_compute_complete l = l\<lparr>compute_complete := True\<rparr>"

definition lease_release ::
  "advice_function \<Rightarrow> lease \<Rightarrow> coordinator \<Rightarrow> ((residency_error + unit) \<times> coordinator) \<times> lease" where
  "lease_release advice l c =
     (if \<not> owned l then ((Inr (), c), l)
      else (release_lease advice (lease_id l) (lease_key l) (compute_complete l) c, l\<lparr>owned := False\<rparr>))"

definition lease_destroy :: "advice_function \<Rightarrow> lease \<Rightarrow> coordinator \<Rightarrow> coordinator" where
  "lease_destroy advice l c = snd (fst (lease_release advice l c))"

definition lease_move :: "lease \<Rightarrow> lease \<times> lease" where
  "lease_move other = (other, other\<lparr>owned := False\<rparr>)"

definition lease_move_assign ::
  "advice_function \<Rightarrow> lease \<Rightarrow> lease \<Rightarrow> coordinator \<Rightarrow> coordinator \<times> lease \<times> lease" where
  "lease_move_assign advice self other c =
     (lease_destroy advice self c, other, other\<lparr>owned := False\<rparr>)"

subsection \<open>What is resident, and what must stay so\<close>

text \<open>
  The bytes that were advised in and not advised out since, by the calls that succeeded; and the
  bytes that must be resident: the retained ones and those of the active leases.
\<close>

fun resident_step :: "nat set \<Rightarrow> advice_call \<Rightarrow> nat set" where
  "resident_step B (AdviceCall kind br ok) =
     (if \<not> ok then B else case kind of WillNeed \<Rightarrow> B \<union> bytes_of br | DontNeed \<Rightarrow> B - bytes_of br)"

definition resident :: "advice_call list \<Rightarrow> nat set" where
  "resident log = foldl resident_step {} log"

definition lease_ranges :: "coordinator \<Rightarrow> byte_range list" where
  "lease_ranges c = concat (map (al_ranges \<circ> snd) (active c))"

definition protected :: "coordinator \<Rightarrow> nat set" where
  "protected c = cover (common c) \<union> cover (lease_ranges c)"

definition pending_cover :: "coordinator \<Rightarrow> nat set" where
  "pending_cover c = (\<Union>key. cover (rg_pending (region_at c key)))"

definition no_failed_advice :: "coordinator \<Rightarrow> bool" where
  "no_failed_advice c \<longleftrightarrow> willneed_failures (diag c) = 0 \<and> dontneed_failures (diag c) = 0"

lemma resident_append: "resident (log @ log') = foldl resident_step (resident log) log'"
  by (simp add: resident_def)

lemma resident_willneed:
  "foldl resident_step B (map (\<lambda>r. AdviceCall WillNeed r True) rs) = B \<union> cover rs"
  by (induction rs arbitrary: B) auto

lemma resident_dontneed:
  "foldl resident_step B (map (\<lambda>r. AdviceCall DontNeed r True) rs) = B - cover rs"
  by (induction rs arbitrary: B) auto

lemma cover_concat: "cover (concat rss) = (\<Union>rs\<in>set rss. cover rs)"
  by (induction rss) auto

lemma cover_lease_ranges: "cover (lease_ranges c) = (\<Union>(i, a)\<in>set (active c). cover (al_ranges a))"
  by (auto simp: lease_ranges_def cover_concat)

subsection \<open>Advising a list of ranges\<close>

text \<open>The counters that the advice calls leave alone.\<close>

definition lease_books :: "residency_diagnostics \<Rightarrow> nat \<times> nat \<times> nat \<times> nat \<times> nat \<times> nat \<times> bool \<times> u64" where
  "lease_books d = (leases_acquired d, leases_released d, active_leases d, lease_high_water d,
     compute_completions d, premature_release_attempts d, poisoned d, advised_bytes_high_water d)"

definition state_books ::
  "coordinator \<Rightarrow> (u64 \<times> u64) \<times> nat \<times> (nat \<times> active_lease) list \<times> (string \<Rightarrow> region option) \<times> byte_range list \<times> u64"
where
  "state_books c = ((mapping_size c, page_size c), next_id c, active c, regions c, common c, common_bytes c)"

lemmas books_defs = lease_books_def state_books_def

lemma call_advice_ok:
  assumes "advice (advice_log c) r kind = None"
  shows "\<exists>d. call_advice advice kind r c = (Inr (), d) \<and> state_books d = state_books c
    \<and> lease_books (diag d) = lease_books (diag c) \<and> advice_log d = advice_log c @ [AdviceCall kind r True]
    \<and> willneed_failures (diag d) = willneed_failures (diag c)
    \<and> dontneed_failures (diag d) = dontneed_failures (diag c)"
  using assms by (cases kind) (simp_all add: call_advice_def Let_def books_defs)

lemma call_advice_fails:
  assumes "advice (advice_log c) r kind = Some message"
  shows "\<exists>d. call_advice advice kind r c = (Inl (AdviceFailed kind message), d) \<and> state_books d = state_books c
    \<and> lease_books (diag d) = lease_books (diag c) \<and> advice_log d = advice_log c @ [AdviceCall kind r False]
    \<and> \<not> no_failed_advice d"
  using assms by (cases kind) (simp_all add: call_advice_def Let_def books_defs no_failed_advice_def)

text \<open>
  The loop over the advice calls either made them all or stopped at the first that failed; it
  changes the log and the counters of calls and failures only.
\<close>

lemma advise_all:
  assumes "forM rs (call_advice advice kind) c = (res, c')"
  shows "state_books c' = state_books c \<and> lease_books (diag c') = lease_books (diag c)
    \<and> (res = Inr () \<and> advice_log c' = advice_log c @ map (\<lambda>r. AdviceCall kind r True) rs
         \<and> willneed_failures (diag c') = willneed_failures (diag c)
         \<and> dontneed_failures (diag c') = dontneed_failures (diag c)
       \<or> (\<exists>before r after message. res = Inl (AdviceFailed kind message) \<and> rs = before @ r # after
         \<and> advice_log c' = advice_log c @ map (\<lambda>r. AdviceCall kind r True) before @ [AdviceCall kind r False]
         \<and> \<not> no_failed_advice c'))"
  using assms
proof (induction rs arbitrary: c)
  case Nil
  then show ?case by simp
next
  case (Cons r rs)
  show ?case
  proof (cases "advice (advice_log c) r kind")
    case None
    obtain d where d: "call_advice advice kind r c = (Inr (), d)" "state_books d = state_books c"
      "lease_books (diag d) = lease_books (diag c)" "advice_log d = advice_log c @ [AdviceCall kind r True]"
      "willneed_failures (diag d) = willneed_failures (diag c)"
      "dontneed_failures (diag d) = dontneed_failures (diag c)"
      using call_advice_ok [where advice = advice and c = c and r = r and kind = kind] None by blast
    have tail: "forM rs (call_advice advice kind) d = (res, c')"
      using Cons.prems d(1) by (simp add: bindM_eq)
    note ih = Cons.IH [OF tail]
    have books: "state_books c' = state_books c" "lease_books (diag c') = lease_books (diag c)"
      using ih d(2,3) by simp_all
    from conjunct2 [OF conjunct2 [OF ih]] show ?thesis
    proof (elim disjE conjE exE)
      assume "res = Inr ()" "advice_log c' = advice_log d @ map (\<lambda>r. AdviceCall kind r True) rs"
        "willneed_failures (diag c') = willneed_failures (diag d)"
        "dontneed_failures (diag c') = dontneed_failures (diag d)"
      then show ?thesis using books d by simp
    next
      fix before x after message
      assume h: "res = Inl (AdviceFailed kind message)" "rs = before @ x # after"
        "advice_log c' = advice_log d @ map (\<lambda>r. AdviceCall kind r True) before @ [AdviceCall kind x False]"
        "\<not> no_failed_advice c'"
      then have "r # rs = (r # before) @ x # after"
        "advice_log c' = advice_log c @ map (\<lambda>r. AdviceCall kind r True) (r # before) @ [AdviceCall kind x False]"
        using d by simp_all
      with h books show ?thesis by blast
    qed
  next
    case (Some message)
    obtain d where d: "call_advice advice kind r c = (Inl (AdviceFailed kind message), d)"
      "state_books d = state_books c" "lease_books (diag d) = lease_books (diag c)"
      "advice_log d = advice_log c @ [AdviceCall kind r False]" "\<not> no_failed_advice d"
      using call_advice_fails [where advice = advice and c = c and r = r and kind = kind] Some by blast
    then have "res = Inl (AdviceFailed kind message)" "c' = d"
      using Cons.prems by (auto simp: bindM_eq)
    moreover have "r # rs = [] @ r # rs" by simp
    ultimately show ?thesis using d by (intro conjI disjI2 exI) (assumption | simp)+
  qed
qed

subsection \<open>The invariant of the coordinator\<close>

definition key_count :: "string \<Rightarrow> coordinator \<Rightarrow> nat" where
  "key_count key c = length (filter (\<lambda>(i, a). al_key a = key) (active c))"

text \<open>What holds of the lists of ranges, of the lease identifiers and of the counters.\<close>

definition ranges_inv :: "u64 \<Rightarrow> u64 \<Rightarrow> coordinator \<Rightarrow> bool" where
  "ranges_inv m p c \<longleftrightarrow> mapping_size c = m \<and> page_size c = p
     \<and> planned_ranges (m, p) (common c) \<and> canonical (common c) \<and> unat (common_bytes c) = card (cover (common c))
     \<and> (\<forall>(i, a)\<in>set (active c). planned_ranges (m, p) (al_ranges a))
     \<and> (\<forall>key. planned_ranges (m, p) (rg_pending (region_at c key)))"

definition ids_inv :: "coordinator \<Rightarrow> bool" where
  "ids_inv c \<longleftrightarrow> distinct (map fst (active c)) \<and> (\<forall>(i, a)\<in>set (active c). i < next_id c)"

definition counts_inv :: "coordinator \<Rightarrow> bool" where
  "counts_inv c \<longleftrightarrow> (\<forall>key. rg_count (region_at c key) = key_count key c)
     \<and> active_leases (diag c) = length (active c)
     \<and> leases_acquired (diag c) = leases_released (diag c) + length (active c)
     \<and> active_leases (diag c) \<le> lease_high_water (diag c)"

definition pending_inv :: "coordinator \<Rightarrow> bool" where
  "pending_inv c \<longleftrightarrow> (\<forall>key. rg_count (region_at c key) = 0 \<longrightarrow> rg_pending (region_at c key) = [])
     \<and> (\<forall>(i, a)\<in>set (active c). cover (al_ranges a) \<subseteq> cover (rg_pending (region_at c (al_key a))))"

definition resident_inv :: "coordinator \<Rightarrow> bool" where
  "resident_inv c \<longleftrightarrow> protected c \<subseteq> resident (advice_log c)
     \<and> (no_failed_advice c \<longrightarrow> resident (advice_log c) \<subseteq> cover (common c) \<union> pending_cover c)"

definition peak_inv :: "coordinator \<Rightarrow> bool" where
  "peak_inv c \<longleftrightarrow> card (protected c) \<le> unat (advised_bytes_high_water (diag c))"

definition coordinator_inv :: "u64 \<Rightarrow> u64 \<Rightarrow> coordinator \<Rightarrow> bool" where
  "coordinator_inv m p c \<longleftrightarrow> planner_geometry (m, p) \<and> ranges_inv m p c \<and> ids_inv c \<and> counts_inv c
     \<and> pending_inv c \<and> resident_inv c \<and> peak_inv c"

lemmas inv_defs = ranges_inv_def ids_inv_def counts_inv_def pending_inv_def peak_inv_def

lemma planned_lease_ranges:
  "ranges_inv m p c \<Longrightarrow> planned_ranges (m, p) (lease_ranges c)"
  by (auto simp: ranges_inv_def lease_ranges_def)

lemma protected_below:
  assumes "ranges_inv m p c"
  shows "protected c \<subseteq> {..< unat m}"
proof -
  have "planned_ranges (m, p) (common c @ lease_ranges c)"
    using assms planned_lease_ranges by (auto simp: ranges_inv_def)
  then have "\<forall>r\<in>set (common c @ lease_ranges c). in_file m r" by (simp only: planned_ranges_def prod.case) blast
  then show ?thesis unfolding cover_in_file by (simp add: protected_def)
qed

text \<open>The peak is noted without an exception, and as the number of protected bytes.\<close>

lemma note_advised_peak_ok:
  assumes "planner_geometry (m, p)" and "ranges_inv m p c"
  shows "\<exists>n. note_advised_peak c =
      (Inr (), update_diag (\<lambda>d. d\<lparr>advised_bytes_high_water := max (advised_bytes_high_water d) n\<rparr>) c)
    \<and> unat n = card (protected c)"
proof -
  have c: "mapping_size c = m" "page_size c = p" "canonical (common c)"
    "unat (common_bytes c) = card (cover (common c))"
    using assms(2) by (auto simp: ranges_inv_def)
  obtain out where out: "(if lease_ranges c \<noteq> []
      then bindE (page_align_and_coalesce (lease_ranges c) m p) (\<lambda>q. subtract_ranges q (common c))
      else Inr (lease_ranges c)) = Inr out"
    and tidy: "canonical out" and bytes: "cover out = cover (lease_ranges c) - cover (common c)"
    using planner.plan_and_subtract_tidy [OF assms(1) planned_lease_ranges [OF assms(2)] c(3)]
    by (cases "lease_ranges c = []") auto
  obtain n where n: "byte_count out = Inr n" "unat n = card (cover (lease_ranges c) - cover (common c))"
    using byte_count_canonical [OF tidy] bytes by auto
  have cur: "current_advised_bytes c = Inr n"
    unfolding current_advised_bytes_def lease_ranges_def [symmetric] Let_def c using out n(1) by simp
  have fin: "finite (protected c)" "card (protected c) \<le> unat m"
    using protected_below [OF assms(2)] finite_subset card_mono [of "{..< unat m}" "protected c"] by auto
  have card: "card (protected c) = unat n + unat (common_bytes c)"
  proof -
    let ?A = "cover (lease_ranges c)" and ?B = "cover (common c)"
    have "card ((?A - ?B) \<union> ?B) = card (?A - ?B) + card ?B"
      using fin(1) by (intro card_Un_disjoint) (auto simp: protected_def)
    moreover have "protected c = (?A - ?B) \<union> ?B" by (auto simp: protected_def)
    ultimately show ?thesis using n(2) c(4) by simp
  qed
  then have "unat (n + common_bytes c) = card (protected c)"
    using fin unat_less_u64 [of m] by (simp add: unat_add_no_overflow)
  then show ?thesis using cur by (intro exI [of _ "n + common_bytes c"]) (simp add: note_advised_peak_def)
qed

subsection \<open>Every operation keeps the invariant\<close>

lemma invariants_cong:
  assumes "state_books c' = state_books c" and "lease_books (diag c') = lease_books (diag c)"
  shows "ranges_inv m p c' = ranges_inv m p c" "ids_inv c' = ids_inv c" "counts_inv c' = counts_inv c"
    "pending_inv c' = pending_inv c" "peak_inv c' = peak_inv c" "protected c' = protected c"
    "pending_cover c' = pending_cover c" "region_at c' = region_at c" "lease_ranges c' = lease_ranges c"
    "common c' = common c" "active c' = active c" "mapping_size c' = mapping_size c" "page_size c' = page_size c"
    "next_id c' = next_id c" "regions c' = regions c" "common_bytes c' = common_bytes c"
proof -
  have c: "mapping_size c' = mapping_size c" "page_size c' = page_size c" "next_id c' = next_id c"
    "active c' = active c" "regions c' = regions c" "common c' = common c" "common_bytes c' = common_bytes c"
    and d: "leases_acquired (diag c') = leases_acquired (diag c)" "leases_released (diag c') = leases_released (diag c)"
    "active_leases (diag c') = active_leases (diag c)" "lease_high_water (diag c') = lease_high_water (diag c)"
    "advised_bytes_high_water (diag c') = advised_bytes_high_water (diag c)"
    using assms by (simp_all add: books_defs)
  have r: "region_at c' = region_at c" by (rule ext) (simp add: region_at_def c)
  have l: "lease_ranges c' = lease_ranges c" by (simp add: lease_ranges_def c)
  have k: "key_count key c' = key_count key c" for key by (simp add: key_count_def c)
  have p: "protected c' = protected c" by (simp add: protected_def l c)
  show "ranges_inv m p c' = ranges_inv m p c" "ids_inv c' = ids_inv c" "counts_inv c' = counts_inv c"
    "pending_inv c' = pending_inv c" "peak_inv c' = peak_inv c" "protected c' = protected c"
    "pending_cover c' = pending_cover c" "region_at c' = region_at c" "lease_ranges c' = lease_ranges c"
    "common c' = common c" "active c' = active c" "mapping_size c' = mapping_size c" "page_size c' = page_size c"
    "next_id c' = next_id c" "regions c' = regions c" "common_bytes c' = common_bytes c"
    by (simp_all add: inv_defs pending_cover_def r l k p c d)
qed

text \<open>Counters of calls, classes and bytes do not matter to the invariant.\<close>

lemma coordinator_inv_cong:
  assumes "coordinator_inv m p c" and "state_books c' = state_books c"
    and "lease_books (diag c') = lease_books (diag c)" and "advice_log c' = advice_log c"
    and "no_failed_advice c' = no_failed_advice c"
  shows "coordinator_inv m p c'"
  using assms(1,4,5) invariants_cong [OF assms(2,3)]
  by (simp add: coordinator_inv_def resident_inv_def)

lemma willneed_failed_inv:
  assumes "coordinator_inv m p c" and "forM rs (call_advice advice WillNeed) c = (Inl e, c')"
  shows "coordinator_inv m p c'" "state_books c' = state_books c" "lease_books (diag c') = lease_books (diag c)"
proof -
  from advise_all [OF assms(2)] obtain before r where a: "state_books c' = state_books c"
    "lease_books (diag c') = lease_books (diag c)" "\<not> no_failed_advice c'"
    "advice_log c' = advice_log c @ map (\<lambda>r. AdviceCall WillNeed r True) before @ [AdviceCall WillNeed r False]"
    by auto
  then have "resident (advice_log c') = resident (advice_log c) \<union> cover before"
    by (simp add: resident_append resident_willneed)
  with a assms(1) invariants_cong [OF a(1,2)] show "coordinator_inv m p c'"
    by (auto simp: coordinator_inv_def resident_inv_def)
  show "state_books c' = state_books c" "lease_books (diag c') = lease_books (diag c)" using a by auto
qed

lemma region_at_upd [simp]:
  "region_at (c\<lparr>regions := (regions d)(key \<mapsto> r)\<rparr>) k
     = (if k = key then r else region_at (c\<lparr>regions := regions d\<rparr>) k)"
  by (simp add: region_at_def)

lemma region_at_diag [simp]: "region_at (c\<lparr>diag := d\<rparr>) = region_at c"
  by (rule ext) (simp add: region_at_def)

lemma region_at_same [simp]: "region_at (c\<lparr>regions := regions c\<rparr>) k = region_at c k"
  by (simp add: region_at_def)

lemma register_lease_simps:
  "mapping_size (register_lease key ranges c) = mapping_size c"
  "page_size (register_lease key ranges c) = page_size c"
  "next_id (register_lease key ranges c) = next_id c + 1"
  "active (register_lease key ranges c) = active c @ [(next_id c, \<lparr>al_key = key, al_ranges = ranges\<rparr>)]"
  "common (register_lease key ranges c) = common c"
  "common_bytes (register_lease key ranges c) = common_bytes c"
  "advice_log (register_lease key ranges c) = advice_log c"
  "no_failed_advice (register_lease key ranges c) = no_failed_advice c"
  "region_at (register_lease key ranges c) k = (if k = key
     then \<lparr>rg_count = rg_count (region_at c key) + 1, rg_pending = rg_pending (region_at c key) @ ranges\<rparr>
     else region_at c k)"
  "lease_ranges (register_lease key ranges c) = lease_ranges c @ ranges"
  "protected (register_lease key ranges c) = protected c \<union> cover ranges"
  by (simp_all add: register_lease_def Let_def no_failed_advice_def lease_ranges_def protected_def
      region_at_def Un_assoc)

lemma pending_cover_register: "pending_cover (register_lease key ranges c) = pending_cover c \<union> cover ranges"
  by (auto simp: pending_cover_def register_lease_simps split: if_splits)

lemma register_lease_inv:
  fixes key :: string
  assumes "coordinator_inv m p c" and "planned_ranges (m, p) ranges"
    and "state_books c1 = state_books c" "lease_books (diag c1) = lease_books (diag c)"
    and "resident (advice_log c1) = resident (advice_log c) \<union> cover ranges"
    and "no_failed_advice c1 = no_failed_advice c"
  defines "c2 \<equiv> register_lease key ranges c1"
  shows "ranges_inv m p c2" "ids_inv c2" "counts_inv c2" "pending_inv c2" "resident_inv c2"
proof -
  note cong = invariants_cong [OF assms(3,4)]
  have inv: "ranges_inv m p c1" "ids_inv c1" "counts_inv c1" "pending_inv c1" "resident_inv c"
    using assms(1) by (simp_all add: coordinator_inv_def cong)
  show "ranges_inv m p c2" using inv(1) assms(2) by (auto simp: c2_def ranges_inv_def register_lease_simps)
  show "ids_inv c2" using inv(2) by (fastforce simp: c2_def ids_inv_def register_lease_simps)
  have d: "active_leases (diag c2) = active_leases (diag c1) + 1" "leases_released (diag c2) = leases_released (diag c1)"
    "leases_acquired (diag c2) = leases_acquired (diag c1) + 1"
    "lease_high_water (diag c2) = max (lease_high_water (diag c1)) (active_leases (diag c1) + 1)"
    by (simp_all add: c2_def register_lease_def Let_def)
  show "counts_inv c2"
    using inv(3) by (auto simp: counts_inv_def d) (auto simp: c2_def register_lease_simps key_count_def)
  show "pending_inv c2" using inv(4) by (fastforce simp: c2_def pending_inv_def register_lease_simps)
  have p: "protected c2 = protected c \<union> cover ranges" "pending_cover c2 = pending_cover c \<union> cover ranges"
    "common c2 = common c"
    by (simp_all add: c2_def register_lease_simps pending_cover_register cong)
  show "resident_inv c2"
    using inv(5) unfolding resident_inv_def p unfolding c2_def register_lease_simps assms(5,6) by blast
qed

lemma note_advised_peak_inv:
  assumes "planner_geometry (m, p)" "ranges_inv m p c" "ids_inv c" "counts_inv c" "pending_inv c" "resident_inv c"
  shows "\<exists>c'. note_advised_peak c = (Inr (), c') \<and> coordinator_inv m p c' \<and> state_books c' = state_books c
    \<and> advice_log c' = advice_log c \<and> no_failed_advice c' = no_failed_advice c
    \<and> unat (advised_bytes_high_water (diag c')) = max (unat (advised_bytes_high_water (diag c))) (card (protected c))
    \<and> poisoned (diag c') = poisoned (diag c)"
proof -
  obtain n where n: "note_advised_peak c =
      (Inr (), update_diag (\<lambda>d. d\<lparr>advised_bytes_high_water := max (advised_bytes_high_water d) n\<rparr>) c)"
    "unat n = card (protected c)"
    using note_advised_peak_ok [OF assms(1,2)] by blast
  let ?c = "update_diag (\<lambda>d. d\<lparr>advised_bytes_high_water := max (advised_bytes_high_water d) n\<rparr>) c"
  have eq: "ranges_inv m p ?c = ranges_inv m p c" "ids_inv ?c = ids_inv c" "counts_inv ?c = counts_inv c"
    "pending_inv ?c = pending_inv c" "resident_inv ?c = resident_inv c" "protected ?c = protected c"
    by (simp_all add: inv_defs resident_inv_def protected_def lease_ranges_def region_at_def key_count_def
        pending_cover_def no_failed_advice_def)
  have hw: "unat (max (advised_bytes_high_water (diag c)) n)
      = max (unat (advised_bytes_high_water (diag c))) (card (protected c))"
    by (simp add: n(2) max_def word_le_nat_alt)
  then have "peak_inv ?c" by (simp add: peak_inv_def eq)
  with assms eq hw n show ?thesis by (auto simp: coordinator_inv_def books_defs no_failed_advice_def)
qed

lemma token_counters_inv:
  assumes "coordinator_inv m p c" and "canonical ranges"
  shows "\<exists>c'. count_token_rows ranges token_rows c = (Inr (), c')
    \<and> coordinator_inv m p c' \<and> state_books c' = state_books c \<and> advice_log c' = advice_log c
    \<and> lease_books (diag c') = lease_books (diag c)"
proof -
  obtain n where n: "byte_count ranges = Inr n" using byte_count_canonical [OF assms(2)] by blast
  obtain k where k: "page_count ranges (page_size c) = Inr k" using page_count_canonical [OF assms(2)] by blast
  define t where "t = update_diag (\<lambda>d. d\<lparr>token_advised_pages := token_advised_pages d + k\<rparr>)
      (update_diag (\<lambda>d. d\<lparr>token_advised_bytes := token_advised_bytes d + n\<rparr>) c)"
  have t: "state_books t = state_books c" "lease_books (diag t) = lease_books (diag c)"
    "advice_log t = advice_log c" "no_failed_advice t = no_failed_advice c"
    by (simp_all add: t_def books_defs no_failed_advice_def)
  have "coordinator_inv m p t" using assms(1) t by (rule coordinator_inv_cong)
  with t assms(1) show ?thesis by (auto simp: n k t_def count_token_rows_def)
qed

lemma acquire_cases:
  assumes inv: "coordinator_inv m p c" and planned: "planned_ranges (m, p) ranges" "canonical ranges"
    and run: "acquire advice key ranges token_rows c = (res, c')"
  obtains
      (refused) e where "res = Inl e" "c' = c" "e = EmptyLease \<and> ranges = [] \<or> e = CoordinatorPoisoned \<and> poisoned (diag c)"
    | (advice_failed) message where "res = Inl (AdviceFailed WillNeed message)" "coordinator_inv m p c'"
        "state_books c' = state_books c" "lease_books (diag c') = lease_books (diag c)"
        "ranges \<noteq> []" "\<not> poisoned (diag c)"
    | (acquired) "res = Inr \<lparr>owned = True, lease_id = next_id c, lease_key = key,
          lease_token_rows = token_rows, compute_complete = False\<rparr>"
        "coordinator_inv m p c'" "active c' = active c @ [(next_id c, \<lparr>al_key = key, al_ranges = ranges\<rparr>)]"
        "common c' = common c" "protected c' = protected c \<union> cover ranges"
        "resident (advice_log c') = resident (advice_log c) \<union> cover ranges"
        "unat (advised_bytes_high_water (diag c')) =
           max (unat (advised_bytes_high_water (diag c))) (card (protected c'))"
        "ranges \<noteq> []" "\<not> poisoned (diag c)" "\<not> poisoned (diag c')"
proof (cases "ranges = [] \<or> poisoned (diag c)")
  case True
  then show thesis using run refused by (auto simp: acquire_def split: if_splits)
next
  case False
  then have body: "acquire advice key ranges token_rows c =
      bindM (forM ranges (call_advice advice WillNeed)) (\<lambda>_.
             bindM (getM next_id) (\<lambda>new_id.
             bindM (modifyM (register_lease key ranges)) (\<lambda>_.
             bindM note_advised_peak (\<lambda>_.
             bindM (count_token_rows ranges token_rows) (\<lambda>_.
             retM \<lparr>owned = True, lease_id = new_id, lease_key = key,
                    lease_token_rows = token_rows, compute_complete = False\<rparr>))))) c"
    by (simp add: acquire_def)
  obtain r1 c1 where adv: "forM ranges (call_advice advice WillNeed) c = (r1, c1)" by fastforce
  note frame = advise_all [OF adv]
  show thesis
  proof (cases r1)
    case (Inl e)
    then have "res = Inl e" "c' = c1" using run unfolding body by (simp_all add: bindM_run adv)
    moreover obtain message where "e = AdviceFailed WillNeed message" using frame Inl by auto
    ultimately show thesis
      using advice_failed willneed_failed_inv [OF inv adv [unfolded Inl]] False by blast
  next
    case (Inr u)
    then have c1: "state_books c1 = state_books c" "lease_books (diag c1) = lease_books (diag c)"
      "advice_log c1 = advice_log c @ map (\<lambda>r. AdviceCall WillNeed r True) ranges"
      "no_failed_advice c1 = no_failed_advice c"
      using frame by (auto simp: no_failed_advice_def)
    then have res1: "resident (advice_log c1) = resident (advice_log c) \<union> cover ranges"
      by (simp add: resident_append resident_willneed)
    define c2 where "c2 = register_lease key ranges c1"
    have geo: "planner_geometry (m, p)" using inv by (simp add: coordinator_inv_def)
    obtain c3 where c3: "note_advised_peak c2 = (Inr (), c3)" "coordinator_inv m p c3"
      "state_books c3 = state_books c2" "advice_log c3 = advice_log c2" "poisoned (diag c3) = poisoned (diag c2)"
      "unat (advised_bytes_high_water (diag c3)) = max (unat (advised_bytes_high_water (diag c2))) (card (protected c2))"
      using note_advised_peak_inv [OF geo register_lease_inv [OF inv planned(1) c1(1,2) res1 c1(4)]]
      unfolding c2_def by blast
    obtain c4 where c4: "count_token_rows ranges token_rows c3 = (Inr (), c4)" "coordinator_inv m p c4" "state_books c4 = state_books c3"
      "advice_log c4 = advice_log c3" "lease_books (diag c4) = lease_books (diag c3)"
      using token_counters_inv [OF c3(2) planned(2)] by blast
    have ids: "next_id c1 = next_id c" "active c1 = active c" "common c1 = common c" "protected c1 = protected c"
      using invariants_cong [OF c1(1,2)] by simp_all
    have "res = Inr \<lparr>owned = True, lease_id = next_id c, lease_key = key,
          lease_token_rows = token_rows, compute_complete = False\<rparr> \<and> c' = c4"
      using run unfolding body by (simp add: bindM_run adv Inr c2_def [symmetric] c3(1) c4(1) ids)
    moreover have p4: "state_books c4 = state_books c2" using c3 c4 by simp
    then have "active c4 = active c2" "common c4 = common c2" "lease_ranges c4 = lease_ranges c2"
      by (simp_all add: books_defs lease_ranges_def)
    moreover from this have "protected c4 = protected c2" by (simp add: protected_def)
    moreover have "poisoned (diag c2) = poisoned (diag c1)" "poisoned (diag c1) = poisoned (diag c)"
      "advised_bytes_high_water (diag c2) = advised_bytes_high_water (diag c1)"
      "advised_bytes_high_water (diag c1) = advised_bytes_high_water (diag c)"
      using c1(2) by (simp_all add: c2_def register_lease_def Let_def books_defs)
    ultimately show thesis
      using acquired c4 c3 False res1 ids by (simp add: c2_def register_lease_simps lease_books_def)
  qed
qed

text \<open>A planned, non-empty request to a healthy coordinator whose advice succeeds is granted.\<close>

lemma advise_succeeds:
  assumes "\<And>log r. r \<in> set rs \<Longrightarrow> advice log r kind = None"
  shows "fst (forM rs (call_advice advice kind) c) = Inr ()"
proof (cases "forM rs (call_advice advice kind) c")
  case (Pair r d)
  have "r \<noteq> Inl (AdviceFailed kind message)" for message
    using Pair assms
  proof (induction rs arbitrary: c)
    case (Cons x xs)
    have none: "advice (advice_log c) x kind = None" using Cons.prems(2) by simp
    obtain e where e: "call_advice advice kind x c = (Inr (), e)" using call_advice_ok [where advice = advice
        and c = c and r = x and kind = kind] none by blast
    then show ?case using Cons by (simp add: bindM_eq)
  qed auto
  then show ?thesis using advise_all [OF Pair] Pair by auto
qed

subsection \<open>Releasing a lease\<close>

text \<open>The state after the counters of a release were updated, before a region is dropped.\<close>

definition uncount_lease :: "nat \<Rightarrow> string \<Rightarrow> coordinator \<Rightarrow> coordinator" where
  "uncount_lease lid key c = update_diag (\<lambda>d. d\<lparr>compute_completions := compute_completions d + 1,
       active_leases := active_leases d - 1, leases_released := leases_released d + 1\<rparr>)
     (c\<lparr>regions := (regions c)(key \<mapsto> (region_at c key)\<lparr>rg_count := rg_count (region_at c key) - 1\<rparr>),
        active := filter (\<lambda>(i, _). i \<noteq> lid) (active c)\<rparr>)"

lemma uncount_simps:
  "mapping_size (uncount_lease lid key c) = mapping_size c"
  "page_size (uncount_lease lid key c) = page_size c"
  "next_id (uncount_lease lid key c) = next_id c"
  "active (uncount_lease lid key c) = filter (\<lambda>(i, _). i \<noteq> lid) (active c)"
  "common (uncount_lease lid key c) = common c"
  "common_bytes (uncount_lease lid key c) = common_bytes c"
  "advice_log (uncount_lease lid key c) = advice_log c"
  "no_failed_advice (uncount_lease lid key c) = no_failed_advice c"
  "region_at (uncount_lease lid key c) k = (if k = key
     then (region_at c key)\<lparr>rg_count := rg_count (region_at c key) - 1\<rparr> else region_at c k)"
  "active_leases (diag (uncount_lease lid key c)) = active_leases (diag c) - 1"
  "leases_released (diag (uncount_lease lid key c)) = leases_released (diag c) + 1"
  "leases_acquired (diag (uncount_lease lid key c)) = leases_acquired (diag c)"
  "lease_high_water (diag (uncount_lease lid key c)) = lease_high_water (diag c)"
  "poisoned (diag (uncount_lease lid key c)) = poisoned (diag c)"
  "advised_bytes_high_water (diag (uncount_lease lid key c)) = advised_bytes_high_water (diag c)"
  by (simp_all add: uncount_lease_def no_failed_advice_def region_at_def)

lemma filter_lease_split:
  assumes "distinct (map fst xs)" and "(lid, a) \<in> set xs"
  shows "\<exists>us vs. xs = us @ (lid, a) # vs \<and> filter (\<lambda>(i, _). i \<noteq> lid) xs = us @ vs"
proof -
  obtain us vs where xs: "xs = us @ (lid, a) # vs" using assms(2) by (auto simp: in_set_conv_decomp)
  then have "\<forall>(i, _)\<in>set (us @ vs). i \<noteq> lid" using assms(1) by (force simp: rev_image_eqI)
  then have "filter (\<lambda>(i, _). i \<noteq> lid) (us @ vs) = us @ vs" by (intro filter_True)
  then show ?thesis using xs by auto
qed

lemma uncount_inv:
  assumes inv: "coordinator_inv m p c" and mem: "(lid, a) \<in> set (active c)" and key: "al_key a = key"
  defines "c2 \<equiv> uncount_lease lid key c"
  shows "ranges_inv m p c2" "ids_inv c2" "counts_inv c2" "protected c2 \<subseteq> protected c"
    "pending_cover c2 = pending_cover c" "rg_count (region_at c key) \<noteq> 0" "peak_inv c2"
    "rg_count (region_at c2 key) \<noteq> 0 \<Longrightarrow> pending_inv c2"
    "cover (lease_ranges c2) \<subseteq> (\<Union>(i, b)\<in>set (active c2). cover (rg_pending (region_at c2 (al_key b))))"
proof -
  have parts: "ranges_inv m p c" "ids_inv c" "counts_inv c" "pending_inv c" "peak_inv c"
    using inv by (simp_all add: coordinator_inv_def)
  obtain us vs where split: "active c = us @ (lid, a) # vs" "active c2 = us @ vs"
    using filter_lease_split [OF _ mem] parts(2) by (auto simp: ids_inv_def c2_def uncount_simps)
  have region: "region_at c2 k = (if k = key
     then (region_at c key)\<lparr>rg_count := rg_count (region_at c key) - 1\<rparr> else region_at c k)" for k
    by (simp add: c2_def uncount_simps)
  have pend: "rg_pending (region_at c2 k) = rg_pending (region_at c k)" for k by (simp add: region)
  have kc: "key_count k c = key_count k c2 + (if k = key then 1 else 0)" for k
    by (simp add: key_count_def split key)
  have count: "rg_count (region_at c k) = key_count k c" for k
    using parts(3) by (simp add: counts_inv_def)
  then show nz: "rg_count (region_at c key) \<noteq> 0" by (simp add: kc)
  show "ranges_inv m p c2"
    using parts(1) by (auto simp: ranges_inv_def split pend) (auto simp: c2_def uncount_simps)
  show "ids_inv c2" using parts(2) by (auto simp: ids_inv_def split) (auto simp: c2_def uncount_simps)
  have d: "active_leases (diag c2) = active_leases (diag c) - 1" "leases_released (diag c2) = leases_released (diag c) + 1"
    "leases_acquired (diag c2) = leases_acquired (diag c)" "lease_high_water (diag c2) = lease_high_water (diag c)"
    by (simp_all add: c2_def uncount_simps)
  show "counts_inv c2"
    using parts(3) by (auto simp: counts_inv_def d split region kc)
  show prot: "protected c2 \<subseteq> protected c"
    by (auto simp: protected_def cover_lease_ranges split) (auto simp: c2_def uncount_simps)
  show "pending_cover c2 = pending_cover c" by (simp add: pending_cover_def pend)
  have "card (protected c2) \<le> card (protected c)"
    using prot protected_below [OF parts(1)] by (meson card_mono finite_lessThan finite_subset)
  then show "peak_inv c2" using parts(5) by (simp add: peak_inv_def c2_def uncount_simps)
  have sub: "\<forall>(i, b)\<in>set (active c2). cover (al_ranges b) \<subseteq> cover (rg_pending (region_at c2 (al_key b)))"
    using parts(4) by (auto simp: pending_inv_def split pend)
  then show "cover (lease_ranges c2) \<subseteq> (\<Union>(i, b)\<in>set (active c2). cover (rg_pending (region_at c2 (al_key b))))"
    unfolding cover_lease_ranges by fastforce
  show "pending_inv c2" if "rg_count (region_at c2 key) \<noteq> 0"
    using that sub parts(4) by (auto simp: pending_inv_def region)
qed

lemma poison_inv: "coordinator_inv m p c \<Longrightarrow> coordinator_inv m p (update_diag (\<lambda>d. d\<lparr>poisoned := True\<rparr>) c)"
  by (simp add: coordinator_inv_def inv_defs resident_inv_def protected_def lease_ranges_def region_at_def
      key_count_def pending_cover_def no_failed_advice_def)

text \<open>
  Dropping a region advises out exactly its pending bytes that nothing else protects. The
  planning cannot fail; when an advice call fails the coordinator is poisoned.
\<close>

lemma drop_region_ok:
  assumes geo: "planner_geometry (m, p)" and rinv: "ranges_inv m p c" and iinv: "ids_inv c"
    and cinv: "counts_inv c" and kinv: "peak_inv c"
    and zero: "rg_count (region_at c key) = 0"
    and others: "\<And>k. k \<noteq> key \<Longrightarrow> rg_count (region_at c k) = 0 \<Longrightarrow> rg_pending (region_at c k) = []"
    and pend: "\<forall>(i, a)\<in>set (active c). cover (al_ranges a) \<subseteq> cover (rg_pending (region_at c (al_key a)))"
    and prot: "protected c \<subseteq> resident (advice_log c)"
    and upper: "no_failed_advice c \<longrightarrow> resident (advice_log c) \<subseteq> cover (common c) \<union> pending_cover c"
    and run: "drop_region advice key c = (res, c')"
  shows "coordinator_inv m p c' \<and> active c' = active c \<and> common c' = common c \<and> protected c' = protected c
    \<and> (\<exists>dropped. advice_log c' = advice_log c @ dropped
         \<and> (\<forall>call\<in>set dropped. call_kind call = DontNeed \<and> bytes_of (call_range call) \<inter> protected c = {}))
    \<and> (res = Inr () \<and> poisoned (diag c') = poisoned (diag c)
         \<and> resident (advice_log c') = resident (advice_log c) - (cover (rg_pending (region_at c key)) - protected c)
       \<or> (\<exists>message. res = Inl (AdviceFailed DontNeed message)) \<and> poisoned (diag c'))"
proof -
  define pending where "pending = rg_pending (region_at c key)"
  define c3 where "c3 = c\<lparr>regions := (regions c)(key \<mapsto> (region_at c key)\<lparr>rg_pending := []\<rparr>)\<rparr>"
  have geometry: "mapping_size c = m" "page_size c = p" using rinv by (auto simp: ranges_inv_def)
  have pp: "planned_ranges (m, p) pending" using rinv by (auto simp: ranges_inv_def pending_def)
  have same: "active c3 = active c" "common c3 = common c" "lease_ranges c3 = lease_ranges c"
    "protected c3 = protected c" "mapping_size c3 = m" "page_size c3 = p" "advice_log c3 = advice_log c"
    "diag c3 = diag c" "no_failed_advice c3 = no_failed_advice c"
    by (simp_all add: c3_def lease_ranges_def protected_def geometry no_failed_advice_def)
  have region: "region_at c3 k = (if k = key then (region_at c key)\<lparr>rg_pending := []\<rparr> else region_at c k)" for k
    by (simp add: c3_def)
  have no_key: "al_key a \<noteq> key" if "(i, a) \<in> set (active c)" for i a
  proof -
    have "key_count key c = 0" using cinv zero by (simp add: counts_inv_def)
    then show ?thesis using that by (auto simp: key_count_def filter_empty_conv)
  qed
  have pc: "planned_ranges (m, p) (common c @ lease_ranges c)"
    using rinv planned_lease_ranges [OF rinv] by (simp add: ranges_inv_def)
  obtain q kept out where plan: "page_align_and_coalesce pending m p = Inr q"
    "(if common c @ lease_ranges c \<noteq> [] then page_align_and_coalesce (common c @ lease_ranges c) m p
      else Inr (common c @ lease_ranges c)) = Inr kept"
    "subtract_ranges q kept = Inr out" "cover out = cover pending - cover (common c @ lease_ranges c)"
    using planner.plan_and_subtract [OF geo pp pc] by (auto split: if_splits)
  have out: "releasable_ranges pending c3 = Inr out"
    unfolding releasable_ranges_def same lease_ranges_def [symmetric] Let_def plan(1) bindE.simps plan(2)
    by (rule plan(3))
  have out_cover: "cover out = cover pending - protected c"
    using plan(4) by (simp add: protected_def)
  define loop where "loop = forM out (call_advice advice DontNeed) c3"
  have body: "drop_region advice key c = (case loop of
        (Inr u, d) \<Rightarrow> (Inr u, d)
      | (Inl e, d) \<Rightarrow> (Inl e, update_diag (\<lambda>d. d\<lparr>poisoned := True\<rparr>) d))"
    unfolding drop_region_def
    by (simp add: geometry pending_def [symmetric] plan(1) c3_def [symmetric] out catchM_def loop_def [symmetric]
        split: prod.split sum.split)
  obtain r d where loop: "loop = (r, d)" by fastforce
  note frame = advise_all [OF loop [unfolded loop_def]]
  have cong: "ranges_inv m p d = ranges_inv m p c3" "ids_inv d = ids_inv c3" "counts_inv d = counts_inv c3"
    "pending_inv d = pending_inv c3" "peak_inv d = peak_inv c3" "protected d = protected c"
    "pending_cover d = pending_cover c3" "common d = common c" "active d = active c"
    using invariants_cong [of d c3] frame same by auto
  have base: "ranges_inv m p c3" "ids_inv c3" "counts_inv c3" "peak_inv c3" "pending_inv c3"
  proof -
    show "ranges_inv m p c3"
      using rinv by (auto simp: ranges_inv_def region same) (simp_all add: c3_def)
    show "ids_inv c3" using iinv by (simp add: ids_inv_def same) (simp add: c3_def)
    show "counts_inv c3" using cinv by (auto simp: counts_inv_def region same key_count_def)
    show "peak_inv c3" using kinv by (simp add: peak_inv_def same)
    show "pending_inv c3" using others pend no_key zero by (fastforce simp: pending_inv_def region same)
  qed
  have pcov: "pending_cover c \<subseteq> cover pending \<union> pending_cover c3"
    by (auto simp: pending_cover_def region pending_def split: if_splits)
  have lsub: "cover (lease_ranges c) \<subseteq> pending_cover c3"
  proof
    fix b assume "b \<in> cover (lease_ranges c)"
    then obtain i a where a: "(i, a) \<in> set (active c)" "b \<in> cover (al_ranges a)"
      by (auto simp: cover_lease_ranges)
    then have "b \<in> cover (rg_pending (region_at c3 (al_key a)))" using pend no_key [OF a(1)] by (auto simp: region)
    then show "b \<in> pending_cover c3" by (auto simp: pending_cover_def)
  qed
  have inv_d: "coordinator_inv m p d" and drops: "resident (advice_log d) = resident (advice_log c) - cover done"
    if w: "advice_log d = advice_log c @ map (\<lambda>r. AdviceCall DontNeed r True) done @ rest"
      "\<forall>call\<in>set rest. \<not> call_ok call" "cover done \<subseteq> cover out" "rest = [] \<longrightarrow> done = out"
      "rest = [] \<longrightarrow> no_failed_advice d = no_failed_advice c" "rest \<noteq> [] \<longrightarrow> \<not> no_failed_advice d" for "done" rest
  proof -
    have idle: "foldl resident_step B rest = B" for B
      using w(2)
    proof (induction rest arbitrary: B)
      case (Cons x xs)
      then show ?case by (cases x) simp
    qed simp
    show *: "resident (advice_log d) = resident (advice_log c) - cover done"
      using w(1) idle by (simp add: resident_append resident_dontneed)
    have "protected c \<subseteq> resident (advice_log d)" using prot * w(3) out_cover by blast
    moreover have "resident (advice_log d) \<subseteq> cover (common c) \<union> pending_cover c3" if nf: "no_failed_advice d"
    proof -
      have e: "rest = []" "no_failed_advice c" using nf w(5,6) by blast+
      have "cover done = cover pending - protected c" using e(1) out_cover w(4) by simp
      then show ?thesis using * upper e(2) pcov lsub unfolding protected_def by blast
    qed
    ultimately show "coordinator_inv m p d"
      using geo base by (simp add: coordinator_inv_def resident_inv_def cong)
  qed
  have touched: "\<forall>call\<in>set (map (\<lambda>r. AdviceCall DontNeed r ok) rs).
      call_kind call = DontNeed \<and> bytes_of (call_range call) \<inter> protected c = {}"
    if "set rs \<subseteq> set out" for rs ok
  proof -
    have "bytes_of r \<subseteq> cover out" if "r \<in> set rs" for r
      using that \<open>set rs \<subseteq> set out\<close> by (auto simp: cover_def)
    then show ?thesis using out_cover by fastforce
  qed
  show ?thesis
  proof (cases r)
    case (Inr u)
    then have fr: "advice_log d = advice_log c @ map (\<lambda>r. AdviceCall DontNeed r True) out"
      "no_failed_advice d = no_failed_advice c" "lease_books (diag d) = lease_books (diag c)"
      using frame by (auto simp: same no_failed_advice_def)
    have c': "res = Inr ()" "c' = d" using run unfolding body loop Inr by simp_all
    have "coordinator_inv m p d" "resident (advice_log d) = resident (advice_log c) - cover out"
      using inv_d [of out "[]"] drops [of out "[]"] fr by auto
    moreover have "poisoned (diag d) = poisoned (diag c)" using fr(3) by (simp add: lease_books_def)
    ultimately show ?thesis
      using c' fr(1) cong touched [of out True] out_cover by (auto simp: pending_def)
  next
    case (Inl e)
    then obtain before x after message where fr: "e = AdviceFailed DontNeed message" "out = before @ x # after"
      "advice_log d = advice_log c @ map (\<lambda>r. AdviceCall DontNeed r True) before @ [AdviceCall DontNeed x False]"
      "\<not> no_failed_advice d"
      using frame by (auto simp: same)
    have c': "res = Inl e" "c' = update_diag (\<lambda>d. d\<lparr>poisoned := True\<rparr>) d"
      using run unfolding body loop Inl by simp_all
    have "coordinator_inv m p d"
      using inv_d [of before "[AdviceCall DontNeed x False]"] fr by auto
    then have "coordinator_inv m p c'" unfolding c' by (rule poison_inv)
    moreover have "\<forall>call\<in>set (map (\<lambda>r. AdviceCall DontNeed r True) before @ map (\<lambda>r. AdviceCall DontNeed r False) [x]).
      call_kind call = DontNeed \<and> bytes_of (call_range call) \<inter> protected c = {}"
      using touched [of before True] touched [of "[x]" False] fr(2) by auto
    moreover have "advice_log c' = advice_log c @ (map (\<lambda>r. AdviceCall DontNeed r True) before
        @ map (\<lambda>r. AdviceCall DontNeed r False) [x])"
      using c'(2) fr(3) by simp
    moreover have "active c' = active c" "common c' = common c" "protected c' = protected c" "poisoned (diag c')"
      using cong by (simp_all add: c'(2) protected_def lease_ranges_def)
    ultimately show ?thesis using c'(1) fr(1) by blast
  qed
qed

lemma release_cases:
  assumes inv: "coordinator_inv m p c" and run: "release_lease advice lid key complete c = (res, c')"
    and match: "\<And>a. (lid, a) \<in> set (active c) \<Longrightarrow> al_key a = key"
  obtains
      (unknown) "lid \<notin> fst ` set (active c)" "res = Inr ()" "c' = c"
    | (premature) "lid \<in> fst ` set (active c)" "\<not> complete" "res = Inl PrematureRelease" "coordinator_inv m p c'"
        "active c' = active c" "common c' = common c" "poisoned (diag c')" "advice_log c' = advice_log c"
    | (released) dropped where "lid \<in> fst ` set (active c)" "complete" "coordinator_inv m p c'"
        "active c' = filter (\<lambda>(i, _). i \<noteq> lid) (active c)" "common c' = common c"
        "advice_log c' = advice_log c @ dropped"
        "\<forall>call\<in>set dropped. call_kind call = DontNeed \<and> bytes_of (call_range call) \<inter> protected c' = {}"
        "res = Inr () \<and> poisoned (diag c') = poisoned (diag c)
          \<or> (\<exists>message. res = Inl (AdviceFailed DontNeed message)) \<and> poisoned (diag c')"
proof (cases "map_of (active c) lid")
  case None
  then show thesis using unknown run by (simp add: release_lease_def map_of_eq_None_iff)
next
  case (Some a)
  then have mem: "(lid, a) \<in> set (active c)" by (rule map_of_SomeD)
  then have lid: "lid \<in> fst ` set (active c)" by force
  note key = match [OF mem]
  show thesis
  proof (cases complete)
    case False
    let ?c = "update_diag (\<lambda>d. d\<lparr>premature_release_attempts := premature_release_attempts d + 1, poisoned := True\<rparr>) c"
    have "res = Inl PrematureRelease" "c' = ?c" using run False Some by (simp_all add: release_lease_def)
    moreover have "coordinator_inv m p ?c"
      using inv by (simp add: coordinator_inv_def inv_defs resident_inv_def protected_def lease_ranges_def
          region_at_def key_count_def pending_cover_def no_failed_advice_def)
    ultimately show thesis using premature lid False by simp
  next
    case True
    define c2 where "c2 = uncount_lease lid key c"
    note u = uncount_inv [OF inv mem key, folded c2_def]
    have parts: "planner_geometry (m, p)" "pending_inv c" "resident_inv c"
      using inv by (simp_all add: coordinator_inv_def)
    have c2: "active c2 = filter (\<lambda>(i, _). i \<noteq> lid) (active c)" "common c2 = common c" "advice_log c2 = advice_log c"
      "no_failed_advice c2 = no_failed_advice c" "poisoned (diag c2) = poisoned (diag c)"
      "rg_count (region_at c2 key) = rg_count (region_at c key) - 1"
      by (simp_all add: c2_def uncount_simps)
    have run2: "(if rg_count (region_at c key) - 1 \<noteq> 0 then retM () else drop_region advice key) c2 = (res, c')"
      using run Some True u(6) by (simp add: release_lease_def c2_def uncount_lease_def)
    have prot: "protected c2 \<subseteq> resident (advice_log c2)"
      using u(4) parts(3) c2(3) by (auto simp: resident_inv_def)
    have upper: "no_failed_advice c2 \<longrightarrow> resident (advice_log c2) \<subseteq> cover (common c2) \<union> pending_cover c2"
      using parts(3) by (simp add: resident_inv_def c2 u(5))
    show thesis
    proof (cases "rg_count (region_at c2 key) = 0")
      case False
      then have "res = Inr ()" "c' = c2" using run2 c2(6) by simp_all
      moreover have "coordinator_inv m p c2"
        using parts(1) u False prot upper by (simp add: coordinator_inv_def resident_inv_def)
      ultimately show thesis using released [of "[]"] lid True c2 by simp
    next
      case zero: True
      have run3: "drop_region advice key c2 = (res, c')" using run2 zero c2(6) by simp
      have others: "rg_pending (region_at c2 k) = []" if "k \<noteq> key" "rg_count (region_at c2 k) = 0" for k
        using that parts(2) by (simp add: pending_inv_def c2_def uncount_simps)
      have pend: "\<forall>(i, a)\<in>set (active c2). cover (al_ranges a) \<subseteq> cover (rg_pending (region_at c2 (al_key a)))"
        using parts(2) by (fastforce simp: pending_inv_def c2_def uncount_simps)
      note d = drop_region_ok [OF parts(1) u(1,2,3,7) zero others pend prot upper run3]
      then obtain dropped where "advice_log c' = advice_log c2 @ dropped"
        "\<forall>call\<in>set dropped. call_kind call = DontNeed \<and> bytes_of (call_range call) \<inter> protected c2 = {}" by blast
      with d show thesis using released [of dropped] lid True c2 by auto
    qed
  qed
qed

subsection \<open>Lease objects and the coordinator together\<close>

text \<open>
  A program that uses leases: the coordinator and the lease objects its variables hold. The
  ranges it retains and acquires are plans of the planner, as at every call site.
\<close>

type_synonym program = "coordinator \<times> (string \<Rightarrow> lease option)"

inductive lease_step :: "advice_function \<Rightarrow> program \<Rightarrow> program \<Rightarrow> bool" for advice where
  step_retain: "page_align_and_coalesce raw (mapping_size c) (page_size c) = Inr ranges \<Longrightarrow>
     retain_common advice ranges c = (res, c') \<Longrightarrow> lease_step advice (c, h) (c', h)"
| step_classify: "set_classification common_ranges token layers c = (res, c') \<Longrightarrow>
     lease_step advice (c, h) (c', h)"
| step_acquire: "page_align_and_coalesce raw (mapping_size c) (page_size c) = Inr ranges \<Longrightarrow>
     acquire advice key ranges token_rows c = (Inr l, c') \<Longrightarrow> h v = None \<Longrightarrow>
     lease_step advice (c, h) (c', h(v \<mapsto> l))"
| step_acquire_throws: "page_align_and_coalesce raw (mapping_size c) (page_size c) = Inr ranges \<Longrightarrow>
     acquire advice key ranges token_rows c = (Inl e, c') \<Longrightarrow> lease_step advice (c, h) (c', h)"
| step_default: "h v = None \<Longrightarrow> lease_step advice (c, h) (c, h(v \<mapsto> empty_lease))"
| step_mark: "h v = Some l \<Longrightarrow> lease_step advice (c, h) (c, h(v \<mapsto> mark_compute_complete l))"
| step_release: "h v = Some l \<Longrightarrow> lease_release advice l c = ((res, c'), l') \<Longrightarrow>
     lease_step advice (c, h) (c', h(v \<mapsto> l'))"
| step_destroy: "h v = Some l \<Longrightarrow> lease_step advice (c, h) (lease_destroy advice l c, h(v := None))"
| step_move: "h v = Some l \<Longrightarrow> h w = None \<Longrightarrow> lease_move l = (l', rest) \<Longrightarrow>
     lease_step advice (c, h) (c, h(w \<mapsto> l', v \<mapsto> rest))"
| step_move_assign: "h w = Some self \<Longrightarrow> h v = Some other \<Longrightarrow> v \<noteq> w \<Longrightarrow>
     lease_move_assign advice self other c = (c', self', other') \<Longrightarrow>
     lease_step advice (c, h) (c', h(w \<mapsto> self', v \<mapsto> other'))"

inductive_cases lease_stepE: "lease_step advice (c, h) (c', h')"

definition reachable :: "advice_function \<Rightarrow> u64 \<Rightarrow> u64 \<Rightarrow> program \<Rightarrow> bool" where
  "reachable advice m p s \<longleftrightarrow> (\<exists>c. new_coordinator m p (Some advice) = Inr c
     \<and> (lease_step advice)\<^sup>*\<^sup>* (c, \<lambda>_. None) s)"

text \<open>Owned lease objects name active leases of their key, no two the same one.\<close>

definition handles_inv :: "program \<Rightarrow> bool" where
  "handles_inv = (\<lambda>(c, h). (\<forall>v l. h v = Some l \<and> owned l \<longrightarrow>
       (\<exists>a. (lease_id l, a) \<in> set (active c) \<and> al_key a = lease_key l))
     \<and> (\<forall>v w l l'. h v = Some l \<and> h w = Some l' \<and> owned l \<and> owned l' \<and> lease_id l = lease_id l' \<longrightarrow> v = w))"

definition program_inv :: "u64 \<Rightarrow> u64 \<Rightarrow> program \<Rightarrow> bool" where
  "program_inv m p s \<longleftrightarrow> coordinator_inv m p (fst s) \<and> handles_inv s"

lemma handles_invD:
  "handles_inv (c, h) \<Longrightarrow> h v = Some l \<Longrightarrow> owned l \<Longrightarrow>
     \<exists>a. (lease_id l, a) \<in> set (active c) \<and> al_key a = lease_key l"
  "handles_inv (c, h) \<Longrightarrow> h v = Some l \<Longrightarrow> h w = Some l' \<Longrightarrow> owned l \<Longrightarrow> owned l' \<Longrightarrow>
     lease_id l = lease_id l' \<Longrightarrow> v = w"
  unfolding handles_inv_def by blast+

lemma initial_inv:
  assumes "new_coordinator m p (Some advice) = Inr c" and "planner_geometry (m, p)"
  shows "program_inv m p (c, \<lambda>_. None)"
  using assms by (auto simp: program_inv_def handles_inv_def new_coordinator_def coordinator_inv_def inv_defs
      resident_inv_def protected_def lease_ranges_def region_at_def key_count_def initial_diagnostics_def
      resident_def)

lemma retain_common_inv:
  assumes inv: "coordinator_inv m p c" and plan: "page_align_and_coalesce raw (mapping_size c) (page_size c) = Inr ranges"
    and run: "retain_common advice ranges c = (res, c')"
  shows "coordinator_inv m p c' \<and> active c' = active c \<and> poisoned (diag c') = poisoned (diag c)"
proof (cases "common c = []")
  case False
  then show ?thesis using run inv by (simp add: retain_common_def)
next
  case True
  have geo: "mapping_size c = m" "page_size c = p" "planner_geometry (m, p)"
    using inv by (auto simp: coordinator_inv_def ranges_inv_def)
  have planned: "planned_ranges (m, p) ranges" "canonical ranges"
    using planned_if_page_align [OF plan] by (simp_all add: geo)
  obtain n where n: "byte_count ranges = Inr n" "unat n = card (cover ranges)"
    using byte_count_canonical [OF planned(2)] by blast
  obtain r1 c1 where adv: "forM ranges (call_advice advice WillNeed) c = (r1, c1)" by fastforce
  note frame = advise_all [OF adv]
  show ?thesis
  proof (cases r1)
    case (Inl e)
    then have "c' = c1" using run True by (simp add: retain_common_def bindM_run adv)
    moreover from willneed_failed_inv [OF inv adv [unfolded Inl]] have "coordinator_inv m p c1"
      "active c1 = active c" "poisoned (diag c1) = poisoned (diag c)" by (simp_all add: books_defs)
    ultimately show ?thesis by simp
  next
    case (Inr u)
    then have c1: "state_books c1 = state_books c" "lease_books (diag c1) = lease_books (diag c)"
      "advice_log c1 = advice_log c @ map (\<lambda>r. AdviceCall WillNeed r True) ranges"
      "no_failed_advice c1 = no_failed_advice c"
      using frame by (auto simp: no_failed_advice_def)
    note cong = invariants_cong [OF c1(1,2)]
    define c2 where "c2 = c1\<lparr>common := ranges, common_bytes := n\<rparr>"
    have c2: "lease_ranges c2 = lease_ranges c" "region_at c2 = region_at c" "active c2 = active c"
      "common c2 = ranges" "advice_log c2 = advice_log c1" "no_failed_advice c2 = no_failed_advice c"
      "diag c2 = diag c1" "pending_cover c2 = pending_cover c"
      using cong c1(4)
      by (simp_all add: c2_def lease_ranges_def fun_eq_iff region_at_def no_failed_advice_def pending_cover_def)
    have parts: "ranges_inv m p c1" "ids_inv c1" "counts_inv c1" "pending_inv c1" "resident_inv c"
      using inv cong by (simp_all add: coordinator_inv_def)
    have res: "resident (advice_log c2) = resident (advice_log c) \<union> cover ranges"
      by (simp add: c2 c1(3) resident_append resident_willneed)
    have "ranges_inv m p c2" using parts(1) planned n(2) by (auto simp: ranges_inv_def c2 cong) (auto simp: c2_def cong)
    moreover have "ids_inv c2" using parts(2) by (simp add: ids_inv_def c2 cong) (simp add: c2_def cong)
    moreover have "counts_inv c2" using parts(3) by (simp add: counts_inv_def c2 cong key_count_def)
    moreover have "pending_inv c2" using parts(4) by (simp add: pending_inv_def c2 cong)
    moreover have "resident_inv c2"
      using parts(5) True unfolding resident_inv_def res protected_def by (auto simp: c2 protected_def)
    ultimately obtain c3 where "note_advised_peak c2 = (Inr (), c3)" "coordinator_inv m p c3"
      "state_books c3 = state_books c2" "poisoned (diag c3) = poisoned (diag c2)"
      using note_advised_peak_inv [OF geo(3)] by blast
    moreover have "retain_common advice ranges c = note_advised_peak c2"
      using True by (simp add: retain_common_def bindM_run adv Inr n(1) c2_def)
    moreover have "poisoned (diag c1) = poisoned (diag c)" using c1(2) by (simp add: lease_books_def)
    ultimately show ?thesis using run by (auto simp: books_defs c2)
  qed
qed

text \<open>Classification only writes the counters of classes.\<close>

lemma set_classification_frame:
  assumes "set_classification common_ranges token layers c = (res, c')"
  shows "state_books c' = state_books c \<and> lease_books (diag c') = lease_books (diag c)
    \<and> advice_log c' = advice_log c \<and> no_failed_advice c' = no_failed_advice c"
proof -
  let ?same = "\<lambda>d. state_books d = state_books c \<and> lease_books (diag d) = lease_books (diag c)
    \<and> advice_log d = advice_log c \<and> no_failed_advice d = no_failed_advice c"
  have lift: "keeps ?same (liftM PlannerFailed r)" for r :: "range_error + u64"
    by (simp add: keeps_def liftM_def)
  have get: "keeps ?same (getM f)" for f :: "coordinator \<Rightarrow> u64" by (simp add: keeps_def)
  have upd: "keeps ?same (modifyM (update_diag f))"
    if "\<And>d. lease_books (f d) = lease_books d" "\<And>d. willneed_failures (f d) = willneed_failures d"
      "\<And>d. dontneed_failures (f d) = dontneed_failures d" for f
    using that by (simp add: keeps_def books_defs no_failed_advice_def)
  have "keeps ?same (set_classification common_ranges token layers)"
    unfolding set_classification_def
    by (intro keeps_bindM keeps_forM lift get upd) (simp_all add: lease_books_def)
  then show ?thesis using assms by (auto dest: keepsD)
qed

lemma handles_inv_empty: "h v = None \<Longrightarrow> handles_inv (c, h) \<Longrightarrow> handles_inv (c, h(v \<mapsto> empty_lease))"
  by (auto simp: handles_inv_def empty_lease_def)

text \<open>
  Replacing the lease of a variable by one that is no longer owned, or by none, keeps the
  invariant when the lease's own entry is the only one that left the active map.
\<close>

lemma handles_inv_release:
  assumes "handles_inv (c, h)" and "h v = Some l" and "new = None \<or> (\<exists>l'. new = Some l' \<and> \<not> owned l')"
    and "\<And>i a. (i, a) \<in> set (active c) \<Longrightarrow> \<not> owned l \<or> i \<noteq> lease_id l \<Longrightarrow> (i, a) \<in> set (active c')"
  shows "handles_inv (c', h(v := new))"
proof -
  have "\<exists>a. (lease_id k, a) \<in> set (active c') \<and> al_key a = lease_key k"
    if k: "h w = Some k" "owned k" "w \<noteq> v" for w k
  proof -
    obtain a where "(lease_id k, a) \<in> set (active c)" "al_key a = lease_key k"
      using handles_invD(1) [OF assms(1) k(1,2)] by blast
    moreover have "\<not> owned l \<or> lease_id k \<noteq> lease_id l"
      using handles_invD(2) [OF assms(1) k(1) assms(2) k(2)] k(3) by blast
    ultimately show ?thesis using assms(4) by blast
  qed
  then show ?thesis using assms(1,3) unfolding handles_inv_def by (auto split: if_splits)
qed

lemma lease_release_inv:
  assumes inv: "program_inv m p (c, h)" and v: "h v = Some l"
    and run: "lease_release advice l c = ((res, c'), l')"
  shows "coordinator_inv m p c'" "\<not> owned l'" "res \<noteq> Inl AccountingUnderflow"
    "\<And>i a. (i, a) \<in> set (active c) \<Longrightarrow> \<not> owned l \<or> i \<noteq> lease_id l \<Longrightarrow> (i, a) \<in> set (active c')"
    "poisoned (diag c) \<Longrightarrow> poisoned (diag c')"
proof -
  have ci: "coordinator_inv m p c" using inv by (simp add: program_inv_def)
  have ids: "distinct (map fst (active c))" using ci by (simp add: coordinator_inv_def ids_inv_def)
  have "coordinator_inv m p c' \<and> \<not> owned l' \<and> res \<noteq> Inl AccountingUnderflow
    \<and> (\<forall>i a. (i, a) \<in> set (active c) \<and> (\<not> owned l \<or> i \<noteq> lease_id l) \<longrightarrow> (i, a) \<in> set (active c'))
    \<and> (poisoned (diag c) \<longrightarrow> poisoned (diag c'))"
  proof (cases "owned l")
    case False
    then show ?thesis using run ci by (auto simp: lease_release_def)
  next
    case True
    then have r: "release_lease advice (lease_id l) (lease_key l) (compute_complete l) c = (res, c')"
      "l' = l\<lparr>owned := False\<rparr>"
      using run by (simp_all add: lease_release_def)
    obtain a where a: "(lease_id l, a) \<in> set (active c)" "al_key a = lease_key l"
      using handles_invD(1) [of c h v l] v True inv by (auto simp: program_inv_def)
    have match: "al_key b = lease_key l" if "(lease_id l, b) \<in> set (active c)" for b
      using a that ids eq_key_imp_eq_value by metis
    from ci r(1) match show ?thesis
      by (rule release_cases) (use ci r(2) True in auto)
  qed
  then show "coordinator_inv m p c'" "\<not> owned l'" "res \<noteq> Inl AccountingUnderflow"
    "\<And>i a. (i, a) \<in> set (active c) \<Longrightarrow> \<not> owned l \<or> i \<noteq> lease_id l \<Longrightarrow> (i, a) \<in> set (active c')"
    "poisoned (diag c) \<Longrightarrow> poisoned (diag c')" by blast+
qed

lemma planned_for_coordinator:
  assumes "coordinator_inv m p c" and "page_align_and_coalesce raw (mapping_size c) (page_size c) = Inr ranges"
  shows "planned_ranges (m, p) ranges" "canonical ranges"
  using planned_if_page_align [OF assms(2)] assms(1) by (simp_all add: coordinator_inv_def ranges_inv_def)

lemma handles_inv_more:
  "handles_inv (c, h) \<Longrightarrow> set (active c) \<subseteq> set (active c') \<Longrightarrow> handles_inv (c', h)"
  unfolding handles_inv_def by (simp only: prod.case) (meson subsetD)

lemma handles_inv_acquired:
  assumes "handles_inv (c, h)" and "ids_inv c" and "h v = None"
    and "active c' = active c @ [(next_id c, \<lparr>al_key = key, al_ranges = ranges\<rparr>)]"
    and "lease_id l = next_id c" and "lease_key l = key"
  shows "handles_inv (c', h(v \<mapsto> l))"
proof -
  have fresh: "lease_id k \<noteq> next_id c" if k: "h w = Some k" "owned k" for w k
  proof -
    obtain a where "(lease_id k, a) \<in> set (active c)" using handles_invD(1) [OF assms(1) k] by blast
    then show ?thesis using assms(2) by (auto simp: ids_inv_def)
  qed
  have "handles_inv (c', h)" using assms(1) by (rule handles_inv_more) (auto simp: assms(4))
  then show ?thesis using assms(4,5,6) unfolding handles_inv_def
    by (auto split: if_splits dest: fresh)
qed

text \<open>Moving a lease into another variable.\<close>

lemma handles_inv_move:
  assumes inv: "handles_inv (c, h)" and v: "h v = Some l" and w: "h w = None" "v \<noteq> w"
  shows "handles_inv (c, h(w \<mapsto> l, v \<mapsto> l\<lparr>owned := False\<rparr>))"
proof -
  define origin where "origin x = (if x = w then v else x)" for x
  have from_old: "h (origin x) = Some k \<and> x \<noteq> v" if "(h(w \<mapsto> l, v \<mapsto> l\<lparr>owned := False\<rparr>)) x = Some k" "owned k" for x k
    using that v w by (auto simp: origin_def split: if_splits)
  have inj: "x = y" if "origin x = origin y" "x \<noteq> v" "y \<noteq> v" for x y
    using that by (auto simp: origin_def split: if_splits)
  show ?thesis unfolding handles_inv_def prod.case
  proof (intro conjI allI impI; elim conjE)
    fix x k assume "(h(w \<mapsto> l, v \<mapsto> l\<lparr>owned := False\<rparr>)) x = Some k" "owned k"
    then show "\<exists>a. (lease_id k, a) \<in> set (active c) \<and> al_key a = lease_key k"
      using handles_invD(1) [OF inv] from_old by blast
  next
    fix x y k k' assume "(h(w \<mapsto> l, v \<mapsto> l\<lparr>owned := False\<rparr>)) x = Some k" "(h(w \<mapsto> l, v \<mapsto> l\<lparr>owned := False\<rparr>)) y = Some k'"
      "owned k" "owned k'" "lease_id k = lease_id k'"
    then show "x = y" using handles_invD(2) [OF inv] from_old inj by metis
  qed
qed

lemma step_inv:
  assumes "lease_step advice s t" and "program_inv m p s"
  shows "program_inv m p t \<and> (poisoned (diag (fst s)) \<longrightarrow> poisoned (diag (fst t)))"
  using assms
proof (induction rule: lease_step.induct)
  case (step_retain raw c ranges res c' h)
  then show ?case
    using retain_common_inv [of m p c raw ranges advice res c'] handles_inv_more [of c h c']
    by (auto simp: program_inv_def)
next
  case (step_classify common_ranges token layers c res c' h)
  note f = set_classification_frame [OF step_classify(1)]
  then have "coordinator_inv m p c'"
    using coordinator_inv_cong [of m p c c'] step_classify(2) by (simp add: program_inv_def)
  with f step_classify(2) show ?case
    using handles_inv_more [of c h c'] by (auto simp: program_inv_def books_defs)
next
  case (step_acquire raw c ranges key token_rows l c' h v)
  have ci: "coordinator_inv m p c" "handles_inv (c, h)" using step_acquire.prems by (simp_all add: program_inv_def)
  from ci(1) have "ids_inv c" by (simp add: coordinator_inv_def)
  from ci(1) planned_for_coordinator [OF ci(1) step_acquire(1)] step_acquire(2) show ?case
    by (rule acquire_cases)
      (auto simp: program_inv_def intro: handles_inv_acquired [OF ci(2) \<open>ids_inv c\<close> step_acquire(3)])
next
  case (step_acquire_throws raw c ranges key token_rows e c' h)
  have ci: "coordinator_inv m p c" "handles_inv (c, h)" using step_acquire_throws.prems by (simp_all add: program_inv_def)
  from ci(1) planned_for_coordinator [OF ci(1) step_acquire_throws(1)] step_acquire_throws(2) show ?case
    by (rule acquire_cases)
      (use ci handles_inv_more [of c h c'] in \<open>auto simp: program_inv_def books_defs\<close>)
next
  case (step_default h v c)
  then show ?case by (auto simp: program_inv_def intro: handles_inv_empty)
next
  case (step_mark h v l c)
  then show ?case
    unfolding program_inv_def handles_inv_def mark_compute_complete_def by (auto split: if_splits)
next
  case (step_release h v l c res c' l')
  note r = lease_release_inv [OF step_release.prems step_release(1,2)]
  have "handles_inv (c', h(v \<mapsto> l'))"
    using step_release r by (intro handles_inv_release [of c h v l]) (auto simp: program_inv_def)
  with r show ?case by (simp add: program_inv_def)
next
  case (step_destroy h v l c)
  obtain res c' l' where run: "lease_release advice l c = ((res, c'), l')" by (metis prod.exhaust)
  note r = lease_release_inv [OF step_destroy.prems step_destroy(1) run]
  have "handles_inv (c', h(v := None))"
    using step_destroy r by (intro handles_inv_release [of c h v l]) (auto simp: program_inv_def)
  with r run show ?case by (simp add: program_inv_def lease_destroy_def)
next
  case (step_move h v l w l' rest c)
  then have "handles_inv (c, h(w \<mapsto> l, v \<mapsto> l\<lparr>owned := False\<rparr>))"
    by (intro handles_inv_move) (auto simp: program_inv_def)
  with step_move show ?case by (auto simp: program_inv_def lease_move_def)
next
  case (step_move_assign h w self v other c c' self' other')
  obtain res d l' where run: "lease_release advice self c = ((res, d), l')" by (metis prod.exhaust)
  note r = lease_release_inv [OF step_move_assign.prems step_move_assign(1) run]
  have c': "c' = d" "self' = other" "other' = other\<lparr>owned := False\<rparr>"
    using step_move_assign(4) by (auto simp: lease_move_assign_def lease_destroy_def run)
  have "handles_inv (d, h(w := None))"
    using step_move_assign r by (intro handles_inv_release [of c h w self]) (auto simp: program_inv_def)
  then have "handles_inv (d, h(w \<mapsto> other, v \<mapsto> other\<lparr>owned := False\<rparr>))"
    using handles_inv_move [of d "h(w := None)" v other w] step_move_assign(2,3) by simp
  with r c' show ?case by (simp add: program_inv_def)
qed

lemma reachable_inv:
  assumes "reachable advice m p s" and "planner_geometry (m, p)"
  shows "program_inv m p s"
proof -
  obtain c where c: "new_coordinator m p (Some advice) = Inr c" "(lease_step advice)\<^sup>*\<^sup>* (c, \<lambda>_. None) s"
    using assms(1) by (auto simp: reachable_def)
  from c(2) show ?thesis
    by (induction rule: rtranclp_induct) (use initial_inv [OF c(1) assms(2)] step_inv in blast)+
qed

subsection \<open>A run of two overlapping leases\<close>

definition demo_advice :: advice_function where
  "demo_advice = (\<lambda>_ _ _. None)"

definition demo_diag :: "u64 \<Rightarrow> u64 \<Rightarrow> u64 \<Rightarrow> nat \<Rightarrow> nat \<Rightarrow> nat \<Rightarrow> nat \<Rightarrow> nat \<Rightarrow> nat \<Rightarrow> nat \<Rightarrow> residency_diagnostics" where
  "demo_diag tb tp hw wc dc la lr al lh cc = initial_diagnostics\<lparr>token_advised_bytes := tb,
     token_advised_pages := tp, advised_bytes_high_water := hw, willneed_calls := wc, dontneed_calls := dc,
     leases_acquired := la, leases_released := lr, active_leases := al, lease_high_water := lh,
     compute_completions := cc\<rparr>"

definition demo_state ::
  "nat \<Rightarrow> (nat \<times> active_lease) list \<Rightarrow> (string \<Rightarrow> region option) \<Rightarrow> residency_diagnostics \<Rightarrow> advice_call list \<Rightarrow> coordinator"
where
  "demo_state n act reg d log = \<lparr>mapping_size = 16384, page_size = 4096, next_id = n, active = act,
     regions = reg, common = [], common_bytes = 0, diag = d, advice_log = log\<rparr>"

definition demo_lease :: "nat \<Rightarrow> string \<Rightarrow> bool \<Rightarrow> lease" where
  "demo_lease i key token = \<lparr>owned = True, lease_id = i, lease_key = key, lease_token_rows = token,
     compute_complete = False\<rparr>"

definition demo0 :: coordinator where
  "demo0 = demo_state 1 [] (\<lambda>_. None) initial_diagnostics []"

definition demo1 :: coordinator where
  "demo1 = demo_state 2 [(1, \<lparr>al_key = ''a'', al_ranges = [ByteRange 0 8192]\<rparr>)]
     [''a'' \<mapsto> \<lparr>rg_count = 1, rg_pending = [ByteRange 0 8192]\<rparr>] (demo_diag 0 0 8192 1 0 1 0 1 1 0)
     [AdviceCall WillNeed (ByteRange 0 8192) True]"

definition demo2 :: coordinator where
  "demo2 = demo_state 3
     [(1, \<lparr>al_key = ''a'', al_ranges = [ByteRange 0 8192]\<rparr>), (2, \<lparr>al_key = ''b'', al_ranges = [ByteRange 4096 8192]\<rparr>)]
     [''a'' \<mapsto> \<lparr>rg_count = 1, rg_pending = [ByteRange 0 8192]\<rparr>,
      ''b'' \<mapsto> \<lparr>rg_count = 1, rg_pending = [ByteRange 4096 8192]\<rparr>] (demo_diag 8192 2 12288 2 0 2 0 2 2 0)
     [AdviceCall WillNeed (ByteRange 0 8192) True, AdviceCall WillNeed (ByteRange 4096 8192) True]"

definition demo3 :: coordinator where
  "demo3 = demo_state 3 [(2, \<lparr>al_key = ''b'', al_ranges = [ByteRange 4096 8192]\<rparr>)]
     [''a'' \<mapsto> \<lparr>rg_count = 0, rg_pending = []\<rparr>, ''b'' \<mapsto> \<lparr>rg_count = 1, rg_pending = [ByteRange 4096 8192]\<rparr>]
     (demo_diag 8192 2 12288 2 1 2 1 1 2 1)
     [AdviceCall WillNeed (ByteRange 0 8192) True, AdviceCall WillNeed (ByteRange 4096 8192) True,
      AdviceCall DontNeed (ByteRange 0 4096) True]"

lemma demo_geometry: "planner_geometry (16384, 4096)"
  by (simp add: planner_geometry_def is_power_of_two_def)

lemma demo_plans:
  "page_align_and_coalesce [ByteRange 0 8192] 16384 4096 = Inr [ByteRange 0 8192]"
  "page_align_and_coalesce [ByteRange 4096 8192] 16384 4096 = Inr [ByteRange 4096 8192]"
  "page_align_and_coalesce [ByteRange 0 8192, ByteRange 4096 8192] 16384 4096 = Inr [ByteRange 0 12288]"
  "subtract_ranges [ByteRange 0 8192] [ByteRange 4096 8192] = Inr [ByteRange 0 4096]"
  "subtract_ranges [ByteRange 0 8192] [] = Inr [ByteRange 0 8192]"
  "subtract_ranges [ByteRange 0 12288] [] = Inr [ByteRange 0 12288]"
  "byte_count [ByteRange 0 8192] = Inr 8192" "byte_count [ByteRange 4096 8192] = Inr 8192"
  "byte_count [ByteRange 0 12288] = Inr 12288"
  "page_count [ByteRange 4096 8192] 4096 = Inr 2"
  by code_simp+

lemmas demo_eval = demo_plans acquire_def call_advice_def demo_advice_def register_lease_def
  note_advised_peak_def current_advised_bytes_def count_token_rows_def region_at_def initial_diagnostics_def
  release_lease_def drop_region_def releasable_ranges_def bindM_def catchM_def Let_def demo_state_def
  demo_lease_def demo_diag_def

lemma demo_new: "new_coordinator 16384 4096 (Some demo_advice) = Inr demo0"
  by (simp add: new_coordinator_def demo0_def demo_state_def)

lemma demo_acquire_a:
  "acquire demo_advice ''a'' [ByteRange 0 8192] False demo0 = (Inr (demo_lease 1 ''a'' False), demo1)"
  unfolding demo0_def demo1_def by (simp add: demo_eval)

lemma demo_acquire_b:
  "acquire demo_advice ''b'' [ByteRange 4096 8192] True demo1 = (Inr (demo_lease 2 ''b'' True), demo2)"
  unfolding demo1_def demo2_def by (simp add: demo_eval)

lemma demo_release_a: "release_lease demo_advice 1 ''a'' True demo2 = (Inr (), demo3)"
  unfolding demo2_def demo3_def by (simp add: demo_eval fun_upd_twist)

abbreviation demo_handles :: "string \<Rightarrow> lease option" where
  "demo_handles \<equiv> [''x'' \<mapsto> demo_lease 1 ''a'' False, ''y'' \<mapsto> demo_lease 2 ''b'' True]"

lemma reachable_step: "reachable advice m p s \<Longrightarrow> lease_step advice s t \<Longrightarrow> reachable advice m p t"
  unfolding reachable_def by (blast intro: rtranclp.rtrancl_into_rtrancl)

lemma reachable_new: "new_coordinator m p (Some advice) = Inr c \<Longrightarrow> reachable advice m p (c, \<lambda>_. None)"
  unfolding reachable_def by blast

lemma demo_reachable2: "reachable demo_advice 16384 4096 (demo2, demo_handles)"
proof -
  have plan: "page_align_and_coalesce [ByteRange 0 8192] (mapping_size demo0) (page_size demo0) = Inr [ByteRange 0 8192]"
    "page_align_and_coalesce [ByteRange 4096 8192] (mapping_size demo1) (page_size demo1) = Inr [ByteRange 4096 8192]"
    by (simp_all add: demo0_def demo1_def demo_state_def demo_plans)
  have "lease_step demo_advice (demo0, \<lambda>_. None) (demo1, [''x'' \<mapsto> demo_lease 1 ''a'' False])"
    by (rule step_acquire [OF plan(1) demo_acquire_a]) simp
  moreover have "lease_step demo_advice (demo1, [''x'' \<mapsto> demo_lease 1 ''a'' False]) (demo2, demo_handles)"
    by (rule step_acquire [OF plan(2) demo_acquire_b]) simp
  ultimately show ?thesis using reachable_new [OF demo_new] by (blast intro: reachable_step)
qed

definition done_a :: lease where
  "done_a = mark_compute_complete (demo_lease 1 ''a'' False)"

lemma demo_reachable_marked: "reachable demo_advice 16384 4096 (demo2, demo_handles(''x'' \<mapsto> done_a))"
  unfolding done_a_def by (rule reachable_step [OF demo_reachable2 step_mark]) simp

lemma demo_run_release: "lease_release demo_advice done_a demo2 = ((Inr (), demo3), done_a\<lparr>owned := False\<rparr>)"
  using demo_release_a by (simp add: lease_release_def done_a_def mark_compute_complete_def demo_lease_def)

abbreviation demo_handles3 :: "string \<Rightarrow> lease option" where
  "demo_handles3 \<equiv> (demo_handles(''x'' \<mapsto> done_a))(''x'' \<mapsto> done_a\<lparr>owned := False\<rparr>)"

lemma demo_reachable3: "reachable demo_advice 16384 4096 (demo3, demo_handles3)"
  by (rule reachable_step [OF demo_reachable_marked step_release [OF _ demo_run_release]]) simp

subsection \<open>What the coordinator promises\<close>

text \<open>
  C7: residency safety. In every state a program reaches through lease objects, whatever advice
  calls failed, the retained bytes and the bytes of all active leases are resident: they were
  advised in and not advised out since.
\<close>

theorem residency_safe:
  assumes "reachable advice m p (c, h)" and "planner_geometry (m, p)"
  shows "cover (common c) \<union> (\<Union>(i, a)\<in>set (active c). cover (al_ranges a)) \<subseteq> resident (advice_log c)"
proof -
  have "resident_inv c"
    using reachable_inv [OF assms] by (simp add: program_inv_def coordinator_inv_def)
  then show ?thesis by (simp only: resident_inv_def protected_def cover_lease_ranges)
qed

theorem residency_safe_witness:
  "{4096 ..< 12288} \<subseteq> resident (advice_log demo3)"
proof -
  have "cover (common demo3) \<union> (\<Union>(i, a)\<in>set (active demo3). cover (al_ranges a)) \<subseteq> resident (advice_log demo3)"
    by (rule residency_safe [OF demo_reachable3 demo_geometry])
  then show ?thesis by (simp add: demo3_def demo_state_def bytes_of_def fin_of_def)
qed

text \<open>
  C10: no residency leak. As long as no advice call failed, nothing is resident but the retained
  bytes and the pending bytes of regions that still have an active lease; when no lease is
  active, exactly the retained bytes are resident.
\<close>

theorem residency_no_leak:
  assumes "reachable advice m p (c, h)" and "planner_geometry (m, p)" and "no_failed_advice c"
  shows "resident (advice_log c) \<subseteq> cover (common c)
      \<union> (\<Union>key\<in>{al_key a | i a. (i, a) \<in> set (active c)}. cover (rg_pending (region_at c key)))
    \<and> (active c = [] \<longrightarrow> resident (advice_log c) = cover (common c))"
proof -
  have inv: "resident_inv c" "pending_inv c" "counts_inv c"
    using reachable_inv [OF assms(1,2)] by (simp_all add: program_inv_def coordinator_inv_def)
  have key: "key \<in> {al_key a | i a. (i, a) \<in> set (active c)}" if "rg_pending (region_at c key) \<noteq> []" for key
  proof -
    have "key_count key c \<noteq> 0" using that inv(2,3) by (auto simp: pending_inv_def counts_inv_def)
    then show ?thesis by (auto simp: key_count_def filter_empty_conv)
  qed
  have "cover (rg_pending (region_at c key)) \<subseteq>
      (\<Union>key\<in>{al_key a | i a. (i, a) \<in> set (active c)}. cover (rg_pending (region_at c key)))" for key
  proof (cases "rg_pending (region_at c key) = []")
    case False
    from key [OF this] show ?thesis by blast
  qed simp
  then have "pending_cover c \<subseteq>
      (\<Union>key\<in>{al_key a | i a. (i, a) \<in> set (active c)}. cover (rg_pending (region_at c key)))"
    unfolding pending_cover_def by blast
  then have sub: "resident (advice_log c) \<subseteq> cover (common c)
      \<union> (\<Union>key\<in>{al_key a | i a. (i, a) \<in> set (active c)}. cover (rg_pending (region_at c key)))"
    using inv(1) assms(3) unfolding resident_inv_def by blast
  moreover have "resident (advice_log c) = cover (common c)" if "active c = []"
    using sub inv(1) that by (auto simp: resident_inv_def protected_def)
  ultimately show ?thesis by blast
qed

theorem residency_no_leak_witness:
  "resident (advice_log demo3) \<subseteq> {4096 ..< 12288}"
proof -
  have "no_failed_advice demo3"
    by (simp add: no_failed_advice_def demo3_def demo_state_def demo_diag_def initial_diagnostics_def)
  from residency_no_leak [OF demo_reachable3 demo_geometry this] show ?thesis
    by (simp add: demo3_def demo_state_def region_at_def bytes_of_def fin_of_def)
qed

text \<open>
  C12: lease accounting. In every reachable state the counters agree with the active leases, each
  region counts the active leases of its key, identifiers are unique, the high-water mark of
  advised bytes bounds the number of protected bytes, and no release of a lease object can meet
  the accounting underflow.
\<close>

theorem residency_accounting:
  assumes "reachable advice m p (c, h)" and "planner_geometry (m, p)"
  shows "active_leases (diag c) = length (active c)
    \<and> leases_acquired (diag c) = leases_released (diag c) + active_leases (diag c)
    \<and> active_leases (diag c) \<le> lease_high_water (diag c)
    \<and> distinct (map fst (active c))
    \<and> (\<forall>key. rg_count (region_at c key) = length (filter (\<lambda>(i, a). al_key a = key) (active c)))
    \<and> card (protected c) \<le> unat (advised_bytes_high_water (diag c))
    \<and> (\<forall>v l. h v = Some l \<longrightarrow> fst (fst (lease_release advice l c)) \<noteq> Inl AccountingUnderflow)"
proof -
  have inv: "program_inv m p (c, h)" by (rule reachable_inv [OF assms])
  have "fst (fst (lease_release advice l c)) \<noteq> Inl AccountingUnderflow" if "h v = Some l" for v l
    using lease_release_inv(3) [OF inv that] by (metis prod.collapse)
  then show ?thesis
    using inv by (auto simp: program_inv_def coordinator_inv_def counts_inv_def ids_inv_def peak_inv_def key_count_def)
qed

theorem residency_accounting_witness:
  "active_leases (diag demo3) = 1 \<and> card (protected demo3) \<le> 12288
   \<and> fst (fst (lease_release demo_advice (demo_lease 2 ''b'' True) demo3)) \<noteq> Inl AccountingUnderflow"
proof -
  note r = residency_accounting [OF demo_reachable3 demo_geometry]
  have "active_leases (diag demo3) = 1" "advised_bytes_high_water (diag demo3) = 12288"
    by (simp_all add: demo3_def demo_state_def demo_diag_def)
  moreover have "fst (fst (lease_release demo_advice (demo_lease 2 ''b'' True) demo3)) \<noteq> Inl AccountingUnderflow"
    using r by (auto dest: spec [of _ "''y''"])
  ultimately show ?thesis using r by auto
qed

text \<open>
  Releasing a lease. Releasing a lease whose computation is not complete throws, poisons the
  coordinator and changes neither the active leases nor what is resident. Releasing a completed
  one removes exactly its entry, and the only advice it issues advises out bytes that neither
  the retained ranges nor any remaining lease covers; it throws only when such an advice call
  failed, and has then poisoned the coordinator. The lease object no longer owns anything.
\<close>

theorem release_effect:
  assumes "reachable advice m p (c, h)" and "planner_geometry (m, p)" and "h v = Some l" and "owned l"
    and "lease_release advice l c = ((res, c'), l')"
  shows "\<not> owned l'
    \<and> (if \<not> compute_complete l
       then res = Inl PrematureRelease \<and> poisoned (diag c') \<and> active c' = active c \<and> advice_log c' = advice_log c
       else active c' = filter (\<lambda>(i, _). i \<noteq> lease_id l) (active c)
         \<and> (\<exists>dropped. advice_log c' = advice_log c @ dropped
              \<and> (\<forall>call\<in>set dropped. call_kind call = DontNeed \<and> bytes_of (call_range call) \<inter> protected c' = {}))
         \<and> (res = Inr () \<or> (\<exists>message. res = Inl (AdviceFailed DontNeed message)) \<and> poisoned (diag c')))"
proof -
  have inv: "program_inv m p (c, h)" by (rule reachable_inv [OF assms(1,2)])
  then have ci: "coordinator_inv m p c" "distinct (map fst (active c))"
    by (simp_all add: program_inv_def coordinator_inv_def ids_inv_def)
  obtain a where a: "(lease_id l, a) \<in> set (active c)" "al_key a = lease_key l"
    using handles_invD(1) [of c h v l] inv assms(3,4) by (auto simp: program_inv_def)
  have match: "al_key b = lease_key l" if "(lease_id l, b) \<in> set (active c)" for b
    using a that ci(2) eq_key_imp_eq_value by metis
  have run: "release_lease advice (lease_id l) (lease_key l) (compute_complete l) c = (res, c')"
    "l' = l\<lparr>owned := False\<rparr>"
    using assms(4,5) by (simp_all add: lease_release_def)
  from ci(1) run(1) match show ?thesis
  proof (rule release_cases)
    assume "lease_id l \<notin> fst ` set (active c)"
    then show ?thesis using a(1) by force
  qed (use run(2) in auto)
qed

theorem release_effect_witness:
  "bytes_of (ByteRange 0 4096) \<inter> protected demo3 = {}"
proof -
  have "\<exists>dropped. advice_log demo3 = advice_log demo2 @ dropped
      \<and> (\<forall>call\<in>set dropped. bytes_of (call_range call) \<inter> protected demo3 = {})"
    using release_effect [OF demo_reachable_marked demo_geometry _ _ demo_run_release, of "''x''"]
    by (auto simp: done_a_def demo_lease_def mark_compute_complete_def)
  then show ?thesis by (auto simp: demo2_def demo3_def demo_state_def)
qed

text \<open>
  C13: poisoning is permanent. Once a coordinator is poisoned, it stays so whatever the program
  does, and every later request for a lease is refused before any advice is given.
\<close>

theorem poisoning_permanent:
  assumes "reachable advice m p s" and "planner_geometry (m, p)" and "poisoned (diag (fst s))"
    and "(lease_step advice)\<^sup>*\<^sup>* s t" and "ranges \<noteq> []"
  shows "poisoned (diag (fst t))
    \<and> acquire advice key ranges token_rows (fst t) = (Inl CoordinatorPoisoned, fst t)"
proof -
  have "program_inv m p t \<and> poisoned (diag (fst t))"
    using assms(4)
  proof (induction rule: rtranclp_induct)
    case base
    then show ?case using reachable_inv [OF assms(1,2)] assms(3) by simp
  next
    case (step y z)
    then show ?case using step_inv by blast
  qed
  then show ?thesis using assms(5) by (simp add: acquire_def)
qed

definition demo_poisoned :: coordinator where
  "demo_poisoned = update_diag (\<lambda>d. d\<lparr>premature_release_attempts := 1, poisoned := True\<rparr>) demo2"

theorem poisoning_permanent_witness:
  "acquire demo_advice ''c'' [ByteRange 0 4096] False demo_poisoned = (Inl CoordinatorPoisoned, demo_poisoned)"
proof -
  let ?l = "demo_lease 1 ''a'' False"
  have "lease_release demo_advice ?l demo2 = ((Inl PrematureRelease, demo_poisoned), ?l\<lparr>owned := False\<rparr>)"
    by (simp add: lease_release_def demo_lease_def release_lease_def demo2_def demo_state_def demo_poisoned_def
        demo_diag_def initial_diagnostics_def)
  then have r: "reachable demo_advice 16384 4096 (demo_poisoned, demo_handles(''x'' \<mapsto> ?l\<lparr>owned := False\<rparr>))"
    by (intro reachable_step [OF demo_reachable2 step_release]) simp_all
  have "poisoned (diag (fst (demo_poisoned, demo_handles(''x'' \<mapsto> ?l\<lparr>owned := False\<rparr>))))"
    by (simp add: demo_poisoned_def)
  from poisoning_permanent [OF r demo_geometry this rtranclp.rtrancl_refl, of "[ByteRange 0 4096]" "''c''" False]
  show ?thesis by simp
qed

text \<open>
  C11: leases are granted. A planned, non-empty request to a reachable coordinator that is not
  poisoned succeeds when its advice calls do: the planning behind the peak and the token
  counters cannot throw. The peak then becomes at least the exact number of protected bytes.
\<close>

theorem acquire_granted:
  assumes "reachable advice m p (c, h)" and "planner_geometry (m, p)"
    and "page_align_and_coalesce raw m p = Inr ranges" and "ranges \<noteq> []" and "\<not> poisoned (diag c)"
    and "\<And>log r. r \<in> set ranges \<Longrightarrow> advice log r WillNeed = None"
  shows "\<exists>l c'. acquire advice key ranges token_rows c = (Inr l, c')
    \<and> owned l \<and> lease_id l = next_id c \<and> lease_key l = key \<and> \<not> compute_complete l
    \<and> active c' = active c @ [(next_id c, \<lparr>al_key = key, al_ranges = ranges\<rparr>)]
    \<and> resident (advice_log c') = resident (advice_log c) \<union> cover ranges
    \<and> unat (advised_bytes_high_water (diag c'))
        = max (unat (advised_bytes_high_water (diag c))) (card (protected c'))"
proof -
  have ci: "coordinator_inv m p c" using reachable_inv [OF assms(1,2)] by (simp add: program_inv_def)
  note planned = planned_if_page_align(2,3) [OF assms(3)]
  obtain res c' where run: "acquire advice key ranges token_rows c = (res, c')" by fastforce
  from ci planned run show ?thesis
  proof (rule acquire_cases)
    fix e assume "e = EmptyLease \<and> ranges = [] \<or> e = CoordinatorPoisoned \<and> poisoned (diag c)"
    then show ?thesis using assms(4,5) by blast
  next
    fix message assume fails: "res = Inl (AdviceFailed WillNeed message)"
    obtain r1 c1 where adv: "forM ranges (call_advice advice WillNeed) c = (r1, c1)" by fastforce
    then have "r1 = Inr ()" using advise_succeeds [of ranges advice WillNeed c] assms(6) by simp
    moreover have "fst (acquire advice key ranges token_rows c) \<noteq> Inl (AdviceFailed WillNeed message)"
      if "r1 = Inr ()"
      using that assms(4,5) adv
      by (auto simp: acquire_def bindM_run note_advised_peak_def count_token_rows_def liftM_def map_sum_def
          split: prod.splits sum.splits if_splits)
    ultimately show ?thesis using fails run by simp
  qed (use run in auto)
qed

theorem acquire_granted_witness:
  "\<exists>l c'. acquire demo_advice ''c'' [ByteRange 4096 8192] False demo3 = (Inr l, c') \<and> lease_id l = 3
    \<and> {4096 ..< 12288} \<subseteq> resident (advice_log c')"
proof -
  have "next_id demo3 = 3" "\<not> poisoned (diag demo3)"
    by (simp_all add: demo3_def demo_state_def demo_diag_def initial_diagnostics_def)
  then obtain l c' where "acquire demo_advice ''c'' [ByteRange 4096 8192] False demo3 = (Inr l, c')" "lease_id l = 3"
    "resident (advice_log c') = resident (advice_log demo3) \<union> cover [ByteRange 4096 8192]"
    using acquire_granted [OF demo_reachable3 demo_geometry demo_plans(2), where key = "''c''" and token_rows = False]
    by (auto simp: demo_advice_def)
  then show ?thesis by (auto simp: bytes_of_def fin_of_def)
qed

end
