(* ===== verification/Batch.thy ===== *)
theory Batch
  imports Prelude
begin

text \<open>
  Batch planning and materialisation (\<open>src/batch.cpp\<close>): the requests are tokenised and
  stable-sorted by length, and one sub-batch at a time is laid out as padded \<open>[S,B]\<close> tensors
  with masks, and as the packed, padding-free copy. The tokenizer is the parameter \<open>encode\<close>.
  Running out of memory is not modelled.
\<close>

subsection \<open>The data\<close>

record batch_item =
  item_ids :: "int list"
  original_index :: nat

record batch_plan =
  plan_items :: "batch_item list"
  plan_max_batch :: nat

text \<open>
  The float values of the masks: \<open>F32_recip n\<close> is the quotient of 1 and the float nearest to
  \<open>n\<close>; the attention mask holds half-precision zeros and negative infinities.
\<close>

datatype f32_cell = F32_zero | F32_one | F32_recip nat
datatype mask_cell = Mask_zero | Mask_neg_inf

record materialized_batch =
  seq_len :: nat
  batch_size :: nat
  padded :: bool
  token_ids :: "int list"
  learned_positions :: "int list"
  rope_positions :: "int list"
  type_ids :: "int list"
  attention_mask :: "mask_cell list"
  valid_mask :: "f32_cell list"
  mean_scale :: "f32_cell list"
  last_indices :: "int list"
  packed_token_ids :: "int list"
  packed_positions :: "int list"
  offsets :: "int list"
  total_tokens :: int
  original_indices :: "nat list"
  lengths :: "int list"
  valid_tokens :: nat
  padding_tokens :: nat

text \<open>The exceptions, one constructor per \<open>throw\<close>.\<close>

datatype 'e batch_error =
    MaxBatchNotPositive
  | TokenizerThrew 'e
  | NoIdsForItem
  | BatchIndexOutOfRange
  | VocabularyEmpty
  | BatchDimensions
  | BatchSizeOverflow string
  | SequenceExceedsInt32
  | PackedCountExceedsInt32
  | LastIndexExceedsInt32

subsection \<open>Planning\<close>

definition checked_mul :: "nat \<Rightarrow> nat \<Rightarrow> string \<Rightarrow> 'e batch_error + nat" where
  "checked_mul lhs rhs subject =
     (if lhs \<noteq> 0 \<and> rhs > SIZE_MAX div lhs then Inl (BatchSizeOverflow subject) else Inr (lhs * rhs))"

definition subbatch_count :: "batch_plan \<Rightarrow> nat" where
  "subbatch_count plan =
     (if plan_items plan = [] then 0 else 1 + (length (plan_items plan) - 1) div plan_max_batch plan)"

definition plan_item :: "('t \<Rightarrow> int \<Rightarrow> 'e + int list) \<Rightarrow> int \<Rightarrow> nat \<times> 't \<Rightarrow> 'e batch_error + batch_item" where
  "plan_item encode max_seq_len = (\<lambda>(i, text).
     case encode text max_seq_len of
       Inl e \<Rightarrow> Inl (TokenizerThrew e)
     | Inr ids \<Rightarrow> if ids = [] then Inl NoIdsForItem
                  else Inr \<lparr>item_ids = ids, original_index = i\<rparr>)"

text \<open>\<open>std::stable_sort\<close> by the number of tokens is \<open>sort_key\<close>, which is stable.\<close>

definition make_batch_plan ::
  "('t \<Rightarrow> int \<Rightarrow> 'e + int list) \<Rightarrow> 't list \<Rightarrow> int \<Rightarrow> int \<Rightarrow> 'e batch_error + batch_plan" where
  "make_batch_plan encode texts max_seq_len max_batch =
     (if max_batch \<le> 0 then Inl MaxBatchNotPositive
      else bindE (mapE (plan_item encode max_seq_len) (enumerate 0 texts)) (\<lambda>items.
             Inr \<lparr>plan_items = sort_key (\<lambda>item. length (item_ids item)) items,
                   plan_max_batch = nat max_batch\<rparr>))"

subsection \<open>Materialising a sub-batch\<close>

text \<open>
  Row \<open>b\<close> of a tensor whose innermost dimension has \<open>S\<close> cells: for each \<open>s\<close> in order, cell
  \<open>s + S * b\<close> is assigned \<open>v\<close> when \<open>f s\<close> is \<open>Some v\<close>.
\<close>

definition put_row :: "nat \<Rightarrow> nat \<Rightarrow> (nat \<Rightarrow> 'a option) \<Rightarrow> 'a list \<Rightarrow> 'a list" where
  "put_row S b f xs =
     foldl (\<lambda>xs s. case f s of None \<Rightarrow> xs | Some v \<Rightarrow> xs[s + S * b := v]) xs [0 ..< S]"

text \<open>The body of the loop over the items, for item \<open>b\<close> of the sub-batch.\<close>

definition place_item ::
  "nat \<Rightarrow> batch_item list \<Rightarrow> nat \<Rightarrow> materialized_batch \<Rightarrow> 'e batch_error + materialized_batch" where
  "place_item S items b out =
     (let item = items ! b; n = length (item_ids item) in
      if n > INT32_MAX then Inl SequenceExceedsInt32
      else Inr (out\<lparr>
        original_indices := (original_indices out)[b := original_index item],
        lengths := (lengths out)[b := i32_of_nat n],
        valid_tokens := valid_tokens out + n,
        padding_tokens := padding_tokens out + (S - n),
        learned_positions := put_row S b (\<lambda>s. Some (i32_of_nat s)) (learned_positions out),
        token_ids := put_row S b (\<lambda>s. if s < n then Some (item_ids item ! s) else None) (token_ids out)\<rparr>))"

text \<open>The packing loop; \<open>cursor\<close> is its \<open>int32_t\<close> cursor.\<close>

definition pack_item ::
  "batch_item list \<Rightarrow> nat \<Rightarrow> nat \<times> materialized_batch \<Rightarrow> 'e batch_error + nat \<times> materialized_batch" where
  "pack_item items b = (\<lambda>(cursor, out).
     let ids = item_ids (items ! b);
         out' = out\<lparr>offsets := (offsets out)[b := int cursor],
                    packed_token_ids := packed_token_ids out @ ids,
                    packed_positions := packed_positions out @ map i32_of_nat [0 ..< length ids]\<rparr>
     in if length ids > INT32_MAX - cursor then Inl PackedCountExceedsInt32
        else Inr (cursor + length ids, out'))"

text \<open>The loop that fills the masks, for item \<open>b\<close>.\<close>

definition mask_item ::
  "nat \<Rightarrow> nat \<Rightarrow> materialized_batch \<Rightarrow> 'e batch_error + materialized_batch" where
  "mask_item S b out =
     (let n = nat (lengths out ! b);
          flat_last = (if b * S + n = 0 then SIZE_MAX else b * S + n - 1) in
      if flat_last > INT32_MAX then Inl LastIndexExceedsInt32
      else Inr (out\<lparr>
        mean_scale := (mean_scale out)[b := F32_recip n],
        last_indices := (last_indices out)[b := i32_of_nat flat_last],
        valid_mask := put_row S b (\<lambda>s. Some (if s < n then F32_one else F32_zero)) (valid_mask out),
        attention_mask := foldl (\<lambda>m q. put_row S (q + S * b)
            (\<lambda>k. Some (if k < n then Mask_zero else Mask_neg_inf)) m) (attention_mask out) [0 ..< S]\<rparr>))"

text \<open>The part of \<open>materialize_batch\<close> that runs only when the sub-batch is padded.\<close>

definition pad_batch ::
  "nat \<Rightarrow> nat \<Rightarrow> nat \<Rightarrow> batch_item list \<Rightarrow> materialized_batch \<Rightarrow> 'e batch_error + materialized_batch" where
  "pad_batch S B cells items out =
     bindE (foldE (pack_item items) [0 ..< B] (0, out\<lparr>offsets := replicate (B + 1) 0\<rparr>)) (\<lambda>(cursor, out).
     let out = out\<lparr>offsets := (offsets out)[B := int cursor], total_tokens := int cursor\<rparr> in
     bindE (checked_mul S S ''S*S'') (\<lambda>squares.
     bindE (checked_mul squares B ''S*S*B'') (\<lambda>mask_cells.
     foldE (mask_item S) [0 ..< B]
       (out\<lparr>attention_mask := replicate mask_cells Mask_zero, valid_mask := replicate cells F32_zero,
            mean_scale := replicate B F32_zero, last_indices := replicate B 0\<rparr>))))"

definition empty_batch :: "nat \<Rightarrow> nat \<Rightarrow> bool \<Rightarrow> materialized_batch" where
  "empty_batch S B is_padded = \<lparr>seq_len = S, batch_size = B, padded = is_padded, token_ids = [],
     learned_positions = [], rope_positions = [], type_ids = [], attention_mask = [], valid_mask = [],
     mean_scale = [], last_indices = [], packed_token_ids = [], packed_positions = [], offsets = [],
     total_tokens = 0, original_indices = [], lengths = [], valid_tokens = 0, padding_tokens = 0\<rparr>"

definition subbatch_items :: "batch_plan \<Rightarrow> nat \<Rightarrow> batch_item list" where
  "subbatch_items plan i =
     (let begin = i * plan_max_batch plan;
          fin = min (begin + plan_max_batch plan) (length (plan_items plan))
      in drop begin (take fin (plan_items plan)))"

definition materialize_batch ::
  "batch_plan \<Rightarrow> nat \<Rightarrow> int \<Rightarrow> int \<Rightarrow> 'e batch_error + materialized_batch" where
  "materialize_batch plan subbatch_index padding_id vocab_size =
     (if plan_max_batch plan = 0 \<or> subbatch_index \<ge> subbatch_count plan then Inl BatchIndexOutOfRange
      else if vocab_size \<le> 0 then Inl VocabularyEmpty
      else
        let pad = (if padding_id < 0 \<or> padding_id \<ge> vocab_size then 0 else padding_id);
            items = subbatch_items plan subbatch_index;
            B = length items;
            S = length (item_ids (last items))
        in if B = 0 \<or> S = 0 \<or> B > INT64_MAX \<or> S > INT64_MAX then Inl BatchDimensions
        else
          let is_padded = length (item_ids (hd items)) \<noteq> S in
          bindE (checked_mul S B ''S*B'') (\<lambda>cells.
          bindE (foldE (place_item S items) [0 ..< B]
            ((empty_batch S B is_padded)\<lparr>token_ids := replicate cells pad,
               learned_positions := replicate cells 0, rope_positions := map i32_of_nat [0 ..< S],
               type_ids := replicate cells 0, original_indices := replicate B 0,
               lengths := replicate B 0\<rparr>)) (\<lambda>out.
          if is_padded then pad_batch S B cells items out else Inr out)))"

subsection \<open>Filling a tensor row by row\<close>

lemma length_put_row [simp]: "length (put_row S b f xs) = length xs"
proof -
  have "length (foldl (\<lambda>xs s. case f s of None \<Rightarrow> xs | Some v \<Rightarrow> xs[s + S * b := v]) ys ss) = length ys" for ys ss
    by (induction ss arbitrary: ys) (auto split: option.split)
  then show ?thesis by (simp add: put_row_def)
qed

lemma put_row_prefix_nth:
  "i < length xs \<Longrightarrow>
   foldl (\<lambda>xs s. case f s of None \<Rightarrow> xs | Some v \<Rightarrow> xs[s + S * b := v]) xs [0 ..< n] ! i
   = (if S * b \<le> i \<and> i < S * b + n then (case f (i - S * b) of None \<Rightarrow> xs ! i | Some v \<Rightarrow> v) else xs ! i)"
proof (induction n)
  case (Suc n)
  let ?ys = "foldl (\<lambda>xs s. case f s of None \<Rightarrow> xs | Some v \<Rightarrow> xs[s + S * b := v]) xs [0 ..< n]"
  have len: "length ?ys = length xs"
  proof -
    have "length (foldl (\<lambda>xs s. case f s of None \<Rightarrow> xs | Some v \<Rightarrow> xs[s + S * b := v]) ys ss) = length ys" for ys ss
      by (induction ss arbitrary: ys) (auto split: option.split)
    then show ?thesis .
  qed
  have "foldl (\<lambda>xs s. case f s of None \<Rightarrow> xs | Some v \<Rightarrow> xs[s + S * b := v]) xs [0 ..< Suc n]
      = (case f n of None \<Rightarrow> ?ys | Some v \<Rightarrow> ?ys[n + S * b := v])" by simp
  then show ?case using Suc len
    by (auto split: option.splits simp: nth_list_update less_Suc_eq)
qed auto

lemma put_row_nth:
  "i < length xs \<Longrightarrow> put_row S b f xs ! i
   = (if S * b \<le> i \<and> i < S * b + S then (case f (i - S * b) of None \<Rightarrow> xs ! i | Some v \<Rightarrow> v) else xs ! i)"
  unfolding put_row_def by (rule put_row_prefix_nth)

lemma put_row_block:
  assumes "length pre = S * b" and "length mid = S"
  shows "put_row S b f (pre @ mid @ post)
    = pre @ map (\<lambda>s. case f s of None \<Rightarrow> mid ! s | Some v \<Rightarrow> v) [0 ..< S] @ post"
  using assms by (intro nth_equalityI) (auto simp: put_row_nth nth_append split: option.split)

lemma put_row_fresh:
  assumes "length pre = S * b"
  shows "put_row S b f (pre @ replicate (S * Suc k) x)
    = (pre @ map (\<lambda>s. case f s of None \<Rightarrow> x | Some v \<Rightarrow> v) [0 ..< S]) @ replicate (S * k) x"
proof -
  have "replicate (S * Suc k) x = replicate S x @ replicate (S * k) x"
    by (simp flip: replicate_add)
  moreover have "map (\<lambda>s. case f s of None \<Rightarrow> replicate S x ! s | Some v \<Rightarrow> v) [0 ..< S]
      = map (\<lambda>s. case f s of None \<Rightarrow> x | Some v \<Rightarrow> v) [0 ..< S]"
    by (auto split: option.split)
  ultimately show ?thesis using put_row_block [OF assms, of "replicate S x" f "replicate (S * k) x"] by simp
qed

lemma put_rows_const:
  assumes "length pre = S * (S * b)"
  shows "foldl (\<lambda>m q. put_row S (q + S * b) (\<lambda>k. Some (g k)) m) (pre @ replicate (S * S * Suc k) x) [0 ..< S]
    = (pre @ concat (replicate S (map g [0 ..< S]))) @ replicate (S * S * k) x"
proof -
  have "foldl (\<lambda>m q. put_row S (q + S * b) (\<lambda>k. Some (g k)) m) (pre @ replicate (S * S * Suc k) x) [0 ..< n]
    = (pre @ concat (replicate n (map g [0 ..< S]))) @ replicate (S * (S * Suc k - n)) x" if "n \<le> S" for n
    using that
  proof (induction n)
    case 0
    then show ?case by (simp add: algebra_simps)
  next
    case (Suc n)
    then have k: "S * Suc k - n = Suc (S * Suc k - Suc n)" by auto
    have len: "length (pre @ concat (replicate n (map g [0 ..< S]))) = S * (n + S * b)"
      using assms by (simp add: length_concat sum_list_replicate algebra_simps)
    have ih: "foldl (\<lambda>m q. put_row S (q + S * b) (\<lambda>k. Some (g k)) m) (pre @ replicate (S * S * Suc k) x) [0 ..< n]
      = (pre @ concat (replicate n (map g [0 ..< S]))) @ replicate (S * Suc (S * Suc k - Suc n)) x"
      using Suc.IH [OF Suc_leD [OF Suc.prems]] unfolding k .
    have "foldl (\<lambda>m q. put_row S (q + S * b) (\<lambda>k. Some (g k)) m) (pre @ replicate (S * S * Suc k) x) [0 ..< Suc n]
      = put_row S (n + S * b) (\<lambda>k. Some (g k))
          ((pre @ concat (replicate n (map g [0 ..< S]))) @ replicate (S * Suc (S * Suc k - Suc n)) x)"
      by (simp only: upt_Suc_append [OF le0] foldl_append foldl.simps ih)
    also have "\<dots> = (pre @ concat (replicate (Suc n) (map g [0 ..< S]))) @ replicate (S * (S * Suc k - Suc n)) x"
      unfolding put_row_fresh [OF len] by (simp flip: replicate_append_same)
    finally show ?case .
  qed
  from this [of S] show ?thesis by (simp add: algebra_simps)
qed

lemma foldE_upt:
  assumes "\<And>k. k < n \<Longrightarrow> f k (g k) = Inr (g (Suc k))"
  shows "foldE f [0 ..< n] (g 0) = Inr (g n)"
  using assms
proof (induction n)
  case (Suc n)
  then show ?case by (simp add: foldE_append)
qed simp

subsection \<open>What the tensors of a sub-batch hold\<close>

definition token_count :: "batch_item \<Rightarrow> nat" where
  "token_count item = length (item_ids item)"

definition padded_row :: "nat \<Rightarrow> int \<Rightarrow> batch_item \<Rightarrow> int list" where
  "padded_row S pad item = item_ids item @ replicate (S - token_count item) pad"

definition position_row :: "nat \<Rightarrow> int list" where
  "position_row S = map int [0 ..< S]"

definition valid_row :: "nat \<Rightarrow> batch_item \<Rightarrow> f32_cell list" where
  "valid_row S item = map (\<lambda>s. if s < token_count item then F32_one else F32_zero) [0 ..< S]"

definition attention_row :: "nat \<Rightarrow> batch_item \<Rightarrow> mask_cell list" where
  "attention_row S item = map (\<lambda>k. if k < token_count item then Mask_zero else Mask_neg_inf) [0 ..< S]"

definition tokens_before :: "batch_item list \<Rightarrow> nat \<Rightarrow> nat" where
  "tokens_before items k = sum_list (map token_count (take k items))"

text \<open>The tensors common to both layouts, and those of the padded one.\<close>

definition plain_batch :: "nat \<Rightarrow> int \<Rightarrow> batch_item list \<Rightarrow> bool \<Rightarrow> materialized_batch" where
  "plain_batch S pad items is_padded = (empty_batch S (length items) is_padded)\<lparr>
     token_ids := concat (map (padded_row S pad) items),
     learned_positions := concat (map (\<lambda>_. position_row S) items),
     rope_positions := position_row S,
     type_ids := replicate (S * length items) 0,
     original_indices := map original_index items,
     lengths := map (int \<circ> token_count) items,
     valid_tokens := tokens_before items (length items),
     padding_tokens := sum_list (map (\<lambda>item. S - token_count item) items)\<rparr>"

definition padded_batch :: "nat \<Rightarrow> int \<Rightarrow> batch_item list \<Rightarrow> materialized_batch" where
  "padded_batch S pad items = (plain_batch S pad items True)\<lparr>
     offsets := map (\<lambda>k. int (tokens_before items k)) [0 ..< Suc (length items)],
     total_tokens := int (tokens_before items (length items)),
     packed_token_ids := concat (map item_ids items),
     packed_positions := concat (map (\<lambda>item. position_row (token_count item)) items),
     attention_mask := concat (map (\<lambda>item. concat (replicate S (attention_row S item))) items),
     valid_mask := concat (map (valid_row S) items),
     mean_scale := map (\<lambda>item. F32_recip (token_count item)) items,
     last_indices := map (\<lambda>b. int (b * S + token_count (items ! b) - 1)) [0 ..< length items]\<rparr>"

lemma length_concat_uniform:
  "(\<And>x. x \<in> set xs \<Longrightarrow> length (f x) = n) \<Longrightarrow> length (concat (map f xs)) = n * length xs"
  by (induction xs) auto

lemma length_padded_row [simp]: "token_count item \<le> S \<Longrightarrow> length (padded_row S pad item) = S"
  by (simp add: padded_row_def token_count_def)

lemma length_rows [simp]:
  "length (position_row S) = S" "length (valid_row S item) = S" "length (attention_row S item) = S"
  by (simp_all add: position_row_def valid_row_def attention_row_def)

lemma i32_row: "S \<le> INT32_MAX \<Longrightarrow> map i32_of_nat [0 ..< S] = position_row S"
  by (simp add: position_row_def i32_of_nat_id)

lemma token_cells_row:
  "token_count item \<le> S \<Longrightarrow>
   map (\<lambda>s. case (if s < token_count item then Some (item_ids item ! s) else None) of None \<Rightarrow> pad | Some v \<Rightarrow> v) [0 ..< S]
   = padded_row S pad item"
  by (intro nth_equalityI) (auto simp: padded_row_def token_count_def nth_append)

lemma take_Suc_item: "k < length items \<Longrightarrow> take (Suc k) items = take k items @ [items ! k]"
  by (simp add: take_Suc_conv_app_nth)

lemma tokens_before_Suc:
  "k < length items \<Longrightarrow> tokens_before items (Suc k) = tokens_before items k + token_count (items ! k)"
  by (simp add: tokens_before_def take_Suc_item)

lemma tokens_before_mono: "j \<le> k \<Longrightarrow> tokens_before items j \<le> tokens_before items k"
proof -
  assume "j \<le> k"
  then have "take k items = take j items @ take (k - j) (drop j items)"
    by (metis le_add_diff_inverse take_add)
  then show ?thesis by (simp add: tokens_before_def)
qed

lemma tokens_before_le: "(\<And>item. item \<in> set items \<Longrightarrow> token_count item \<le> S) \<Longrightarrow>
    k \<le> length items \<Longrightarrow> tokens_before items k \<le> S * k"
proof (induction k)
  case (Suc k)
  then have "token_count (items ! k) \<le> S" "tokens_before items k \<le> S * k"
    "tokens_before items (Suc k) = tokens_before items k + token_count (items ! k)"
    by (simp_all add: tokens_before_Suc)
  then show ?case by simp
qed (simp add: tokens_before_def)

subsection \<open>The loops\<close>

lemma replicate_head: "k < n \<Longrightarrow> replicate (n - k) x = x # replicate (n - Suc k) x"
  by (metis Suc_diff_Suc replicate_Suc)

lemma update_next: "length pre = k \<Longrightarrow> k < n \<Longrightarrow> (pre @ replicate (n - k) x)[k := v] = (pre @ [v]) @ replicate (n - Suc k) x"
  by (simp add: list_update_append replicate_head)

lemma place_items:
  assumes small: "S \<le> INT32_MAX" and rows: "\<And>item. item \<in> set items \<Longrightarrow> token_count item \<le> S"
    and B: "B = length items"
  shows "foldE (place_item S items) [0 ..< B] ((empty_batch S B is_padded)\<lparr>token_ids := replicate (S * B) pad,
               learned_positions := replicate (S * B) 0, rope_positions := map i32_of_nat [0 ..< S],
               type_ids := replicate (S * B) 0, original_indices := replicate B 0,
               lengths := replicate B 0\<rparr>) = Inr (plain_batch S pad items is_padded)"
proof -
  define g where "g k = (empty_batch S B is_padded)\<lparr>
      token_ids := concat (map (padded_row S pad) (take k items)) @ replicate (S * (B - k)) pad,
      learned_positions := concat (map (\<lambda>_. position_row S) (take k items)) @ replicate (S * (B - k)) 0,
      rope_positions := position_row S, type_ids := replicate (S * B) 0,
      original_indices := map original_index (take k items) @ replicate (B - k) 0,
      lengths := map (int \<circ> token_count) (take k items) @ replicate (B - k) 0,
      valid_tokens := tokens_before items k,
      padding_tokens := sum_list (map (\<lambda>item. S - token_count item) (take k items))\<rparr>" for k
  have step: "place_item S items k (g k) = Inr (g (Suc k))" if "k < B" for k
  proof -
    have k: "k < length items" using that B by simp
    then have row: "token_count (items ! k) \<le> S" using rows by simp
    have tl: "take (Suc k) items = take k items @ [items ! k]" using k by (rule take_Suc_item)
    have Bk: "B - k = Suc (B - Suc k)" using that by simp
    have len: "length (concat (map (padded_row S pad) (take k items))) = S * k"
      "length (concat (map (\<lambda>_. position_row S) (take k items))) = S * k"
      using rows k by (subst length_concat_uniform [of _ _ S]; auto dest: in_set_takeD)+
    have t: "put_row S k (\<lambda>s. if s < length (item_ids (items ! k)) then Some (item_ids (items ! k) ! s) else None) (token_ids (g k))
        = token_ids (g (Suc k))"
      using put_row_fresh [OF len(1), of "\<lambda>s. if s < token_count (items ! k) then Some (item_ids (items ! k) ! s) else None"
          "B - Suc k" pad] token_cells_row [OF row, of pad]
      by (simp add: g_def Bk tl token_count_def)
    have l: "put_row S k (\<lambda>s. Some (i32_of_nat s)) (learned_positions (g k)) = learned_positions (g (Suc k))"
      using put_row_fresh [OF len(2), of "\<lambda>s. Some (i32_of_nat s)" "B - Suc k" 0] i32_row [OF small]
      by (simp add: g_def Bk tl)
    have o: "(original_indices (g k))[k := original_index (items ! k)] = original_indices (g (Suc k))"
      "(lengths (g k))[k := i32_of_nat (length (item_ids (items ! k)))] = lengths (g (Suc k))"
      using k that update_next [of "map original_index (take k items)" k B 0]
        update_next [of "map (int \<circ> token_count) (take k items)" k B 0] row small
      by (simp_all add: g_def tl i32_of_nat_id token_count_def)
    show ?thesis
      unfolding place_item_def Let_def t l o
      using row small k by (simp add: g_def token_count_def tokens_before_Suc tl not_less)
  qed
  have "foldE (place_item S items) [0 ..< B] (g 0) = Inr (g B)"
    by (rule foldE_upt) (rule step)
  moreover have "g 0 = (empty_batch S B is_padded)\<lparr>token_ids := replicate (S * B) pad,
               learned_positions := replicate (S * B) 0, rope_positions := map i32_of_nat [0 ..< S],
               type_ids := replicate (S * B) 0, original_indices := replicate B 0,
               lengths := replicate B 0\<rparr>"
    by (simp add: g_def i32_row [OF small] tokens_before_def empty_batch_def)
  moreover have "g B = plain_batch S pad items is_padded"
    by (simp add: g_def plain_batch_def B)
  ultimately show ?thesis by simp
qed

lemma pack_items:
  assumes total: "tokens_before items B \<le> INT32_MAX" and B: "B = length items"
    and rows: "\<And>item. item \<in> set items \<Longrightarrow> token_count item \<le> INT32_MAX"
    and fresh: "packed_token_ids out = []" "packed_positions out = []"
  shows "foldE (pack_item items) [0 ..< B] (0, out\<lparr>offsets := replicate (B + 1) 0\<rparr>)
    = Inr (tokens_before items B, out\<lparr>
        offsets := map (\<lambda>k. int (tokens_before items k)) [0 ..< B] @ [0],
        packed_token_ids := concat (map item_ids items),
        packed_positions := concat (map (\<lambda>item. position_row (token_count item)) items)\<rparr>)"
proof -
  define g where "g k = (tokens_before items k, out\<lparr>
      offsets := map (\<lambda>k. int (tokens_before items k)) [0 ..< k] @ replicate (B + 1 - k) 0,
      packed_token_ids := concat (map item_ids (take k items)),
      packed_positions := concat (map (\<lambda>item. position_row (token_count item)) (take k items))\<rparr>)" for k
  have step: "pack_item items k (g k) = Inr (g (Suc k))" if "k < B" for k
  proof -
    have k: "k < length items" using that B by simp
    then have row: "token_count (items ! k) \<le> INT32_MAX" using rows by simp
    have "tokens_before items (Suc k) \<le> INT32_MAX"
      using tokens_before_mono [of "Suc k" B items] that total by simp
    then have fits: "\<not> length (item_ids (items ! k)) > INT32_MAX - tokens_before items k"
      using k by (simp add: tokens_before_Suc token_count_def)
    have off: "(map (\<lambda>k. int (tokens_before items k)) [0 ..< k] @ replicate (B + 1 - k) 0)[k := int (tokens_before items k)]
        = map (\<lambda>k. int (tokens_before items k)) [0 ..< Suc k] @ replicate (B + 1 - Suc k) 0"
      using update_next [of "map (\<lambda>k. int (tokens_before items k)) [0 ..< k]" k "B + 1" 0] that by simp
    show ?thesis
      using fits off i32_row [OF row] k
      by (simp add: pack_item_def g_def Let_def take_Suc_item tokens_before_Suc token_count_def)
  qed
  have "foldE (pack_item items) [0 ..< B] (g 0) = Inr (g B)"
    by (rule foldE_upt) (rule step)
  moreover have "g 0 = (0, out\<lparr>offsets := replicate (B + 1) 0\<rparr>)"
    using fresh by (simp add: g_def tokens_before_def)
  ultimately show ?thesis by (simp add: g_def B)
qed

lemma mask_items:
  assumes small: "S * B \<le> INT32_MAX" and B: "B = length items" and ls: "lengths out = map (int \<circ> token_count) items"
    and rows: "\<And>item. item \<in> set items \<Longrightarrow> 0 < token_count item \<and> token_count item \<le> S"
  shows "foldE (mask_item S) [0 ..< B] (out\<lparr>attention_mask := replicate (S * S * B) Mask_zero,
            valid_mask := replicate (S * B) F32_zero, mean_scale := replicate B F32_zero,
            last_indices := replicate B 0\<rparr>)
    = Inr (out\<lparr>attention_mask := concat (map (\<lambda>item. concat (replicate S (attention_row S item))) items),
            valid_mask := concat (map (valid_row S) items),
            mean_scale := map (\<lambda>item. F32_recip (token_count item)) items,
            last_indices := map (\<lambda>b. int (b * S + token_count (items ! b) - 1)) [0 ..< B]\<rparr>)"
proof -
  define g where "g k = out\<lparr>
      attention_mask := concat (map (\<lambda>item. concat (replicate S (attention_row S item))) (take k items))
        @ replicate (S * S * (B - k)) Mask_zero,
      valid_mask := concat (map (valid_row S) (take k items)) @ replicate (S * (B - k)) F32_zero,
      mean_scale := map (\<lambda>item. F32_recip (token_count item)) (take k items) @ replicate (B - k) F32_zero,
      last_indices := map (\<lambda>b. int (b * S + token_count (items ! b) - 1)) [0 ..< k] @ replicate (B - k) 0\<rparr>" for k
  have step: "mask_item S k (g k) = Inr (g (Suc k))" if kB: "k < B" for k
  proof -
    have k: "k < length items" using kB B by simp
    then have row: "0 < token_count (items ! k)" "token_count (items ! k) \<le> S" using rows by simp_all
    have tl: "take (Suc k) items = take k items @ [items ! k]" using k by (rule take_Suc_item)
    have Bk: "B - k = Suc (B - Suc k)" using kB by simp
    have n: "nat (lengths (g k) ! k) = token_count (items ! k)" using k by (simp add: g_def ls)
    have last: "k * S + token_count (items ! k) \<le> INT32_MAX"
    proof -
      have "k * S + token_count (items ! k) \<le> Suc k * S" using row by simp
      also have "\<dots> \<le> B * S" using kB by (intro mult_le_mono1) simp
      finally show ?thesis using small by (simp add: mult.commute)
    qed
    have len: "length (concat (map (valid_row S) (take k items))) = S * k"
      "length (concat (map (\<lambda>item. concat (replicate S (attention_row S item))) (take k items))) = S * (S * k)"
    proof -
      show "length (concat (map (valid_row S) (take k items))) = S * k"
        using k by (subst length_concat_uniform [of _ _ S]) auto
      show "length (concat (map (\<lambda>item. concat (replicate S (attention_row S item))) (take k items))) = S * (S * k)"
        using k by (subst length_concat_uniform [of _ _ "S * S"]) (auto simp: length_concat sum_list_replicate)
    qed
    have v: "put_row S k (\<lambda>s. Some (if s < token_count (items ! k) then F32_one else F32_zero)) (valid_mask (g k))
        = valid_mask (g (Suc k))"
      using put_row_fresh [OF len(1), of "\<lambda>s. Some (if s < token_count (items ! k) then F32_one else F32_zero)" "B - Suc k" F32_zero]
      by (simp add: g_def Bk tl valid_row_def)
    have ga: "attention_mask (g j) = concat (map (\<lambda>item. concat (replicate S (attention_row S item))) (take j items))
        @ replicate (S * S * (B - j)) Mask_zero" for j by (simp add: g_def)
    have a: "foldl (\<lambda>m q. put_row S (q + S * k)
            (\<lambda>j. Some (if j < token_count (items ! k) then Mask_zero else Mask_neg_inf)) m) (attention_mask (g k)) [0 ..< S]
        = attention_mask (g (Suc k))"
      using put_rows_const [OF len(2), of "\<lambda>j. if j < token_count (items ! k) then Mask_zero else Mask_neg_inf" "B - Suc k" Mask_zero]
      by (simp only: ga Bk tl map_append concat_append list.map concat.simps append_Nil2 attention_row_def)
    have m: "(mean_scale (g k))[k := F32_recip (token_count (items ! k))] = mean_scale (g (Suc k))"
      using update_next [of "map (\<lambda>item. F32_recip (token_count item)) (take k items)" k B F32_zero] k kB
      by (simp add: g_def tl)
    have l: "(last_indices (g k))[k := int (k * S + token_count (items ! k) - 1)] = last_indices (g (Suc k))"
      using update_next [of "map (\<lambda>b. int (b * S + token_count (items ! b) - 1)) [0 ..< k]" k B 0] kB
      by (simp add: g_def)
    have flat: "(if k * S + token_count (items ! k) = 0 then SIZE_MAX else k * S + token_count (items ! k) - 1)
        = k * S + token_count (items ! k) - 1" using row by simp
    have i32: "i32_of_nat (k * S + token_count (items ! k) - 1) = int (k * S + token_count (items ! k) - 1)"
      using last by (intro i32_of_nat_id) simp
    have "\<not> k * S + token_count (items ! k) - 1 > INT32_MAX" using last by simp
    then show ?thesis
      unfolding mask_item_def Let_def n flat i32 v a m l if_False by (simp add: g_def)
  qed
  have "foldE (mask_item S) [0 ..< B] (g 0) = Inr (g B)"
    by (rule foldE_upt) (rule step)
  moreover have "g 0 = out\<lparr>attention_mask := replicate (S * S * B) Mask_zero,
            valid_mask := replicate (S * B) F32_zero, mean_scale := replicate B F32_zero,
            last_indices := replicate B 0\<rparr>" by (simp add: g_def)
  ultimately show ?thesis by (simp add: g_def B)
qed

lemma checked_mul_ok: "a * b \<le> SIZE_MAX \<Longrightarrow> checked_mul a b s = Inr (a * b)"
  by (cases "a = 0") (simp_all add: checked_mul_def not_less less_eq_div_iff_mult_less_eq mult.commute)

lemma cells_bounds:
  assumes small: "S * B \<le> INT32_MAX" and B: "B = length items"
    and rows: "\<And>item. item \<in> set items \<Longrightarrow> 0 < token_count item \<and> token_count item \<le> S" and B0: "B \<noteq> 0"
  shows "S \<le> INT32_MAX" "B \<le> INT32_MAX" "tokens_before items B \<le> INT32_MAX" "S \<noteq> 0"
    "S * S \<le> SIZE_MAX" "S * S * B \<le> SIZE_MAX" "S * B \<le> SIZE_MAX"
proof -
  have "items \<noteq> []" using B B0 by auto
  then show S0: "S \<noteq> 0" using rows [of "hd items"] by auto
  have b: "S \<le> S * B" "B \<le> S * B" using B0 S0 by simp_all
  have "tokens_before items B \<le> S * B" using tokens_before_le [of items S B] rows B by blast
  with small show "tokens_before items B \<le> INT32_MAX" by linarith
  show S: "S \<le> INT32_MAX" "B \<le> INT32_MAX" using b small by linarith+
  have "S * (S * B) \<le> INT32_MAX * INT32_MAX" using S(1) small by (rule mult_le_mono)
  then show "S * S * B \<le> SIZE_MAX" by (simp add: INT32_MAX_def SIZE_MAX_def mult.assoc)
  have "S * S \<le> INT32_MAX * INT32_MAX" using S(1) S(1) by (rule mult_le_mono)
  then show "S * S \<le> SIZE_MAX" by (simp add: INT32_MAX_def SIZE_MAX_def)
  show "S * B \<le> SIZE_MAX" using small by (simp add: INT32_MAX_def SIZE_MAX_def)
qed

lemma pad_batch_ok:
  assumes small: "S * B \<le> INT32_MAX" and B: "B = length items"
    and rows: "\<And>item. item \<in> set items \<Longrightarrow> 0 < token_count item \<and> token_count item \<le> S" and B0: "B \<noteq> 0"
  shows "pad_batch S B (S * B) items (plain_batch S pad items True) = Inr (padded_batch S pad items)"
proof -
  note bounds = cells_bounds [OF small B rows B0]
  let ?o = "plain_batch S pad items True"
  have len: "token_count item \<le> INT32_MAX" if "item \<in> set items" for item
    using rows [OF that] bounds(1) by linarith
  have f: "foldE (pack_item items) [0 ..< B] (0, ?o\<lparr>offsets := replicate (B + 1) 0\<rparr>)
    = Inr (tokens_before items B, ?o\<lparr>
      offsets := map (\<lambda>k. int (tokens_before items k)) [0 ..< B] @ [0],
      packed_token_ids := concat (map item_ids items),
      packed_positions := concat (map (\<lambda>item. position_row (token_count item)) items)\<rparr>)"
    using bounds(3) B len by (intro pack_items) (auto simp: plain_batch_def empty_batch_def)
  define o2 where "o2 = ?o\<lparr>packed_token_ids := concat (map item_ids items),
      packed_positions := concat (map (\<lambda>item. position_row (token_count item)) items),
      offsets := map (\<lambda>k. int (tokens_before items k)) [0 ..< Suc B],
      total_tokens := int (tokens_before items B)\<rparr>"
  have upd: "(map (\<lambda>k. int (tokens_before items k)) [0 ..< B] @ [0])[B := int (tokens_before items B)]
      = map (\<lambda>k. int (tokens_before items k)) [0 ..< Suc B]"
    by (simp add: list_update_append)
  have g: "foldE (mask_item S) [0 ..< B] (o2\<lparr>attention_mask := replicate (S * S * B) Mask_zero,
          valid_mask := replicate (S * B) F32_zero, mean_scale := replicate B F32_zero,
          last_indices := replicate B 0\<rparr>) = Inr (padded_batch S pad items)"
    by (subst mask_items [of S B items o2]) (use small B rows in \<open>auto simp: o2_def plain_batch_def padded_batch_def\<close>)
  show ?thesis
    unfolding pad_batch_def f using g upd
    by (simp add: checked_mul_ok bounds Let_def o2_def del: upt_Suc)
qed

lemma valid_plus_padding:
  "\<forall>item\<in>set items. token_count item \<le> S \<Longrightarrow>
   tokens_before items (length items) + sum_list (map (\<lambda>item. S - token_count item) items) = S * length items"
  by (induction items) (auto simp: tokens_before_def)

subsection \<open>Plans\<close>

text \<open>The order of a plan: by length, and by the caller's order among equal lengths.\<close>

definition before_in_plan :: "batch_item \<Rightarrow> batch_item \<Rightarrow> bool" where
  "before_in_plan a b \<longleftrightarrow> token_count a < token_count b
     \<or> (token_count a = token_count b \<and> original_index a < original_index b)"

lemma insort_key_before:
  assumes "sorted_wrt before_in_plan ys" and "\<forall>y\<in>set ys. original_index x < original_index y"
  shows "sorted_wrt before_in_plan (insort_key token_count x ys)"
  using assms by (induction ys) (auto simp: before_in_plan_def set_insort_key)

lemma stable_sort_before:
  "sorted_wrt (\<lambda>a b. original_index a < original_index b) xs \<Longrightarrow>
   sorted_wrt before_in_plan (sort_key token_count xs)"
  by (induction xs) (auto intro: insort_key_before)

lemma plan_item_Inr_iff:
  "plan_item encode n (i, text) = Inr item \<longleftrightarrow>
     encode text n = Inr (item_ids item) \<and> item_ids item \<noteq> [] \<and> original_index item = i"
  by (cases item) (auto simp: plan_item_def split: sum.split)

lemma plan_items_Inr:
  assumes "mapE (plan_item encode n) (enumerate k texts) = Inr items"
  shows "length items = length texts" "map original_index items = [k ..< k + length texts]"
    "\<And>j. j < length items \<Longrightarrow> encode (texts ! j) n = Inr (item_ids (items ! j)) \<and> item_ids (items ! j) \<noteq> []"
proof -
  have rel: "list_all2 (\<lambda>x y. plan_item encode n x = Inr y) (enumerate k texts) items"
    using assms by (simp add: mapE_Inr_iff)
  then show len: "length items = length texts" by (auto dest: list_all2_lengthD)
  have nth: "encode (texts ! j) n = Inr (item_ids (items ! j)) \<and> item_ids (items ! j) \<noteq> []
      \<and> original_index (items ! j) = k + j" if "j < length items" for j
    using list_all2_nthD2 [OF rel that] that len
    by (simp add: nth_enumerate_eq plan_item_Inr_iff)
  then show "map original_index items = [k ..< k + length texts]"
    using len by (intro nth_equalityI) auto
  show "encode (texts ! j) n = Inr (item_ids (items ! j)) \<and> item_ids (items ! j) \<noteq> []" if "j < length items" for j
    using nth [OF that] by blast
qed

lemma plan_items_Inl:
  assumes "mapE (plan_item encode n) (enumerate k texts) = Inl e"
  shows "\<exists>text\<in>set texts. (\<exists>e. encode text n = Inl e) \<or> encode text n = Inr []"
proof -
  obtain x e' where "x \<in> set (enumerate k texts)" "plan_item encode n x = Inl e'"
    using assms mapE_Inl_iff [of "plan_item encode n" "enumerate k texts"] by blast
  moreover from this have "snd x \<in> set texts" by (metis imageI list.set_map map_snd_enumerate)
  ultimately show ?thesis
    by (intro bexI [of _ "snd x"]) (auto simp: plan_item_def split: prod.splits sum.splits if_splits)
qed

lemma make_batch_plan_Inr:
  assumes "make_batch_plan encode texts n mb = Inr plan"
  shows "0 < mb" "plan_max_batch plan = nat mb" "length (plan_items plan) = length texts"
    "sorted_wrt before_in_plan (plan_items plan)"
    "original_index ` set (plan_items plan) = {..< length texts}"
    "\<And>item. item \<in> set (plan_items plan) \<Longrightarrow>
       encode (texts ! original_index item) n = Inr (item_ids item) \<and> item_ids item \<noteq> []"
proof -
  obtain items where items: "mapE (plan_item encode n) (enumerate 0 texts) = Inr items"
    and plan: "plan = \<lparr>plan_items = sort_key token_count items, plan_max_batch = nat mb\<rparr>"
    and pos: "0 < mb"
    using assms by (auto simp: make_batch_plan_def throwing token_count_def [abs_def] split: if_splits)
  note it = plan_items_Inr [OF items]
  show "0 < mb" "plan_max_batch plan = nat mb" "length (plan_items plan) = length texts"
    using pos plan it(1) by simp_all
  have "sorted_wrt (<) (map original_index items)" using it(2) by simp
  then show "sorted_wrt before_in_plan (plan_items plan)"
    unfolding plan by (simp add: stable_sort_before sorted_wrt_map)
  have idx: "set (map original_index items) = {..< length texts}" unfolding it(2) by auto
  then show "original_index ` set (plan_items plan) = {..< length texts}" by (simp add: plan)
  fix item assume "item \<in> set (plan_items plan)"
  then obtain j where j: "j < length items" "item = items ! j"
    by (auto simp: plan in_set_conv_nth)
  moreover have "original_index (items ! j) = j" using arg_cong [OF it(2), of "\<lambda>l. l ! j"] j(1) it(1) by simp
  ultimately show "encode (texts ! original_index item) n = Inr (item_ids item) \<and> item_ids item \<noteq> []"
    using it(3) by simp
qed

subsection \<open>Sub-batches\<close>

lemma subbatch_count_alt:
  "0 < plan_max_batch plan \<Longrightarrow> i < subbatch_count plan \<longleftrightarrow> i * plan_max_batch plan < length (plan_items plan)"
proof -
  assume m: "0 < plan_max_batch plan"
  show ?thesis
  proof (cases "plan_items plan")
    case (Cons a list)
    have "i \<le> length list div plan_max_batch plan \<longleftrightarrow> i * plan_max_batch plan \<le> length list"
      using m by (simp add: less_eq_div_iff_mult_less_eq)
    then show ?thesis using Cons by (simp add: subbatch_count_def less_Suc_eq_le)
  qed (simp add: subbatch_count_def)
qed

lemma subbatch_items_alt:
  "subbatch_items plan i = take (plan_max_batch plan) (drop (i * plan_max_batch plan) (plan_items plan))"
  by (simp add: subbatch_items_def Let_def min_def take_drop add.commute)

lemma subbatches_cover:
  assumes "0 < plan_max_batch plan"
  shows "concat (map (subbatch_items plan) [0 ..< subbatch_count plan]) = plan_items plan"
proof -
  have "concat (map (subbatch_items plan) [0 ..< k]) = take (k * plan_max_batch plan) (plan_items plan)" for k
  proof (induction k)
    case (Suc k)
    have "Suc k * plan_max_batch plan = k * plan_max_batch plan + plan_max_batch plan" by simp
    then show ?case using Suc by (simp only: take_add) (simp add: subbatch_items_alt)
  qed simp
  moreover have "length (plan_items plan) \<le> subbatch_count plan * plan_max_batch plan"
    using subbatch_count_alt [OF assms, of "subbatch_count plan"] by simp
  ultimately show ?thesis by simp
qed

lemma subbatch_facts:
  assumes "0 < plan_max_batch plan" and "i < subbatch_count plan"
  shows "subbatch_items plan i \<noteq> []" "length (subbatch_items plan i) \<le> plan_max_batch plan"
    "set (subbatch_items plan i) \<subseteq> set (plan_items plan)"
  using assms by (auto simp: subbatch_items_alt subbatch_count_alt dest: in_set_takeD in_set_dropD)

lemma subbatch_sorted:
  assumes "sorted_wrt before_in_plan (plan_items plan)" and "subbatch_items plan i \<noteq> []"
    and "item \<in> set (subbatch_items plan i)"
  shows "token_count item \<le> token_count (last (subbatch_items plan i))"
    "token_count (hd (subbatch_items plan i)) \<le> token_count item"
proof -
  let ?items = "subbatch_items plan i"
  have "sorted_wrt before_in_plan ?items"
    unfolding subbatch_items_alt using assms(1) by (intro sorted_wrt_take sorted_wrt_drop)
  then have mono: "j \<le> k \<Longrightarrow> k < length ?items \<Longrightarrow> token_count (?items ! j) \<le> token_count (?items ! k)" for j k
    using sorted_wrt_nth_less [of before_in_plan ?items j k]
    by (cases "j = k") (auto simp: before_in_plan_def)
  obtain j where j: "j < length ?items" "item = ?items ! j" using assms(3) by (auto simp: in_set_conv_nth)
  have l: "last ?items = ?items ! (length ?items - 1)" "hd ?items = ?items ! 0"
    using assms(2) by (simp_all add: last_conv_nth hd_conv_nth)
  show "token_count item \<le> token_count (last ?items)"
    unfolding l(1) j(2) by (rule mono) (use j(1) in auto)
  show "token_count (hd ?items) \<le> token_count item"
    unfolding l(2) j(2) by (rule mono) (use j(1) in auto)
qed

subsection \<open>What batching promises\<close>

text \<open>
  C20: the batch plan. \<open>make_batch_plan\<close> fails only when the batch size is not positive or some
  text is refused by the tokenizer or has no token. Otherwise the plan holds one item per text,
  each with the tokens of the text at its original index, every index once, ordered by length
  and, among equal lengths, in the caller's order.
\<close>

theorem batch_plan_exact:
  "case make_batch_plan encode texts max_seq_len max_batch of
     Inl _ \<Rightarrow> max_batch \<le> 0 \<or> (\<exists>text\<in>set texts. (\<exists>e. encode text max_seq_len = Inl e) \<or> encode text max_seq_len = Inr [])
   | Inr plan \<Rightarrow> 0 < max_batch \<and> plan_max_batch plan = nat max_batch
       \<and> length (plan_items plan) = length texts
       \<and> original_index ` set (plan_items plan) = {..< length texts}
       \<and> (\<forall>item\<in>set (plan_items plan). encode (texts ! original_index item) max_seq_len = Inr (item_ids item)
            \<and> item_ids item \<noteq> [])
       \<and> sorted_wrt before_in_plan (plan_items plan)"
proof (cases "make_batch_plan encode texts max_seq_len max_batch")
  case (Inl e)
  then have "max_batch \<le> 0 \<or> (\<exists>e. mapE (plan_item encode max_seq_len) (enumerate 0 texts) = Inl e)"
    by (auto simp: make_batch_plan_def throwing split: if_splits)
  then show ?thesis using plan_items_Inl [of encode max_seq_len 0 texts] Inl by fastforce
next
  case (Inr plan)
  then show ?thesis using make_batch_plan_Inr [OF Inr] by auto
qed

definition demo_encode :: "int list \<Rightarrow> int \<Rightarrow> string + int list" where
  "demo_encode text n = (if length text > nat n then Inl ''too long'' else Inr text)"

theorem batch_plan_exact_witness:
  "make_batch_plan demo_encode [[7, 8], [5], [6], [1, 2, 3]] 3 2 = Inr \<lparr>plan_items =
     [\<lparr>item_ids = [5], original_index = 1\<rparr>, \<lparr>item_ids = [6], original_index = 2\<rparr>,
      \<lparr>item_ids = [7, 8], original_index = 0\<rparr>, \<lparr>item_ids = [1, 2, 3], original_index = 3\<rparr>],
     plan_max_batch = 2\<rparr>
   \<and> sorted_wrt before_in_plan [\<lparr>item_ids = [5], original_index = 1\<rparr>, \<lparr>item_ids = [6], original_index = 2\<rparr>,
      \<lparr>item_ids = [7, 8], original_index = 0\<rparr>, \<lparr>item_ids = [1, 2, 3], original_index = 3\<rparr>]"
proof -
  have "make_batch_plan demo_encode [[7, 8], [5], [6], [1, 2, 3]] 3 2 = Inr \<lparr>plan_items =
     [\<lparr>item_ids = [5], original_index = 1\<rparr>, \<lparr>item_ids = [6], original_index = 2\<rparr>,
      \<lparr>item_ids = [7, 8], original_index = 0\<rparr>, \<lparr>item_ids = [1, 2, 3], original_index = 3\<rparr>],
     plan_max_batch = 2\<rparr>"
    by (simp add: make_batch_plan_def plan_item_def demo_encode_def)
  then show ?thesis
    using batch_plan_exact [where encode = demo_encode and texts = "[[7, 8], [5], [6], [1, 2, 3]]"
      and max_seq_len = 3 and max_batch = 2] by simp
qed

text \<open>
  C21: sub-batches cover the plan. The sub-batches of a plan, one after another, are its items:
  none is lost or repeated; each is non-empty and no larger than the batch size.
\<close>

theorem subbatches_partition:
  assumes "make_batch_plan encode texts max_seq_len max_batch = Inr plan"
  shows "concat (map (subbatch_items plan) [0 ..< subbatch_count plan]) = plan_items plan
    \<and> (\<forall>i < subbatch_count plan. subbatch_items plan i \<noteq> []
         \<and> length (subbatch_items plan i) \<le> nat max_batch)"
proof -
  have m: "0 < plan_max_batch plan" "plan_max_batch plan = nat max_batch"
    using make_batch_plan_Inr(1,2) [OF assms] by simp_all
  then show ?thesis using subbatches_cover [OF m(1)] subbatch_facts [OF m(1)] by metis
qed

theorem subbatches_partition_witness:
  "\<exists>plan. make_batch_plan demo_encode [[7, 8], [5], [6]] 3 2 = Inr plan \<and> subbatch_count plan = 2
    \<and> concat (map (subbatch_items plan) [0 ..< 2]) = plan_items plan"
proof -
  obtain plan where p: "make_batch_plan demo_encode [[7, 8], [5], [6]] 3 2 = Inr plan" "subbatch_count plan = 2"
    by (simp add: make_batch_plan_def plan_item_def demo_encode_def subbatch_count_def)
  from subbatches_partition [OF p(1)] p show ?thesis by (auto simp only: p(2))
qed

lemma materialize_batch_tensors:
  fixes encode :: "'t \<Rightarrow> int \<Rightarrow> 'e + int list"
  assumes plan: "make_batch_plan encode texts max_seq_len max_batch = Inr plan"
    and idx: "i < subbatch_count plan" and vocab: "0 < vocab_size"
    and S: "S = token_count (last (subbatch_items plan i))" and B: "B = length (subbatch_items plan i)"
    and small: "S * B \<le> INT32_MAX"
    and pad: "pad = (if 0 \<le> padding_id \<and> padding_id < vocab_size then padding_id else 0)"
  shows "(materialize_batch plan i padding_id vocab_size :: 'e batch_error + materialized_batch) = Inr
      (if \<forall>item\<in>set (subbatch_items plan i). token_count item = S
       then plain_batch S pad (subbatch_items plan i) False
       else padded_batch S pad (subbatch_items plan i))
    \<and> tokens_before (subbatch_items plan i) B
       + sum_list (map (\<lambda>item. S - token_count item) (subbatch_items plan i)) = S * B"
proof -
  let ?items = "subbatch_items plan i"
  note p = make_batch_plan_Inr [OF plan]
  have m: "0 < plan_max_batch plan" using p(1,2) by simp
  note sub = subbatch_facts [OF m idx]
  have rows: "0 < token_count item \<and> token_count item \<le> S" if "item \<in> set ?items" for item
  proof -
    have "item_ids item \<noteq> []" using p(6) sub(3) that by blast
    moreover have "token_count item \<le> S" unfolding S by (rule subbatch_sorted [OF p(4) sub(1) that])
    ultimately show ?thesis by (simp add: token_count_def)
  qed
  have B0: "B \<noteq> 0" using sub(1) B by simp
  note bounds = cells_bounds [OF small B rows B0]
  have mul: "checked_mul S B ''S*B'' = (Inr (S * B) :: 'e batch_error + nat)"
    by (rule checked_mul_ok [OF bounds(7)])
  have hd_eq: "length (item_ids (hd ?items)) \<noteq> S \<longleftrightarrow> \<not> (\<forall>item\<in>set ?items. token_count item = S)"
    using subbatch_sorted [OF p(4) sub(1)] rows sub(1)
    by (metis S token_count_def hd_in_set le_antisym)
  have Sl: "length (item_ids (last ?items)) = S" by (simp add: S token_count_def)
  have pl: "foldE (place_item S ?items) [0 ..< B] ((empty_batch S B padflag)\<lparr>token_ids := replicate (S * B) pad,
               learned_positions := replicate (S * B) 0, rope_positions := map i32_of_nat [0 ..< S],
               type_ids := replicate (S * B) 0, original_indices := replicate B 0,
               lengths := replicate B 0\<rparr>) = (Inr (plain_batch S pad ?items padflag) :: 'e batch_error + _)" for padflag
    using bounds(1) rows B by (intro place_items) auto
  have pb: "pad_batch S B (S * B) ?items (plain_batch S pad ?items True)
      = (Inr (padded_batch S pad ?items) :: 'e batch_error + _)"
    using small B rows B0 by (rule pad_batch_ok)
  have "materialize_batch plan i padding_id vocab_size = (Inr
      (if \<forall>item\<in>set ?items. token_count item = S then plain_batch S pad ?items False
       else padded_batch S pad ?items) :: 'e batch_error + _)"
  proof -
    have dims: "\<not> (B = 0 \<or> S = 0 \<or> B > INT64_MAX \<or> S > INT64_MAX)"
      using B0 bounds
      by (auto simp: INT32_MAX_def INT64_MAX_def)
    have padeq: "(if padding_id < 0 \<or> padding_id \<ge> vocab_size then 0 else padding_id) = pad"
      using pad by auto
    show ?thesis
      unfolding materialize_batch_def Let_def padeq Sl B [symmetric] mul bindE.simps pl hd_eq
      using m idx vocab dims pb by auto
  qed
  moreover have "tokens_before ?items B + sum_list (map (\<lambda>item. S - token_count item) ?items) = S * B"
    unfolding B by (rule valid_plus_padding) (use rows in auto)
  ultimately show ?thesis by blast
qed

text \<open>
  C9: the tensors of a sub-batch. For a plan that \<open>make_batch_plan\<close> returned and a sub-batch
  whose \<open>S*B\<close> cells are countable by an \<open>int32\<close>, \<open>materialize_batch\<close> succeeds: row \<open>b\<close> of the
  token tensor holds the tokens of item \<open>b\<close> and then the padding, the masks mark exactly the real
  tokens, the packed copy is the concatenation of the tokens with the prefix sums of the lengths
  as offsets, and real and padding tokens add up to \<open>S*B\<close>. The padded-only tensors are built
  exactly when the lengths differ.
\<close>

theorem materialize_batch_exact:
  fixes encode :: "'t \<Rightarrow> int \<Rightarrow> 'e + int list"
  assumes plan: "make_batch_plan encode texts max_seq_len max_batch = Inr plan"
    and idx: "i < subbatch_count plan" and vocab: "0 < vocab_size"
    and S: "S = token_count (last (subbatch_items plan i))" and B: "B = length (subbatch_items plan i)"
    and small: "S * B \<le> INT32_MAX"
    and pad: "pad = (if 0 \<le> padding_id \<and> padding_id < vocab_size then padding_id else 0)"
  shows "(materialize_batch plan i padding_id vocab_size :: 'e batch_error + materialized_batch) = Inr
      (if \<forall>item\<in>set (subbatch_items plan i). token_count item = S
       then plain_batch S pad (subbatch_items plan i) False
       else padded_batch S pad (subbatch_items plan i))
    \<and> tokens_before (subbatch_items plan i) B
       + sum_list (map (\<lambda>item. S - token_count item) (subbatch_items plan i)) = S * B"
  by (rule materialize_batch_tensors [OF plan idx vocab S B small pad])

theorem materialize_batch_exact_witness:
  "\<exists>plan. make_batch_plan demo_encode [[7, 8], [5], [6]] 3 3 = Inr plan
    \<and> materialize_batch plan 0 9 100
      = (Inr (padded_batch 2 9 [\<lparr>item_ids = [5], original_index = 1\<rparr>, \<lparr>item_ids = [6], original_index = 2\<rparr>,
          \<lparr>item_ids = [7, 8], original_index = 0\<rparr>]) :: string batch_error + materialized_batch)
    \<and> token_ids (padded_batch 2 9 [\<lparr>item_ids = [5], original_index = 1\<rparr>, \<lparr>item_ids = [6], original_index = 2\<rparr>,
          \<lparr>item_ids = [7, 8], original_index = 0\<rparr>]) = [5, 9, 6, 9, 7, 8]"
proof -
  let ?items = "[\<lparr>item_ids = [5], original_index = 1\<rparr>, \<lparr>item_ids = [6], original_index = 2\<rparr>,
          \<lparr>item_ids = [7, 8], original_index = 0\<rparr>] :: batch_item list"
  let ?plan = "\<lparr>plan_items = ?items, plan_max_batch = 3\<rparr>"
  have p: "make_batch_plan demo_encode [[7, 8], [5], [6]] 3 3 = Inr ?plan"
    by (simp add: make_batch_plan_def plan_item_def demo_encode_def)
  have sub: "subbatch_items ?plan 0 = ?items" "0 < subbatch_count ?plan"
    by (simp_all add: subbatch_items_def subbatch_count_def)
  have "materialize_batch ?plan 0 9 100
      = (Inr (padded_batch 2 9 ?items) :: string batch_error + materialized_batch)"
    using materialize_batch_exact [OF p sub(2), of 100 2 3 9 9, THEN conjunct1]
    unfolding sub by (simp add: token_count_def INT32_MAX_def)
  moreover have "token_ids (padded_batch 2 9 ?items) = [5, 9, 6, 9, 7, 8]"
    by (simp add: padded_batch_def plain_batch_def padded_row_def token_count_def)
  ultimately show ?thesis using p by blast
qed

end
