(* ===== verification/Ggml.thy ===== *)
theory Ggml
  imports Prelude
begin

text \<open>
  The tensor library as an argument. ggml is a submodule of the repository, so its operations
  are the fields of a record that every graph builder takes; a tensor stands for the value its
  graph node has once the graph is computed. Scalars are single precision bit patterns; the
  float arithmetic the builders do themselves (a quotient, a square root, a conversion) is in
  the same record. \<open>tensor_laws\<close> collects the shape rules of ggml that the shape theorems use.
\<close>

subsection \<open>Single precision numbers as bit patterns\<close>

type_synonym f32 = "32 word"

definition f32_zero :: f32 where "f32_zero = 0"
definition f32_one :: f32 where "f32_one = 0x3F800000"
definition f32_1e_12 :: f32 where "f32_1e_12 = 0x2B8CBCCC"
definition f32_1e_6 :: f32 where "f32_1e_6 = 0x358637BD"
definition f32_1e6 :: f32 where "f32_1e6 = 0x49742400"

definition f32_exponent :: "f32 \<Rightarrow> f32" where
  "f32_exponent x = drop_bit 23 x AND 0xFF"

definition f32_mantissa :: "f32 \<Rightarrow> f32" where
  "f32_mantissa x = x AND 0x7FFFFF"

text \<open>\<open>std::isfinite(x)\<close> and \<open>x > 0.0f\<close>: the comparison is false on a NaN and on both zeros.\<close>

definition f32_isfinite :: "f32 \<Rightarrow> bool" where
  "f32_isfinite x \<longleftrightarrow> f32_exponent x \<noteq> 0xFF"

definition f32_isnan :: "f32 \<Rightarrow> bool" where
  "f32_isnan x \<longleftrightarrow> f32_exponent x = 0xFF \<and> f32_mantissa x \<noteq> 0"

definition f32_positive :: "f32 \<Rightarrow> bool" where
  "f32_positive x \<longleftrightarrow> \<not> bit x 31 \<and> x \<noteq> 0 \<and> \<not> f32_isnan x"

text \<open>\<open>static_cast<int>\<close> of a 64-bit integer: the low 32 bits.\<close>

definition cast_i32 :: "int \<Rightarrow> int" where
  "cast_i32 x = sint (word_of_int x :: u32)"

lemma cast_i32_id: "0 \<le> x \<Longrightarrow> x < 2 ^ 31 \<Longrightarrow> cast_i32 x = x"
  unfolding cast_i32_def
  by (simp add: sint_uint unsigned_of_int signed_take_bit_int_eq_self take_bit_int_eq_self)

subsection \<open>The operations\<close>

text \<open>\<open>GGML_ROPE_TYPE_NORMAL\<close> and \<open>GGML_ROPE_TYPE_NEOX\<close>.\<close>

datatype rope_mode = RopeNormal | RopeNeox

text \<open>
  Dimension lists name \<open>ne[0]\<close> first, as the calls of \<open>ggml_reshape_1d\<close> to \<open>_4d\<close>,
  \<open>ggml_view_2d\<close> and \<open>_4d\<close> do; strides and offsets are byte counts.
\<close>

record 't ggml =
  g_ne :: "'t \<Rightarrow> nat \<Rightarrow> int"
  g_nb :: "'t \<Rightarrow> nat \<Rightarrow> u64"
  g_f32_contiguous :: "'t \<Rightarrow> bool"
  g_i32 :: "'t \<Rightarrow> bool"
  g_mul_mat :: "'t \<Rightarrow> 't \<Rightarrow> 't"
  g_add :: "'t \<Rightarrow> 't \<Rightarrow> 't"
  g_mul :: "'t \<Rightarrow> 't \<Rightarrow> 't"
  g_scale :: "'t \<Rightarrow> f32 \<Rightarrow> 't"
  g_norm :: "'t \<Rightarrow> f32 \<Rightarrow> 't"
  g_rms_norm :: "'t \<Rightarrow> f32 \<Rightarrow> 't"
  g_l2_norm :: "'t \<Rightarrow> f32 \<Rightarrow> 't"
  g_get_rows :: "'t \<Rightarrow> 't \<Rightarrow> 't"
  g_gelu_erf :: "'t \<Rightarrow> 't"
  g_geglu_split :: "'t \<Rightarrow> 't \<Rightarrow> 't"
  g_swiglu_split :: "'t \<Rightarrow> 't \<Rightarrow> 't"
  g_cont :: "'t \<Rightarrow> 't"
  g_transpose :: "'t \<Rightarrow> 't"
  g_mean :: "'t \<Rightarrow> 't"
  g_sum_rows :: "'t \<Rightarrow> 't"
  g_permute :: "'t \<Rightarrow> nat \<Rightarrow> nat \<Rightarrow> nat \<Rightarrow> nat \<Rightarrow> 't"
  g_reshape :: "'t \<Rightarrow> int list \<Rightarrow> 't"
  g_view :: "'t \<Rightarrow> int list \<Rightarrow> u64 list \<Rightarrow> u64 \<Rightarrow> 't"
  g_soft_max_ext :: "'t \<Rightarrow> 't option \<Rightarrow> f32 \<Rightarrow> f32 \<Rightarrow> 't"
  g_diag_mask_inf :: "'t \<Rightarrow> int \<Rightarrow> 't"
  g_rope_ext :: "'t \<Rightarrow> 't \<Rightarrow> 't option \<Rightarrow> int \<Rightarrow> rope_mode \<Rightarrow> int \<Rightarrow> f32 \<Rightarrow> f32 \<Rightarrow> f32 \<Rightarrow> f32 \<Rightarrow> f32 \<Rightarrow> f32 \<Rightarrow> 't"
  g_pad :: "'t \<Rightarrow> int \<Rightarrow> int \<Rightarrow> int \<Rightarrow> int \<Rightarrow> 't"
  g_new_f32 :: "int list \<Rightarrow> 't"
  g_set_inplace :: "'t \<Rightarrow> 't \<Rightarrow> u64 \<Rightarrow> u64 \<Rightarrow> u64 \<Rightarrow> u64 \<Rightarrow> 't"
  g_concat :: "'t \<Rightarrow> 't \<Rightarrow> nat \<Rightarrow> 't"
  g_div :: "f32 \<Rightarrow> f32 \<Rightarrow> f32"
  g_sqrt :: "f32 \<Rightarrow> f32"
  g_f32_of_int :: "int \<Rightarrow> f32"

subsection \<open>Shapes\<close>

definition shape :: "'t ggml \<Rightarrow> 't \<Rightarrow> int list" where
  "shape g t = [g_ne g t 0, g_ne g t 1, g_ne g t 2, g_ne g t 3]"

lemma shape_eq [simp]:
  "shape g t = [a, b, c, d] \<longleftrightarrow> g_ne g t 0 = a \<and> g_ne g t 1 = b \<and> g_ne g t 2 = c \<and> g_ne g t 3 = d"
  by (simp add: shape_def)

text \<open>\<open>ggml_can_repeat(b, a)\<close>: \<open>b\<close> broadcasts to \<open>a\<close> when each of its dimensions divides.\<close>

definition broadcasts :: "'t ggml \<Rightarrow> 't \<Rightarrow> 't \<Rightarrow> bool" where
  "broadcasts g b a \<longleftrightarrow> (\<forall>i\<in>{0, 1, 2, 3}. g_ne g b i dvd g_ne g a i)"

definition has_shape :: "'t ggml \<Rightarrow> 't \<Rightarrow> int list \<Rightarrow> bool" where
  "has_shape g t s \<longleftrightarrow> shape g t = s \<and> g_f32_contiguous g t"

definition elements :: "int list \<Rightarrow> int" where
  "elements s = prod_list s"

definition dims4 :: "int list \<Rightarrow> int list" where
  "dims4 ds = take 4 (ds @ [1, 1, 1, 1])"

text \<open>\<open>ggml_nbytes\<close> of a contiguous float tensor, and the strides of one that is freshly laid out.\<close>

definition f32_bytes :: "'t ggml \<Rightarrow> 't \<Rightarrow> int" where
  "f32_bytes g t = 4 * elements (shape g t)"

definition natural_strides :: "'t ggml \<Rightarrow> 't \<Rightarrow> bool" where
  "natural_strides g t \<longleftrightarrow> uint (g_nb g t 0) = 4 \<and> uint (g_nb g t 1) = 4 * g_ne g t 0
     \<and> uint (g_nb g t 2) = 4 * (g_ne g t 0 * g_ne g t 1)
     \<and> uint (g_nb g t 3) = 4 * (g_ne g t 0 * g_ne g t 1 * g_ne g t 2)"

text \<open>How far the last element lies from the first, for dimensions \<open>ds\<close> with byte strides \<open>nbs\<close>.\<close>

definition stride_sum :: "int list \<Rightarrow> int list \<Rightarrow> int" where
  "stride_sum ds nbs = sum_list (map (\<lambda>(d, n). (d - 1) * n) (zip ds nbs))"

text \<open>
  The window of a view or of a write: it starts at byte \<open>off\<close>, and neither its bytes taken together
  (what \<open>ggml_view\<close> asserts) nor its last element (what the kernel of \<open>ggml_set\<close> asserts) go beyond
  the end of \<open>a\<close>.
\<close>

definition window_inside :: "'t ggml \<Rightarrow> 't \<Rightarrow> int list \<Rightarrow> int list \<Rightarrow> u64 \<Rightarrow> bool" where
  "window_inside g a ds nbs off \<longleftrightarrow> list_all (\<lambda>d. 0 < d) ds
     \<and> uint off + 4 * elements ds \<le> f32_bytes g a \<and> uint off + stride_sum ds nbs + 4 \<le> f32_bytes g a"

text \<open>
  The documented shape rules. The preconditions of a rule are the shape, contiguity and bounds
  conditions that ggml asserts, in the builder or in the kernel, so a proof that uses it also shows
  that they hold: operands repeat or match, a reshape keeps the number of elements and needs a
  contiguous operand, a view and the target of \<open>ggml_set\<close> lie inside the source, and the offset of
  \<open>ggml_set\<close> is below \<open>2 ^ 30\<close>. Conditions on element types (of a mask, of positions) and the rule
  that the first factor of a product is not transposed are not among them. Results of computing
  operations are contiguous; \<open>ggml_cont\<close> and a new tensor have the natural strides as long as their
  byte count is a \<open>size_t\<close>, and \<open>ggml_set_inplace\<close> keeps those of its target.
\<close>

definition elementwise_laws :: "'t ggml \<Rightarrow> bool" where
  "elementwise_laws g \<longleftrightarrow>
     (\<forall>a b. g_f32_contiguous g a \<longrightarrow> broadcasts g b a \<longrightarrow> has_shape g (g_add g a b) (shape g a))
   \<and> (\<forall>a b. g_f32_contiguous g a \<longrightarrow> broadcasts g b a \<longrightarrow> has_shape g (g_mul g a b) (shape g a))
   \<and> (\<forall>a e. g_f32_contiguous g a \<longrightarrow> has_shape g (g_norm g a e) (shape g a))
   \<and> (\<forall>a e. g_f32_contiguous g a \<longrightarrow> has_shape g (g_rms_norm g a e) (shape g a))
   \<and> (\<forall>a. g_f32_contiguous g a \<longrightarrow> has_shape g (g_gelu_erf g a) (shape g a))
   \<and> (\<forall>a b. g_f32_contiguous g a \<longrightarrow> shape g a = shape g b \<longrightarrow> has_shape g (g_geglu_split g a b) (shape g a))
   \<and> (\<forall>a b. g_f32_contiguous g a \<longrightarrow> shape g a = shape g b \<longrightarrow> has_shape g (g_swiglu_split g a b) (shape g a))
   \<and> (\<forall>a n. g_f32_contiguous g a \<longrightarrow> has_shape g (g_diag_mask_inf g a n) (shape g a))"

definition layout_laws :: "'t ggml \<Rightarrow> bool" where
  "layout_laws g \<longleftrightarrow>
     (\<forall>a ds. g_f32_contiguous g a \<longrightarrow> ds \<noteq> [] \<longrightarrow> length ds \<le> 4 \<longrightarrow> elements ds = elements (shape g a)
        \<longrightarrow> has_shape g (g_reshape g a ds) (dims4 ds))
   \<and> (\<forall>a. shape g (g_permute g a 0 2 1 3) = [g_ne g a 0, g_ne g a 2, g_ne g a 1, g_ne g a 3])
   \<and> (\<forall>a. shape g (g_permute g a 1 0 2 3) = [g_ne g a 1, g_ne g a 0, g_ne g a 2, g_ne g a 3])
   \<and> (\<forall>a. has_shape g (g_cont g a) (shape g a))
   \<and> (\<forall>a ds nbs off. g_f32_contiguous g a \<longrightarrow> length ds \<in> {2, 4} \<longrightarrow> Suc (length nbs) = length ds
        \<longrightarrow> window_inside g a ds (uint (g_nb g a 0) # map uint nbs) off \<longrightarrow> shape g (g_view g a ds nbs off) = dims4 ds)
   \<and> (\<forall>ds. length ds = 4 \<longrightarrow> has_shape g (g_new_f32 g ds) ds)
   \<and> (\<forall>a b n1 n2 n3 off. g_f32_contiguous g a \<longrightarrow> g_f32_contiguous g b \<longrightarrow> uint off < 2 ^ 30 \<longrightarrow>
        elements (shape g b) \<le> elements (shape g a) \<longrightarrow>
        window_inside g a (shape g b) [4, uint n1, uint n2, uint n3] off \<longrightarrow>
        has_shape g (g_set_inplace g a b n1 n2 n3 off) (shape g a)
        \<and> (natural_strides g a \<longrightarrow> natural_strides g (g_set_inplace g a b n1 n2 n3 off)))
   \<and> (\<forall>a p0 p1 p2 p3. g_f32_contiguous g a \<longrightarrow> 0 \<le> p0 \<longrightarrow> 0 \<le> p1 \<longrightarrow> 0 \<le> p2 \<longrightarrow> 0 \<le> p3 \<longrightarrow>
        has_shape g (g_pad g a p0 p1 p2 p3) [g_ne g a 0 + p0, g_ne g a 1 + p1, g_ne g a 2 + p2, g_ne g a 3 + p3])
   \<and> (\<forall>a. list_all (\<lambda>d. 0 < d) (shape g a) \<longrightarrow> f32_bytes g a < 2 ^ 64 \<longrightarrow> natural_strides g (g_cont g a))
   \<and> (\<forall>ds. length ds = 4 \<longrightarrow> list_all (\<lambda>d. 0 < d) ds \<longrightarrow> 4 * elements ds < 2 ^ 64 \<longrightarrow>
        natural_strides g (g_new_f32 g ds))"

definition product_laws :: "'t ggml \<Rightarrow> bool" where
  "product_laws g \<longleftrightarrow>
     (\<forall>a b. g_ne g a 0 = g_ne g b 0 \<longrightarrow> g_ne g a 2 dvd g_ne g b 2 \<longrightarrow> g_ne g a 3 dvd g_ne g b 3
        \<longrightarrow> has_shape g (g_mul_mat g a b) [g_ne g a 1, g_ne g b 1, g_ne g b 2, g_ne g b 3])
   \<and> (\<forall>a m s b. g_f32_contiguous g a \<longrightarrow>
        (\<forall>k. m = Some k \<longrightarrow> g_ne g k 0 = g_ne g a 0 \<and> g_ne g k 1 \<ge> g_ne g a 1
           \<and> g_ne g k 2 dvd g_ne g a 2 \<and> g_ne g k 3 dvd g_ne g a 3)
        \<longrightarrow> has_shape g (g_soft_max_ext g a m s b) (shape g a))
   \<and> (\<forall>a p n c fb fs ef af bf bs. g_f32_contiguous g a \<longrightarrow> shape g p = [g_ne g a 2, 1, 1, 1] \<longrightarrow>
        has_shape g (g_rope_ext g a p None n RopeNeox c fb fs ef af bf bs) (shape g a))"

definition tensor_laws :: "'t ggml \<Rightarrow> bool" where
  "tensor_laws g \<longleftrightarrow> elementwise_laws g \<and> layout_laws g \<and> product_laws g"

named_theorems shapes

lemma has_shape_iff:
  "has_shape g t [a, b, c, d] \<longleftrightarrow>
   g_ne g t 0 = a \<and> g_ne g t 1 = b \<and> g_ne g t 2 = c \<and> g_ne g t 3 = d \<and> g_f32_contiguous g t"
  by (auto simp: has_shape_def)

lemma has_shape_dims:
  assumes "has_shape g t [a, b, c, d]"
  shows "g_ne g t 0 = a" "g_ne g t 1 = b" "g_ne g t (Suc 0) = b" "g_ne g t 2 = c" "g_ne g t 3 = d"
    "shape g t = [a, b, c, d]"
  using assms by (auto simp: has_shape_def)

lemma law_add [shapes]:
  "tensor_laws g \<Longrightarrow> has_shape g a s \<Longrightarrow> broadcasts g b a \<Longrightarrow> has_shape g (g_add g a b) s"
  by (auto simp: tensor_laws_def elementwise_laws_def has_shape_def)

lemma law_mul [shapes]:
  "tensor_laws g \<Longrightarrow> has_shape g a s \<Longrightarrow> broadcasts g b a \<Longrightarrow> has_shape g (g_mul g a b) s"
  by (auto simp: tensor_laws_def elementwise_laws_def has_shape_def)

lemma law_unary [shapes]:
  assumes "tensor_laws g" and "has_shape g a s"
  shows "has_shape g (g_norm g a e) s" "has_shape g (g_rms_norm g a e) s"
    "has_shape g (g_gelu_erf g a) s" "has_shape g (g_diag_mask_inf g a n) s"
  using assms by (auto simp: tensor_laws_def elementwise_laws_def has_shape_def)

lemma law_split [shapes]:
  "tensor_laws g \<Longrightarrow> has_shape g a s \<Longrightarrow> has_shape g b s \<Longrightarrow> has_shape g (g_geglu_split g a b) s"
  "tensor_laws g \<Longrightarrow> has_shape g a s \<Longrightarrow> has_shape g b s \<Longrightarrow> has_shape g (g_swiglu_split g a b) s"
  by (auto simp: tensor_laws_def elementwise_laws_def has_shape_def)

lemma law_reshape [shapes]:
  "tensor_laws g \<Longrightarrow> has_shape g a s \<Longrightarrow> ds \<noteq> [] \<Longrightarrow> length ds \<le> 4 \<Longrightarrow> elements ds = elements s
   \<Longrightarrow> has_shape g (g_reshape g a ds) (dims4 ds)"
  by (auto simp: tensor_laws_def layout_laws_def has_shape_def)

lemma law_cont [shapes]: "tensor_laws g \<Longrightarrow> shape g a = s \<Longrightarrow> has_shape g (g_cont g a) s"
  by (auto simp: tensor_laws_def layout_laws_def)

lemma law_axes: "tensor_laws g \<Longrightarrow> shape g a = [p, q, r, t] \<Longrightarrow> shape g (g_permute g a 0 2 1 3) = [p, r, q, t]"
  by (auto simp: tensor_laws_def layout_laws_def)

lemma law_permute [shapes]:
  "tensor_laws g \<Longrightarrow> shape g a = [p, q, r, t] \<Longrightarrow> has_shape g (g_cont g (g_permute g a 0 2 1 3)) [p, r, q, t]"
  "tensor_laws g \<Longrightarrow> shape g a = [p, q, r, t] \<Longrightarrow> has_shape g (g_cont g (g_permute g a 1 0 2 3)) [q, p, r, t]"
  by (rule law_cont; auto simp: tensor_laws_def layout_laws_def)+

lemma law_view [shapes]:
  "tensor_laws g \<Longrightarrow> g_f32_contiguous g a \<Longrightarrow> window_inside g a [p, q, r, t] [uint (g_nb g a 0), uint n1, uint n2, uint n3] off
   \<Longrightarrow> shape g (g_view g a [p, q, r, t] [n1, n2, n3] off) = [p, q, r, t]"
  unfolding tensor_laws_def layout_laws_def
  by (elim conjE, drule spec [where x = a], drule spec [where x = "[p, q, r, t]"], drule spec [where x = "[n1, n2, n3]"])
    (simp add: dims4_def)

lemma law_new [shapes]: "tensor_laws g \<Longrightarrow> has_shape g (g_new_f32 g [p, q, r, t]) [p, q, r, t]"
  unfolding tensor_laws_def layout_laws_def by (elim conjE) (auto dest: spec [where x = "[p, q, r, t]"])

lemma law_set [shapes]:
  assumes "tensor_laws g" and "has_shape g a s" and "g_f32_contiguous g b" and "uint off < 2 ^ 30"
    and "elements (shape g b) \<le> elements s" and "window_inside g a (shape g b) [4, uint n1, uint n2, uint n3] off"
  shows "has_shape g (g_set_inplace g a b n1 n2 n3 off) s"
    and "natural_strides g a \<Longrightarrow> natural_strides g (g_set_inplace g a b n1 n2 n3 off)"
proof -
  have "g_f32_contiguous g a" "shape g a = s" using assms(2) by (simp_all add: has_shape_def)
  moreover have "\<forall>a b n1 n2 n3 off. g_f32_contiguous g a \<longrightarrow> g_f32_contiguous g b \<longrightarrow> uint off < 2 ^ 30 \<longrightarrow>
        elements (shape g b) \<le> elements (shape g a) \<longrightarrow>
        window_inside g a (shape g b) [4, uint n1, uint n2, uint n3] off \<longrightarrow>
        has_shape g (g_set_inplace g a b n1 n2 n3 off) (shape g a)
        \<and> (natural_strides g a \<longrightarrow> natural_strides g (g_set_inplace g a b n1 n2 n3 off))"
    using assms(1) unfolding tensor_laws_def layout_laws_def by (elim conjE)
  ultimately show "has_shape g (g_set_inplace g a b n1 n2 n3 off) s"
    and "natural_strides g a \<Longrightarrow> natural_strides g (g_set_inplace g a b n1 n2 n3 off)"
    using assms(3-6) by blast+
qed

lemma law_pad [shapes]:
  "tensor_laws g \<Longrightarrow> has_shape g a [p, q, r, t] \<Longrightarrow> 0 \<le> u \<Longrightarrow> 0 \<le> v \<Longrightarrow> 0 \<le> w \<Longrightarrow> 0 \<le> x \<Longrightarrow>
   has_shape g (g_pad g a u v w x) [p + u, q + v, r + w, t + x]"
  by (auto simp: tensor_laws_def layout_laws_def has_shape_iff)

lemma law_strides [shapes]:
  "tensor_laws g \<Longrightarrow> list_all (\<lambda>d. 0 < d) (shape g a) \<Longrightarrow> f32_bytes g a < 2 ^ 64 \<Longrightarrow> natural_strides g (g_cont g a)"
  "tensor_laws g \<Longrightarrow> length ds = 4 \<Longrightarrow> list_all (\<lambda>d. 0 < d) ds \<Longrightarrow> 4 * elements ds < 2 ^ 64 \<Longrightarrow>
   natural_strides g (g_new_f32 g ds)"
  by (simp_all add: tensor_laws_def layout_laws_def)

lemma law_mul_mat [shapes]:
  "tensor_laws g \<Longrightarrow> shape g a = [i, p, q, r] \<Longrightarrow> shape g b = [i, s, t, u] \<Longrightarrow> q dvd t \<Longrightarrow> r dvd u
   \<Longrightarrow> has_shape g (g_mul_mat g a b) [p, s, t, u]"
  unfolding tensor_laws_def product_laws_def by auto

lemma law_soft_max [shapes]:
  "tensor_laws g \<Longrightarrow> has_shape g a s \<Longrightarrow>
   (\<And>k. m = Some k \<Longrightarrow> g_ne g k 0 = g_ne g a 0 \<and> g_ne g k 1 \<ge> g_ne g a 1
           \<and> g_ne g k 2 dvd g_ne g a 2 \<and> g_ne g k 3 dvd g_ne g a 3)
   \<Longrightarrow> has_shape g (g_soft_max_ext g a m c b) s"
  unfolding tensor_laws_def product_laws_def has_shape_def by blast

lemma law_rope [shapes]:
  "tensor_laws g \<Longrightarrow> has_shape g a [p, q, r, t] \<Longrightarrow> shape g pos = [r, 1, 1, 1] \<Longrightarrow>
   has_shape g (g_rope_ext g a pos None n RopeNeox c fb fs ef af bf bs) [p, q, r, t]"
  unfolding tensor_laws_def product_laws_def by (auto simp: has_shape_def shape_def)

subsection \<open>Fresh results\<close>

text \<open>
  Which operations allocate their result, so that it is a contiguous float tensor whatever the strides
  of the operands were: a product always, a row lookup unless the table holds \<open>int32\<close>, the elementwise
  and normalising operations when their first operand is (they duplicate its type and dimensions),
  and a reshape of one that is. A permuted or transposed tensor and a view are not among them.
\<close>

definition fresh_results :: "'t ggml \<Rightarrow> bool" where
  "fresh_results g \<longleftrightarrow>
     (\<forall>a b. g_f32_contiguous g (g_mul_mat g a b))
   \<and> (\<forall>a b. \<not> g_i32 g a \<longrightarrow> g_f32_contiguous g (g_get_rows g a b))
   \<and> (\<forall>a b. g_f32_contiguous g a \<longrightarrow> g_f32_contiguous g (g_add g a b))
   \<and> (\<forall>a b. g_f32_contiguous g a \<longrightarrow> g_f32_contiguous g (g_mul g a b))
   \<and> (\<forall>a s. g_f32_contiguous g a \<longrightarrow> g_f32_contiguous g (g_scale g a s))
   \<and> (\<forall>a e. g_f32_contiguous g a \<longrightarrow> g_f32_contiguous g (g_norm g a e))
   \<and> (\<forall>a e. g_f32_contiguous g a \<longrightarrow> g_f32_contiguous g (g_rms_norm g a e))
   \<and> (\<forall>a. g_f32_contiguous g a \<longrightarrow> g_f32_contiguous g (g_gelu_erf g a))
   \<and> (\<forall>a b. g_f32_contiguous g a \<longrightarrow> g_f32_contiguous g (g_geglu_split g a b))
   \<and> (\<forall>a b. g_f32_contiguous g a \<longrightarrow> g_f32_contiguous g (g_swiglu_split g a b))
   \<and> (\<forall>a ds. g_f32_contiguous g a \<longrightarrow> g_f32_contiguous g (g_reshape g a ds))"

lemma fresh_simps:
  assumes "fresh_results g"
  shows "g_f32_contiguous g (g_mul_mat g a b)"
    and "\<not> g_i32 g a \<Longrightarrow> g_f32_contiguous g (g_get_rows g a b)"
    and "g_f32_contiguous g a \<Longrightarrow> g_f32_contiguous g (g_add g a b)"
    and "g_f32_contiguous g a \<Longrightarrow> g_f32_contiguous g (g_mul g a b)"
    and "g_f32_contiguous g a \<Longrightarrow> g_f32_contiguous g (g_scale g a s)"
    and "g_f32_contiguous g a \<Longrightarrow> g_f32_contiguous g (g_norm g a e)"
    and "g_f32_contiguous g a \<Longrightarrow> g_f32_contiguous g (g_rms_norm g a e)"
    and "g_f32_contiguous g a \<Longrightarrow> g_f32_contiguous g (g_gelu_erf g a)"
    and "g_f32_contiguous g a \<Longrightarrow> g_f32_contiguous g (g_geglu_split g a b)"
    and "g_f32_contiguous g a \<Longrightarrow> g_f32_contiguous g (g_swiglu_split g a b)"
    and "g_f32_contiguous g a \<Longrightarrow> g_f32_contiguous g (g_reshape g a ds)"
  using assms by (simp_all add: fresh_results_def)

end
