(* ===== verification/Forward.thy ===== *)
theory Forward
  imports Ggml
begin

text \<open>
  The graph builders of \<open>src/forward/\<close>: linear projections, RMS normalisation, rotary positions,
  the embedding layer, BERT attention, grouped-query attention in its masked, per-sentence and
  packed forms, the two feed-forward networks, the encoder block and the pooling reductions.
  The context argument of the C++ functions is the \<open>ggml\<close> record; a null tensor pointer is
  \<open>None\<close>, and every exception a builder raises is a value of \<open>forward_error\<close>.
\<close>

datatype forward_error =
    RopeWithoutPositions
  | SentenceOutsideWindow
  | MaskedMeanNeedsMaskAndScale
  | IndexedLastNeedsIndices
  | PackedNeedsOffsetsAndLengths
  | PackedSliceOutOfRange

subsection \<open>\<open>linear.h\<close>, \<open>rms_norm.cpp\<close>, \<open>rope.cpp\<close>\<close>

definition build_linear :: "'t ggml \<Rightarrow> 't \<Rightarrow> 't \<Rightarrow> 't" where
  "build_linear g weight x =
     (if g_ne g x 2 = 1 \<and> g_ne g x 3 = 1 then g_mul_mat g weight x
      else (let S = g_ne g x 1;
                B = g_ne g x 2 * g_ne g x 3;
                flat = g_reshape g x [g_ne g x 0, S * B];
                projected = g_mul_mat g weight flat
            in g_reshape g projected [g_ne g projected 0, S, B]))"

definition build_rms_norm :: "'t ggml \<Rightarrow> 't \<Rightarrow> 't \<Rightarrow> f32 \<Rightarrow> 't" where
  "build_rms_norm g x weight eps = g_mul g (g_rms_norm g x eps) weight"

definition build_rope :: "'t ggml \<Rightarrow> 't \<Rightarrow> 't \<Rightarrow> int \<Rightarrow> int \<Rightarrow> f32 \<Rightarrow> 't" where
  "build_rope g x pos n_dims n_ctx_orig freq_base =
     g_rope_ext g x pos None n_dims RopeNeox n_ctx_orig freq_base
       f32_one f32_zero f32_one f32_zero f32_zero"

subsection \<open>\<open>embed_layer.cpp\<close>\<close>

record 't embed_weights =
  ew_tok :: 't
  ew_pos :: 't
  ew_type :: 't
  ew_norm_w :: 't
  ew_norm_b :: 't

definition embed_rows :: "'t ggml \<Rightarrow> 't \<Rightarrow> 't \<Rightarrow> 't" where
  "embed_rows g table ids =
     (if g_ne g ids 1 = 1 then g_get_rows g table ids
      else (let S = g_ne g ids 0;
                B = g_ne g ids 1;
                indexed = g_get_rows g table (g_reshape g ids [S * B])
            in g_reshape g indexed [g_ne g indexed 0, S, B]))"

definition build_embed_layer :: "'t ggml \<Rightarrow> 't \<Rightarrow> 't \<Rightarrow> 't \<Rightarrow> 't embed_weights \<Rightarrow> f32 \<Rightarrow> 't" where
  "build_embed_layer g token_ids position_ids type_ids w layer_norm_eps =
     (let tok = embed_rows g (ew_tok w) token_ids;
          pos = embed_rows g (ew_pos w) position_ids;
          typ = embed_rows g (ew_type w) type_ids;
          sum = g_add g (g_add g tok pos) typ;
          normed = g_norm g sum layer_norm_eps;
          scaled = g_mul g normed (ew_norm_w w)
      in g_add g scaled (ew_norm_b w))"

subsection \<open>\<open>attention.cpp\<close>\<close>

record 't attention_weights =
  aw_q_w :: 't
  aw_q_b :: 't
  aw_k_w :: 't
  aw_k_b :: 't
  aw_v_w :: 't
  aw_v_b :: 't
  aw_o_w :: 't
  aw_o_b :: 't
  aw_norm_w :: 't
  aw_norm_b :: 't

record 't projections =
  proj_q :: 't
  proj_k :: 't
  proj_v :: 't

lemma projections_eta [simp]: "\<lparr>proj_q = proj_q r, proj_k = proj_k r, proj_v = proj_v r\<rparr> = r"
  by (cases r) simp

definition build_attention_projections :: "'t ggml \<Rightarrow> 't \<Rightarrow> 't attention_weights \<Rightarrow> 't projections" where
  "build_attention_projections g x w =
     \<lparr>proj_q = g_add g (build_linear g (aw_q_w w) x) (aw_q_b w),
      proj_k = g_add g (build_linear g (aw_k_w w) x) (aw_k_b w),
      proj_v = g_add g (build_linear g (aw_v_w w) x) (aw_v_b w)\<rparr>"

definition build_attention_output ::
  "'t ggml \<Rightarrow> 't projections \<Rightarrow> 't \<Rightarrow> 't option \<Rightarrow> int \<Rightarrow> 't attention_weights \<Rightarrow> f32 \<Rightarrow> 't" where
  "build_attention_output g proj x_residual kq_mask n_head w layer_norm_eps =
     (let H = cast_i32 (g_ne g (proj_q proj) 0);
          S = cast_i32 (g_ne g (proj_q proj) 1);
          B = cast_i32 (g_ne g (proj_q proj) 2);
          head_dim = H div n_head;
          scale = g_div g f32_one (g_sqrt g (g_f32_of_int g head_dim));
          split = (\<lambda>t. g_cont g (g_permute g (g_reshape g t [head_dim, n_head, S, B]) 0 2 1 3));
          q = split (proj_q proj);
          k = split (proj_k proj);
          v = split (proj_v proj);
          scores = g_soft_max_ext g (g_mul_mat g k q) kq_mask scale f32_zero;
          v_t = g_cont g (g_permute g v 1 0 2 3);
          attn = g_cont g (g_permute g (g_mul_mat g v_t scores) 0 2 1 3);
          attn = g_reshape g attn [H, S, B];
          attn = g_add g (build_linear g (aw_o_w w) attn) (aw_o_b w);
          y = g_add g x_residual attn;
          normed = g_norm g y layer_norm_eps;
          scaled = g_mul g normed (aw_norm_w w)
      in g_add g scaled (aw_norm_b w))"

definition build_attention_block ::
  "'t ggml \<Rightarrow> 't \<Rightarrow> 't option \<Rightarrow> int \<Rightarrow> 't attention_weights \<Rightarrow> f32 \<Rightarrow> 't" where
  "build_attention_block g x kq_mask n_head w layer_norm_eps =
     build_attention_output g (build_attention_projections g x w) x kq_mask n_head w layer_norm_eps"

subsection \<open>\<open>ffn.cpp\<close> and \<open>encoder_block.cpp\<close>\<close>

record 't ffn_weights =
  fw_up_w :: 't
  fw_up_b :: 't
  fw_down_w :: 't
  fw_down_b :: 't
  fw_norm_w :: 't
  fw_norm_b :: 't

definition build_ffn_up :: "'t ggml \<Rightarrow> 't \<Rightarrow> 't ffn_weights \<Rightarrow> 't" where
  "build_ffn_up g x w = g_gelu_erf g (g_add g (build_linear g (fw_up_w w) x) (fw_up_b w))"

definition build_ffn_down :: "'t ggml \<Rightarrow> 't \<Rightarrow> 't \<Rightarrow> 't ffn_weights \<Rightarrow> f32 \<Rightarrow> 't" where
  "build_ffn_down g h x_residual w layer_norm_eps =
     (let y = g_add g (build_linear g (fw_down_w w) h) (fw_down_b w);
          y = g_add g y x_residual;
          normed = g_norm g y layer_norm_eps;
          scaled = g_mul g normed (fw_norm_w w)
      in g_add g scaled (fw_norm_b w))"

definition build_ffn_block :: "'t ggml \<Rightarrow> 't \<Rightarrow> 't ffn_weights \<Rightarrow> f32 \<Rightarrow> 't" where
  "build_ffn_block g x w layer_norm_eps = build_ffn_down g (build_ffn_up g x w) x w layer_norm_eps"

record 't layer_weights =
  lw_attn :: "'t attention_weights"
  lw_ffn :: "'t ffn_weights"

definition build_encoder_block ::
  "'t ggml \<Rightarrow> 't \<Rightarrow> 't option \<Rightarrow> int \<Rightarrow> 't layer_weights \<Rightarrow> f32 \<Rightarrow> 't" where
  "build_encoder_block g x kq_mask n_head w layer_norm_eps =
     (let x_attn = build_attention_block g x kq_mask n_head (lw_attn w) layer_norm_eps
      in build_ffn_block g x_attn (lw_ffn w) layer_norm_eps)"

subsection \<open>\<open>gqa_attention.cpp\<close>\<close>

record 't gqa_weights =
  gw_q :: 't
  gw_k :: 't
  gw_v :: 't
  gw_o :: 't
  gw_q_norm :: "'t option"
  gw_k_norm :: "'t option"

record gqa_params =
  gp_n_head :: int
  gp_n_head_kv :: int
  gp_head_dim :: int
  gp_scale :: f32
  gp_norm_eps :: f32
  gp_rope_freq_base :: f32
  gp_n_ctx_orig :: int
  gp_causal :: bool

definition build_gqa_projections :: "'t ggml \<Rightarrow> 't \<Rightarrow> 't gqa_weights \<Rightarrow> 't projections" where
  "build_gqa_projections g x w =
     \<lparr>proj_q = build_linear g (gw_q w) x,
      proj_k = build_linear g (gw_k w) x,
      proj_v = build_linear g (gw_v w) x\<rparr>"

text \<open>One head-major operand: reshaped, normalised when it has a gain, rotated when asked.\<close>

definition gqa_operand ::
  "'t ggml \<Rightarrow> gqa_params \<Rightarrow> int \<Rightarrow> int \<Rightarrow> 't \<Rightarrow> int \<Rightarrow> 't option \<Rightarrow> 't option \<Rightarrow> 't" where
  "gqa_operand g p S B t n_heads gain pos =
     (let t = g_reshape g t [gp_head_dim p, n_heads, S, B];
          t = (case gain of None \<Rightarrow> t | Some w \<Rightarrow> build_rms_norm g t w (gp_norm_eps p));
          t = (case pos of None \<Rightarrow> t | Some ps \<Rightarrow>
                 build_rope g t ps (cast_i32 (gp_head_dim p)) (gp_n_ctx_orig p) (gp_rope_freq_base p))
      in g_cont g (g_permute g t 0 2 1 3))"

text \<open>The view of sentence \<open>b\<close>: at its own offset when packed, a batch slot apart when padded.\<close>

definition sentence_slice :: "'t ggml \<Rightarrow> int list option \<Rightarrow> nat \<Rightarrow> int \<Rightarrow> 't \<Rightarrow> 't" where
  "sentence_slice g seq_offsets b len t =
     (let offset = (case seq_offsets of Some offsets \<Rightarrow> word_of_int (offsets ! b) * g_nb g t 1
                    | None \<Rightarrow> word_of_nat b * g_nb g t 3)
      in g_view g t [g_ne g t 0, len, g_ne g t 2, 1] [g_nb g t 1, g_nb g t 2, g_nb g t 3] offset)"

definition sentence_attention ::
  "'t ggml \<Rightarrow> gqa_params \<Rightarrow> int \<Rightarrow> int list \<Rightarrow> int list option \<Rightarrow> 't \<Rightarrow> 't \<Rightarrow> 't \<Rightarrow> nat
   \<Rightarrow> forward_error + 't" where
  "sentence_attention g p S seq_lengths seq_offsets q k v b =
     (let len = seq_lengths ! b in
      if len \<le> 0 \<or> (seq_offsets = None \<and> len > S) then Inl SentenceOutsideWindow
      else (let q_b = sentence_slice g seq_offsets b len q;
                k_b = sentence_slice g seq_offsets b len k;
                v_b = sentence_slice g seq_offsets b len v;
                s_b = g_mul_mat g k_b q_b;
                s_b = (if gp_causal p then g_diag_mask_inf g s_b 0 else s_b);
                s_b = g_soft_max_ext g s_b None (gp_scale p) f32_zero;
                v_t_b = g_cont g (g_permute g v_b 1 0 2 3);
                a_b = g_mul_mat g v_t_b s_b
            in Inr (if seq_offsets = None \<and> len < S then g_pad g a_b 0 (cast_i32 (S - len)) 0 0
                    else a_b)))"

text \<open>Every part is written into its place of one destination.\<close>

definition place_part :: "'t ggml \<Rightarrow> int list option \<Rightarrow> 't \<Rightarrow> nat \<times> 't \<Rightarrow> 't" where
  "place_part g seq_offsets dst = (\<lambda>(b, part).
     let offset = (case seq_offsets of Some offsets \<Rightarrow> word_of_int (offsets ! b) * g_nb g dst 1
                   | None \<Rightarrow> word_of_nat b * g_nb g dst 3)
     in g_set_inplace g dst part (g_nb g dst 1) (g_nb g dst 2) (g_nb g dst 3) offset)"

definition per_sentence_attention ::
  "'t ggml \<Rightarrow> gqa_params \<Rightarrow> int \<Rightarrow> int \<Rightarrow> int list \<Rightarrow> int list option \<Rightarrow> int \<Rightarrow> 't \<Rightarrow> 't \<Rightarrow> 't
   \<Rightarrow> forward_error + 't" where
  "per_sentence_attention g p S B seq_lengths seq_offsets n_seq q k v =
     (let count = (case seq_offsets of Some _ \<Rightarrow> nat n_seq | None \<Rightarrow> nat B);
          S_total = (case seq_offsets of Some offsets \<Rightarrow> offsets ! count | None \<Rightarrow> S)
      in bindE (mapE (sentence_attention g p S seq_lengths seq_offsets q k v) [0 ..< count]) (\<lambda>parts.
           let dst = (if seq_offsets \<noteq> None then g_new_f32 g [gp_head_dim p, S_total, gp_n_head p, 1]
                      else g_new_f32 g [gp_head_dim p, S, gp_n_head p, B])
           in Inr (foldl (place_part g seq_offsets) dst (zip [0 ..< count] parts))))"

definition masked_attention :: "'t ggml \<Rightarrow> gqa_params \<Rightarrow> 't option \<Rightarrow> 't \<Rightarrow> 't \<Rightarrow> 't \<Rightarrow> 't" where
  "masked_attention g p kq_mask q k v =
     (let scores = g_mul_mat g k q;
          scores = (if gp_causal p then g_diag_mask_inf g scores 0 else scores);
          scores = g_soft_max_ext g scores kq_mask (gp_scale p) f32_zero;
          v_t = g_cont g (g_permute g v 1 0 2 3)
      in g_mul_mat g v_t scores)"

definition build_gqa_attention_core ::
  "'t ggml \<Rightarrow> 't projections \<Rightarrow> 't option \<Rightarrow> 't option \<Rightarrow> 't gqa_weights \<Rightarrow> gqa_params
   \<Rightarrow> int list option \<Rightarrow> int list option \<Rightarrow> int \<Rightarrow> forward_error + 't" where
  "build_gqa_attention_core g proj pos kq_mask w p seq_lengths seq_offsets n_seq =
     (let S = g_ne g (proj_q proj) 1;
          B = g_ne g (proj_q proj) 2;
          D = gp_head_dim p;
          rotate = f32_positive (gp_rope_freq_base p)
      in if rotate \<and> pos = None then Inl RopeWithoutPositions
         else (let ps = (if rotate then pos else None);
                   q = gqa_operand g p S B (proj_q proj) (gp_n_head p) (gw_q_norm w) ps;
                   k = gqa_operand g p S B (proj_k proj) (gp_n_head_kv p) (gw_k_norm w) ps;
                   v = gqa_operand g p S B (proj_v proj) (gp_n_head_kv p) None None
               in bindE (case seq_lengths of
                          Some lengths \<Rightarrow>
                            if B > 1 \<or> seq_offsets \<noteq> None
                            then per_sentence_attention g p S B lengths seq_offsets n_seq q k v
                            else Inr (masked_attention g p kq_mask q k v)
                        | None \<Rightarrow> Inr (masked_attention g p kq_mask q k v)) (\<lambda>attn.
                    let attn = g_cont g (g_permute g attn 0 2 1 3);
                        attn = g_reshape g attn [D * gp_n_head p, S, B]
                    in Inr (build_linear g (gw_o w) attn))))"

definition build_gqa_attention ::
  "'t ggml \<Rightarrow> 't \<Rightarrow> 't option \<Rightarrow> 't option \<Rightarrow> 't gqa_weights \<Rightarrow> gqa_params
   \<Rightarrow> int list option \<Rightarrow> int list option \<Rightarrow> int \<Rightarrow> forward_error + 't" where
  "build_gqa_attention g x pos kq_mask w p seq_lengths seq_offsets n_seq =
     (if f32_positive (gp_rope_freq_base p) \<and> pos = None then Inl RopeWithoutPositions
      else build_gqa_attention_core g (build_gqa_projections g x w) pos kq_mask w p
             seq_lengths seq_offsets n_seq)"

subsection \<open>\<open>gated_ffn.cpp\<close>\<close>

record 't gated_weights =
  dw_gate :: 't
  dw_up :: 't
  dw_down :: 't

datatype gate_activation = GateGelu | GateSilu

definition build_gated_ffn_gate_up :: "'t ggml \<Rightarrow> 't \<Rightarrow> 't gated_weights \<Rightarrow> gate_activation \<Rightarrow> 't" where
  "build_gated_ffn_gate_up g x w act =
     (let gate = build_linear g (dw_gate w) x;
          up = build_linear g (dw_up w) x
      in case act of GateGelu \<Rightarrow> g_geglu_split g gate up | GateSilu \<Rightarrow> g_swiglu_split g gate up)"

definition build_gated_ffn_down :: "'t ggml \<Rightarrow> 't \<Rightarrow> 't gated_weights \<Rightarrow> 't" where
  "build_gated_ffn_down g h w = build_linear g (dw_down w) h"

definition build_gated_ffn :: "'t ggml \<Rightarrow> 't \<Rightarrow> 't gated_weights \<Rightarrow> gate_activation \<Rightarrow> 't" where
  "build_gated_ffn g x w act = build_gated_ffn_down g (build_gated_ffn_gate_up g x w act) w"

subsection \<open>\<open>pool.cpp\<close>\<close>

datatype pool_type = PoolMean | PoolCls | PoolLast

record 't pool_inputs =
  pi_valid_mask :: "'t option"
  pi_mean_scale :: "'t option"
  pi_last_indices :: "'t option"

definition build_mean_pool :: "'t ggml \<Rightarrow> 't \<Rightarrow> 't" where
  "build_mean_pool g x =
     (let xt = g_cont g (g_permute g x 1 0 2 3);
          m = g_mean g xt
      in g_reshape g m [g_ne g m 1, g_ne g m 2])"

definition build_cls_pool :: "'t ggml \<Rightarrow> 't \<Rightarrow> 't" where
  "build_cls_pool g x = g_cont g (g_view g x [g_ne g x 0, g_ne g x 2] [g_nb g x 2] 0)"

definition build_last_pool :: "'t ggml \<Rightarrow> 't \<Rightarrow> 't" where
  "build_last_pool g x =
     (let offset = word_of_int (g_ne g x 1 - 1) * g_nb g x 1
      in g_cont g (g_view g x [g_ne g x 0, g_ne g x 2] [g_nb g x 2] offset))"

definition build_masked_mean_pool :: "'t ggml \<Rightarrow> 't \<Rightarrow> 't pool_inputs \<Rightarrow> forward_error + 't" where
  "build_masked_mean_pool g x inputs =
     (case (pi_valid_mask inputs, pi_mean_scale inputs) of
        (Some valid_mask, Some mean_scale) \<Rightarrow>
          (let masked = g_mul g x valid_mask;
               xt = g_cont g (g_permute g masked 1 0 2 3);
               sum = g_sum_rows g xt;
               sum = g_reshape g sum [g_ne g sum 1, g_ne g sum 2]
           in Inr (g_mul g sum mean_scale))
      | _ \<Rightarrow> Inl MaskedMeanNeedsMaskAndScale)"

definition build_indexed_last_pool :: "'t ggml \<Rightarrow> 't \<Rightarrow> 't pool_inputs \<Rightarrow> forward_error + 't" where
  "build_indexed_last_pool g x inputs =
     (case pi_last_indices inputs of
        None \<Rightarrow> Inl IndexedLastNeedsIndices
      | Some indices \<Rightarrow>
          (let flat = g_reshape g (g_cont g x) [g_ne g x 0, g_ne g x 1 * g_ne g x 2]
           in Inr (g_get_rows g flat indices)))"

text \<open>One sentence of a packed stream, reduced over its own tokens.\<close>

definition packed_part ::
  "'t ggml \<Rightarrow> 't \<Rightarrow> pool_type \<Rightarrow> int list \<Rightarrow> int list \<Rightarrow> nat \<Rightarrow> forward_error + 't" where
  "packed_part g x ty offsets lengths b =
     (let H = g_ne g x 0; len = lengths ! b; start = offsets ! b in
      if len \<le> 0 \<or> start < 0 \<or> start + len > g_ne g x 1 then Inl PackedSliceOutOfRange
      else if ty = PoolMean then
        (let slice = g_view g x [H, len] [g_nb g x 1] (word_of_int start * g_nb g x 1);
             t = g_cont g (g_transpose g slice);
             sum = g_scale g (g_sum_rows g t) (g_div g f32_one (g_f32_of_int g len))
         in Inr (g_reshape g sum [H, 1]))
      else
        (let index = (if ty = PoolCls then start else start + len - 1)
         in Inr (g_cont g (g_view g x [H, 1] [g_nb g x 1] (word_of_int index * g_nb g x 1)))))"

definition build_packed_pool ::
  "'t ggml \<Rightarrow> 't \<Rightarrow> pool_type \<Rightarrow> int list option \<Rightarrow> int list option \<Rightarrow> int \<Rightarrow> forward_error + 't" where
  "build_packed_pool g x ty offsets lengths n_seq =
     (case (offsets, lengths) of
        (Some offs, Some lens) \<Rightarrow>
          if n_seq \<le> 0 then Inl PackedNeedsOffsetsAndLengths
          else bindE (mapE (packed_part g x ty offs lens) [0 ..< nat n_seq]) (\<lambda>parts.
                 Inr (foldl (\<lambda>out part. g_concat g out part 1) (hd parts) (tl parts)))
      | _ \<Rightarrow> Inl PackedNeedsOffsetsAndLengths)"

definition build_pool :: "'t ggml \<Rightarrow> 't \<Rightarrow> pool_type \<Rightarrow> 't" where
  "build_pool g x ty =
     (case ty of PoolMean \<Rightarrow> build_mean_pool g x
      | PoolCls \<Rightarrow> build_cls_pool g x
      | PoolLast \<Rightarrow> build_last_pool g x)"

definition build_pool_with :: "'t ggml \<Rightarrow> 't \<Rightarrow> pool_type \<Rightarrow> 't pool_inputs \<Rightarrow> forward_error + 't" where
  "build_pool_with g x ty inputs =
     (case ty of
        PoolMean \<Rightarrow> if pi_valid_mask inputs = None then Inr (build_mean_pool g x)
                    else build_masked_mean_pool g x inputs
      | PoolCls \<Rightarrow> Inr (build_cls_pool g x)
      | PoolLast \<Rightarrow> if pi_last_indices inputs = None then Inr (build_last_pool g x)
                    else build_indexed_last_pool g x inputs)"

definition build_l2_normalize :: "'t ggml \<Rightarrow> 't \<Rightarrow> f32 \<Rightarrow> 't" where
  "build_l2_normalize g x eps = g_l2_norm g x eps"

subsection \<open>Shapes of the building blocks\<close>

lemma linear_shape [shapes]:
  assumes laws: "tensor_laws g" and x: "has_shape g x [I, S, B, 1]" and w: "shape g w = [I, J, 1, 1]"
  shows "has_shape g (build_linear g w x) [J, S, B, 1]"
proof (cases "B = 1")
  case True
  then show ?thesis using law_mul_mat [OF laws w, of x S 1 1] has_shape_dims [OF x]
    by (simp add: build_linear_def)
next
  case False
  let ?flat = "g_reshape g x [I, S * B]"
  have flat: "has_shape g ?flat [I, S * B, 1, 1]"
    using law_reshape [OF laws x, of "[I, S * B]"] by (simp add: elements_def dims4_def)
  have p: "has_shape g (g_mul_mat g w ?flat) [J, S * B, 1, 1]"
    using law_mul_mat [OF laws w has_shape_dims(6) [OF flat]] by simp
  then have "has_shape g (g_reshape g (g_mul_mat g w ?flat) [J, S, B]) [J, S, B, 1]"
    using law_reshape [OF laws p, of "[J, S, B]"] by (simp add: elements_def dims4_def)
  then show ?thesis using False has_shape_dims [OF x] has_shape_dims [OF p]
    by (simp add: build_linear_def Let_def)
qed

lemma bias_broadcasts: "shape g b = [J, 1, 1, 1] \<Longrightarrow> has_shape g x [J, S, B, C] \<Longrightarrow> broadcasts g b x"
  by (auto simp: broadcasts_def has_shape_def)

lemma same_broadcasts: "has_shape g b s \<Longrightarrow> has_shape g x s \<Longrightarrow> broadcasts g b x"
  by (auto simp: broadcasts_def has_shape_def shape_def)

lemma affine_shape [shapes]:
  assumes "tensor_laws g" and "has_shape g x [I, S, B, 1]"
    and "shape g w = [I, J, 1, 1]" and "shape g b = [J, 1, 1, 1]"
  shows "has_shape g (g_add g (build_linear g w x) b) [J, S, B, 1]"
  using assms by (metis law_add linear_shape bias_broadcasts)

lemma rms_norm_shape [shapes]:
  assumes "tensor_laws g" and "has_shape g x [J, S, B, C]" and "shape g w = [J, 1, 1, 1]"
  shows "has_shape g (build_rms_norm g x w eps) [J, S, B, C]"
  unfolding build_rms_norm_def
  using assms by (metis law_mul law_unary(2) bias_broadcasts)

text \<open>The layer normalisation that closes a BERT sub-layer: scaled and shifted by vectors.\<close>

lemma layer_norm_shape [shapes]:
  assumes laws: "tensor_laws g" and y: "has_shape g y [J, S, B, C]"
    and "shape g w = [J, 1, 1, 1]" and "shape g b = [J, 1, 1, 1]"
  shows "has_shape g (g_add g (g_mul g (g_norm g y eps) w) b) [J, S, B, C]"
  using assms by (metis law_mul law_add law_unary(1) bias_broadcasts)

subsection \<open>BERT: every block keeps the shape of the residual stream\<close>

text \<open>The shapes the scanner validates, for hidden size \<open>H\<close> and feed-forward width \<open>F\<close>.\<close>

definition bert_layer_shapes :: "'t ggml \<Rightarrow> int \<Rightarrow> int \<Rightarrow> 't layer_weights \<Rightarrow> bool" where
  "bert_layer_shapes g H F w \<longleftrightarrow>
     (\<forall>t\<in>{aw_q_w (lw_attn w), aw_k_w (lw_attn w), aw_v_w (lw_attn w), aw_o_w (lw_attn w)}.
        shape g t = [H, H, 1, 1])
   \<and> (\<forall>t\<in>{aw_q_b (lw_attn w), aw_k_b (lw_attn w), aw_v_b (lw_attn w), aw_o_b (lw_attn w),
         aw_norm_w (lw_attn w), aw_norm_b (lw_attn w),
         fw_down_b (lw_ffn w), fw_norm_w (lw_ffn w), fw_norm_b (lw_ffn w)}. shape g t = [H, 1, 1, 1])
   \<and> shape g (fw_up_w (lw_ffn w)) = [H, F, 1, 1] \<and> shape g (fw_up_b (lw_ffn w)) = [F, 1, 1, 1]
   \<and> shape g (fw_down_w (lw_ffn w)) = [F, H, 1, 1]"

definition mask_fits :: "'t ggml \<Rightarrow> int \<Rightarrow> int \<Rightarrow> 't option \<Rightarrow> bool" where
  "mask_fits g S B kq_mask \<longleftrightarrow> (\<forall>m. kq_mask = Some m \<longrightarrow> shape g m = [S, S, 1, B])"

lemma attention_heads_shape:
  assumes laws: "tensor_laws g" and t: "has_shape g t [D * N, S, B, 1]"
  shows "has_shape g (g_cont g (g_permute g (g_reshape g t [D, N, S, B]) 0 2 1 3)) [D, S, N, B]"
proof -
  have "has_shape g (g_reshape g t [D, N, S, B]) [D, N, S, B]"
    using law_reshape [OF laws t, of "[D, N, S, B]"] by (simp add: elements_def dims4_def)
  then show ?thesis by (rule law_permute(1) [OF laws has_shape_dims(6)])
qed

text \<open>Scores and values: the product has one row per query, however many heads share the keys.\<close>

lemma scores_shape:
  assumes laws: "tensor_laws g" and q: "shape g q = [D, S, N, B]" and k: "shape g k = [D, T, M, B]"
    and "M dvd N"
  shows "has_shape g (g_mul_mat g k q) [T, S, N, B]"
  using law_mul_mat [OF laws k q] assms(4) by simp

lemma values_shape:
  assumes laws: "tensor_laws g" and v: "shape g v = [D, T, M, B]" and s: "has_shape g s [T, S, N, B]"
    and "M dvd N"
  shows "has_shape g (g_mul_mat g (g_cont g (g_permute g v 1 0 2 3)) s) [D, S, N, B]"
proof -
  have vt: "has_shape g (g_cont g (g_permute g v 1 0 2 3)) [T, D, M, B]"
    by (rule law_permute(2) [OF laws v])
  show ?thesis
    using law_mul_mat [OF laws has_shape_dims(6) [OF vt] has_shape_dims(6) [OF s]] assms(4) by simp
qed

lemma merge_heads_shape:
  assumes laws: "tensor_laws g" and a: "has_shape g a [D, S, N, B]"
  shows "has_shape g (g_reshape g (g_cont g (g_permute g a 0 2 1 3)) [D * N, S, B]) [D * N, S, B, 1]"
proof -
  have "has_shape g (g_cont g (g_permute g a 0 2 1 3)) [D, N, S, B]"
    by (rule law_permute(1) [OF laws has_shape_dims(6) [OF a]])
  from law_reshape [OF laws this, of "[D * N, S, B]"] show ?thesis
    by (simp add: elements_def dims4_def)
qed

lemma soft_max_mask_shape:
  assumes laws: "tensor_laws g" and s: "has_shape g s [S, S, N, B]" and "mask_fits g S B m"
  shows "has_shape g (g_soft_max_ext g s m c b) [S, S, N, B]"
  using assms(3) has_shape_dims [OF s] by (intro law_soft_max [OF laws s]) (auto simp: mask_fits_def)

lemma attention_output_shape:
  assumes laws: "tensor_laws g" and w: "bert_layer_shapes g H F lw" and "mask_fits g S B m"
    and p: "has_shape g (proj_q p) [H, S, B, 1]" "has_shape g (proj_k p) [H, S, B, 1]" "has_shape g (proj_v p) [H, S, B, 1]"
    and x: "has_shape g x [H, S, B, 1]" and n: "0 < n" "n dvd H"
    and i32: "\<forall>d\<in>{H, S, B}. 0 \<le> d \<and> d < 2 ^ 31"
  shows "has_shape g (build_attention_output g p x m n (lw_attn lw) eps) [H, S, B, 1]"
proof -
  let ?D = "H div n"
  have D: "?D * n = H" using n by simp
  have c: "cast_i32 (g_ne g (proj_q p) 0) = H" "cast_i32 (g_ne g (proj_q p) 1) = S" "cast_i32 (g_ne g (proj_q p) 2) = B"
    using i32 has_shape_dims [OF p(1)] by (simp_all add: cast_i32_id)
  note heads = attention_heads_shape [OF laws, where D = ?D and N = n and S = S and B = B, unfolded D]
  let ?sp = "\<lambda>t. g_cont g (g_permute g (g_reshape g t [?D, n, S, B]) 0 2 1 3)"
  let ?sc = "g_soft_max_ext g (g_mul_mat g (?sp (proj_k p)) (?sp (proj_q p))) m
    (g_div g f32_one (g_sqrt g (g_f32_of_int g ?D))) f32_zero"
  have "has_shape g ?sc [S, S, n, B]"
    by (rule soft_max_mask_shape [OF laws scores_shape [OF laws has_shape_dims(6) [OF heads [OF p(1)]] has_shape_dims(6) [OF heads [OF p(2)]] dvd_refl] assms(3)])
  note values_shape [OF laws has_shape_dims(6) [OF heads [OF p(3)]] this dvd_refl]
  note a = merge_heads_shape [OF laws this, unfolded D]
  note o = affine_shape [OF laws a, of "aw_o_w (lw_attn lw)" H "aw_o_b (lw_attn lw)"]
  have "has_shape g (g_add g x (g_add g (build_linear g (aw_o_w (lw_attn lw))
      (g_reshape g (g_cont g (g_permute g (g_mul_mat g (g_cont g (g_permute g (?sp (proj_v p)) 1 0 2 3)) ?sc)
         0 2 1 3)) [H, S, B])) (aw_o_b (lw_attn lw)))) [H, S, B, 1]"
    using w by (intro law_add [OF laws x] same_broadcasts [OF o x]) (auto simp: bert_layer_shapes_def)
  then show ?thesis unfolding build_attention_output_def Let_def c
    using w by (intro layer_norm_shape [OF laws]) (auto simp: bert_layer_shapes_def)
qed

lemma ffn_block_shape:
  assumes laws: "tensor_laws g" and w: "bert_layer_shapes g H F lw" and x: "has_shape g x [H, S, B, 1]"
  shows "has_shape g (build_ffn_block g x (lw_ffn lw) eps) [H, S, B, 1]"
proof -
  have up: "has_shape g (build_ffn_up g x (lw_ffn lw)) [F, S, B, 1]"
    unfolding build_ffn_up_def using w
    by (intro law_unary(3) [OF laws] affine_shape [OF laws x]) (simp_all only: bert_layer_shapes_def)
  have "has_shape g (g_add g (build_linear g (fw_down_w (lw_ffn lw)) (build_ffn_up g x (lw_ffn lw)))
      (fw_down_b (lw_ffn lw))) [H, S, B, 1]"
    using w by (intro affine_shape [OF laws up]) (auto simp: bert_layer_shapes_def)
  note law_add [OF laws this same_broadcasts [OF x this]]
  then show ?thesis unfolding build_ffn_block_def build_ffn_down_def Let_def
    using w by (intro layer_norm_shape [OF laws]) (auto simp: bert_layer_shapes_def)
qed

text \<open>
  A BERT encoder block keeps the shape of the residual stream. With weights of the shapes
  the scanner validates, a head count that divides the hidden size and a mask (if any) of one
  row per query, every operation of the block meets the precondition ggml asserts for it, and
  the result has the shape \<open>[H, S, B]\<close> of the input.
\<close>

theorem encoder_block_shape:
  assumes "tensor_laws g" and "bert_layer_shapes g H F w" and "has_shape g x [H, S, B, 1]"
    and "mask_fits g S B kq_mask" and "0 < n_head" "n_head dvd H"
    and "\<forall>d\<in>{H, S, B}. 0 \<le> d \<and> d < 2 ^ 31"
  shows "has_shape g (build_encoder_block g x kq_mask n_head w eps) [H, S, B, 1]"
proof -
  note x = assms(3)
  have p: "has_shape g (proj_q (build_attention_projections g x (lw_attn w))) [H, S, B, 1]"
    "has_shape g (proj_k (build_attention_projections g x (lw_attn w))) [H, S, B, 1]"
    "has_shape g (proj_v (build_attention_projections g x (lw_attn w))) [H, S, B, 1]"
    unfolding build_attention_projections_def projections.simps using assms(2)
    by (simp_all add: affine_shape [OF assms(1) x] bert_layer_shapes_def)
  note attention_output_shape [OF assms(1,2,4) p x assms(5,6,7), of eps]
  from ffn_block_shape [OF assms(1,2) this, of eps] show ?thesis
    by (simp add: build_encoder_block_def build_attention_block_def)
qed

subsection \<open>Grouped-query attention\<close>

definition gqa_shapes :: "'t ggml \<Rightarrow> gqa_params \<Rightarrow> int \<Rightarrow> 't gqa_weights \<Rightarrow> bool" where
  "gqa_shapes g p H w \<longleftrightarrow>
     shape g (gw_q w) = [H, gp_head_dim p * gp_n_head p, 1, 1]
   \<and> shape g (gw_k w) = [H, gp_head_dim p * gp_n_head_kv p, 1, 1]
   \<and> shape g (gw_v w) = [H, gp_head_dim p * gp_n_head_kv p, 1, 1]
   \<and> shape g (gw_o w) = [gp_head_dim p * gp_n_head p, H, 1, 1]
   \<and> (\<forall>n. gw_q_norm w = Some n \<or> gw_k_norm w = Some n \<longrightarrow> shape g n = [gp_head_dim p, 1, 1, 1])"

definition gqa_geometry :: "gqa_params \<Rightarrow> bool" where
  "gqa_geometry p \<longleftrightarrow> 0 < gp_head_dim p \<and> 0 < gp_n_head_kv p \<and> gp_n_head_kv p dvd gp_n_head p \<and> 0 < gp_n_head p"

text \<open>
  The layouts a caller may ask for: one padded window with a mask, sentences sliced out of a
  padded window, or sentences packed along the token axis, each at its own offset, whose offsets
  end with its length. The last two write into one destination, whose bytes are bounded by the
  largest offset \<open>ggml_set\<close> takes.
\<close>

definition sentences_fit :: "gqa_params \<Rightarrow> int \<Rightarrow> int \<Rightarrow> int list option \<Rightarrow> int list option \<Rightarrow> int \<Rightarrow> bool" where
  "sentences_fit p S B seq_lengths seq_offsets n_seq \<longleftrightarrow>
     (case seq_lengths of None \<Rightarrow> True
      | Some lengths \<Rightarrow> 4 * (gp_head_dim p * S * gp_n_head p * B) \<le> 2 ^ 30
          \<and> (case seq_offsets of
               None \<Rightarrow> \<forall>b < nat B. 0 < lengths ! b \<and> lengths ! b \<le> S
             | Some offsets \<Rightarrow> B = 1 \<and> offsets ! nat n_seq = S
                 \<and> (\<forall>b < nat n_seq. 0 < lengths ! b \<and> 0 \<le> offsets ! b \<and> offsets ! b + lengths ! b \<le> S)))"

text \<open>Where sentence \<open>b\<close> begins, in a tensor it is cut out of or written into.\<close>

definition part_offset :: "'t ggml \<Rightarrow> int list option \<Rightarrow> nat \<Rightarrow> 't \<Rightarrow> u64" where
  "part_offset g offs b t = (case offs of Some offsets \<Rightarrow> word_of_int (offsets ! b) * g_nb g t 1
     | None \<Rightarrow> word_of_nat b * g_nb g t 3)"

definition part_inside :: "int list option \<Rightarrow> nat \<Rightarrow> int \<Rightarrow> int \<Rightarrow> int \<Rightarrow> bool" where
  "part_inside offs b len S B \<longleftrightarrow> 0 < len \<and> len \<le> S
     \<and> (case offs of Some offsets \<Rightarrow> B = 1 \<and> 0 \<le> offsets ! b \<and> offsets ! b + len \<le> S | None \<Rightarrow> int b < B)"

lemma uint_small: "0 \<le> x \<Longrightarrow> x < 2 ^ 64 \<Longrightarrow> uint (word_of_int x :: u64) = x"
  by (simp add: unsigned_of_int take_bit_int_eq_self)

lemma uint_scaled:
  assumes "uint n = m" and "0 \<le> i" and "i * m < 2 ^ 64"
  shows "uint (word_of_int i * n :: u64) = i * m"
proof -
  have "0 \<le> m" using assms(1) by (metis uint_ge_0)
  moreover have "word_of_int i * n = (word_of_int (i * m) :: u64)"
    using assms(1) by (metis word_of_int_uint wi_hom_mult)
  ultimately show ?thesis using uint_small [of "i * m"] assms(2,3) by (metis mult_nonneg_nonneg)
qed

text \<open>Both layouts put a sentence wholly inside the tensor, in the two senses ggml asserts.\<close>

lemma part_window:
  fixes D S N B len :: int
  assumes t: "shape g t = [D, S, N, B]" and nat: "natural_strides g t" and D: "0 < D" "0 < N"
    and bytes: "4 * (D * S * N * B) \<le> 2 ^ 30" and inside: "part_inside offs b len S B"
  shows "window_inside g t [D, len, N, 1] [4, uint (g_nb g t 1), uint (g_nb g t 2), uint (g_nb g t 3)] (part_offset g offs b t)"
    and "uint (part_offset g offs b t) < 2 ^ 30"
proof -
  have len: "0 < len" "len \<le> S" using inside by (simp_all add: part_inside_def)
  have nb: "uint (g_nb g t 1) = 4 * D" "uint (g_nb g t 2) = 4 * (D * S)" "uint (g_nb g t 3) = 4 * (D * S * N)"
    using nat t by (simp_all add: natural_strides_def)
  obtain off where off: "0 \<le> off" "off + 4 * (D * (len * N)) \<le> 4 * (D * S * N * B)"
    "off + 4 * (D * len) + 4 * (D * S) * (N - 1) \<le> 4 * (D * S * N * B)"
    and eq: "off < 2 ^ 64 \<Longrightarrow> uint (part_offset g offs b t) = off"
  proof (cases offs)
    case None
    then have "int b < B" using inside by (simp add: part_inside_def)
    then have "D * S * N * (int b + 1) \<le> D * S * N * B" using D len by (intro mult_left_mono) auto
    then have c: "D * S * N * int b + D * S * N \<le> D * S * N * B" by (simp add: distrib_left)
    have "D * (len * N) \<le> D * (S * N)" "D * len \<le> D * S" using D len by (auto intro!: mult_left_mono mult_right_mono)
    then have l: "D * (len * N) \<le> D * S * N" "D * len \<le> D * S" by (simp_all add: ac_simps)
    have "uint (part_offset g offs b t) = int b * (4 * (D * S * N))" if "int b * (4 * (D * S * N)) < 2 ^ 64"
      using uint_scaled [OF nb(3), of "int b"] that None by (simp add: part_offset_def)
    moreover have "int b * (4 * (D * S * N)) = 4 * (D * S * N * int b)" by (simp add: ac_simps)
    moreover have "4 * (D * S) * (N - 1) = 4 * (D * S * N) - 4 * (D * S)" by (simp add: algebra_simps)
    moreover have "0 \<le> D * S * N * int b" using D len by simp
    ultimately show ?thesis using c l by (intro that [of "4 * (D * S * N * int b)"]) (linarith | simp)+
  next
    case (Some offsets)
    let ?o = "offsets ! b"
    have o: "B = 1" "0 \<le> ?o" "?o + len \<le> S" using inside Some by (simp_all add: part_inside_def)
    have "D * ((?o + len) * N) \<le> D * (S * N)" "D * (?o + len) \<le> D * S" using D o by (auto intro!: mult_left_mono mult_right_mono)
    then have l: "D * ?o * N + D * (len * N) \<le> D * S * N" "D * ?o + D * len \<le> D * S" by (simp_all add: algebra_simps)
    have m: "D * ?o * 1 \<le> D * ?o * N" using D o by (intro mult_left_mono) auto
    have "uint (part_offset g offs b t) = ?o * (4 * D)" if "?o * (4 * D) < 2 ^ 64"
      using uint_scaled [OF nb(1) o(2)] that Some by (simp add: part_offset_def)
    moreover have "?o * (4 * D) = 4 * (D * ?o)" by simp
    moreover have "4 * (D * S) * (N - 1) = 4 * (D * S * N) - 4 * (D * S)" by (simp add: algebra_simps)
    moreover have "0 \<le> D * ?o" "D * S * N * B = D * S * N" using D o by simp_all
    ultimately show ?thesis using l m by (intro that [of "4 * (D * ?o)"]) (linarith | simp)+
  qed
  have "0 < D * (len * N)" using D len by simp
  then have small: "off < 2 ^ 30" using off(2) bytes by linarith
  then have u: "uint (part_offset g offs b t) = off" using eq by simp
  then show "uint (part_offset g offs b t) < 2 ^ 30" using small by simp
  show "window_inside g t [D, len, N, 1] [4, uint (g_nb g t 1), uint (g_nb g t 2), uint (g_nb g t 3)] (part_offset g offs b t)"
    using D len off unfolding window_inside_def u nb f32_bytes_def stride_sum_def elements_def t
    by (simp add: algebra_simps)
qed

lemma gqa_operand_shape:
  assumes laws: "tensor_laws g" and t: "has_shape g t [gp_head_dim p * N, S, B, 1]"
    and gain: "\<And>n. gain = Some n \<Longrightarrow> shape g n = [gp_head_dim p, 1, 1, 1]"
    and pos: "\<And>ps. pos = Some ps \<Longrightarrow> shape g ps = [S, 1, 1, 1]"
  shows "has_shape g (gqa_operand g p S B t N gain pos) [gp_head_dim p, S, N, B]" (is "has_shape g ?x _")
    and "0 < gp_head_dim p \<Longrightarrow> 0 < S \<Longrightarrow> 0 < N \<Longrightarrow> 0 < B \<Longrightarrow> 4 * (gp_head_dim p * S * N * B) < 2 ^ 64
      \<Longrightarrow> natural_strides g (gqa_operand g p S B t N gain pos)"
proof -
  let ?D = "gp_head_dim p"
  define u where "u = g_reshape g t [?D, N, S, B]"
  have u: "has_shape g u [?D, N, S, B]" unfolding u_def
    using law_reshape [OF laws t, of "[?D, N, S, B]"] by (simp add: elements_def dims4_def)
  define n where "n = (case gain of None \<Rightarrow> u | Some w \<Rightarrow> build_rms_norm g u w (gp_norm_eps p))"
  have n: "has_shape g n [?D, N, S, B]"
    using u rms_norm_shape [OF laws u gain] by (cases gain) (auto simp: n_def)
  define r where "r = (case pos of None \<Rightarrow> n | Some ps \<Rightarrow>
    build_rope g n ps (cast_i32 ?D) (gp_n_ctx_orig p) (gp_rope_freq_base p))"
  have r: "has_shape g r [?D, N, S, B]"
    using n law_rope [OF laws n pos] by (cases pos) (auto simp: r_def build_rope_def)
  have eq: "?x = g_cont g (g_permute g r 0 2 1 3)"
    unfolding gqa_operand_def Let_def u_def [symmetric] n_def [symmetric] r_def [symmetric] by (rule refl)
  show "has_shape g ?x [gp_head_dim p, S, N, B]"
    unfolding eq by (rule law_permute(1) [OF laws has_shape_dims(6) [OF r]])
  have "shape g (g_permute g r 0 2 1 3) = [?D, S, N, B]" by (rule law_axes [OF laws has_shape_dims(6) [OF r]])
  then show "natural_strides g ?x" if "0 < ?D" "0 < S" "0 < N" "0 < B" "4 * (?D * S * N * B) < 2 ^ 64"
    unfolding eq using that by (intro law_strides(1) [OF laws]) (simp_all add: f32_bytes_def elements_def shape_def ac_simps)
qed

lemma slice_shape:
  assumes laws: "tensor_laws g" and t: "has_shape g t [D, S, N, B]" and nat: "natural_strides g t"
    and D: "0 < D" "0 < N" and "4 * (D * S * N * B) \<le> 2 ^ 30" and "part_inside offs b len S B"
  shows "shape g (sentence_slice g offs b len t) = [D, len, N, 1]"
proof -
  have "uint (g_nb g t 0) = 4" using nat by (simp add: natural_strides_def)
  then have "window_inside g t [D, len, N, 1] [uint (g_nb g t 0), uint (g_nb g t 1), uint (g_nb g t 2), uint (g_nb g t 3)]
      (part_offset g offs b t)"
    using part_window(1) [OF has_shape_dims(6) [OF t] nat D assms(6,7)] by simp
  from law_view [OF laws _ this] show ?thesis
    using t by (simp add: sentence_slice_def part_offset_def [symmetric] Let_def has_shape_def)
qed

lemma causal_shape:
  "tensor_laws g \<Longrightarrow> has_shape g s sh \<Longrightarrow> has_shape g (if c then g_diag_mask_inf g s 0 else s) sh"
  by (simp add: law_unary(4))

text \<open>The heads a slice is taken from: laid out freshly, small enough, the sentence inside.\<close>

definition sliceable :: "'t ggml \<Rightarrow> int \<Rightarrow> int \<Rightarrow> int \<Rightarrow> int \<Rightarrow> 't \<Rightarrow> bool" where
  "sliceable g D S N B t \<longleftrightarrow> has_shape g t [D, S, N, B] \<and> natural_strides g t \<and> 0 < D \<and> 0 < N
     \<and> 4 * (D * S * N * B) \<le> 2 ^ 30"

lemma sentence_attention_shape:
  assumes laws: "tensor_laws g" and q: "sliceable g D S N B q" and k: "sliceable g D S M B k"
    and v: "sliceable g D S M B v" and "M dvd N" and inside: "part_inside offs b (lengths ! b) S B" and S: "S < 2 ^ 31"
  shows "\<exists>a. sentence_attention g p S lengths offs q k v b = Inr a
    \<and> has_shape g a [D, if offs = None then S else lengths ! b, N, 1]"
proof -
  let ?len = "lengths ! b" and ?sl = "sentence_slice g offs b (lengths ! b)"
  let ?s = "g_mul_mat g (?sl k) (?sl q)"
  let ?c = "if gp_causal p then g_diag_mask_inf g ?s 0 else ?s"
  let ?m = "g_soft_max_ext g ?c None (gp_scale p) f32_zero"
  let ?a = "g_mul_mat g (g_cont g (g_permute g (?sl v) 1 0 2 3)) ?m"
  have len: "0 < ?len" "?len \<le> S" using inside by (simp_all add: part_inside_def)
  have sl: "shape g (?sl t) = [D, ?len, n, 1]" if "sliceable g D S n B t" for t n
    using that by (intro slice_shape [OF laws _ _ _ _ _ inside]) (auto simp: sliceable_def)
  have "has_shape g ?c [?len, ?len, N, 1]"
    by (rule causal_shape [OF laws scores_shape [OF laws sl [OF q] sl [OF k] assms(5)]])
  then have "has_shape g ?m [?len, ?len, N, 1]" by (rule law_soft_max [OF laws]) simp
  then have a: "has_shape g ?a [D, ?len, N, 1]" by (rule values_shape [OF laws sl [OF v] _ assms(5)])
  have pad: "has_shape g (g_pad g ?a 0 (cast_i32 (S - ?len)) 0 0) [D, S, N, 1]"
    using law_pad [OF laws a, of 0 "S - ?len" 0 0] len S by (simp add: cast_i32_id)
  show ?thesis
    using len a pad by (cases "offs = None"; cases "?len < S") (auto simp: sentence_attention_def Let_def)
qed

text \<open>Every part lands inside the destination, which keeps its shape and its strides.\<close>

lemma place_parts_shape:
  assumes laws: "tensor_laws g" and "sliceable g D S N B dst"
    and "\<forall>(b, t)\<in>set parts. \<exists>len. has_shape g t [D, len, N, 1] \<and> part_inside offs b len S B"
  shows "has_shape g (foldl (place_part g offs) dst parts) [D, S, N, B]"
  using assms(2,3)
proof (induction parts arbitrary: dst)
  case Nil
  then show ?case by (simp add: sliceable_def)
next
  case (Cons p parts)
  obtain b t where p: "p = (b, t)" by (cases p)
  obtain len where t: "has_shape g t [D, len, N, 1]" and inside: "part_inside offs b len S B"
    using Cons.prems(2) p by auto
  have dst: "has_shape g dst [D, S, N, B]" "natural_strides g dst" "0 < D" "0 < N" "4 * (D * S * N * B) \<le> 2 ^ 30"
    using Cons.prems(1) by (simp_all add: sliceable_def)
  note w = part_window [OF has_shape_dims(6) [OF dst(1)] dst(2-5) inside, folded has_shape_dims(6) [OF t]]
  have "elements (shape g t) \<le> elements [D, S, N, B]"
  proof -
    have "uint (part_offset g offs b dst) + 4 * elements (shape g t) \<le> 4 * elements [D, S, N, B]"
      using w(1) unfolding window_inside_def f32_bytes_def has_shape_dims(6) [OF dst(1)] by (elim conjE)
    then show ?thesis using uint_ge_0 [of "part_offset g offs b dst"] by linarith
  qed
  note s = law_set [OF laws dst(1) _ w(2) this w(1)]
  have "g_f32_contiguous g t" using t by (simp add: has_shape_def)
  then have "sliceable g D S N B (place_part g offs dst p)"
    using s dst by (simp add: sliceable_def place_part_def p Let_def part_offset_def)
  with Cons show ?case by simp
qed

lemma per_sentence_shape:
  assumes laws: "tensor_laws g" and q: "sliceable g (gp_head_dim p) S (gp_n_head p) B q"
    and k: "sliceable g (gp_head_dim p) S (gp_n_head_kv p) B k"
    and v: "sliceable g (gp_head_dim p) S (gp_n_head_kv p) B v"
    and geo: "gqa_geometry p" and fit: "sentences_fit p S B (Some lengths) offs n_seq" and S: "0 < S" "0 < B" "S < 2 ^ 31"
  shows "\<exists>a. per_sentence_attention g p S B lengths offs n_seq q k v = Inr a
    \<and> has_shape g a [gp_head_dim p, S, gp_n_head p, B]"
proof -
  let ?D = "gp_head_dim p" and ?N = "gp_n_head p"
  let ?count = "case offs of Some _ \<Rightarrow> nat n_seq | None \<Rightarrow> nat B"
  let ?f = "sentence_attention g p S lengths offs q k v"
  have inside: "part_inside offs b (lengths ! b) S B" if "b < ?count" for b
    using fit that by (cases offs) (fastforce simp: sentences_fit_def part_inside_def)+
  have one: "\<exists>a. ?f b = Inr a \<and> has_shape g a [?D, if offs = None then S else lengths ! b, ?N, 1]" if "b < ?count" for b
    using sentence_attention_shape [OF laws q k v _ inside [OF that] S(3)] geo by (simp add: gqa_geometry_def)
  then have "\<nexists>e. mapE ?f [0 ..< ?count] = Inl e" unfolding mapE_Inl_iff by fastforce
  then obtain parts where parts: "mapE ?f [0 ..< ?count] = Inr parts" by (cases "mapE ?f [0 ..< ?count]") auto
  have all: "\<forall>(b, t)\<in>set (zip [0 ..< ?count] parts). \<exists>len. has_shape g t [?D, len, ?N, 1] \<and> part_inside offs b len S B"
  proof clarify
    fix b t assume "(b, t) \<in> set (zip [0 ..< ?count] parts)"
    then have b: "b < ?count" "?f b = Inr t"
      using parts [unfolded mapE_Inr_iff] by (auto simp: list_all2_iff dest: set_zip_leftD)
    show "\<exists>len. has_shape g t [?D, len, ?N, 1] \<and> part_inside offs b len S B"
    proof (intro exI conjI)
      show "has_shape g t [?D, if offs = None then S else lengths ! b, ?N, 1]" using one [OF b(1)] b(2) by auto
      show "part_inside offs b (if offs = None then S else lengths ! b) S B"
        using inside [OF b(1)] by (auto simp: part_inside_def)
    qed
  qed
  have bytes: "4 * (?D * S * ?N * B) \<le> 2 ^ 30" using fit by (simp add: sentences_fit_def)
  have pos: "0 < ?D" "0 < ?N" using geo by (simp_all add: gqa_geometry_def)
  define dst where "dst = g_new_f32 g [?D, S, ?N, B]"
  have "natural_strides g dst" unfolding dst_def
    using pos S bytes by (intro law_strides(2) [OF laws]) (simp_all add: elements_def ac_simps)
  then have new: "sliceable g ?D S ?N B dst"
    using law_new [OF laws] pos bytes by (simp add: sliceable_def dst_def)
  have "(if offs \<noteq> None then g_new_f32 g [?D, case offs of Some o' \<Rightarrow> o' ! ?count | None \<Rightarrow> S, ?N, 1]
      else g_new_f32 g [?D, S, ?N, B]) = dst"
    using fit by (cases offs) (auto simp: sentences_fit_def dst_def)
  then show ?thesis using place_parts_shape [OF laws new all] parts
    by (simp add: per_sentence_attention_def Let_def)
qed

definition rope_fits :: "'t ggml \<Rightarrow> gqa_params \<Rightarrow> int \<Rightarrow> 't option \<Rightarrow> bool" where
  "rope_fits g p S pos \<longleftrightarrow> (f32_positive (gp_rope_freq_base p) \<longrightarrow> (\<exists>ps. pos = Some ps \<and> shape g ps = [S, 1, 1, 1]))"

lemma masked_attention_shape:
  assumes laws: "tensor_laws g" and q: "has_shape g q [D, S, N, B]"
    and k: "has_shape g k [D, S, M, B]" and v: "has_shape g v [D, S, M, B]" and "M dvd N"
    and "mask_fits g S B m"
  shows "has_shape g (masked_attention g p m q k v) [D, S, N, B]"
  unfolding masked_attention_def Let_def
  by (intro values_shape [OF laws has_shape_dims(6) [OF v] _ assms(5)] soft_max_mask_shape [OF laws _ assms(6)]
      causal_shape [OF laws] scores_shape [OF laws has_shape_dims(6) [OF q] has_shape_dims(6) [OF k] assms(5)])

lemma gqa_core_shape:
  assumes laws: "tensor_laws g" and w: "gqa_shapes g p H w" and geo: "gqa_geometry p"
    and pr: "has_shape g (proj_q pr) [gp_head_dim p * gp_n_head p, S, B, 1]"
      "has_shape g (proj_k pr) [gp_head_dim p * gp_n_head_kv p, S, B, 1]"
      "has_shape g (proj_v pr) [gp_head_dim p * gp_n_head_kv p, S, B, 1]"
    and "rope_fits g p S pos" and m: "mask_fits g S B m" and S: "0 < S" "0 < B" "S < 2 ^ 31"
    and fit: "sentences_fit p S B lens offs n_seq"
  shows "\<exists>y. build_gqa_attention_core g pr pos m w p lens offs n_seq = Inr y \<and> has_shape g y [H, S, B, 1]"
proof -
  let ?D = "gp_head_dim p" and ?N = "gp_n_head p" and ?M = "gp_n_head_kv p"
  define ps where "ps = (if f32_positive (gp_rope_freq_base p) then pos else None)"
  have ps: "\<And>t. ps = Some t \<Longrightarrow> shape g t = [S, 1, 1, 1]" and rot: "\<not> (f32_positive (gp_rope_freq_base p) \<and> pos = None)"
    using assms(7) by (auto simp: rope_fits_def ps_def split: if_splits)
  define q k v where "q = gqa_operand g p S B (proj_q pr) ?N (gw_q_norm w) ps"
    and "k = gqa_operand g p S B (proj_k pr) ?M (gw_k_norm w) ps"
    and "v = gqa_operand g p S B (proj_v pr) ?M None None"
  have q: "has_shape g q [?D, S, ?N, B]" and k: "has_shape g k [?D, S, ?M, B]" and v: "has_shape g v [?D, S, ?M, B]"
    unfolding q_def k_def v_def using w ps
    by (auto intro!: gqa_operand_shape(1) [OF laws] pr simp: gqa_shapes_def)
  have dv: "?M dvd ?N" and pos: "0 < ?D" "0 < ?N" "0 < ?M" "?M \<le> ?N"
    using geo by (auto simp: gqa_geometry_def zdvd_imp_le)
  define body where "body = (case lens of
      Some lengths \<Rightarrow> if B > 1 \<or> offs \<noteq> None
        then per_sentence_attention g p S B lengths offs n_seq q k v else Inr (masked_attention g p m q k v)
    | None \<Rightarrow> Inr (masked_attention g p m q k v))"
  obtain a where a: "body = Inr a" "has_shape g a [?D, S, ?N, B]"
  proof (cases lens)
    case None
    then show ?thesis using that masked_attention_shape [OF laws q k v dv m, of p] by (simp add: body_def)
  next
    case (Some lengths)
    have bytes: "4 * (?D * S * ?N * B) \<le> 2 ^ 30" using fit Some by (simp add: sentences_fit_def)
    have "?D * S * B * ?M \<le> ?D * S * B * ?N" using S pos by (intro mult_left_mono) auto
    then have bytes': "4 * (?D * S * ?M * B) \<le> 2 ^ 30" using bytes by (simp add: ac_simps)
    have sl: "sliceable g ?D S ?N B q" "sliceable g ?D S ?M B k" "sliceable g ?D S ?M B v"
      using q k v w ps bytes bytes' S pos unfolding q_def k_def v_def sliceable_def
      by (auto intro!: gqa_operand_shape(2) [OF laws] pr simp: gqa_shapes_def)
    obtain a' where "per_sentence_attention g p S B lengths offs n_seq q k v = Inr a'"
      "has_shape g a' [?D, S, ?N, B]"
      using per_sentence_shape [OF laws sl geo fit [unfolded Some] S] by blast
    with Some that masked_attention_shape [OF laws q k v dv m, of p] show ?thesis
      by (cases "1 < B \<or> offs \<noteq> None") (auto simp: body_def)
  qed
  have "has_shape g (build_linear g (gw_o w) (g_reshape g (g_cont g (g_permute g a 0 2 1 3)) [?D * ?N, S, B])) [H, S, B, 1]"
    using w by (intro linear_shape [OF laws merge_heads_shape [OF laws a(2)]]) (simp add: gqa_shapes_def)
  moreover have "build_gqa_attention_core g pr pos m w p lens offs n_seq = bindE body (\<lambda>attn.
      Inr (build_linear g (gw_o w) (g_reshape g (g_cont g (g_permute g attn 0 2 1 3)) [?D * ?N, S, B])))"
    using rot
    unfolding build_gqa_attention_core_def Let_def body_def q_def k_def v_def ps_def has_shape_dims [OF pr(1)]
    by auto
  ultimately show ?thesis using a(1) by simp
qed


subsection \<open>Concrete inputs\<close>

text \<open>Tensors that are nothing but their shape: the rules of \<open>tensor_laws\<close> can hold.\<close>

definition dims :: "int list \<Rightarrow> nat \<Rightarrow> int" where
  "dims ds i = (ds @ [1, 1, 1, 1]) ! i"

definition shape_ggml :: "(nat \<Rightarrow> int) ggml" where
  "shape_ggml = \<lparr>g_ne = (\<lambda>t. t), g_nb = (\<lambda>t i. word_of_int (4 * prod_list (map t [0 ..< i]))),
     g_f32_contiguous = (\<lambda>t. True), g_i32 = (\<lambda>t. False),
     g_mul_mat = (\<lambda>a b. dims [a 1, b 1, b 2, b 3]), g_add = (\<lambda>a b. a), g_mul = (\<lambda>a b. a),
     g_scale = (\<lambda>a s. a), g_norm = (\<lambda>a e. a), g_rms_norm = (\<lambda>a e. a), g_l2_norm = (\<lambda>a e. a),
     g_get_rows = (\<lambda>a b. dims [a 0, b 0, b 1, b 2]), g_gelu_erf = (\<lambda>a. a),
     g_geglu_split = (\<lambda>a b. a), g_swiglu_split = (\<lambda>a b. a), g_cont = (\<lambda>a. a),
     g_transpose = (\<lambda>a. dims [a 1, a 0, a 2, a 3]), g_mean = (\<lambda>a. dims [1, a 1, a 2, a 3]),
     g_sum_rows = (\<lambda>a. dims [1, a 1, a 2, a 3]),
     g_permute = (\<lambda>a p0 p1 p2 p3. if p0 = 0 then dims [a 0, a 2, a 1, a 3] else dims [a 1, a 0, a 2, a 3]),
     g_reshape = (\<lambda>a ds. dims ds), g_view = (\<lambda>a ds nbs off. dims ds),
     g_soft_max_ext = (\<lambda>a m s b. a), g_diag_mask_inf = (\<lambda>a n. a),
     g_rope_ext = (\<lambda>a p f n m c fb fs ef af bf bs. a),
     g_pad = (\<lambda>a p0 p1 p2 p3. dims [a 0 + p0, a 1 + p1, a 2 + p2, a 3 + p3]),
     g_new_f32 = dims, g_set_inplace = (\<lambda>a b n1 n2 n3 off. a), g_concat = (\<lambda>a b d. a),
     g_div = (\<lambda>a b. a), g_sqrt = (\<lambda>a. a), g_f32_of_int = word_of_int\<rparr>"

lemma dims_shape: "0 < length ds \<Longrightarrow> length ds \<le> 4 \<Longrightarrow> [dims ds 0, dims ds (Suc 0), dims ds 2, dims ds 3] = dims4 ds"
  by (auto simp: dims_def dims4_def numeral_eq_Suc less_Suc_eq_le le_Suc_eq length_Suc_conv)

lemma dims_list:
  "dims [a, b, c, d] 0 = a" "dims [a, b, c, d] (Suc 0) = b" "dims [a, b, c, d] 2 = c" "dims [a, b, c, d] 3 = d"
  by (simp_all add: dims_def)

lemma dims_view:
  "length ds = 2 \<or> length ds = 4 \<Longrightarrow> [dims ds 0, dims ds (Suc 0), dims ds 2, dims ds 3] = dims4 ds"
  "length ds = 4 \<Longrightarrow> [dims ds 0, dims ds (Suc 0), dims ds 2, dims ds 3] = ds"
  using dims_shape [of ds] by (cases "ds = []"; auto simp: dims4_def)+

lemmas shape_ggml_simps = shape_ggml_def has_shape_def shape_def dims_list

lemma shape_ggml_strides:
  assumes pos: "0 < t 0" "0 < t 1" "0 < t 2" "0 < t 3" and fit: "4 * (t 0 * t 1 * t 2 * t 3) < 2 ^ 64"
  shows "natural_strides shape_ggml t"
proof -
  have "t 0 * t 1 * t 2 * 1 \<le> t 0 * t 1 * t 2 * t 3" "t 0 * t 1 * 1 \<le> t 0 * t 1 * t 2" "t 0 * 1 \<le> t 0 * t 1"
    using pos by (auto intro!: mult_left_mono)
  then have le: "4 * (t 0 * t 1 * t 2) < 2 ^ 64" "4 * (t 0 * t 1) < 2 ^ 64" "4 * t 0 < 2 ^ 64" using fit by linarith+
  have "[0 ..< 1] = [0 :: nat]" "[0 ..< 2] = [0 :: nat, 1]" "[0 ..< 3] = [0 :: nat, 1, 2]" by (simp_all add: upt_rec)
  then have nb: "g_nb shape_ggml t 0 = word_of_int 4" "g_nb shape_ggml t 1 = word_of_int (4 * t 0)"
    "g_nb shape_ggml t 2 = word_of_int (4 * (t 0 * t 1))" "g_nb shape_ggml t 3 = word_of_int (4 * (t 0 * t 1 * t 2))"
    by (simp_all add: shape_ggml_def ac_simps)
  have "g_ne shape_ggml t = t" by (simp add: shape_ggml_def)
  then show ?thesis unfolding natural_strides_def nb using le pos by (simp add: uint_small del: of_int_mult)
qed

lemma shape_ggml_layout:
  "list_all (\<lambda>d. 0 < d) (shape shape_ggml t) \<Longrightarrow> f32_bytes shape_ggml t < 2 ^ 64 \<Longrightarrow> natural_strides shape_ggml t"
  "length ds = 4 \<Longrightarrow> list_all (\<lambda>d. 0 < d) ds \<Longrightarrow> 4 * elements ds < 2 ^ 64 \<Longrightarrow> natural_strides shape_ggml (dims ds)"
  by (rule shape_ggml_strides;
      auto simp: f32_bytes_def elements_def shape_ggml_simps dims_def length_Suc_conv numeral_eq_Suc ac_simps)+

lemma shape_ggml_laws: "tensor_laws shape_ggml"
proof -
  have "elementwise_laws shape_ggml" by (simp add: elementwise_laws_def shape_ggml_simps)
  moreover have "layout_laws shape_ggml"
    using dims_shape dims_view shape_ggml_layout [unfolded natural_strides_def]
    by (simp add: layout_laws_def natural_strides_def f32_bytes_def shape_ggml_simps del: of_int_mult)
  moreover have "product_laws shape_ggml" by (simp add: product_laws_def shape_ggml_simps)
  ultimately show ?thesis by (simp add: tensor_laws_def)
qed

definition demo_bert_layer :: "(nat \<Rightarrow> int) layer_weights" where
  "demo_bert_layer = \<lparr>lw_attn = \<lparr>aw_q_w = dims [4, 4], aw_q_b = dims [4], aw_k_w = dims [4, 4], aw_k_b = dims [4],
       aw_v_w = dims [4, 4], aw_v_b = dims [4], aw_o_w = dims [4, 4], aw_o_b = dims [4],
       aw_norm_w = dims [4], aw_norm_b = dims [4]\<rparr>,
     lw_ffn = \<lparr>fw_up_w = dims [4, 16], fw_up_b = dims [16], fw_down_w = dims [16, 4], fw_down_b = dims [4],
       fw_norm_w = dims [4], fw_norm_b = dims [4]\<rparr>\<rparr>"

theorem encoder_block_shape_witness:
  "has_shape shape_ggml (build_encoder_block shape_ggml (dims [4, 5, 3]) (Some (dims [5, 5, 1, 3])) 2
     demo_bert_layer f32_1e_12) [4, 5, 3, 1]"
  by (rule encoder_block_shape [OF shape_ggml_laws, where F = 16])
    (auto simp: bert_layer_shapes_def demo_bert_layer_def mask_fits_def shape_ggml_def has_shape_def dims_def)

definition demo_gqa_params :: gqa_params where
  "demo_gqa_params = \<lparr>gp_n_head = 4, gp_n_head_kv = 1, gp_head_dim = 2, gp_scale = f32_one,
     gp_norm_eps = f32_1e_6, gp_rope_freq_base = f32_1e6, gp_n_ctx_orig = 2048, gp_causal = True\<rparr>"

definition demo_gqa_weights :: "(nat \<Rightarrow> int) gqa_weights" where
  "demo_gqa_weights = \<lparr>gw_q = dims [6, 8], gw_k = dims [6, 2], gw_v = dims [6, 2], gw_o = dims [8, 6],
     gw_q_norm = Some (dims [2]), gw_k_norm = Some (dims [2])\<rparr>"


end
