(* ===== verification/Gguf.thy ===== *)
theory Gguf
  imports Ggml
begin

text \<open>
  Reading model metadata: the helpers of \<open>src/gguf_util.cpp\<close>. The parsed file is the argument:
  ggml's reader gives the metadata value of a key, the directory entry of a tensor and the
  tensor's shape in the metadata context, each by name.
\<close>

datatype gguf_value =
    KvU32 u32
  | KvI32 int
  | KvF32 f32
  | KvBool bool
  | KvString string
  | KvStrings "string list"
  | KvI32s "int list"
  | KvF32s "f32 list"
  | KvArray nat
  | KvOther

record gguf_entry =
  ge_index :: int
  ge_type :: int
  ge_size :: u64
  ge_offset :: u64

record gguf_file =
  gf_kv :: "string \<Rightarrow> gguf_value option"
  gf_tensor :: "string \<Rightarrow> gguf_entry option"
  gf_meta :: "string \<Rightarrow> int list option"

text \<open>\<open>ScanError\<close>, by what it reports.\<close>

datatype scan_error =
    NoContexts
  | OpenFailed string
  | NoArchitectureString
  | MissingKey string
  | WrongType string
  | OutOfIntRange string
  | MissingTensor string
  | NotInMeta string
  | ShapeMismatch string
  | UnsupportedArchitecture string
  | RecognizedNotImplemented string
  | NonPositiveHyperparameter
  | BadEpsilon
  | BadRopeBase
  | BadPooling int
  | HeadsDoNotDivide
  | KeyValueLengthsDiffer
  | TokensNotAnArray
  | VocabularyTooLarge
  | VocabularyEmpty
  | BadScale
  | SlidingWindow int

subsection \<open>Metadata\<close>

definition require_kv :: "gguf_file \<Rightarrow> string \<Rightarrow> scan_error + gguf_value" where
  "require_kv f key = (case gf_kv f key of None \<Rightarrow> Inl (MissingKey key) | Some v \<Rightarrow> Inr v)"

definition u32_as_int :: "string \<Rightarrow> gguf_value \<Rightarrow> scan_error + int" where
  "u32_as_int key v =
     (case v of
        KvU32 value \<Rightarrow> if value > word_of_nat INT32_MAX then Inl (OutOfIntRange key) else Inr (uint value)
      | _ \<Rightarrow> Inl (WrongType key))"

definition read_u32_as_int :: "gguf_file \<Rightarrow> string \<Rightarrow> scan_error + int" where
  "read_u32_as_int f key = bindE (require_kv f key) (u32_as_int key)"

definition read_str :: "gguf_file \<Rightarrow> string \<Rightarrow> scan_error + string" where
  "read_str f key =
     bindE (require_kv f key) (\<lambda>v. case v of KvString s \<Rightarrow> Inr s | _ \<Rightarrow> Inl (WrongType key))"

definition read_u32_or :: "gguf_file \<Rightarrow> string \<Rightarrow> int \<Rightarrow> scan_error + int" where
  "read_u32_or f key fallback =
     (case gf_kv f key of None \<Rightarrow> Inr fallback | Some v \<Rightarrow> u32_as_int key v)"

definition read_f32_or :: "gguf_file \<Rightarrow> string \<Rightarrow> f32 \<Rightarrow> scan_error + f32" where
  "read_f32_or f key fallback =
     (case gf_kv f key of None \<Rightarrow> Inr fallback
      | Some (KvF32 value) \<Rightarrow> Inr value
      | Some _ \<Rightarrow> Inl (WrongType key))"

definition read_bool_or :: "gguf_file \<Rightarrow> string \<Rightarrow> bool \<Rightarrow> scan_error + bool" where
  "read_bool_or f key fallback =
     (case gf_kv f key of None \<Rightarrow> Inr fallback
      | Some (KvBool value) \<Rightarrow> Inr value
      | Some _ \<Rightarrow> Inl (WrongType key))"

text \<open>\<open>gguf_get_arr_n\<close> of an array value, \<open>None\<close> for a value that is not an array.\<close>

definition array_length :: "gguf_value \<Rightarrow> nat option" where
  "array_length v =
     (case v of KvStrings xs \<Rightarrow> Some (length xs)
      | KvI32s xs \<Rightarrow> Some (length xs)
      | KvF32s xs \<Rightarrow> Some (length xs)
      | KvArray n \<Rightarrow> Some n
      | _ \<Rightarrow> None)"

text \<open>The block both scanners have: the vocabulary size is the length of the token array.\<close>

definition scan_vocab_size :: "gguf_file \<Rightarrow> scan_error + int" where
  "scan_vocab_size f =
     bindE (require_kv f ''tokenizer.ggml.tokens'') (\<lambda>v.
       case array_length v of
         None \<Rightarrow> Inl TokensNotAnArray
       | Some n_vocab \<Rightarrow>
           if n_vocab > INT32_MAX then Inl VocabularyTooLarge
           else if int n_vocab \<le> 0 then Inl VocabularyEmpty
           else Inr (int n_vocab))"

subsection \<open>Tensors\<close>

record tensor_ref =
  tr_gguf_index :: int
  tr_ggml_type :: int
  tr_ne :: "int list"
  tr_size_bytes :: u64
  tr_data_offset :: u64

definition empty_ref :: tensor_ref where
  "empty_ref = \<lparr>tr_gguf_index = - 1, tr_ggml_type = 0, tr_ne = [0, 0, 0, 0],
     tr_size_bytes = 0, tr_data_offset = 0\<rparr>"

definition ref_valid :: "tensor_ref \<Rightarrow> bool" where
  "ref_valid r \<longleftrightarrow> tr_gguf_index r \<ge> 0"

definition make_ref :: "gguf_entry \<Rightarrow> int list \<Rightarrow> tensor_ref" where
  "make_ref e ne = \<lparr>tr_gguf_index = ge_index e, tr_ggml_type = ge_type e, tr_ne = map ((!) ne) [0, 1, 2, 3],
     tr_size_bytes = ge_size e, tr_data_offset = ge_offset e\<rparr>"

definition require_tensor :: "gguf_file \<Rightarrow> string \<Rightarrow> scan_error + tensor_ref" where
  "require_tensor f name =
     (case gf_tensor f name of None \<Rightarrow> Inl (MissingTensor name)
      | Some e \<Rightarrow> (case gf_meta f name of None \<Rightarrow> Inl (NotInMeta name) | Some ne \<Rightarrow> Inr (make_ref e ne)))"

definition optional_tensor :: "gguf_file \<Rightarrow> string \<Rightarrow> scan_error + tensor_ref" where
  "optional_tensor f name =
     (case gf_tensor f name of None \<Rightarrow> Inr empty_ref
      | Some e \<Rightarrow> (case gf_meta f name of None \<Rightarrow> Inl (NotInMeta name) | Some ne \<Rightarrow> Inr (make_ref e ne)))"

text \<open>\<open>operator<<\<close> and \<open>std::to_string\<close> of an int: its decimal digits.\<close>

fun nat_digits :: "nat \<Rightarrow> string" where
  "nat_digits n = (if n < 10 then [char_of (n + 48)] else nat_digits (n div 10) @ [char_of (n mod 10 + 48)])"

definition int_digits :: "int \<Rightarrow> string" where
  "int_digits n = (if n < 0 then CHR ''-'' # nat_digits (nat (- n)) else nat_digits (nat n))"

definition layer_tensor_name :: "int \<Rightarrow> string \<Rightarrow> string" where
  "layer_tensor_name layer_idx suffix = ''blk.'' @ int_digits layer_idx @ ''.'' @ suffix"

definition validate_shape_2d :: "tensor_ref \<Rightarrow> int \<Rightarrow> int \<Rightarrow> string \<Rightarrow> scan_error + unit" where
  "validate_shape_2d r expected_rows expected_cols name =
     guardE (\<not> (tr_ne r ! 0 \<noteq> expected_rows \<or> tr_ne r ! 1 \<noteq> expected_cols
                \<or> tr_ne r ! 2 \<noteq> 1 \<or> tr_ne r ! 3 \<noteq> 1)) (ShapeMismatch name)"

definition validate_shape_1d :: "tensor_ref \<Rightarrow> int \<Rightarrow> string \<Rightarrow> scan_error + unit" where
  "validate_shape_1d r expected name =
     guardE (\<not> (tr_ne r ! 0 \<noteq> expected \<or> tr_ne r ! 1 \<noteq> 1 \<or> tr_ne r ! 2 \<noteq> 1 \<or> tr_ne r ! 3 \<noteq> 1))
       (ShapeMismatch name)"

subsection \<open>What the readers return\<close>

declare nat_digits.simps [simp del]

lemma u32_as_int_range: "u32_as_int key v = Inr n \<Longrightarrow> 0 \<le> n \<and> n \<le> int INT32_MAX"
proof (cases v)
  case (KvU32 w)
  assume "u32_as_int key v = Inr n"
  then have "n = uint w" "\<not> w > word_of_nat INT32_MAX"
    by (auto simp: u32_as_int_def KvU32 split: if_splits)
  then have "unat w \<le> unat (word_of_nat INT32_MAX :: u32)" by (metis not_less word_le_nat_alt)
  moreover have "unat (word_of_nat INT32_MAX :: u32) = INT32_MAX" by (simp add: INT32_MAX_def)
  ultimately show ?thesis using \<open>n = uint w\<close> by (metis of_nat_0_le_iff of_nat_le_iff uint_nat)
qed (auto simp: u32_as_int_def)

lemma read_u32_as_int_range:
  assumes "read_u32_as_int f key = Inr n" shows "0 \<le> n \<and> n \<le> int INT32_MAX"
proof -
  obtain v where "u32_as_int key v = Inr n"
    using assms unfolding read_u32_as_int_def bindE_Inr_iff by blast
  then show ?thesis by (rule u32_as_int_range)
qed

lemma scan_vocab_size_iff:
  "scan_vocab_size f = Inr n \<longleftrightarrow>
   (\<exists>v k. gf_kv f ''tokenizer.ggml.tokens'' = Some v \<and> array_length v = Some k
      \<and> 0 < k \<and> k \<le> INT32_MAX \<and> n = int k)"
proof (cases "gf_kv f ''tokenizer.ggml.tokens''")
  case (Some v)
  then show ?thesis by (cases "array_length v") (auto simp: scan_vocab_size_def require_kv_def not_less)
qed (simp add: scan_vocab_size_def require_kv_def)

text \<open>
  What a file declares under a key, said of the value itself: a 32-bit number that an \<open>int\<close> can
  hold, a number or a float with a default for an absent key, and the length of the token array.
\<close>

definition key_u32 :: "gguf_file \<Rightarrow> string \<Rightarrow> int \<Rightarrow> bool" where
  "key_u32 f key n \<longleftrightarrow> (\<exists>w. gf_kv f key = Some (KvU32 w) \<and> uint w = n) \<and> n \<le> 2147483647"

definition key_u32_or :: "gguf_file \<Rightarrow> string \<Rightarrow> int \<Rightarrow> int \<Rightarrow> bool" where
  "key_u32_or f key d n \<longleftrightarrow> (gf_kv f key = None \<and> n = d) \<or> key_u32 f key n"

definition key_f32_or :: "gguf_file \<Rightarrow> string \<Rightarrow> f32 \<Rightarrow> f32 \<Rightarrow> bool" where
  "key_f32_or f key d x \<longleftrightarrow> (gf_kv f key = None \<and> x = d) \<or> gf_kv f key = Some (KvF32 x)"

definition token_count :: "gguf_file \<Rightarrow> int \<Rightarrow> bool" where
  "token_count f n \<longleftrightarrow> (\<exists>v k. gf_kv f ''tokenizer.ggml.tokens'' = Some v \<and> array_length v = Some k \<and> n = int k)"

lemma key_u32_max: "key_u32 f key n \<Longrightarrow> n \<le> int INT32_MAX"
  by (simp add: key_u32_def INT32_MAX_def)

lemma u32_as_int_iff: "u32_as_int key v = Inr n \<longleftrightarrow> (\<exists>w. v = KvU32 w \<and> uint w = n) \<and> n \<le> 2147483647"
proof (cases v)
  case (KvU32 w)
  have "w > word_of_nat INT32_MAX \<longleftrightarrow> uint w > 2147483647"
    by (simp add: word_less_def INT32_MAX_def)
  then show ?thesis by (auto simp: u32_as_int_def KvU32)
qed (auto simp: u32_as_int_def)

lemma read_u32_as_int_iff: "read_u32_as_int f key = Inr n \<longleftrightarrow> key_u32 f key n"
  by (cases "gf_kv f key") (auto simp: read_u32_as_int_def require_kv_def u32_as_int_iff key_u32_def)

lemma read_u32_or_key: "read_u32_or f key d = Inr n \<longleftrightarrow> key_u32_or f key d n"
  by (cases "gf_kv f key") (auto simp: read_u32_or_def u32_as_int_iff key_u32_or_def key_u32_def)

lemma read_f32_or_key: "read_f32_or f key d = Inr x \<longleftrightarrow> key_f32_or f key d x"
  by (auto simp: read_f32_or_def key_f32_or_def split: option.splits gguf_value.splits)

lemma read_str_key: "read_str f key = Inr s \<longleftrightarrow> gf_kv f key = Some (KvString s)"
  by (auto simp: read_str_def require_kv_def throwing split: option.splits gguf_value.splits)

lemma vocab_size_key: "scan_vocab_size f = Inr n \<longleftrightarrow> token_count f n \<and> 0 < n \<and> n \<le> int INT32_MAX"
  unfolding scan_vocab_size_iff token_count_def by auto

lemmas metadata_keys = read_u32_as_int_iff read_u32_or_key read_f32_or_key read_str_key vocab_size_key

lemma digits_char: "n < 10 \<Longrightarrow> of_char (char_of (n + 48)) = n + 48" for n :: nat
  by simp

lemma nat_digits_inj: "nat_digits m = nat_digits n \<Longrightarrow> m = n"
proof (induction m arbitrary: n rule: nat_digits.induct)
  case (1 m)
  have ne: "nat_digits k \<noteq> []" for k by (subst nat_digits.simps) simp
  have char_inj: "a < 10 \<Longrightarrow> b < 10 \<Longrightarrow> char_of (a + 48) = char_of (b + 48) \<Longrightarrow> a = b" for a b :: nat
    by (metis add_right_imp_eq digits_char)
  show ?case
  proof (cases "m < 10"; cases "n < 10")
    assume "m < 10" "n < 10"
    with 1(2) char_inj show ?thesis by (simp add: nat_digits.simps)
  next
    assume h: "m < 10" "\<not> n < 10"
    with 1(2) ne [of "n div 10"] show ?thesis by (simp add: nat_digits.simps [of m] nat_digits.simps [of n])
  next
    assume h: "\<not> m < 10" "n < 10"
    with 1(2) ne [of "m div 10"] show ?thesis by (simp add: nat_digits.simps [of m] nat_digits.simps [of n])
  next
    assume h: "\<not> m < 10" "\<not> n < 10"
    then have "nat_digits (m div 10) = nat_digits (n div 10)"
      and "char_of (m mod 10 + 48) = (char_of (n mod 10 + 48) :: char)"
      using 1(2) by (simp_all add: nat_digits.simps [of m] nat_digits.simps [of n])
    with 1(1) [OF h(1)] char_inj [of "m mod 10" "n mod 10"] have "m div 10 = n div 10" "m mod 10 = n mod 10"
      by simp_all
    then show ?thesis by (metis div_mult_mod_eq)
  qed
qed

text \<open>The file has a tensor of this name and shape, in the directory and in the metadata context.\<close>

definition has_tensor :: "gguf_file \<Rightarrow> string \<Rightarrow> int list \<Rightarrow> bool" where
  "has_tensor f name s \<longleftrightarrow>
     (\<exists>e ne. gf_tensor f name = Some e \<and> gf_meta f name = Some ne \<and> map ((!) ne) [0, 1, 2, 3] = s)"

definition tensor_at :: "gguf_file \<Rightarrow> string \<Rightarrow> tensor_ref" where
  "tensor_at f name = make_ref (the (gf_tensor f name)) (the (gf_meta f name))"

lemma require_tensor_iff:
  "require_tensor f name = Inr r \<longleftrightarrow> gf_tensor f name \<noteq> None \<and> gf_meta f name \<noteq> None \<and> r = tensor_at f name"
  by (auto simp: require_tensor_def tensor_at_def split: option.splits)

lemma validate_2d_iff: "validate_shape_2d r a b n = Inr u \<longleftrightarrow> map ((!) (tr_ne r)) [0, 1, 2, 3] = [a, b, 1, 1]"
  by (auto simp: validate_shape_2d_def)

lemma validate_1d_iff: "validate_shape_1d r a n = Inr u \<longleftrightarrow> map ((!) (tr_ne r)) [0, 1, 2, 3] = [a, 1, 1, 1]"
  by (auto simp: validate_shape_1d_def)

lemma has_tensor_iff:
  "has_tensor f name s \<longleftrightarrow> gf_tensor f name \<noteq> None \<and> gf_meta f name \<noteq> None
     \<and> map ((!) (tr_ne (tensor_at f name))) [0, 1, 2, 3] = s"
  by (auto simp: has_tensor_def tensor_at_def make_ref_def)

lemma require_tensors_iff:
  "mapE (\<lambda>x. require_tensor f (nm x)) xs = Inr rs \<longleftrightarrow>
   (\<forall>x\<in>set xs. gf_tensor f (nm x) \<noteq> None \<and> gf_meta f (nm x) \<noteq> None) \<and> rs = map (\<lambda>x. tensor_at f (nm x)) xs"
proof (induction xs arbitrary: rs)
  case (Cons x xs)
  show ?case unfolding mapE.simps bindE_Inr_iff Cons.IH require_tensor_iff by auto
qed auto

text \<open>A tensor that is looked up and checked before the rest of a scan goes on.\<close>

lemma require_2d_then:
  "bindE (require_tensor f n) (\<lambda>t. bindE (validate_shape_2d t r c n) (\<lambda>_. k t)) = Inr m \<longleftrightarrow>
   has_tensor f n [r, c, 1, 1] \<and> k (tensor_at f n) = Inr m"
  unfolding bindE_Inr_iff require_tensor_iff validate_2d_iff has_tensor_iff by auto

lemma require_1d_then:
  "bindE (require_tensor f n) (\<lambda>t. bindE (validate_shape_1d t r n) (\<lambda>_. k t)) = Inr m \<longleftrightarrow>
   has_tensor f n [r, 1, 1, 1] \<and> k (tensor_at f n) = Inr m"
  unfolding bindE_Inr_iff require_tensor_iff validate_1d_iff has_tensor_iff by auto

end
