(* ===== verification/ModelArch.thy ===== *)
theory ModelArch
  imports Forward Gguf Partition
begin

text \<open>
  The contract between model families and the runners (\<open>src/arch/model_arch.h\<close>): the common
  hyperparameters, the graph inputs, the slot table a streaming unit builds through, the units
  and plans a family declares, and the locale \<open>streamed_family\<close> with what the runner relies on.
\<close>

subsection \<open>Hyperparameters, inputs\<close>

record arch_params =
  ap_name :: string
  ap_n_layer :: int
  ap_n_embed :: int
  ap_n_head :: int
  ap_n_ff :: int
  ap_n_vocab :: int
  ap_max_seq_len :: int
  ap_norm_eps :: f32
  ap_head_dim :: int
  ap_n_head_kv :: int
  ap_rope_freq_base :: f32
  ap_causal :: bool

record 't graph_inputs =
  gi_token_ids :: "'t option"
  gi_learned_pos_ids :: "'t option"
  gi_rope_pos_ids :: "'t option"
  gi_type_ids :: "'t option"
  gi_kq_mask :: "'t option"
  gi_seq_lengths :: "int list option"
  gi_seq_offsets :: "int list option"
  gi_n_seq :: int

definition no_graph_inputs :: "'t graph_inputs" where
  "no_graph_inputs = \<lparr>gi_token_ids = None, gi_learned_pos_ids = None, gi_rope_pos_ids = None,
     gi_type_ids = None, gi_kq_mask = None, gi_seq_lengths = None, gi_seq_offsets = None, gi_n_seq = 0\<rparr>"

record input_requirements =
  needs_learned_pos_ids :: bool
  needs_rope_pos_ids :: bool
  needs_type_ids :: bool
  uses_kq_mask :: bool
  consumes_seq_lengths :: bool
  consumes_packed_batch :: bool

definition no_requirements :: input_requirements where
  "no_requirements = \<lparr>needs_learned_pos_ids = False, needs_rope_pos_ids = False, needs_type_ids = False,
     uses_kq_mask = False, consumes_seq_lengths = False, consumes_packed_batch = False\<rparr>"

subsection \<open>\<open>SlotTable\<close>\<close>

datatype arch_error =
    UndeclaredInput
  | UndeclaredOutput
  | NullOutput
  | OutputWrittenTwice
  | ForwardFailed forward_error
  | MissingGraphInput
  | LayerOutOfRange
  | MissingWeight string
  | SlotNotBuilt string
  | OutputNotProduced string

record 't slot_table =
  st_inputs :: "'t list"
  st_outputs :: "'t option list"
  st_graph_in :: "'t graph_inputs"

definition slot_in :: "nat \<Rightarrow> 't slot_table \<Rightarrow> arch_error + 't" where
  "slot_in index s = (if index \<ge> length (st_inputs s) then Inl UndeclaredInput else Inr (st_inputs s ! index))"

definition slot_out :: "nat \<Rightarrow> 't option \<Rightarrow> 't slot_table \<Rightarrow> arch_error + 't slot_table" where
  "slot_out index value s =
     (if index \<ge> length (st_outputs s) then Inl UndeclaredOutput
      else if value = None then Inl NullOutput
      else if st_outputs s ! index \<noteq> None then Inl OutputWrittenTwice
      else Inr (s\<lparr>st_outputs := (st_outputs s)[index := value]\<rparr>))"

text \<open>A call of a graph builder that may raise.\<close>

definition forwardE :: "forward_error + 'a \<Rightarrow> arch_error + 'a" where
  "forwardE r = map_sum ForwardFailed (\<lambda>x. x) r"

lemma forwardE_simps [simp]: "forwardE (Inr x) = Inr x" "forwardE (Inl e) = Inl (ForwardFailed e)"
  by (simp_all add: forwardE_def)

subsection \<open>Streaming units and plans\<close>

record 't streaming_unit =
  su_name :: string
  su_weights :: "string list"
  su_inputs :: "string list"
  su_outputs :: "string list"
  su_graph_inputs :: input_requirements
  su_stage :: streaming_stage
  su_build :: "'t slot_table \<Rightarrow> arch_error + 't slot_table"

record 't layer_plan =
  lp_units :: "'t streaming_unit list"
  lp_input_slot :: string
  lp_output_slot :: string

record common_plan =
  cp_token_embedding :: string
  cp_common :: "string list"

text \<open>Helpers both families use: a bound weight, the name prefix of a block, and the lambda \<open>unit\<close>.\<close>

definition weight_of :: "(string \<Rightarrow> 't option) \<Rightarrow> string \<Rightarrow> arch_error + 't" where
  "weight_of model_ctx name = (case model_ctx name of None \<Rightarrow> Inl (MissingWeight name) | Some t \<Rightarrow> Inr t)"

definition block_prefix :: "int \<Rightarrow> string" where
  "block_prefix li = ''blk.'' @ int_digits li @ ''.''"

definition plain_unit ::
  "string \<Rightarrow> string list \<Rightarrow> string list \<Rightarrow> string list \<Rightarrow> streaming_stage
   \<Rightarrow> ('t slot_table \<Rightarrow> arch_error + 't slot_table) \<Rightarrow> 't streaming_unit" where
  "plain_unit name weights inputs outputs stage build = \<lparr>su_name = name, su_weights = weights,
     su_inputs = inputs, su_outputs = outputs, su_graph_inputs = no_requirements, su_stage = stage,
     su_build = build\<rparr>"

text \<open>
  Running a unit: its builder gets the values of the declared inputs and a table of empty
  outputs, and every declared output must have been written.
\<close>

definition call_unit :: "'t streaming_unit \<Rightarrow> 't graph_inputs \<Rightarrow> 't list \<Rightarrow> arch_error + 't list" where
  "call_unit u gi vs =
     bindE (su_build u \<lparr>st_inputs = vs, st_outputs = replicate (length (su_outputs u)) None, st_graph_in = gi\<rparr>) (\<lambda>s.
       if None \<in> set (st_outputs s) then Inl (OutputNotProduced (su_name u))
       else Inr (map the (st_outputs s)))"

lemmas slot_table_defs = call_unit_def slot_in_def slot_out_def

subsection \<open>Units over named slots\<close>

type_synonym 't slot_env = "string \<Rightarrow> 't option"

fun bind_outputs :: "string list \<Rightarrow> 't list \<Rightarrow> 't slot_env \<Rightarrow> 't slot_env" where
  "bind_outputs (n # ns) (v # vs) env = bind_outputs ns vs (env(n \<mapsto> v))"
| "bind_outputs ns vs env = env"

definition apply_unit :: "'t graph_inputs \<Rightarrow> 't streaming_unit \<Rightarrow> 't slot_env \<Rightarrow> arch_error + 't slot_env" where
  "apply_unit gi u env =
     bindE (mapE (\<lambda>n. case env n of None \<Rightarrow> Inl (SlotNotBuilt (su_name u)) | Some v \<Rightarrow> Inr v) (su_inputs u)) (\<lambda>vs.
     bindE (call_unit u gi vs) (\<lambda>outs. Inr (bind_outputs (su_outputs u) outs env)))"

definition apply_units :: "'t graph_inputs \<Rightarrow> 't streaming_unit list \<Rightarrow> 't slot_env \<Rightarrow> arch_error + 't slot_env" where
  "apply_units gi us = foldE (apply_unit gi) us"

lemma apply_units_simps [simp]:
  "apply_units gi [] env = Inr env"
  "apply_units gi (u # us) env = bindE (apply_unit gi u env) (apply_units gi us)"
  by (simp_all add: apply_units_def)

text \<open>No unit is idle: each writes a slot that a later unit reads, or the layer's output.\<close>

fun no_idle :: "'t streaming_unit list \<Rightarrow> string \<Rightarrow> bool" where
  "no_idle [] out \<longleftrightarrow> True"
| "no_idle (u # us) out \<longleftrightarrow>
     (\<exists>s\<in>set (su_outputs u). s = out \<or> (\<exists>k\<in>set us. s \<in> set (su_inputs k))) \<and> no_idle us out"

text \<open>Two graph inputs that agree on everything a unit declares to read.\<close>

definition agree_on :: "input_requirements \<Rightarrow> 't graph_inputs \<Rightarrow> 't graph_inputs \<Rightarrow> bool" where
  "agree_on r a b \<longleftrightarrow>
     (needs_learned_pos_ids r \<longrightarrow> gi_learned_pos_ids a = gi_learned_pos_ids b)
   \<and> (needs_rope_pos_ids r \<longrightarrow> gi_rope_pos_ids a = gi_rope_pos_ids b)
   \<and> (needs_type_ids r \<longrightarrow> gi_type_ids a = gi_type_ids b)
   \<and> (uses_kq_mask r \<longrightarrow> gi_kq_mask a = gi_kq_mask b)
   \<and> (consumes_seq_lengths r \<longrightarrow> gi_seq_lengths a = gi_seq_lengths b)
   \<and> (consumes_packed_batch r \<longrightarrow> gi_seq_offsets a = gi_seq_offsets b \<and> gi_n_seq a = gi_n_seq b)"

subsection \<open>The interface of a streamed family\<close>

text \<open>
  What the streaming runner relies on: every layer has a plan over the residual slot \<open>x\<close> in
  which no unit is idle, no weight is named twice, a unit reads no graph input it does not
  declare, and running the units in order computes the layer's eager block.
\<close>

definition plan_ok :: "'t streaming_unit list \<Rightarrow> bool" where
  "plan_ok us \<longleftrightarrow> us \<noteq> [] \<and> no_idle us ''x'' \<and> distinct (concat (map su_weights us))
     \<and> (\<forall>u\<in>set us. su_outputs u \<noteq> [] \<and> distinct (su_outputs u)
          \<and> (\<forall>gi gi' vs. agree_on (su_graph_inputs u) gi gi' \<longrightarrow> call_unit u gi vs = call_unit u gi' vs))"

locale streamed_family =
  fixes units :: "'m \<Rightarrow> int \<Rightarrow> arch_error + 't layer_plan"
    and block :: "'m \<Rightarrow> 't graph_inputs \<Rightarrow> int \<Rightarrow> 't \<Rightarrow> arch_error + 't"
    and layers :: "'m \<Rightarrow> int"
  assumes units_outside: "l < 0 \<or> layers m \<le> l \<Longrightarrow> units m l = Inl LayerOutOfRange"
    and units_inside: "0 \<le> l \<Longrightarrow> l < layers m \<Longrightarrow>
      \<exists>us. units m l = Inr \<lparr>lp_units = us, lp_input_slot = ''x'', lp_output_slot = ''x''\<rparr> \<and> plan_ok us"
    and units_block: "0 \<le> l \<Longrightarrow> l < layers m \<Longrightarrow> units m l = Inr plan \<Longrightarrow> env ''x'' = Some x \<Longrightarrow>
      (case block m gi l x of
         Inl e \<Rightarrow> \<exists>e'. apply_units gi (lp_units plan) env = Inl e'
       | Inr y \<Rightarrow> \<exists>env'. apply_units gi (lp_units plan) env = Inr env' \<and> env' ''x'' = Some y)"
begin

text \<open>The eager stack and the stack run unit by unit, layer after layer.\<close>

definition eager_layers :: "'m \<Rightarrow> 't graph_inputs \<Rightarrow> int list \<Rightarrow> 't \<Rightarrow> arch_error + 't" where
  "eager_layers m gi = foldE (block m gi)"

definition streamed_layer :: "'m \<Rightarrow> 't graph_inputs \<Rightarrow> int \<Rightarrow> 't slot_env \<Rightarrow> arch_error + 't slot_env" where
  "streamed_layer m gi l env = bindE (units m l) (\<lambda>plan. apply_units gi (lp_units plan) env)"

lemma streamed_layers_compute:
  assumes "\<forall>l\<in>set ls. 0 \<le> l \<and> l < layers m" and "env ''x'' = Some x"
    and "eager_layers m gi ls x = Inr y"
  shows "\<exists>env'. foldE (streamed_layer m gi) ls env = Inr env' \<and> env' ''x'' = Some y"
  using assms
proof (induction ls arbitrary: env x)
  case (Cons l ls)
  then obtain v where v: "block m gi l x = Inr v" "eager_layers m gi ls v = Inr y"
    by (auto simp: eager_layers_def throwing)
  obtain us where us: "units m l = Inr \<lparr>lp_units = us, lp_input_slot = ''x'', lp_output_slot = ''x''\<rparr>"
    using units_inside [of l m] Cons.prems(1) by auto
  obtain env1 where "apply_units gi us env = Inr env1" "env1 ''x'' = Some v"
    using units_block [where env = env and l = l and gi = gi, OF _ _ us Cons.prems(2)] Cons.prems(1) v(1) by auto
  with Cons.IH [OF _ _ v(2), of env1] Cons.prems(1) us show ?case by (simp add: streamed_layer_def)
qed (simp add: eager_layers_def)

end

end
