(* ===== verification/BertArch.thy ===== *)
theory BertArch
  imports ModelArch
begin

text \<open>
  The BERT family: the scanner that validates a file (\<open>src/gguf_scanner.cpp\<close>), the bound
  weights, the eager graph and the streaming units of a layer (\<open>src/arch/bert_arch.cpp\<close>).
\<close>

subsection \<open>The manifest\<close>

record layer_slot =
  ls_attn_q_w :: tensor_ref
  ls_attn_q_b :: tensor_ref
  ls_attn_k_w :: tensor_ref
  ls_attn_k_b :: tensor_ref
  ls_attn_v_w :: tensor_ref
  ls_attn_v_b :: tensor_ref
  ls_attn_o_w :: tensor_ref
  ls_attn_o_b :: tensor_ref
  ls_attn_norm_w :: tensor_ref
  ls_attn_norm_b :: tensor_ref
  ls_ffn_up_w :: tensor_ref
  ls_ffn_up_b :: tensor_ref
  ls_ffn_down_w :: tensor_ref
  ls_ffn_down_b :: tensor_ref
  ls_ffn_norm_w :: tensor_ref
  ls_ffn_norm_b :: tensor_ref

record bert_arch =
  ba_n_layer :: int
  ba_n_embed :: int
  ba_n_head :: int
  ba_n_ff :: int
  ba_n_vocab :: int
  ba_max_seq_len :: int
  ba_layer_norm_eps :: f32
  ba_pooling_type :: int

record model_manifest =
  mm_arch :: bert_arch
  mm_layers :: "layer_slot list"
  mm_tok_embed_w :: tensor_ref
  mm_pos_embed_w :: tensor_ref
  mm_type_embed_w :: tensor_ref
  mm_embed_norm_w :: tensor_ref
  mm_embed_norm_b :: tensor_ref
  mm_pooler_w :: tensor_ref
  mm_pooler_b :: tensor_ref

subsection \<open>\<open>scan_bert\<close>\<close>

definition scan_bert_arch :: "gguf_file \<Rightarrow> scan_error + bert_arch" where
  "scan_bert_arch f =
     bindE (read_str f ''general.architecture'') (\<lambda>arch_name.
     bindE (guardE (arch_name = ''bert'') (UnsupportedArchitecture arch_name)) (\<lambda>_.
     bindE (read_u32_as_int f ''bert.block_count'') (\<lambda>n_layer.
     bindE (read_u32_as_int f ''bert.embedding_length'') (\<lambda>n_embed.
     bindE (read_u32_as_int f ''bert.attention.head_count'') (\<lambda>n_head.
     bindE (read_u32_as_int f ''bert.feed_forward_length'') (\<lambda>n_ff.
     bindE (read_u32_as_int f ''bert.context_length'') (\<lambda>max_seq_len.
     bindE (read_f32_or f ''bert.attention.layer_norm_epsilon'' f32_1e_12) (\<lambda>eps.
     bindE (read_u32_or f ''bert.pooling_type'' 1) (\<lambda>pooling_type.
     bindE (guardE (\<not> (n_layer \<le> 0 \<or> n_embed \<le> 0 \<or> n_head \<le> 0 \<or> n_ff \<le> 0 \<or> max_seq_len \<le> 0))
       NonPositiveHyperparameter) (\<lambda>_.
     bindE (guardE (f32_positive eps \<and> f32_isfinite eps) BadEpsilon) (\<lambda>_.
     bindE (guardE (\<not> (pooling_type < 1 \<or> pooling_type > 3)) (BadPooling pooling_type)) (\<lambda>_.
     bindE (guardE (n_embed mod n_head = 0) HeadsDoNotDivide) (\<lambda>_.
     bindE (scan_vocab_size f) (\<lambda>n_vocab.
     Inr \<lparr>ba_n_layer = n_layer, ba_n_embed = n_embed, ba_n_head = n_head, ba_n_ff = n_ff,
          ba_n_vocab = n_vocab, ba_max_seq_len = max_seq_len, ba_layer_norm_eps = eps,
          ba_pooling_type = pooling_type\<rparr>))))))))))))))"

text \<open>The sixteen tensors of a layer, in the order the scanner and the binder name them.\<close>

definition bert_layer_suffixes :: "string list" where
  "bert_layer_suffixes = [''attn_q.weight'', ''attn_q.bias'',
     ''attn_k.weight'', ''attn_k.bias'',
     ''attn_v.weight'', ''attn_v.bias'',
     ''attn_output.weight'', ''attn_output.bias'',
     ''attn_output_norm.weight'', ''attn_output_norm.bias'',
     ''ffn_up.weight'', ''ffn_up.bias'',
     ''ffn_down.weight'', ''ffn_down.bias'',
     ''layer_output_norm.weight'', ''layer_output_norm.bias'']"

definition layer_slot_of :: "tensor_ref list \<Rightarrow> layer_slot" where
  "layer_slot_of refs = \<lparr>ls_attn_q_w = refs ! 0,
     ls_attn_q_b = refs ! 1,
     ls_attn_k_w = refs ! 2,
     ls_attn_k_b = refs ! 3,
     ls_attn_v_w = refs ! 4,
     ls_attn_v_b = refs ! 5,
     ls_attn_o_w = refs ! 6,
     ls_attn_o_b = refs ! 7,
     ls_attn_norm_w = refs ! 8,
     ls_attn_norm_b = refs ! 9,
     ls_ffn_up_w = refs ! 10,
     ls_ffn_up_b = refs ! 11,
     ls_ffn_down_w = refs ! 12,
     ls_ffn_down_b = refs ! 13,
     ls_ffn_norm_w = refs ! 14,
     ls_ffn_norm_b = refs ! 15\<rparr>"

definition bert_layer_checks :: "int \<Rightarrow> int \<Rightarrow> int \<Rightarrow> layer_slot \<Rightarrow> (scan_error + unit) list" where
  "bert_layer_checks H F i s = [
     validate_shape_2d (ls_attn_q_w s) H H (layer_tensor_name i ''attn_q.weight''),
     validate_shape_2d (ls_attn_k_w s) H H (layer_tensor_name i ''attn_k.weight''),
     validate_shape_2d (ls_attn_v_w s) H H (layer_tensor_name i ''attn_v.weight''),
     validate_shape_2d (ls_attn_o_w s) H H (layer_tensor_name i ''attn_output.weight''),
     validate_shape_1d (ls_attn_q_b s) H (layer_tensor_name i ''attn_q.bias''),
     validate_shape_1d (ls_attn_k_b s) H (layer_tensor_name i ''attn_k.bias''),
     validate_shape_1d (ls_attn_v_b s) H (layer_tensor_name i ''attn_v.bias''),
     validate_shape_1d (ls_attn_o_b s) H (layer_tensor_name i ''attn_output.bias''),
     validate_shape_1d (ls_attn_norm_w s) H (layer_tensor_name i ''attn_output_norm.weight''),
     validate_shape_1d (ls_attn_norm_b s) H (layer_tensor_name i ''attn_output_norm.bias''),
     validate_shape_2d (ls_ffn_up_w s) H F (layer_tensor_name i ''ffn_up.weight''),
     validate_shape_1d (ls_ffn_up_b s) F (layer_tensor_name i ''ffn_up.bias''),
     validate_shape_2d (ls_ffn_down_w s) F H (layer_tensor_name i ''ffn_down.weight''),
     validate_shape_1d (ls_ffn_down_b s) H (layer_tensor_name i ''ffn_down.bias''),
     validate_shape_1d (ls_ffn_norm_w s) H (layer_tensor_name i ''layer_output_norm.weight''),
     validate_shape_1d (ls_ffn_norm_b s) H (layer_tensor_name i ''layer_output_norm.bias'')]"

definition scan_bert_layer :: "gguf_file \<Rightarrow> int \<Rightarrow> int \<Rightarrow> int \<Rightarrow> scan_error + layer_slot" where
  "scan_bert_layer f H F i =
     bindE (mapE (\<lambda>suffix. require_tensor f (layer_tensor_name i suffix)) bert_layer_suffixes) (\<lambda>refs.
     bindE (mapE (\<lambda>check. check) (bert_layer_checks H F i (layer_slot_of refs))) (\<lambda>_.
     Inr (layer_slot_of refs)))"

text \<open>The optional pooler: when its weight is present the bias is required too.\<close>

definition scan_pooler :: "gguf_file \<Rightarrow> scan_error + tensor_ref \<times> tensor_ref" where
  "scan_pooler f =
     (if gf_tensor f ''pooler.dense.weight'' \<noteq> None then
        bindE (require_tensor f ''pooler.dense.weight'') (\<lambda>w.
        bindE (require_tensor f ''pooler.dense.bias'') (\<lambda>b. Inr (w, b)))
      else Inr (empty_ref, empty_ref))"

definition scan_bert :: "gguf_file \<Rightarrow> scan_error + model_manifest" where
  "scan_bert f =
     bindE (scan_bert_arch f) (\<lambda>a.
     let H = ba_n_embed a; F = ba_n_ff a; V = ba_n_vocab a; S = ba_max_seq_len a in
     bindE (require_tensor f ''token_embd.weight'') (\<lambda>tok.
     bindE (validate_shape_2d tok H V ''token_embd.weight'') (\<lambda>_.
     bindE (require_tensor f ''position_embd.weight'') (\<lambda>pos.
     bindE (validate_shape_2d pos H S ''position_embd.weight'') (\<lambda>_.
     bindE (require_tensor f ''token_types.weight'') (\<lambda>typ.
     bindE (guardE (\<not> (tr_ne typ ! 0 \<noteq> H \<or> tr_ne typ ! 1 < 1)) (ShapeMismatch ''token_types.weight'')) (\<lambda>_.
     bindE (require_tensor f ''token_embd_norm.weight'') (\<lambda>norm_w.
     bindE (validate_shape_1d norm_w H ''token_embd_norm.weight'') (\<lambda>_.
     bindE (require_tensor f ''token_embd_norm.bias'') (\<lambda>norm_b.
     bindE (validate_shape_1d norm_b H ''token_embd_norm.bias'') (\<lambda>_.
     bindE (scan_pooler f) (\<lambda>(pooler_w, pooler_b).
     bindE (mapE (\<lambda>i. scan_bert_layer f H F (int i)) [0 ..< nat (ba_n_layer a)]) (\<lambda>layers.
     Inr \<lparr>mm_arch = a, mm_layers = layers, mm_tok_embed_w = tok, mm_pos_embed_w = pos,
          mm_type_embed_w = typ, mm_embed_norm_w = norm_w, mm_embed_norm_b = norm_b,
          mm_pooler_w = pooler_w, mm_pooler_b = pooler_b\<rparr>)))))))))))))"

subsection \<open>\<open>BertModelArch\<close>: parameters and bound weights\<close>

definition bert_params :: "model_manifest \<Rightarrow> arch_params" where
  "bert_params m = (let a = mm_arch m in
     \<lparr>ap_name = ''bert'', ap_n_layer = ba_n_layer a, ap_n_embed = ba_n_embed a, ap_n_head = ba_n_head a,
      ap_n_ff = ba_n_ff a, ap_n_vocab = ba_n_vocab a, ap_max_seq_len = ba_max_seq_len a,
      ap_norm_eps = ba_layer_norm_eps a, ap_head_dim = ba_n_embed a div ba_n_head a,
      ap_n_head_kv = ba_n_head a, ap_rope_freq_base = f32_zero, ap_causal = False\<rparr>)"

definition bert_default_pooling :: "model_manifest \<Rightarrow> pool_type" where
  "bert_default_pooling m = (let v = ba_pooling_type (mm_arch m) in
     if v = 1 then PoolMean else if v = 2 then PoolCls else if v = 3 then PoolLast else PoolMean)"

definition bert_inputs :: input_requirements where
  "bert_inputs = no_requirements\<lparr>needs_learned_pos_ids := True, needs_type_ids := True, uses_kq_mask := True\<rparr>"

definition bert_embedding_inputs :: input_requirements where
  "bert_embedding_inputs = no_requirements\<lparr>needs_learned_pos_ids := True, needs_type_ids := True\<rparr>"

record 't bert_model =
  bm_manifest :: model_manifest
  bm_embed_w :: "'t embed_weights"
  bm_layer_w :: "'t layer_weights list"

definition layer_weights_of :: "'t list \<Rightarrow> 't layer_weights" where
  "layer_weights_of ts = \<lparr>lw_attn = \<lparr>aw_q_w = ts ! 0,
       aw_q_b = ts ! 1,
       aw_k_w = ts ! 2,
       aw_k_b = ts ! 3,
       aw_v_w = ts ! 4,
       aw_v_b = ts ! 5,
       aw_o_w = ts ! 6,
       aw_o_b = ts ! 7,
       aw_norm_w = ts ! 8,
       aw_norm_b = ts ! 9\<rparr>,
     lw_ffn = \<lparr>fw_up_w = ts ! 10,
       fw_up_b = ts ! 11,
       fw_down_w = ts ! 12,
       fw_down_b = ts ! 13,
       fw_norm_w = ts ! 14,
       fw_norm_b = ts ! 15\<rparr>\<rparr>"

definition bind_bert_layer :: "(string \<Rightarrow> 't option) \<Rightarrow> int \<Rightarrow> arch_error + 't layer_weights" where
  "bind_bert_layer model_ctx li =
     bindE (mapE (\<lambda>suffix. weight_of model_ctx (block_prefix li @ suffix)) bert_layer_suffixes) (\<lambda>ts.
     Inr (layer_weights_of ts))"

definition bert_bind_weights :: "model_manifest \<Rightarrow> (string \<Rightarrow> 't option) \<Rightarrow> arch_error + 't bert_model" where
  "bert_bind_weights m model_ctx =
     bindE (weight_of model_ctx ''token_embd.weight'') (\<lambda>tok.
     bindE (weight_of model_ctx ''position_embd.weight'') (\<lambda>pos.
     bindE (weight_of model_ctx ''token_types.weight'') (\<lambda>typ.
     bindE (weight_of model_ctx ''token_embd_norm.weight'') (\<lambda>norm_w.
     bindE (weight_of model_ctx ''token_embd_norm.bias'') (\<lambda>norm_b.
     bindE (mapE (\<lambda>li. bind_bert_layer model_ctx (int li)) [0 ..< nat (ap_n_layer (bert_params m))]) (\<lambda>layers.
     Inr \<lparr>bm_manifest = m,
          bm_embed_w = \<lparr>ew_tok = tok, ew_pos = pos, ew_type = typ, ew_norm_w = norm_w, ew_norm_b = norm_b\<rparr>,
          bm_layer_w = layers\<rparr>))))))"

subsection \<open>The eager graph\<close>

text \<open>The embedding phase reads graph inputs the caller provides for this family.\<close>

definition bert_embedding_phase :: "'t ggml \<Rightarrow> 't bert_model \<Rightarrow> 't graph_inputs \<Rightarrow> arch_error + 't" where
  "bert_embedding_phase g m inp =
     (case (gi_token_ids inp, gi_learned_pos_ids inp, gi_type_ids inp) of
        (Some token_ids, Some learned_pos_ids, Some type_ids) \<Rightarrow>
          Inr (build_embed_layer g token_ids learned_pos_ids type_ids (bm_embed_w m)
                 (ap_norm_eps (bert_params (bm_manifest m))))
      | _ \<Rightarrow> Inl MissingGraphInput)"

definition bert_block :: "'t ggml \<Rightarrow> 't bert_model \<Rightarrow> 't graph_inputs \<Rightarrow> int \<Rightarrow> 't \<Rightarrow> arch_error + 't" where
  "bert_block g m inp li x =
     Inr (build_encoder_block g x (gi_kq_mask inp) (ap_n_head (bert_params (bm_manifest m)))
            (bm_layer_w m ! nat li) (ap_norm_eps (bert_params (bm_manifest m))))"

definition bert_final_phase :: "'t ggml \<Rightarrow> 't bert_model \<Rightarrow> 't \<Rightarrow> 't" where
  "bert_final_phase g m x = x"

definition bert_build_graph :: "'t ggml \<Rightarrow> 't bert_model \<Rightarrow> 't graph_inputs \<Rightarrow> arch_error + 't" where
  "bert_build_graph g m inp =
     bindE (bert_embedding_phase g m inp) (\<lambda>x.
     bindE (foldE (\<lambda>li. bert_block g m inp (int li)) [0 ..< nat (ap_n_layer (bert_params (bm_manifest m)))] x) (\<lambda>x.
     Inr (bert_final_phase g m x)))"

subsection \<open>The streaming units\<close>

definition bert_common_plan :: common_plan where
  "bert_common_plan = \<lparr>cp_token_embedding = ''token_embd.weight'',
     cp_common = [''position_embd.weight'', ''token_types.weight'', ''token_embd_norm.weight'',
       ''token_embd_norm.bias'']\<rparr>"

definition bert_attn_qkv :: "'t ggml \<Rightarrow> 't bert_model \<Rightarrow> int \<Rightarrow> 't streaming_unit" where
  "bert_attn_qkv g m layer = (let p = block_prefix layer; w = bm_layer_w m ! nat layer in
     plain_unit ''attn_qkv''
       [p @ ''attn_q.weight'', p @ ''attn_q.bias'', p @ ''attn_k.weight'', p @ ''attn_k.bias'', p @ ''attn_v.weight'', p @ ''attn_v.bias'']
       [''x''] [''q'', ''k'', ''v''] StageAttention
       (\<lambda>s. bindE (slot_in 0 s) (\<lambda>x.
          let proj = build_attention_projections g x (lw_attn w) in
          bindE (slot_out 0 (Some (proj_q proj)) s) (\<lambda>s.
          bindE (slot_out 1 (Some (proj_k proj)) s) (\<lambda>s.
          slot_out 2 (Some (proj_v proj)) s)))))"

definition bert_attn_out :: "'t ggml \<Rightarrow> 't bert_model \<Rightarrow> int \<Rightarrow> 't streaming_unit" where
  "bert_attn_out g m layer =
     (let p = block_prefix layer; w = bm_layer_w m ! nat layer;
          eps = ap_norm_eps (bert_params (bm_manifest m)); n_head = ap_n_head (bert_params (bm_manifest m)) in
     \<lparr>su_name = ''attn_out'',
      su_weights = [p @ ''attn_output.weight'', p @ ''attn_output.bias'', p @ ''attn_output_norm.weight'', p @ ''attn_output_norm.bias''],
      su_inputs = [''q'', ''k'', ''v'', ''x''],
      su_outputs = [''xa''],
      su_graph_inputs = no_requirements\<lparr>uses_kq_mask := True\<rparr>,
      su_stage = StageAttention,
      su_build = (\<lambda>s.
        bindE (slot_in 0 s) (\<lambda>q. bindE (slot_in 1 s) (\<lambda>k. bindE (slot_in 2 s) (\<lambda>v. bindE (slot_in 3 s) (\<lambda>x.
          slot_out 0 (Some (build_attention_output g \<lparr>proj_q = q, proj_k = k, proj_v = v\<rparr> x
            (gi_kq_mask (st_graph_in s)) n_head (lw_attn w) eps)) s)))))\<rparr>)"

definition bert_ffn_up :: "'t ggml \<Rightarrow> 't bert_model \<Rightarrow> int \<Rightarrow> 't streaming_unit" where
  "bert_ffn_up g m layer = (let p = block_prefix layer; w = bm_layer_w m ! nat layer in
     plain_unit ''ffn_up'' [p @ ''ffn_up.weight'', p @ ''ffn_up.bias''] [''xa''] [''fh''] StageFfn
       (\<lambda>s. bindE (slot_in 0 s) (\<lambda>xa. slot_out 0 (Some (build_ffn_up g xa (lw_ffn w))) s)))"

definition bert_ffn_down :: "'t ggml \<Rightarrow> 't bert_model \<Rightarrow> int \<Rightarrow> 't streaming_unit" where
  "bert_ffn_down g m layer =
     (let p = block_prefix layer; w = bm_layer_w m ! nat layer;
          eps = ap_norm_eps (bert_params (bm_manifest m)) in
     plain_unit ''ffn_down''
       [p @ ''ffn_down.weight'', p @ ''ffn_down.bias'', p @ ''layer_output_norm.weight'', p @ ''layer_output_norm.bias'']
       [''fh'', ''xa''] [''x''] StageFfn
       (\<lambda>s. bindE (slot_in 0 s) (\<lambda>fh. bindE (slot_in 1 s) (\<lambda>xa.
          slot_out 0 (Some (build_ffn_down g fh xa (lw_ffn w) eps)) s))))"

definition bert_streaming_units :: "'t ggml \<Rightarrow> 't bert_model \<Rightarrow> int \<Rightarrow> arch_error + 't layer_plan" where
  "bert_streaming_units g m layer =
     (if layer < 0 \<or> layer \<ge> ap_n_layer (bert_params (bm_manifest m)) then Inl LayerOutOfRange
      else Inr \<lparr>lp_units = [bert_attn_qkv g m layer, bert_attn_out g m layer, bert_ffn_up g m layer,
                  bert_ffn_down g m layer],
                lp_input_slot = ''x'', lp_output_slot = ''x''\<rparr>)"

subsection \<open>The interface of a streamed family\<close>

lemmas bert_unit_defs = bert_attn_qkv_def bert_attn_out_def bert_ffn_up_def bert_ffn_down_def
  plain_unit_def Let_def

lemma bert_plan_ok:
  "plan_ok [bert_attn_qkv g m l, bert_attn_out g m l, bert_ffn_up g m l, bert_ffn_down g m l]"
  unfolding plan_ok_def
  by (auto simp: bert_unit_defs call_unit_def slot_in_def slot_out_def agree_on_def throwing)

lemma bert_units_block:
  assumes "env ''x'' = Some x"
  shows "\<exists>env'. apply_units gi [bert_attn_qkv g m l, bert_attn_out g m l, bert_ffn_up g m l, bert_ffn_down g m l] env
      = Inr env' \<and> bert_block g m gi l x = Inr (the (env' ''x'')) \<and> env' ''x'' \<noteq> None"
  using assms by (simp add: apply_unit_def bert_unit_defs slot_table_defs bert_block_def
    build_encoder_block_def build_attention_block_def build_ffn_block_def numeral_eq_Suc)

text \<open>The facts of \<open>streamed_family\<close> hold for BERT, whatever the tensor library does.\<close>

interpretation bert: streamed_family "bert_streaming_units g" "bert_block g"
  "\<lambda>m. ap_n_layer (bert_params (bm_manifest m))" for g
proof
  fix m :: "'a bert_model" and l gi plan env and x :: 'a
  assume "bert_streaming_units g m l = Inr plan" and "env ''x'' = Some x"
  then show "case bert_block g m gi l x of
      Inl e \<Rightarrow> \<exists>e'. apply_units gi (lp_units plan) env = Inl e'
    | Inr y \<Rightarrow> \<exists>env'. apply_units gi (lp_units plan) env = Inr env' \<and> env' ''x'' = Some y"
    using bert_units_block [of env x gi g m l]
    by (auto simp: bert_streaming_units_def split: if_splits)
qed (auto simp: bert_streaming_units_def bert_plan_ok)

subsection \<open>What the scanner accepts\<close>

definition bert_layer_shape_table :: "int \<Rightarrow> int \<Rightarrow> (string \<times> int list) list" where
  "bert_layer_shape_table H F = [
     (''attn_q.weight'', [H, H, 1, 1]),
     (''attn_q.bias'', [H, 1, 1, 1]),
     (''attn_k.weight'', [H, H, 1, 1]),
     (''attn_k.bias'', [H, 1, 1, 1]),
     (''attn_v.weight'', [H, H, 1, 1]),
     (''attn_v.bias'', [H, 1, 1, 1]),
     (''attn_output.weight'', [H, H, 1, 1]),
     (''attn_output.bias'', [H, 1, 1, 1]),
     (''attn_output_norm.weight'', [H, 1, 1, 1]),
     (''attn_output_norm.bias'', [H, 1, 1, 1]),
     (''ffn_up.weight'', [H, F, 1, 1]),
     (''ffn_up.bias'', [F, 1, 1, 1]),
     (''ffn_down.weight'', [F, H, 1, 1]),
     (''ffn_down.bias'', [H, 1, 1, 1]),
     (''layer_output_norm.weight'', [H, 1, 1, 1]),
     (''layer_output_norm.bias'', [H, 1, 1, 1])]"

definition bert_required :: "bert_arch \<Rightarrow> (string \<times> int list) list" where
  "bert_required a =
     (let H = ba_n_embed a; F = ba_n_ff a in
      [(''token_embd.weight'', [H, ba_n_vocab a, 1, 1]), (''position_embd.weight'', [H, ba_max_seq_len a, 1, 1]),
       (''token_embd_norm.weight'', [H, 1, 1, 1]), (''token_embd_norm.bias'', [H, 1, 1, 1])]
      @ concat (map (\<lambda>i. map (\<lambda>(suffix, s). (layer_tensor_name (int i) suffix, s)) (bert_layer_shape_table H F))
          [0 ..< nat (ba_n_layer a)]))"

definition pooler_ok :: "gguf_file \<Rightarrow> bool" where
  "pooler_ok f \<longleftrightarrow> (gf_tensor f ''pooler.dense.weight'' \<noteq> None \<longrightarrow>
     (\<exists>s t. has_tensor f ''pooler.dense.weight'' s \<and> has_tensor f ''pooler.dense.bias'' t))"

text \<open>
  The metadata of a BERT file, key by key: the architecture, five sizes, the epsilon of the
  normalisation (absent: 1e-12), the pooling type (absent: 1), and the vocabulary.
\<close>

definition bert_declares :: "gguf_file \<Rightarrow> bert_arch \<Rightarrow> bool" where
  "bert_declares f a \<longleftrightarrow> gf_kv f ''general.architecture'' = Some (KvString ''bert'')
     \<and> key_u32 f ''bert.block_count'' (ba_n_layer a)
     \<and> key_u32 f ''bert.embedding_length'' (ba_n_embed a)
     \<and> key_u32 f ''bert.attention.head_count'' (ba_n_head a)
     \<and> key_u32 f ''bert.feed_forward_length'' (ba_n_ff a)
     \<and> key_u32 f ''bert.context_length'' (ba_max_seq_len a)
     \<and> key_f32_or f ''bert.attention.layer_norm_epsilon'' f32_1e_12 (ba_layer_norm_eps a)
     \<and> key_u32_or f ''bert.pooling_type'' 1 (ba_pooling_type a)
     \<and> token_count f (ba_n_vocab a)"

text \<open>The values that are allowed.\<close>

definition bert_in_range :: "bert_arch \<Rightarrow> bool" where
  "bert_in_range a \<longleftrightarrow>
     (\<forall>n\<in>{ba_n_layer a, ba_n_embed a, ba_n_head a, ba_n_ff a, ba_n_vocab a, ba_max_seq_len a}.
        0 < n \<and> n \<le> int INT32_MAX)
   \<and> ba_n_head a dvd ba_n_embed a \<and> f32_positive (ba_layer_norm_eps a) \<and> f32_isfinite (ba_layer_norm_eps a)
   \<and> 1 \<le> ba_pooling_type a \<and> ba_pooling_type a \<le> 3"

lemma scan_bert_arch_iff: "scan_bert_arch f = Inr a \<longleftrightarrow> bert_declares f a \<and> bert_in_range a"
proof
  assume "scan_bert_arch f = Inr a"
  then show "bert_declares f a \<and> bert_in_range a"
    unfolding scan_bert_arch_def bindE_Inr_iff guardE_Inr_iff metadata_keys bert_declares_def bert_in_range_def
    unfolding sum.inject by clarify (simp add: key_u32_max)
next
  assume "bert_declares f a \<and> bert_in_range a"
  then show "scan_bert_arch f = Inr a"
    unfolding scan_bert_arch_def bindE_Inr_iff guardE_Inr_iff metadata_keys bert_declares_def bert_in_range_def
    by (cases a) auto
qed

lemma scan_bert_layer_iff:
  "scan_bert_layer f H F i = Inr s \<longleftrightarrow>
     (\<forall>(suffix, sh)\<in>set (bert_layer_shape_table H F). has_tensor f (layer_tensor_name i suffix) sh)
   \<and> s = layer_slot_of (map (\<lambda>suffix. tensor_at f (layer_tensor_name i suffix)) bert_layer_suffixes)"
proof -
  let ?at = "\<lambda>suffix. tensor_at f (layer_tensor_name i suffix)"
  let ?slot = "layer_slot_of (map ?at bert_layer_suffixes)"
  have "scan_bert_layer f H F i = Inr s \<longleftrightarrow>
      (\<forall>x\<in>set bert_layer_suffixes. gf_tensor f (layer_tensor_name i x) \<noteq> None \<and> gf_meta f (layer_tensor_name i x) \<noteq> None)
    \<and> (\<forall>c\<in>set (bert_layer_checks H F i ?slot). c = Inr ()) \<and> s = ?slot"
    unfolding scan_bert_layer_def bindE_Inr_iff require_tensors_iff mapE_checks by auto
  also have "(\<forall>c\<in>set (bert_layer_checks H F i ?slot). c = Inr ()) \<longleftrightarrow>
      (\<forall>(suffix, sh)\<in>set (bert_layer_shape_table H F). map ((!) (tr_ne (?at suffix))) [0, 1, 2, 3] = sh)"
    unfolding bert_layer_checks_def bert_layer_shape_table_def bert_layer_suffixes_def layer_slot_of_def
    by (simp add: validate_1d_iff validate_2d_iff) blast
  also have "(\<forall>x\<in>set bert_layer_suffixes. gf_tensor f (layer_tensor_name i x) \<noteq> None \<and> gf_meta f (layer_tensor_name i x) \<noteq> None)
      \<longleftrightarrow> (\<forall>(x, sh)\<in>set (bert_layer_shape_table H F).
        gf_tensor f (layer_tensor_name i x) \<noteq> None \<and> gf_meta f (layer_tensor_name i x) \<noteq> None)"
    by (simp add: bert_layer_suffixes_def bert_layer_shape_table_def)
  finally show ?thesis unfolding has_tensor_iff by fast
qed

lemma scan_bert_layers_iff:
  "mapE (\<lambda>i. scan_bert_layer f H F (int i)) xs = Inr ls \<longleftrightarrow>
     (\<forall>i\<in>set xs. \<forall>(suffix, sh)\<in>set (bert_layer_shape_table H F). has_tensor f (layer_tensor_name (int i) suffix) sh)
   \<and> ls = map (\<lambda>i. layer_slot_of (map (\<lambda>suffix. tensor_at f (layer_tensor_name (int i) suffix)) bert_layer_suffixes)) xs"
proof (induction xs arbitrary: ls)
  case (Cons x xs)
  show ?case unfolding mapE.simps bindE_Inr_iff Cons.IH scan_bert_layer_iff by auto
qed auto

text \<open>The manifest of a file whose hyperparameters are \<open>a\<close>: every slot names its tensor.\<close>

definition bert_manifest_of :: "gguf_file \<Rightarrow> bert_arch \<Rightarrow> model_manifest" where
  "bert_manifest_of f a =
     (let pooler = gf_tensor f ''pooler.dense.weight'' \<noteq> None in
     \<lparr>mm_arch = a,
      mm_layers = map (\<lambda>i. layer_slot_of (map (\<lambda>suffix. tensor_at f (layer_tensor_name (int i) suffix))
        bert_layer_suffixes)) [0 ..< nat (ba_n_layer a)],
      mm_tok_embed_w = tensor_at f ''token_embd.weight'', mm_pos_embed_w = tensor_at f ''position_embd.weight'',
      mm_type_embed_w = tensor_at f ''token_types.weight'', mm_embed_norm_w = tensor_at f ''token_embd_norm.weight'',
      mm_embed_norm_b = tensor_at f ''token_embd_norm.bias'',
      mm_pooler_w = (if pooler then tensor_at f ''pooler.dense.weight'' else empty_ref),
      mm_pooler_b = (if pooler then tensor_at f ''pooler.dense.bias'' else empty_ref)\<rparr>)"

definition bert_conforms :: "gguf_file \<Rightarrow> bert_arch \<Rightarrow> bool" where
  "bert_conforms f a \<longleftrightarrow> bert_declares f a \<and> bert_in_range a
     \<and> (\<forall>(name, s)\<in>set (bert_required a). has_tensor f name s)
     \<and> (\<exists>s. has_tensor f ''token_types.weight'' s \<and> s ! 0 = ba_n_embed a \<and> 1 \<le> s ! 1)
     \<and> pooler_ok f"

lemma bert_conforms_iff:
  "bert_conforms f a \<longleftrightarrow> scan_bert_arch f = Inr a
     \<and> (\<forall>(name, s)\<in>set (bert_required a). has_tensor f name s)
     \<and> (\<exists>s. has_tensor f ''token_types.weight'' s \<and> s ! 0 = ba_n_embed a \<and> 1 \<le> s ! 1)
     \<and> pooler_ok f"
  unfolding bert_conforms_def scan_bert_arch_iff by blast

lemma token_types_iff:
  "(\<exists>s. has_tensor f n s \<and> s ! 0 = H \<and> 1 \<le> s ! 1) \<longleftrightarrow>
   gf_tensor f n \<noteq> None \<and> gf_meta f n \<noteq> None \<and> tr_ne (tensor_at f n) ! 0 = H \<and> 1 \<le> tr_ne (tensor_at f n) ! 1"
  by (auto simp: has_tensor_iff)

lemma scan_pooler_iff:
  "scan_pooler f = Inr (w, b) \<longleftrightarrow> pooler_ok f
     \<and> w = (if gf_tensor f ''pooler.dense.weight'' \<noteq> None then tensor_at f ''pooler.dense.weight'' else empty_ref)
     \<and> b = (if gf_tensor f ''pooler.dense.weight'' \<noteq> None then tensor_at f ''pooler.dense.bias'' else empty_ref)"
  unfolding scan_pooler_def pooler_ok_def has_tensor_iff by (auto simp: throwing require_tensor_iff)

lemma bert_required_iff:
  "(\<forall>(name, s)\<in>set (bert_required a). has_tensor f name s) \<longleftrightarrow>
     has_tensor f ''token_embd.weight'' [ba_n_embed a, ba_n_vocab a, 1, 1]
   \<and> has_tensor f ''position_embd.weight'' [ba_n_embed a, ba_max_seq_len a, 1, 1]
   \<and> has_tensor f ''token_embd_norm.weight'' [ba_n_embed a, 1, 1, 1]
   \<and> has_tensor f ''token_embd_norm.bias'' [ba_n_embed a, 1, 1, 1]
   \<and> (\<forall>i\<in>set [0 ..< nat (ba_n_layer a)]. \<forall>(suffix, sh)\<in>set (bert_layer_shape_table (ba_n_embed a) (ba_n_ff a)).
        has_tensor f (layer_tensor_name (int i) suffix) sh)"
  unfolding bert_required_def Let_def by auto

lemma mm_arch_manifest_of [simp]: "mm_arch (bert_manifest_of f a) = a"
  by (simp add: bert_manifest_of_def Let_def)

lemma scan_bert_arch_then:
  assumes "scan_bert_arch f = Inr a"
  shows "scan_bert f = Inr m \<longleftrightarrow> bert_conforms f a \<and> m = bert_manifest_of f a"
proof -
  let ?H = "ba_n_embed a"
  have "scan_bert f = Inr m \<longleftrightarrow>
      has_tensor f ''token_embd.weight'' [?H, ba_n_vocab a, 1, 1]
    \<and> has_tensor f ''position_embd.weight'' [?H, ba_max_seq_len a, 1, 1]
    \<and> (gf_tensor f ''token_types.weight'' \<noteq> None \<and> gf_meta f ''token_types.weight'' \<noteq> None
        \<and> tr_ne (tensor_at f ''token_types.weight'') ! 0 = ?H \<and> 1 \<le> tr_ne (tensor_at f ''token_types.weight'') ! 1)
    \<and> has_tensor f ''token_embd_norm.weight'' [?H, 1, 1, 1] \<and> has_tensor f ''token_embd_norm.bias'' [?H, 1, 1, 1]
    \<and> (\<exists>w b. scan_pooler f = Inr (w, b) \<and>
        (\<exists>ls. mapE (\<lambda>i. scan_bert_layer f ?H (ba_n_ff a) (int i)) [0 ..< nat (ba_n_layer a)] = Inr ls \<and>
        m = \<lparr>mm_arch = a, mm_layers = ls, mm_tok_embed_w = tensor_at f ''token_embd.weight'',
          mm_pos_embed_w = tensor_at f ''position_embd.weight'', mm_type_embed_w = tensor_at f ''token_types.weight'',
          mm_embed_norm_w = tensor_at f ''token_embd_norm.weight'', mm_embed_norm_b = tensor_at f ''token_embd_norm.bias'',
          mm_pooler_w = w, mm_pooler_b = b\<rparr>))"
    unfolding scan_bert_def assms bindE.simps Let_def bindE_Inr_iff require_tensor_iff validate_1d_iff
      validate_2d_iff guardE_Inr_iff has_tensor_iff by (auto simp: not_less bindE_Inr_iff)
  then show ?thesis
    unfolding bert_conforms_iff bert_required_iff token_types_iff scan_pooler_iff scan_bert_layers_iff
      bert_manifest_of_def Let_def assms by blast
qed

lemma scan_bert_iff:
  "scan_bert f = Inr m \<longleftrightarrow> bert_conforms f (mm_arch m) \<and> m = bert_manifest_of f (mm_arch m)"
proof (cases "scan_bert_arch f")
  case (Inl e)
  then show ?thesis by (simp add: scan_bert_def bert_conforms_iff)
next
  case (Inr a)
  show ?thesis unfolding scan_bert_arch_then [OF Inr] using Inr
    by (metis bert_conforms_iff mm_arch_manifest_of sum.inject(2))
qed

text \<open>
  C22: the BERT scanner accepts exactly the files that conform: the metadata name the architecture
  \<open>bert\<close> and give, each under its own key and with its own type, the sizes, the epsilon and the
  pooling type; the sizes are positive ints, the head count divides the hidden size, the epsilon is
  positive and finite, the pooling is one of three; every tensor of the embedding stage and of every
  layer is in the file with the shape the sizes call for; and the pooler is absent or complete. The
  manifest it returns carries those values and refers to exactly those tensors.
\<close>

theorem scan_bert_accepts:
  "(scan_bert f = Inr m \<longleftrightarrow> bert_conforms f (mm_arch m) \<and> m = bert_manifest_of f (mm_arch m))
   \<and> (scan_bert f = Inr m \<longrightarrow> bert_in_range (mm_arch m) \<and> length (mm_layers m) = nat (ba_n_layer (mm_arch m)))"
proof (intro conjI impI)
  show "scan_bert f = Inr m \<longleftrightarrow> bert_conforms f (mm_arch m) \<and> m = bert_manifest_of f (mm_arch m)"
    by (rule scan_bert_iff)
next
  assume "scan_bert f = Inr m"
  then have a: "scan_bert_arch f = Inr (mm_arch m)" and m: "m = bert_manifest_of f (mm_arch m)"
    by (simp_all add: scan_bert_iff bert_conforms_iff)
  show "bert_in_range (mm_arch m)"
    using a by (simp add: scan_bert_arch_iff)
  show "length (mm_layers m) = nat (ba_n_layer (mm_arch m))"
    by (subst m) (simp add: bert_manifest_of_def Let_def)
qed

subsection \<open>A concrete file\<close>

definition demo_bert_tensors :: "(string \<times> int list) list" where
  "demo_bert_tensors = [
     (''token_embd.weight'', [4, 3, 1, 1]),
     (''position_embd.weight'', [4, 16, 1, 1]),
     (''token_types.weight'', [4, 2, 1, 1]),
     (''token_embd_norm.weight'', [4, 1, 1, 1]),
     (''token_embd_norm.bias'', [4, 1, 1, 1]),
     (''blk.0.attn_q.weight'', [4, 4, 1, 1]),
     (''blk.0.attn_q.bias'', [4, 1, 1, 1]),
     (''blk.0.attn_k.weight'', [4, 4, 1, 1]),
     (''blk.0.attn_k.bias'', [4, 1, 1, 1]),
     (''blk.0.attn_v.weight'', [4, 4, 1, 1]),
     (''blk.0.attn_v.bias'', [4, 1, 1, 1]),
     (''blk.0.attn_output.weight'', [4, 4, 1, 1]),
     (''blk.0.attn_output.bias'', [4, 1, 1, 1]),
     (''blk.0.attn_output_norm.weight'', [4, 1, 1, 1]),
     (''blk.0.attn_output_norm.bias'', [4, 1, 1, 1]),
     (''blk.0.ffn_up.weight'', [4, 8, 1, 1]),
     (''blk.0.ffn_up.bias'', [8, 1, 1, 1]),
     (''blk.0.ffn_down.weight'', [8, 4, 1, 1]),
     (''blk.0.ffn_down.bias'', [4, 1, 1, 1]),
     (''blk.0.layer_output_norm.weight'', [4, 1, 1, 1]),
     (''blk.0.layer_output_norm.bias'', [4, 1, 1, 1])]"

definition demo_bert_kv :: "(string \<times> gguf_value) list" where
  "demo_bert_kv = [(''general.architecture'', KvString ''bert''), (''bert.block_count'', KvU32 1),
     (''bert.embedding_length'', KvU32 4), (''bert.attention.head_count'', KvU32 2),
     (''bert.feed_forward_length'', KvU32 8), (''bert.context_length'', KvU32 16),
     (''tokenizer.ggml.tokens'', KvStrings [''[CLS]'', ''[SEP]'', ''a''])]"

definition demo_entry :: gguf_entry where
  "demo_entry = \<lparr>ge_index = 0, ge_type = 0, ge_size = 16, ge_offset = 0\<rparr>"

definition demo_bert_file :: gguf_file where
  "demo_bert_file = \<lparr>gf_kv = map_of demo_bert_kv, gf_tensor = (\<lambda>n. map_option (\<lambda>_. demo_entry) (map_of demo_bert_tensors n)),
     gf_meta = map_of demo_bert_tensors\<rparr>"

definition demo_bert_arch :: bert_arch where
  "demo_bert_arch = \<lparr>ba_n_layer = 1, ba_n_embed = 4, ba_n_head = 2, ba_n_ff = 8, ba_n_vocab = 3,
     ba_max_seq_len = 16, ba_layer_norm_eps = f32_1e_12, ba_pooling_type = 1\<rparr>"

lemma demo_bert_arch_scan: "scan_bert_arch demo_bert_file = Inr demo_bert_arch"
  by (simp add: scan_bert_arch_def demo_bert_file_def demo_bert_kv_def demo_bert_arch_def read_str_def
      read_u32_as_int_def u32_as_int_def read_f32_or_def read_u32_or_def require_kv_def scan_vocab_size_def
      array_length_def INT32_MAX_def f32_positive_def f32_isfinite_def f32_isnan_def f32_exponent_def
      f32_mantissa_def f32_1e_12_def)

lemma demo_bert_conforms: "bert_conforms demo_bert_file demo_bert_arch"
proof -
  have blk: "layer_tensor_name 0 suffix = ''blk.0.'' @ suffix" for suffix
  proof -
    have "int_digits 0 = ''0''" by code_simp
    then show ?thesis by (simp add: layer_tensor_name_def)
  qed
  have t: "has_tensor demo_bert_file n s \<longleftrightarrow> (\<exists>ne. map_of demo_bert_tensors n = Some ne \<and> map ((!) ne) [0, 1, 2, 3] = s)" for n s
    by (auto simp: has_tensor_def demo_bert_file_def)
  have all: "\<forall>(n, ne)\<in>set demo_bert_tensors. map_of demo_bert_tensors n = Some ne"
    by (simp add: demo_bert_tensors_def)
  have "\<forall>(name, s)\<in>set (bert_required demo_bert_arch). has_tensor demo_bert_file name s"
    unfolding bert_required_iff unfolding t
    by (simp add: demo_bert_arch_def bert_layer_shape_table_def blk demo_bert_tensors_def)
  moreover have "\<exists>s. has_tensor demo_bert_file ''token_types.weight'' s \<and> s ! 0 = ba_n_embed demo_bert_arch \<and> 1 \<le> s ! 1"
    unfolding t by (simp add: demo_bert_arch_def demo_bert_tensors_def)
  moreover have "pooler_ok demo_bert_file"
    by (simp add: pooler_ok_def demo_bert_file_def demo_bert_tensors_def)
  ultimately show ?thesis using demo_bert_arch_scan by (simp add: bert_conforms_iff)
qed

theorem scan_bert_accepts_witness:
  "scan_bert demo_bert_file = Inr (bert_manifest_of demo_bert_file demo_bert_arch)
   \<and> bert_in_range demo_bert_arch"
  using scan_bert_accepts [of demo_bert_file "bert_manifest_of demo_bert_file demo_bert_arch"] demo_bert_conforms
  by simp

end
