(* ===== verification/Gemma3Arch.thy ===== *)
theory Gemma3Arch
  imports ModelArch
begin

text \<open>
  The Gemma 3 family (\<open>src/arch/gemma3_arch.cpp\<close>): the scanner, the bound weights, the eager
  block with its four normalisations, and the eight streaming units of a layer.
\<close>

subsection \<open>The manifest and the scanner\<close>

record gemma_slot =
  gs_attn_norm :: tensor_ref
  gs_attn_q :: tensor_ref
  gs_attn_k :: tensor_ref
  gs_attn_v :: tensor_ref
  gs_attn_output :: tensor_ref
  gs_attn_q_norm :: tensor_ref
  gs_attn_k_norm :: tensor_ref
  gs_post_attention_norm :: tensor_ref
  gs_ffn_norm :: tensor_ref
  gs_post_ffw_norm :: tensor_ref
  gs_ffn_gate :: tensor_ref
  gs_ffn_up :: tensor_ref
  gs_ffn_down :: tensor_ref

record gemma_manifest =
  gm_params :: arch_params
  gm_layers :: "gemma_slot list"
  gm_tok_embed :: tensor_ref
  gm_output_norm :: tensor_ref
  gm_embed_scale :: f32
  gm_attn_scale :: f32
  gm_pooling :: pool_type

definition pooling_from_gguf :: "int \<Rightarrow> scan_error + pool_type" where
  "pooling_from_gguf v =
     (if v = 1 then Inr PoolMean else if v = 2 then Inr PoolCls else if v = 3 then Inr PoolLast
      else Inl (BadPooling v))"

text \<open>The hyperparameters, with every check of the first part of \<open>scan_gemma3\<close>.\<close>

definition scan_gemma_params :: "gguf_file \<Rightarrow> scan_error + arch_params" where
  "scan_gemma_params f =
     bindE (read_str f ''general.architecture'') (\<lambda>arch_name.
     bindE (guardE (arch_name = ''gemma3'') (UnsupportedArchitecture arch_name)) (\<lambda>_.
     bindE (read_u32_as_int f ''gemma3.block_count'') (\<lambda>n_layer.
     bindE (read_u32_as_int f ''gemma3.embedding_length'') (\<lambda>n_embed.
     bindE (read_u32_as_int f ''gemma3.attention.head_count'') (\<lambda>n_head.
     bindE (read_u32_as_int f ''gemma3.attention.head_count_kv'') (\<lambda>n_head_kv.
     bindE (read_u32_as_int f ''gemma3.feed_forward_length'') (\<lambda>n_ff.
     bindE (read_u32_as_int f ''gemma3.context_length'') (\<lambda>max_seq_len.
     bindE (read_f32_or f ''gemma3.attention.layer_norm_rms_epsilon'' f32_1e_6) (\<lambda>norm_eps.
     bindE (read_f32_or f ''gemma3.rope.freq_base'' f32_1e6) (\<lambda>rope_freq_base.
     bindE (read_u32_as_int f ''gemma3.attention.key_length'') (\<lambda>key_len.
     bindE (read_u32_as_int f ''gemma3.attention.value_length'') (\<lambda>value_len.
     bindE (guardE (key_len = value_len) KeyValueLengthsDiffer) (\<lambda>_.
     bindE (guardE (\<not> (n_layer \<le> 0 \<or> n_embed \<le> 0 \<or> n_head \<le> 0 \<or> n_head_kv \<le> 0 \<or> n_ff \<le> 0
         \<or> max_seq_len \<le> 0 \<or> key_len \<le> 0)) NonPositiveHyperparameter) (\<lambda>_.
     bindE (guardE (f32_positive norm_eps \<and> f32_isfinite norm_eps) BadEpsilon) (\<lambda>_.
     bindE (guardE (f32_positive rope_freq_base \<and> f32_isfinite rope_freq_base) BadRopeBase) (\<lambda>_.
     bindE (guardE (n_head mod n_head_kv = 0) HeadsDoNotDivide) (\<lambda>_.
     bindE (scan_vocab_size f) (\<lambda>n_vocab.
     Inr \<lparr>ap_name = ''gemma3'', ap_n_layer = n_layer, ap_n_embed = n_embed, ap_n_head = n_head,
          ap_n_ff = n_ff, ap_n_vocab = n_vocab, ap_max_seq_len = max_seq_len, ap_norm_eps = norm_eps,
          ap_head_dim = key_len, ap_n_head_kv = n_head_kv, ap_rope_freq_base = rope_freq_base,
          ap_causal = True\<rparr>))))))))))))))))))"

text \<open>The lambdas \<open>req_2d\<close> and \<open>req_1d\<close>: a tensor of a layer, looked up and checked at once.\<close>

definition req_2d :: "gguf_file \<Rightarrow> int \<Rightarrow> string \<Rightarrow> int \<Rightarrow> int \<Rightarrow> scan_error + tensor_ref" where
  "req_2d f li suffix rows cols =
     (let n = layer_tensor_name li suffix in
      bindE (require_tensor f n) (\<lambda>t. bindE (validate_shape_2d t rows cols n) (\<lambda>_. Inr t)))"

definition req_1d :: "gguf_file \<Rightarrow> int \<Rightarrow> string \<Rightarrow> int \<Rightarrow> scan_error + tensor_ref" where
  "req_1d f li suffix len =
     (let n = layer_tensor_name li suffix in
      bindE (require_tensor f n) (\<lambda>t. bindE (validate_shape_1d t len n) (\<lambda>_. Inr t)))"

definition scan_gemma_layer :: "gguf_file \<Rightarrow> arch_params \<Rightarrow> int \<Rightarrow> scan_error + gemma_slot" where
  "scan_gemma_layer f a i =
    (let H = ap_n_embed a; F = ap_n_ff a; D = ap_head_dim a;
         QW = ap_n_head a * D; KW = ap_n_head_kv a * D in
     bindE (req_1d f i ''attn_norm.weight'' H) (\<lambda>attn_norm.
     bindE (req_2d f i ''attn_q.weight'' H QW) (\<lambda>attn_q.
     bindE (req_2d f i ''attn_k.weight'' H KW) (\<lambda>attn_k.
     bindE (req_2d f i ''attn_v.weight'' H KW) (\<lambda>attn_v.
     bindE (req_2d f i ''attn_output.weight'' QW H) (\<lambda>attn_output.
     bindE (req_1d f i ''attn_q_norm.weight'' D) (\<lambda>attn_q_norm.
     bindE (req_1d f i ''attn_k_norm.weight'' D) (\<lambda>attn_k_norm.
     bindE (req_1d f i ''post_attention_norm.weight'' H) (\<lambda>post_attention_norm.
     bindE (req_1d f i ''ffn_norm.weight'' H) (\<lambda>ffn_norm.
     bindE (req_1d f i ''post_ffw_norm.weight'' H) (\<lambda>post_ffw_norm.
     bindE (req_2d f i ''ffn_gate.weight'' H F) (\<lambda>ffn_gate.
     bindE (req_2d f i ''ffn_up.weight'' H F) (\<lambda>ffn_up.
     bindE (req_2d f i ''ffn_down.weight'' F H) (\<lambda>ffn_down.
     Inr \<lparr>gs_attn_norm = attn_norm,
          gs_attn_q = attn_q,
          gs_attn_k = attn_k,
          gs_attn_v = attn_v,
          gs_attn_output = attn_output,
          gs_attn_q_norm = attn_q_norm,
          gs_attn_k_norm = attn_k_norm,
          gs_post_attention_norm = post_attention_norm,
          gs_ffn_norm = ffn_norm,
          gs_post_ffw_norm = post_ffw_norm,
          gs_ffn_gate = ffn_gate,
          gs_ffn_up = ffn_up,
          gs_ffn_down = ffn_down\<rparr>))))))))))))))"

definition scan_gemma3 :: "'t ggml \<Rightarrow> gguf_file \<Rightarrow> scan_error + gemma_manifest" where
  "scan_gemma3 g f =
     bindE (scan_gemma_params f) (\<lambda>a.
     bindE (read_f32_or f ''gemma3.attention.key_length_scale'' (g_f32_of_int g (ap_head_dim a))) (\<lambda>qk_scalar.
     bindE (guardE (f32_positive qk_scalar \<and> f32_isfinite qk_scalar) BadScale) (\<lambda>_.
     bindE (read_u32_as_int f ''gemma3.pooling_type'') (\<lambda>v.
     bindE (pooling_from_gguf v) (\<lambda>pooling.
     bindE (read_u32_or f ''gemma3.attention.sliding_window'' 0) (\<lambda>window.
     bindE (guardE (\<not> window > 0) (SlidingWindow window)) (\<lambda>_.
     bindE (require_tensor f ''token_embd.weight'') (\<lambda>tok.
     bindE (validate_shape_2d tok (ap_n_embed a) (ap_n_vocab a) ''token_embd.weight'') (\<lambda>_.
     bindE (require_tensor f ''output_norm.weight'') (\<lambda>norm.
     bindE (validate_shape_1d norm (ap_n_embed a) ''output_norm.weight'') (\<lambda>_.
     bindE (mapE (\<lambda>i. scan_gemma_layer f a (int i)) [0 ..< nat (ap_n_layer a)]) (\<lambda>layers.
     Inr \<lparr>gm_params = a, gm_layers = layers, gm_tok_embed = tok, gm_output_norm = norm,
          gm_embed_scale = g_sqrt g (g_f32_of_int g (ap_n_embed a)),
          gm_attn_scale = g_div g f32_one (g_sqrt g qk_scalar), gm_pooling = pooling\<rparr>))))))))))))"

subsection \<open>Bound weights\<close>

record 't gemma_layer_weights =
  gl_attn_norm :: 't
  gl_attn :: "'t gqa_weights"
  gl_attn_post_norm :: 't
  gl_ffn_norm :: 't
  gl_ffn :: "'t gated_weights"
  gl_ffn_post_norm :: 't

record 't gemma_model =
  gemma_manifest_of :: gemma_manifest
  gemma_tok_embed :: 't
  gemma_output_norm :: 't
  gemma_layer_w :: "'t gemma_layer_weights list"

definition gemma_bind_suffixes :: "string list" where
  "gemma_bind_suffixes = [''attn_norm.weight'', ''attn_q.weight'', ''attn_k.weight'',
     ''attn_v.weight'', ''attn_output.weight'', ''attn_q_norm.weight'',
     ''attn_k_norm.weight'', ''post_attention_norm.weight'', ''ffn_norm.weight'',
     ''ffn_gate.weight'', ''ffn_up.weight'', ''ffn_down.weight'',
     ''post_ffw_norm.weight'']"

definition gemma_weights_of :: "'t list \<Rightarrow> 't gemma_layer_weights" where
  "gemma_weights_of ts = \<lparr>gl_attn_norm = ts ! 0,
     gl_attn = \<lparr>gw_q = ts ! 1, gw_k = ts ! 2, gw_v = ts ! 3, gw_o = ts ! 4,
       gw_q_norm = Some (ts ! 5), gw_k_norm = Some (ts ! 6)\<rparr>,
     gl_attn_post_norm = ts ! 7, gl_ffn_norm = ts ! 8,
     gl_ffn = \<lparr>dw_gate = ts ! 9, dw_up = ts ! 10, dw_down = ts ! 11\<rparr>, gl_ffn_post_norm = ts ! 12\<rparr>"

definition bind_gemma_layer :: "(string \<Rightarrow> 't option) \<Rightarrow> int \<Rightarrow> arch_error + 't gemma_layer_weights" where
  "bind_gemma_layer model_ctx li =
     bindE (mapE (\<lambda>suffix. weight_of model_ctx (block_prefix li @ suffix)) gemma_bind_suffixes) (\<lambda>ts.
     Inr (gemma_weights_of ts))"

definition gemma_bind_weights :: "gemma_manifest \<Rightarrow> (string \<Rightarrow> 't option) \<Rightarrow> arch_error + 't gemma_model" where
  "gemma_bind_weights m model_ctx =
     bindE (weight_of model_ctx ''token_embd.weight'') (\<lambda>tok.
     bindE (weight_of model_ctx ''output_norm.weight'') (\<lambda>norm.
     bindE (mapE (\<lambda>li. bind_gemma_layer model_ctx (int li)) [0 ..< nat (ap_n_layer (gm_params m))]) (\<lambda>layers.
     Inr \<lparr>gemma_manifest_of = m, gemma_tok_embed = tok, gemma_output_norm = norm, gemma_layer_w = layers\<rparr>)))"

subsection \<open>The eager graph\<close>

abbreviation gemma_params :: "'t gemma_model \<Rightarrow> arch_params" where
  "gemma_params m \<equiv> gm_params (gemma_manifest_of m)"

definition gemma_inputs :: input_requirements where
  "gemma_inputs = \<lparr>needs_learned_pos_ids = False, needs_rope_pos_ids = True, needs_type_ids = False,
     uses_kq_mask = True, consumes_seq_lengths = True, consumes_packed_batch = True\<rparr>"

definition gemma_embeddings :: "'t ggml \<Rightarrow> 't gemma_model \<Rightarrow> 't \<Rightarrow> 't" where
  "gemma_embeddings g m token_ids =
     (let x = (if g_ne g token_ids 1 = 1 then g_get_rows g (gemma_tok_embed m) token_ids
               else (let S = g_ne g token_ids 0;
                         B = g_ne g token_ids 1;
                         x = g_get_rows g (gemma_tok_embed m) (g_reshape g token_ids [S * B])
                     in g_reshape g x [g_ne g x 0, S, B]))
      in g_scale g x (gm_embed_scale (gemma_manifest_of m)))"

definition gemma_gqa_params :: "'t gemma_model \<Rightarrow> gqa_params" where
  "gemma_gqa_params m = (let a = gemma_params m in
     \<lparr>gp_n_head = ap_n_head a, gp_n_head_kv = ap_n_head_kv a, gp_head_dim = ap_head_dim a,
      gp_scale = gm_attn_scale (gemma_manifest_of m), gp_norm_eps = ap_norm_eps a,
      gp_rope_freq_base = ap_rope_freq_base a, gp_n_ctx_orig = ap_max_seq_len a, gp_causal = ap_causal a\<rparr>)"

definition gemma_build_block ::
  "'t ggml \<Rightarrow> 't gemma_model \<Rightarrow> 't \<Rightarrow> 't option \<Rightarrow> int \<Rightarrow> 't option \<Rightarrow> int list option \<Rightarrow> int list option
   \<Rightarrow> int \<Rightarrow> forward_error + 't" where
  "gemma_build_block g m x pos layer kq_mask seq_lengths seq_offsets n_seq =
     (let eps = ap_norm_eps (gemma_params m);
          w = gemma_layer_w m ! nat layer;
          h = build_rms_norm g x (gl_attn_norm w) eps
      in bindE (build_gqa_attention g h pos kq_mask (gl_attn w) (gemma_gqa_params m)
                  seq_lengths seq_offsets n_seq) (\<lambda>h.
         let h = build_rms_norm g h (gl_attn_post_norm w) eps;
             x = g_add g x h;
             f = build_rms_norm g x (gl_ffn_norm w) eps;
             f = build_gated_ffn g f (gl_ffn w) GateGelu;
             f = build_rms_norm g f (gl_ffn_post_norm w) eps
         in Inr (g_add g x f)))"

definition gemma_final_norm :: "'t ggml \<Rightarrow> 't gemma_model \<Rightarrow> 't \<Rightarrow> 't" where
  "gemma_final_norm g m x = build_rms_norm g x (gemma_output_norm m) (ap_norm_eps (gemma_params m))"

definition gemma_embedding_phase :: "'t ggml \<Rightarrow> 't gemma_model \<Rightarrow> 't graph_inputs \<Rightarrow> arch_error + 't" where
  "gemma_embedding_phase g m inp =
     (case gi_token_ids inp of None \<Rightarrow> Inl MissingGraphInput
      | Some token_ids \<Rightarrow> Inr (gemma_embeddings g m token_ids))"

definition gemma_block :: "'t ggml \<Rightarrow> 't gemma_model \<Rightarrow> 't graph_inputs \<Rightarrow> int \<Rightarrow> 't \<Rightarrow> arch_error + 't" where
  "gemma_block g m inp li x =
     forwardE (gemma_build_block g m x (gi_rope_pos_ids inp) li (gi_kq_mask inp) (gi_seq_lengths inp)
       (gi_seq_offsets inp) (gi_n_seq inp))"

definition gemma_final_phase :: "'t ggml \<Rightarrow> 't gemma_model \<Rightarrow> 't \<Rightarrow> 't" where
  "gemma_final_phase g m x = gemma_final_norm g m x"

definition gemma_build_graph :: "'t ggml \<Rightarrow> 't gemma_model \<Rightarrow> 't graph_inputs \<Rightarrow> arch_error + 't" where
  "gemma_build_graph g m inp =
     bindE (gemma_embedding_phase g m inp) (\<lambda>x.
     bindE (foldE (\<lambda>li. gemma_block g m inp (int li)) [0 ..< nat (ap_n_layer (gemma_params m))] x) (\<lambda>x.
     Inr (gemma_final_phase g m x)))"

subsection \<open>The streaming units\<close>

definition gemma_common_plan :: common_plan where
  "gemma_common_plan = \<lparr>cp_token_embedding = ''token_embd.weight'', cp_common = [''output_norm.weight'']\<rparr>"

text \<open>A unit that normalises its first input, and one that also adds it to its second.\<close>

definition norm_unit ::
  "'t ggml \<Rightarrow> string \<Rightarrow> string \<Rightarrow> string \<Rightarrow> string \<Rightarrow> streaming_stage \<Rightarrow> 't \<Rightarrow> f32 \<Rightarrow> 't streaming_unit" where
  "norm_unit g name weight inp out stage w eps =
     plain_unit name [weight] [inp] [out] stage
       (\<lambda>s. bindE (slot_in 0 s) (\<lambda>x. slot_out 0 (Some (build_rms_norm g x w eps)) s))"

definition norm_add_unit ::
  "'t ggml \<Rightarrow> string \<Rightarrow> string \<Rightarrow> string \<Rightarrow> string \<Rightarrow> string \<Rightarrow> streaming_stage \<Rightarrow> 't \<Rightarrow> f32
   \<Rightarrow> 't streaming_unit" where
  "norm_add_unit g name weight inp residual out stage w eps =
     plain_unit name [weight] [inp, residual] [out] stage
       (\<lambda>s. bindE (slot_in 0 s) (\<lambda>x.
          let h = build_rms_norm g x w eps in
          bindE (slot_in 1 s) (\<lambda>r. slot_out 0 (Some (g_add g r h)) s)))"

definition gemma_attn_qkv :: "'t ggml \<Rightarrow> 't gemma_model \<Rightarrow> int \<Rightarrow> 't streaming_unit" where
  "gemma_attn_qkv g m layer = (let p = block_prefix layer; w = gemma_layer_w m ! nat layer in
     plain_unit ''attn_qkv'' [p @ ''attn_q.weight'', p @ ''attn_k.weight'', p @ ''attn_v.weight'']
       [''xn''] [''q'', ''k'', ''v''] StageAttention
       (\<lambda>s. bindE (slot_in 0 s) (\<lambda>xn.
          let proj = build_gqa_projections g xn (gl_attn w) in
          bindE (slot_out 0 (Some (proj_q proj)) s) (\<lambda>s.
          bindE (slot_out 1 (Some (proj_k proj)) s) (\<lambda>s.
          slot_out 2 (Some (proj_v proj)) s)))))"

definition gemma_attn_core :: "'t ggml \<Rightarrow> 't gemma_model \<Rightarrow> int \<Rightarrow> 't streaming_unit" where
  "gemma_attn_core g m layer = (let p = block_prefix layer; w = gemma_layer_w m ! nat layer in
     \<lparr>su_name = ''attn_core'',
      su_weights = [p @ ''attn_q_norm.weight'', p @ ''attn_k_norm.weight'', p @ ''attn_output.weight''],
      su_inputs = [''q'', ''k'', ''v''],
      su_outputs = [''h''],
      su_graph_inputs = \<lparr>needs_learned_pos_ids = False, needs_rope_pos_ids = True, needs_type_ids = False,
        uses_kq_mask = True, consumes_seq_lengths = True, consumes_packed_batch = True\<rparr>,
      su_stage = StageAttention,
      su_build = (\<lambda>s.
        bindE (slot_in 0 s) (\<lambda>q. bindE (slot_in 1 s) (\<lambda>k. bindE (slot_in 2 s) (\<lambda>v.
        bindE (forwardE (build_gqa_attention_core g \<lparr>proj_q = q, proj_k = k, proj_v = v\<rparr>
            (gi_rope_pos_ids (st_graph_in s)) (gi_kq_mask (st_graph_in s)) (gl_attn w) (gemma_gqa_params m)
            (gi_seq_lengths (st_graph_in s)) (gi_seq_offsets (st_graph_in s)) (gi_n_seq (st_graph_in s)))) (\<lambda>h.
        slot_out 0 (Some h) s)))))\<rparr>)"

definition gemma_ffn_gate_up :: "'t ggml \<Rightarrow> 't gemma_model \<Rightarrow> int \<Rightarrow> 't streaming_unit" where
  "gemma_ffn_gate_up g m layer = (let p = block_prefix layer; w = gemma_layer_w m ! nat layer in
     plain_unit ''ffn_gate_up'' [p @ ''ffn_gate.weight'', p @ ''ffn_up.weight''] [''fn''] [''fh''] StageFfn
       (\<lambda>s. bindE (slot_in 0 s) (\<lambda>fn.
          slot_out 0 (Some (build_gated_ffn_gate_up g fn (gl_ffn w) GateGelu)) s)))"

definition gemma_ffn_down :: "'t ggml \<Rightarrow> 't gemma_model \<Rightarrow> int \<Rightarrow> 't streaming_unit" where
  "gemma_ffn_down g m layer = (let p = block_prefix layer; w = gemma_layer_w m ! nat layer in
     plain_unit ''ffn_down'' [p @ ''ffn_down.weight''] [''fh''] [''fd''] StageFfn
       (\<lambda>s. bindE (slot_in 0 s) (\<lambda>fh. slot_out 0 (Some (build_gated_ffn_down g fh (gl_ffn w))) s)))"

definition gemma_units :: "'t ggml \<Rightarrow> 't gemma_model \<Rightarrow> int \<Rightarrow> 't streaming_unit list" where
  "gemma_units g m layer =
     (let p = block_prefix layer; eps = ap_norm_eps (gemma_params m); w = gemma_layer_w m ! nat layer in
      [norm_unit g ''attn_norm'' (p @ ''attn_norm.weight'') ''x'' ''xn'' StageAttention (gl_attn_norm w) eps,
       gemma_attn_qkv g m layer,
       gemma_attn_core g m layer,
       norm_add_unit g ''attn_post'' (p @ ''post_attention_norm.weight'') ''h'' ''x'' ''x1'' StageAttention
         (gl_attn_post_norm w) eps,
       norm_unit g ''ffn_norm'' (p @ ''ffn_norm.weight'') ''x1'' ''fn'' StageFfn (gl_ffn_norm w) eps,
       gemma_ffn_gate_up g m layer,
       gemma_ffn_down g m layer,
       norm_add_unit g ''ffn_post'' (p @ ''post_ffw_norm.weight'') ''fd'' ''x1'' ''x'' StageFfn
         (gl_ffn_post_norm w) eps])"

definition gemma_streaming_units :: "'t ggml \<Rightarrow> 't gemma_model \<Rightarrow> int \<Rightarrow> arch_error + 't layer_plan" where
  "gemma_streaming_units g m layer =
     (if layer < 0 \<or> layer \<ge> ap_n_layer (gemma_params m) then Inl LayerOutOfRange
      else Inr \<lparr>lp_units = gemma_units g m layer, lp_input_slot = ''x'', lp_output_slot = ''x''\<rparr>)"

subsection \<open>The interface of a streamed family\<close>

lemmas gemma_unit_defs = gemma_units_def norm_unit_def norm_add_unit_def gemma_attn_qkv_def gemma_attn_core_def
  gemma_ffn_gate_up_def gemma_ffn_down_def plain_unit_def Let_def

lemma gemma_plan_ok: "plan_ok (gemma_units g m l)"
  unfolding plan_ok_def
  by (auto simp: gemma_unit_defs call_unit_def slot_in_def slot_out_def agree_on_def throwing bindE_assoc
      intro!: arg_cong2 [where f = bindE])

lemma gqa_attention_eq_core:
  "build_gqa_attention g x pos kqm w p lens offs n =
   build_gqa_attention_core g (build_gqa_projections g x w) pos kqm w p lens offs n"
  by (simp add: build_gqa_attention_def build_gqa_attention_core_def Let_def)

lemma gemma_units_block:
  assumes x: "env ''x'' = Some x"
  shows "case gemma_block g m gi l x of
      Inl e \<Rightarrow> \<exists>e'. apply_units gi (gemma_units g m l) env = Inl e'
    | Inr y \<Rightarrow> \<exists>env'. apply_units gi (gemma_units g m l) env = Inr env' \<and> env' ''x'' = Some y"
proof -
  let ?w = "gemma_layer_w m ! nat l" and ?eps = "ap_norm_eps (gemma_params m)"
  define core where "core = build_gqa_attention_core g (build_gqa_projections g (build_rms_norm g x (gl_attn_norm ?w) ?eps)
    (gl_attn ?w)) (gi_rope_pos_ids gi) (gi_kq_mask gi) (gl_attn ?w) (gemma_gqa_params m)
    (gi_seq_lengths gi) (gi_seq_offsets gi) (gi_n_seq gi)"
  show ?thesis
  proof (cases core)
    case (Inl e)
    then show ?thesis using x unfolding core_def
      by (simp add: apply_unit_def gemma_unit_defs slot_table_defs gemma_block_def gemma_build_block_def
          gqa_attention_eq_core numeral_eq_Suc)
  next
    case (Inr h)
    then show ?thesis using x unfolding core_def
      by (simp add: apply_unit_def gemma_unit_defs slot_table_defs gemma_block_def gemma_build_block_def
          gqa_attention_eq_core build_gated_ffn_def numeral_eq_Suc)
  qed
qed

text \<open>The facts of \<open>streamed_family\<close> hold for Gemma 3.\<close>

interpretation gemma: streamed_family "gemma_streaming_units g" "gemma_block g" "\<lambda>m. ap_n_layer (gemma_params m)" for g
proof
  fix m :: "'a gemma_model" and l gi plan env and x :: 'a
  assume h: "gemma_streaming_units g m l = Inr plan" and x: "env ''x'' = Some x"
  from h have "lp_units plan = gemma_units g m l"
    by (auto simp: gemma_streaming_units_def split: if_splits)
  then show "case gemma_block g m gi l x of
      Inl e \<Rightarrow> \<exists>e'. apply_units gi (lp_units plan) env = Inl e'
    | Inr y \<Rightarrow> \<exists>env'. apply_units gi (lp_units plan) env = Inr env' \<and> env' ''x'' = Some y"
    using gemma_units_block [where env = env, OF x] by (simp only:)
qed (auto simp: gemma_streaming_units_def gemma_plan_ok)

subsection \<open>What the scanner accepts\<close>

definition gemma_layer_shape_table :: "arch_params \<Rightarrow> (string \<times> int list) list" where
  "gemma_layer_shape_table a =
     (let H = ap_n_embed a; F = ap_n_ff a; D = ap_head_dim a;
          QW = ap_n_head a * D; KW = ap_n_head_kv a * D in [
       (''attn_norm.weight'', [H, 1, 1, 1]),
       (''attn_q.weight'', [H, QW, 1, 1]),
       (''attn_k.weight'', [H, KW, 1, 1]),
       (''attn_v.weight'', [H, KW, 1, 1]),
       (''attn_output.weight'', [QW, H, 1, 1]),
       (''attn_q_norm.weight'', [D, 1, 1, 1]),
       (''attn_k_norm.weight'', [D, 1, 1, 1]),
       (''post_attention_norm.weight'', [H, 1, 1, 1]),
       (''ffn_norm.weight'', [H, 1, 1, 1]),
       (''post_ffw_norm.weight'', [H, 1, 1, 1]),
       (''ffn_gate.weight'', [H, F, 1, 1]),
       (''ffn_up.weight'', [H, F, 1, 1]),
       (''ffn_down.weight'', [F, H, 1, 1])])"

definition gemma_required :: "arch_params \<Rightarrow> (string \<times> int list) list" where
  "gemma_required a =
     [(''token_embd.weight'', [ap_n_embed a, ap_n_vocab a, 1, 1]), (''output_norm.weight'', [ap_n_embed a, 1, 1, 1])]
     @ concat (map (\<lambda>i. map (\<lambda>(suffix, s). (layer_tensor_name (int i) suffix, s)) (gemma_layer_shape_table a))
         [0 ..< nat (ap_n_layer a)])"

definition gemma_slot_at :: "gguf_file \<Rightarrow> int \<Rightarrow> gemma_slot" where
  "gemma_slot_at f i = (let at = (\<lambda>suffix. tensor_at f (layer_tensor_name i suffix)) in
    \<lparr>gs_attn_norm = at ''attn_norm.weight'',
     gs_attn_q = at ''attn_q.weight'',
     gs_attn_k = at ''attn_k.weight'',
     gs_attn_v = at ''attn_v.weight'',
     gs_attn_output = at ''attn_output.weight'',
     gs_attn_q_norm = at ''attn_q_norm.weight'',
     gs_attn_k_norm = at ''attn_k_norm.weight'',
     gs_post_attention_norm = at ''post_attention_norm.weight'',
     gs_ffn_norm = at ''ffn_norm.weight'',
     gs_post_ffw_norm = at ''post_ffw_norm.weight'',
     gs_ffn_gate = at ''ffn_gate.weight'',
     gs_ffn_up = at ''ffn_up.weight'',
     gs_ffn_down = at ''ffn_down.weight''\<rparr>)"

lemma req_2d_iff:
  "req_2d f i suffix r c = Inr t \<longleftrightarrow> has_tensor f (layer_tensor_name i suffix) [r, c, 1, 1]
     \<and> t = tensor_at f (layer_tensor_name i suffix)"
  unfolding req_2d_def Let_def bindE_Inr_iff require_tensor_iff validate_2d_iff has_tensor_iff by auto

lemma req_1d_iff:
  "req_1d f i suffix n = Inr t \<longleftrightarrow> has_tensor f (layer_tensor_name i suffix) [n, 1, 1, 1]
     \<and> t = tensor_at f (layer_tensor_name i suffix)"
  unfolding req_1d_def Let_def bindE_Inr_iff require_tensor_iff validate_1d_iff has_tensor_iff by auto

lemma scan_gemma_layer_iff:
  "scan_gemma_layer f a i = Inr s \<longleftrightarrow>
     (\<forall>(suffix, sh)\<in>set (gemma_layer_shape_table a). has_tensor f (layer_tensor_name i suffix) sh) \<and> s = gemma_slot_at f i"
  unfolding scan_gemma_layer_def Let_def bindE_Inr_iff req_1d_iff req_2d_iff gemma_layer_shape_table_def
    gemma_slot_at_def by auto

lemma scan_gemma_layers_iff:
  "mapE (\<lambda>i. scan_gemma_layer f a (int i)) xs = Inr ls \<longleftrightarrow>
     (\<forall>i\<in>set xs. \<forall>(suffix, sh)\<in>set (gemma_layer_shape_table a). has_tensor f (layer_tensor_name (int i) suffix) sh)
   \<and> ls = map (\<lambda>i. gemma_slot_at f (int i)) xs"
proof (induction xs arbitrary: ls)
  case (Cons x xs)
  show ?case unfolding mapE.simps bindE_Inr_iff Cons.IH scan_gemma_layer_iff by auto
qed auto

text \<open>
  The metadata of a Gemma 3 file, key by key; the width of a head is the key length, and the value
  length must be the same.
\<close>

definition gemma_declares :: "gguf_file \<Rightarrow> arch_params \<Rightarrow> bool" where
  "gemma_declares f a \<longleftrightarrow> gf_kv f ''general.architecture'' = Some (KvString ''gemma3'')
     \<and> ap_name a = ''gemma3'' \<and> ap_causal a
     \<and> key_u32 f ''gemma3.block_count'' (ap_n_layer a)
     \<and> key_u32 f ''gemma3.embedding_length'' (ap_n_embed a)
     \<and> key_u32 f ''gemma3.attention.head_count'' (ap_n_head a)
     \<and> key_u32 f ''gemma3.attention.head_count_kv'' (ap_n_head_kv a)
     \<and> key_u32 f ''gemma3.feed_forward_length'' (ap_n_ff a)
     \<and> key_u32 f ''gemma3.context_length'' (ap_max_seq_len a)
     \<and> key_f32_or f ''gemma3.attention.layer_norm_rms_epsilon'' f32_1e_6 (ap_norm_eps a)
     \<and> key_f32_or f ''gemma3.rope.freq_base'' f32_1e6 (ap_rope_freq_base a)
     \<and> key_u32 f ''gemma3.attention.key_length'' (ap_head_dim a)
     \<and> key_u32 f ''gemma3.attention.value_length'' (ap_head_dim a)
     \<and> token_count f (ap_n_vocab a)"

text \<open>The pooling types by their numbers in the file.\<close>

definition pooling_number :: "pool_type \<Rightarrow> int" where
  "pooling_number p = (case p of PoolMean \<Rightarrow> 1 | PoolCls \<Rightarrow> 2 | PoolLast \<Rightarrow> 3)"

text \<open>What is not a size: the score scale, the pooling, and no sliding window.\<close>

definition gemma_extras :: "'t ggml \<Rightarrow> gguf_file \<Rightarrow> arch_params \<Rightarrow> f32 \<Rightarrow> pool_type \<Rightarrow> bool" where
  "gemma_extras g f a qk_scalar pooling \<longleftrightarrow>
     key_f32_or f ''gemma3.attention.key_length_scale'' (g_f32_of_int g (ap_head_dim a)) qk_scalar
   \<and> f32_positive qk_scalar \<and> f32_isfinite qk_scalar
   \<and> key_u32 f ''gemma3.pooling_type'' (pooling_number pooling)
   \<and> key_u32_or f ''gemma3.attention.sliding_window'' 0 0"

definition gemma_manifest_at :: "'t ggml \<Rightarrow> gguf_file \<Rightarrow> arch_params \<Rightarrow> f32 \<Rightarrow> pool_type \<Rightarrow> gemma_manifest" where
  "gemma_manifest_at g f a qk_scalar pooling = \<lparr>gm_params = a,
     gm_layers = map (\<lambda>i. gemma_slot_at f (int i)) [0 ..< nat (ap_n_layer a)],
     gm_tok_embed = tensor_at f ''token_embd.weight'', gm_output_norm = tensor_at f ''output_norm.weight'',
     gm_embed_scale = g_sqrt g (g_f32_of_int g (ap_n_embed a)),
     gm_attn_scale = g_div g f32_one (g_sqrt g qk_scalar), gm_pooling = pooling\<rparr>"

definition gemma_in_range :: "arch_params \<Rightarrow> bool" where
  "gemma_in_range a \<longleftrightarrow>
     (\<forall>n\<in>{ap_n_layer a, ap_n_embed a, ap_n_head a, ap_n_head_kv a, ap_n_ff a, ap_n_vocab a, ap_max_seq_len a, ap_head_dim a}.
        0 < n \<and> n \<le> int INT32_MAX)
   \<and> ap_n_head_kv a dvd ap_n_head a \<and> f32_positive (ap_norm_eps a) \<and> f32_isfinite (ap_norm_eps a)
   \<and> f32_positive (ap_rope_freq_base a) \<and> f32_isfinite (ap_rope_freq_base a) \<and> ap_causal a"

lemma scan_gemma_params_iff: "scan_gemma_params f = Inr a \<longleftrightarrow> gemma_declares f a \<and> gemma_in_range a"
proof
  assume "scan_gemma_params f = Inr a"
  then show "gemma_declares f a \<and> gemma_in_range a"
    unfolding scan_gemma_params_def bindE_Inr_iff guardE_Inr_iff metadata_keys gemma_declares_def gemma_in_range_def
    unfolding sum.inject by clarify (simp add: key_u32_max)
next
  assume "gemma_declares f a \<and> gemma_in_range a"
  then show "scan_gemma_params f = Inr a"
    unfolding scan_gemma_params_def bindE_Inr_iff guardE_Inr_iff metadata_keys gemma_declares_def gemma_in_range_def
    by (cases a) auto
qed

lemma pooling_from_gguf_iff: "pooling_from_gguf v = Inr p \<longleftrightarrow> v = pooling_number p"
  by (cases p) (auto simp: pooling_from_gguf_def pooling_number_def)

lemma no_window_iff: "(\<exists>window. key_u32_or f key 0 window \<and> window \<le> 0) \<longleftrightarrow> key_u32_or f key 0 0"
  by (auto simp: key_u32_or_def key_u32_def)

lemma gemma_required_iff:
  "(\<forall>(name, s)\<in>set (gemma_required a). has_tensor f name s) \<longleftrightarrow>
     has_tensor f ''token_embd.weight'' [ap_n_embed a, ap_n_vocab a, 1, 1]
   \<and> has_tensor f ''output_norm.weight'' [ap_n_embed a, 1, 1, 1]
   \<and> (\<forall>i\<in>set [0 ..< nat (ap_n_layer a)]. \<forall>(suffix, sh)\<in>set (gemma_layer_shape_table a).
        has_tensor f (layer_tensor_name (int i) suffix) sh)"
  unfolding gemma_required_def by auto

lemma scan_gemma_params_then:
  assumes "scan_gemma_params f = Inr a"
  shows "scan_gemma3 g f = Inr m \<longleftrightarrow>
    (\<exists>qk_scalar pooling. gemma_extras g f a qk_scalar pooling
       \<and> (\<forall>(name, s)\<in>set (gemma_required a). has_tensor f name s) \<and> m = gemma_manifest_at g f a qk_scalar pooling)"
proof -
  define rest where "rest = (\<lambda>qk pooling.
     bindE (require_tensor f ''token_embd.weight'') (\<lambda>tok.
     bindE (validate_shape_2d tok (ap_n_embed a) (ap_n_vocab a) ''token_embd.weight'') (\<lambda>_.
     bindE (require_tensor f ''output_norm.weight'') (\<lambda>norm.
     bindE (validate_shape_1d norm (ap_n_embed a) ''output_norm.weight'') (\<lambda>_.
     bindE (mapE (\<lambda>i. scan_gemma_layer f a (int i)) [0 ..< nat (ap_n_layer a)]) (\<lambda>layers.
     Inr \<lparr>gm_params = a, gm_layers = layers, gm_tok_embed = tok, gm_output_norm = norm,
          gm_embed_scale = g_sqrt g (g_f32_of_int g (ap_n_embed a)),
          gm_attn_scale = g_div g f32_one (g_sqrt g qk), gm_pooling = pooling\<rparr>))))))"
  have rest: "rest qk pooling = Inr m \<longleftrightarrow>
      (\<forall>(name, s)\<in>set (gemma_required a). has_tensor f name s) \<and> m = gemma_manifest_at g f a qk pooling" for qk pooling
    unfolding rest_def require_2d_then require_1d_then
    unfolding bindE_Inr_iff scan_gemma_layers_iff gemma_required_iff
      gemma_manifest_at_def by auto
  have unf: "scan_gemma3 g f =
     bindE (read_f32_or f ''gemma3.attention.key_length_scale'' (g_f32_of_int g (ap_head_dim a))) (\<lambda>qk.
     bindE (guardE (f32_positive qk \<and> f32_isfinite qk) BadScale) (\<lambda>_.
     bindE (read_u32_as_int f ''gemma3.pooling_type'') (\<lambda>v.
     bindE (pooling_from_gguf v) (\<lambda>pooling.
     bindE (read_u32_or f ''gemma3.attention.sliding_window'' 0) (\<lambda>window.
     bindE (guardE (\<not> window > 0) (SlidingWindow window)) (\<lambda>_. rest qk pooling))))))"
    unfolding scan_gemma3_def assms bindE.simps rest_def by (rule refl)
  have "scan_gemma3 g f = Inr m \<longleftrightarrow> (\<exists>qk pooling. gemma_extras g f a qk pooling \<and> rest qk pooling = Inr m)"
    unfolding unf gemma_extras_def bindE_Inr_iff guardE_Inr_iff metadata_keys pooling_from_gguf_iff not_less
      no_window_iff [symmetric] by blast
  then show ?thesis unfolding rest .
qed

text \<open>
  C23: the Gemma 3 scanner accepts exactly the files that conform: the metadata name the
  architecture \<open>gemma3\<close> and give, each under its own key and with its own type, the sizes (key and
  value length the same), the epsilon, the base frequency, the score scale, the pooling and no
  sliding window; the sizes are positive ints, the KV head count divides the query head count, and
  the floats are positive and finite; and every tensor of the embedding stage and of each layer is
  there with the shape the head geometry calls for. The manifest then carries those values and
  refers to exactly those tensors.
\<close>

theorem scan_gemma_accepts:
  "(scan_gemma3 g f = Inr m \<longleftrightarrow>
      (\<exists>a qk_scalar pooling. gemma_declares f a \<and> gemma_in_range a \<and> gemma_extras g f a qk_scalar pooling
         \<and> (\<forall>(name, s)\<in>set (gemma_required a). has_tensor f name s)
         \<and> m = gemma_manifest_at g f a qk_scalar pooling))
   \<and> (scan_gemma3 g f = Inr m \<longrightarrow> gemma_in_range (gm_params m) \<and> length (gm_layers m) = nat (ap_n_layer (gm_params m)))"
proof (cases "scan_gemma_params f")
  case (Inl e)
  then have "\<not> (gemma_declares f a \<and> gemma_in_range a)" for a using scan_gemma_params_iff [of f a] by simp
  then show ?thesis using Inl by (auto simp: scan_gemma3_def)
next
  case (Inr a)
  have only: "gemma_declares f b \<and> gemma_in_range b \<longleftrightarrow> b = a" for b
    using Inr scan_gemma_params_iff [of f b] by auto
  then have eq: "(\<exists>a qk p. gemma_declares f a \<and> gemma_in_range a \<and> P a qk p) \<longleftrightarrow> (\<exists>qk p. P a qk p)" for P
    by (metis (no_types, lifting))
  have "gemma_in_range a" using only by blast
  then show ?thesis unfolding scan_gemma_params_then [OF Inr] eq by (auto simp: gemma_manifest_at_def)
qed

subsection \<open>A concrete file\<close>

definition demo_gemma_tensors :: "(string \<times> int list) list" where
  "demo_gemma_tensors = [
     (''token_embd.weight'', [4, 3, 1, 1]),
     (''output_norm.weight'', [4, 1, 1, 1]),
     (''blk.0.attn_norm.weight'', [4, 1, 1, 1]),
     (''blk.0.attn_q.weight'', [4, 12, 1, 1]),
     (''blk.0.attn_k.weight'', [4, 6, 1, 1]),
     (''blk.0.attn_v.weight'', [4, 6, 1, 1]),
     (''blk.0.attn_output.weight'', [12, 4, 1, 1]),
     (''blk.0.attn_q_norm.weight'', [6, 1, 1, 1]),
     (''blk.0.attn_k_norm.weight'', [6, 1, 1, 1]),
     (''blk.0.post_attention_norm.weight'', [4, 1, 1, 1]),
     (''blk.0.ffn_norm.weight'', [4, 1, 1, 1]),
     (''blk.0.post_ffw_norm.weight'', [4, 1, 1, 1]),
     (''blk.0.ffn_gate.weight'', [4, 8, 1, 1]),
     (''blk.0.ffn_up.weight'', [4, 8, 1, 1]),
     (''blk.0.ffn_down.weight'', [8, 4, 1, 1])]"

definition demo_gemma_kv :: "(string \<times> gguf_value) list" where
  "demo_gemma_kv = [(''general.architecture'', KvString ''gemma3''), (''gemma3.block_count'', KvU32 1),
     (''gemma3.embedding_length'', KvU32 4), (''gemma3.attention.head_count'', KvU32 2),
     (''gemma3.attention.head_count_kv'', KvU32 1), (''gemma3.feed_forward_length'', KvU32 8),
     (''gemma3.context_length'', KvU32 16), (''gemma3.attention.key_length'', KvU32 6),
     (''gemma3.attention.value_length'', KvU32 6), (''gemma3.pooling_type'', KvU32 3),
     (''gemma3.attention.key_length_scale'', KvF32 f32_one),
     (''tokenizer.ggml.tokens'', KvStrings [''<pad>'', ''<bos>'', ''a''])]"

definition demo_gemma_file :: gguf_file where
  "demo_gemma_file = \<lparr>gf_kv = map_of demo_gemma_kv,
     gf_tensor = (\<lambda>n. map_option (\<lambda>_. \<lparr>ge_index = 0, ge_type = 0, ge_size = 16, ge_offset = 0\<rparr>) (map_of demo_gemma_tensors n)),
     gf_meta = map_of demo_gemma_tensors\<rparr>"

definition demo_gemma_params :: arch_params where
  "demo_gemma_params = \<lparr>ap_name = ''gemma3'', ap_n_layer = 1, ap_n_embed = 4, ap_n_head = 2, ap_n_ff = 8, ap_n_vocab = 3,
     ap_max_seq_len = 16, ap_norm_eps = f32_1e_6, ap_head_dim = 6, ap_n_head_kv = 1, ap_rope_freq_base = f32_1e6,
     ap_causal = True\<rparr>"

lemmas f32_positive_simps = f32_positive_def f32_isfinite_def f32_isnan_def f32_exponent_def f32_mantissa_def

lemma demo_gemma_scan: "scan_gemma_params demo_gemma_file = Inr demo_gemma_params"
  by (simp add: scan_gemma_params_def demo_gemma_file_def demo_gemma_kv_def demo_gemma_params_def read_str_def
      read_u32_as_int_def u32_as_int_def read_f32_or_def require_kv_def scan_vocab_size_def
      array_length_def INT32_MAX_def f32_positive_simps f32_1e_6_def f32_1e6_def)

lemma demo_gemma_extras: "gemma_extras g demo_gemma_file demo_gemma_params f32_one PoolLast"
  by (simp add: gemma_extras_def demo_gemma_file_def demo_gemma_kv_def demo_gemma_params_def key_f32_or_def
      key_u32_def key_u32_or_def pooling_number_def f32_positive_simps f32_one_def)

lemma demo_gemma_required: "\<forall>(name, s)\<in>set (gemma_required demo_gemma_params). has_tensor demo_gemma_file name s"
proof -
  have blk: "layer_tensor_name 0 suffix = ''blk.0.'' @ suffix" for suffix
  proof -
    have "int_digits 0 = ''0''" by code_simp
    then show ?thesis by (simp add: layer_tensor_name_def)
  qed
  have t: "has_tensor demo_gemma_file n s \<longleftrightarrow> (\<exists>ne. map_of demo_gemma_tensors n = Some ne \<and> map ((!) ne) [0, 1, 2, 3] = s)" for n s
    by (auto simp: has_tensor_def demo_gemma_file_def)
  show ?thesis unfolding gemma_required_iff unfolding t
    by (simp add: demo_gemma_params_def gemma_layer_shape_table_def blk demo_gemma_tensors_def)
qed

theorem scan_gemma_accepts_witness:
  "scan_gemma3 shape_ggml demo_gemma_file = Inr (gemma_manifest_at shape_ggml demo_gemma_file demo_gemma_params f32_one PoolLast)
   \<and> gemma_in_range demo_gemma_params"
proof -
  let ?m = "gemma_manifest_at shape_ggml demo_gemma_file demo_gemma_params f32_one PoolLast"
  have "scan_gemma3 shape_ggml demo_gemma_file = Inr ?m"
    using scan_gemma_accepts [of shape_ggml demo_gemma_file ?m] demo_gemma_scan demo_gemma_extras demo_gemma_required
    unfolding scan_gemma_params_iff by blast
  with scan_gemma_accepts [of shape_ggml demo_gemma_file ?m] show ?thesis
    by (simp add: gemma_manifest_at_def)
qed

end
