(* ===== verification/Registry.thy ===== *)
theory Registry
  imports BertArch Gemma3Arch
begin

text \<open>
  The registry of model families (\<open>src/arch/registry.cpp\<close>): which scanner a file is given to,
  and the virtual functions of \<open>ModelArch\<close> as dispatch over the two families.
\<close>

subsection \<open>\<open>create_model_arch\<close>\<close>

datatype arch_manifest = BertManifest model_manifest | GemmaManifest gemma_manifest

text \<open>From open metadata contexts.\<close>

definition create_model_arch :: "'t ggml \<Rightarrow> gguf_file option \<Rightarrow> scan_error + arch_manifest" where
  "create_model_arch g file =
     (case file of None \<Rightarrow> Inl NoContexts
      | Some f \<Rightarrow>
          (case gf_kv f ''general.architecture'' of
             Some (KvString arch) \<Rightarrow>
               if arch = ''bert'' then bindE (scan_bert f) (\<lambda>m. Inr (BertManifest m))
               else if arch = ''gemma3'' then bindE (scan_gemma3 g f) (\<lambda>m. Inr (GemmaManifest m))
               else if arch = ''eurobert'' then Inl (RecognizedNotImplemented arch)
               else Inl (UnsupportedArchitecture arch)
           | _ \<Rightarrow> Inl NoArchitectureString))"

text \<open>From a path. \<open>init path\<close> is what \<open>gguf_init_from_file\<close> parses, the same at every call.\<close>

definition peek_architecture :: "(string \<Rightarrow> gguf_file option) \<Rightarrow> string \<Rightarrow> scan_error + string" where
  "peek_architecture init path =
     (case init path of None \<Rightarrow> Inl (OpenFailed path)
      | Some f \<Rightarrow>
          (let arch = (case gf_kv f ''general.architecture'' of Some (KvString s) \<Rightarrow> s | _ \<Rightarrow> [])
           in if arch = [] then Inl NoArchitectureString else Inr arch))"

definition scan_gguf :: "(string \<Rightarrow> gguf_file option) \<Rightarrow> string \<Rightarrow> scan_error + model_manifest" where
  "scan_gguf init path = (case init path of None \<Rightarrow> Inl (OpenFailed path) | Some f \<Rightarrow> scan_bert f)"

definition scan_gemma3_path :: "'t ggml \<Rightarrow> (string \<Rightarrow> gguf_file option) \<Rightarrow> string \<Rightarrow> scan_error + gemma_manifest" where
  "scan_gemma3_path g init path = (case init path of None \<Rightarrow> Inl (OpenFailed path) | Some f \<Rightarrow> scan_gemma3 g f)"

definition create_model_arch_path ::
  "'t ggml \<Rightarrow> (string \<Rightarrow> gguf_file option) \<Rightarrow> string \<Rightarrow> scan_error + arch_manifest" where
  "create_model_arch_path g init path =
     bindE (peek_architecture init path) (\<lambda>arch.
       if arch = ''bert'' then bindE (scan_gguf init path) (\<lambda>m. Inr (BertManifest m))
       else if arch = ''gemma3'' then bindE (scan_gemma3_path g init path) (\<lambda>m. Inr (GemmaManifest m))
       else if arch = ''eurobert'' then Inl (RecognizedNotImplemented arch)
       else Inl (UnsupportedArchitecture arch))"

text \<open>
  Opening by path and opening from contexts build the same model. For every file the two
  overloads of \<open>create_model_arch\<close> return the same manifest or report the same error, with one
  exception: an empty architecture string is "no architecture" for the first and an
  unsupported architecture for the second. A file that cannot be opened is reported as such.
\<close>

theorem create_model_arch_same:
  "create_model_arch_path g init path =
     (case init path of None \<Rightarrow> Inl (OpenFailed path)
      | Some f \<Rightarrow> if gf_kv f ''general.architecture'' = Some (KvString []) then Inl NoArchitectureString
                 else create_model_arch g (Some f))"
  by (auto simp: create_model_arch_path_def create_model_arch_def peek_architecture_def scan_gguf_def
      scan_gemma3_path_def split: option.split gguf_value.split)

subsection \<open>The virtual functions\<close>

datatype 't model_arch = BertModel "'t bert_model" | GemmaModel "'t gemma_model"

definition arch_params_of :: "'t model_arch \<Rightarrow> arch_params" where
  "arch_params_of a = (case a of BertModel m \<Rightarrow> bert_params (bm_manifest m) | GemmaModel m \<Rightarrow> gemma_params m)"

definition arch_inputs :: "'t model_arch \<Rightarrow> input_requirements" where
  "arch_inputs a = (case a of BertModel _ \<Rightarrow> bert_inputs | GemmaModel _ \<Rightarrow> gemma_inputs)"

definition arch_embedding_inputs :: "'t model_arch \<Rightarrow> input_requirements" where
  "arch_embedding_inputs a = (case a of BertModel _ \<Rightarrow> bert_embedding_inputs | GemmaModel _ \<Rightarrow> no_requirements)"

definition arch_default_pooling :: "'t model_arch \<Rightarrow> pool_type" where
  "arch_default_pooling a = (case a of BertModel m \<Rightarrow> bert_default_pooling (bm_manifest m)
     | GemmaModel m \<Rightarrow> gm_pooling (gemma_manifest_of m))"

definition bind_weights :: "arch_manifest \<Rightarrow> (string \<Rightarrow> 't option) \<Rightarrow> arch_error + 't model_arch" where
  "bind_weights m model_ctx =
     (case m of BertManifest b \<Rightarrow> bindE (bert_bind_weights b model_ctx) (\<lambda>x. Inr (BertModel x))
      | GemmaManifest b \<Rightarrow> bindE (gemma_bind_weights b model_ctx) (\<lambda>x. Inr (GemmaModel x)))"

definition arch_embedding_phase :: "'t ggml \<Rightarrow> 't model_arch \<Rightarrow> 't graph_inputs \<Rightarrow> arch_error + 't" where
  "arch_embedding_phase g a inp = (case a of BertModel m \<Rightarrow> bert_embedding_phase g m inp
     | GemmaModel m \<Rightarrow> gemma_embedding_phase g m inp)"

definition arch_block :: "'t ggml \<Rightarrow> 't model_arch \<Rightarrow> 't graph_inputs \<Rightarrow> int \<Rightarrow> 't \<Rightarrow> arch_error + 't" where
  "arch_block g a inp li x = (case a of BertModel m \<Rightarrow> bert_block g m inp li x
     | GemmaModel m \<Rightarrow> gemma_block g m inp li x)"

definition arch_final_phase :: "'t ggml \<Rightarrow> 't model_arch \<Rightarrow> 't \<Rightarrow> 't" where
  "arch_final_phase g a x = (case a of BertModel m \<Rightarrow> bert_final_phase g m x
     | GemmaModel m \<Rightarrow> gemma_final_phase g m x)"

definition arch_build_graph :: "'t ggml \<Rightarrow> 't model_arch \<Rightarrow> 't graph_inputs \<Rightarrow> arch_error + 't" where
  "arch_build_graph g a inp = (case a of BertModel m \<Rightarrow> bert_build_graph g m inp
     | GemmaModel m \<Rightarrow> gemma_build_graph g m inp)"

definition arch_streaming_units :: "'t ggml \<Rightarrow> 't model_arch \<Rightarrow> int \<Rightarrow> arch_error + 't layer_plan" where
  "arch_streaming_units g a layer = (case a of BertModel m \<Rightarrow> bert_streaming_units g m layer
     | GemmaModel m \<Rightarrow> gemma_streaming_units g m layer)"

definition arch_common_plan :: "'t model_arch \<Rightarrow> common_plan" where
  "arch_common_plan a = (case a of BertModel _ \<Rightarrow> bert_common_plan | GemmaModel _ \<Rightarrow> gemma_common_plan)"

text \<open>The eager graph is the three phases for either family.\<close>

lemma arch_build_graph_phases:
  "arch_build_graph g a inp =
     bindE (arch_embedding_phase g a inp) (\<lambda>x.
     bindE (foldE (\<lambda>li. arch_block g a inp (int li)) [0 ..< nat (ap_n_layer (arch_params_of a))] x) (\<lambda>x.
     Inr (arch_final_phase g a x)))"
proof -
  have "arch_block g (BertModel m) inp li = bert_block g m inp li"
    "arch_block g (GemmaModel k) inp li = gemma_block g k inp li" for m k li
    by (simp_all add: arch_block_def fun_eq_iff)
  then show ?thesis
    by (cases a) (simp_all add: arch_build_graph_def arch_embedding_phase_def arch_final_phase_def
        arch_params_of_def bert_build_graph_def gemma_build_graph_def)
qed

text \<open>A model of either family has the streamed interface.\<close>

interpretation model: streamed_family "arch_streaming_units g" "arch_block g" "\<lambda>a. ap_n_layer (arch_params_of a)" for g
proof
  fix l :: int and a :: "'a model_arch"
  assume "l < 0 \<or> ap_n_layer (arch_params_of a) \<le> l"
  then show "arch_streaming_units g a l = Inl LayerOutOfRange"
    by (cases a) (auto simp: arch_streaming_units_def arch_params_of_def bert.units_outside gemma.units_outside)
next
  fix l :: int and a :: "'a model_arch"
  assume "0 \<le> l" and "l < ap_n_layer (arch_params_of a)"
  then show "\<exists>us. arch_streaming_units g a l = Inr \<lparr>lp_units = us, lp_input_slot = ''x'', lp_output_slot = ''x''\<rparr> \<and> plan_ok us"
    by (cases a) (simp_all add: arch_streaming_units_def arch_params_of_def bert.units_inside gemma.units_inside)
next
  fix l gi plan env and x :: 'a and a :: "'a model_arch"
  assume "0 \<le> l" and "l < ap_n_layer (arch_params_of a)" and "arch_streaming_units g a l = Inr plan"
    and "env ''x'' = Some x"
  then show "case arch_block g a gi l x of
      Inl e \<Rightarrow> \<exists>e'. apply_units gi (lp_units plan) env = Inl e'
    | Inr y \<Rightarrow> \<exists>env'. apply_units gi (lp_units plan) env = Inr env' \<and> env' ''x'' = Some y"
  proof (cases a)
    case (BertModel m)
    with bert.units_block [where env = env and l = l and m = m and g = g and gi = gi]
    show ?thesis using \<open>0 \<le> l\<close> \<open>l < _\<close> \<open>_ = Inr plan\<close> \<open>env ''x'' = Some x\<close>
      by (simp add: arch_streaming_units_def arch_params_of_def arch_block_def)
  next
    case (GemmaModel m)
    with gemma.units_block [where env = env and l = l and m = m and g = g and gi = gi]
    show ?thesis using \<open>0 \<le> l\<close> \<open>l < _\<close> \<open>_ = Inr plan\<close> \<open>env ''x'' = Some x\<close>
      by (simp add: arch_streaming_units_def arch_params_of_def arch_block_def)
  qed
qed

end
