(* ===== verification/MappedStore.thy ===== *)
theory MappedStore
  imports Gguf
begin

text \<open>
  The owner of a mapped model file (\<open>src/mapped_weight_store.cpp\<close>): checked size arithmetic, the
  identity of the opened file, the validation of every tensor's byte range, and the publication
  of data pointers into the mapping. The system calls and ggml's metadata are the argument
  \<open>mapped_os\<close>; each \<open>fstat\<close> or \<open>stat\<close> has a serial number, so the file may change between two.
\<close>

subsection \<open>Errors and checked arithmetic\<close>

datatype mapped_error =
    SizeOverflow string
  | InvalidAlignment string
  | RangeOutsideFile string
  | EmptyFile
  | SystemCallFailed string
  | NotRegularFile
  | IdentityChanged
  | BadFileAlignment
  | BadCpuAlignment
  | MappingNotAligned
  | DataSectionNotAligned
  | NoTensors
  | EmptyTensorName
  | DuplicateTensorName string
  | MissingMetadata string
  | TensorAlreadyOwned string
  | UnsupportedType string
  | TypeMismatch string
  | RowNotDivisible string
  | ByteSizeMismatch string
  | NonCanonicalOffset string
  | AddressNotAligned string
  | ParseFailed
  | AlreadyBound
  | NotClassified string

definition checked_add_size :: "u64 \<Rightarrow> u64 \<Rightarrow> string \<Rightarrow> mapped_error + u64" where
  "checked_add_size lhs rhs subject =
     (if rhs > - 1 - lhs then Inl (SizeOverflow subject) else Inr (lhs + rhs))"

definition checked_pad :: "u64 \<Rightarrow> u64 \<Rightarrow> string \<Rightarrow> mapped_error + u64" where
  "checked_pad val alignment subject =
     (if alignment = 0 \<or> alignment AND (alignment - 1) \<noteq> 0 then Inl (InvalidAlignment subject)
      else (let pad_mask = alignment - 1 in
            bindE (checked_add_size val pad_mask subject) (\<lambda>padded. Inr (padded AND NOT pad_mask))))"

definition validate_range :: "u64 \<Rightarrow> u64 \<Rightarrow> u64 \<Rightarrow> u64 \<Rightarrow> string \<Rightarrow> mapped_error + unit" where
  "validate_range file_size data_offset tensor_offset nbytes subject =
     bindE (checked_add_size data_offset tensor_offset subject) (\<lambda>start.
     bindE (checked_add_size start nbytes subject) (\<lambda>finish.
     guardE (\<not> (start > file_size \<or> finish > file_size)) (RangeOutsideFile subject)))"

subsection \<open>What the system and the metadata provide\<close>

record file_stat =
  fs_regular :: bool
  fs_dev :: u64
  fs_ino :: u64
  fs_size :: int

record file_identity =
  fi_device :: u64
  fi_inode :: u64
  fi_size :: u64

text \<open>The tensor types the mapped loader knows by name, and every other type of ggml.\<close>

datatype ggml_type = TypeF32 | TypeF16 | TypeQ8_0 | TypeQ4_0 | TypeQ4_K | TypeOther nat

text \<open>A tensor of the metadata context, and an entry of the file's directory.\<close>

record meta_tensor =
  mt_owned :: bool
  mt_type :: ggml_type
  mt_ne0 :: int
  mt_ne1 :: int
  mt_nb1 :: u64
  mt_nbytes :: u64

record raw_tensor =
  rt_name :: string
  rt_type :: ggml_type
  rt_size :: u64
  rt_offset :: u64

record mapped_os =
  mo_open :: "string \<Rightarrow> bool"
  mo_fstat :: "nat \<Rightarrow> file_stat option"
  mo_stat :: "nat \<Rightarrow> file_stat option"
  mo_mmap :: "u64 option"
  mo_dup :: bool
  mo_fdopen :: bool
  mo_parsed :: bool
  mo_alignment :: "gguf_value option"
  mo_cpu_alignment :: u64
  mo_data_offset :: u64
  mo_tensors :: "raw_tensor list"
  mo_meta :: "string \<Rightarrow> meta_tensor option"
  mo_block_size :: "ggml_type \<Rightarrow> int"

definition supported_mapped_type :: "ggml_type \<Rightarrow> bool" where
  "supported_mapped_type t =
     (case t of TypeF32 \<Rightarrow> True | TypeF16 \<Rightarrow> True | TypeQ8_0 \<Rightarrow> True | TypeQ4_0 \<Rightarrow> True | TypeQ4_K \<Rightarrow> True
      | TypeOther _ \<Rightarrow> False)"

definition gguf_alignment :: "mapped_os \<Rightarrow> mapped_error + u64" where
  "gguf_alignment os =
     (case mo_alignment os of
        None \<Rightarrow> Inr 32
      | Some (KvU32 v) \<Rightarrow>
          (let result = ucast v :: u64 in
           if result = 0 \<or> result AND (result - 1) \<noteq> 0 then Inl BadFileAlignment else Inr result)
      | Some _ \<Rightarrow> Inl BadFileAlignment)"

subsection \<open>The identity of the opened file\<close>

definition identity_from_stat :: "file_stat \<Rightarrow> mapped_error + file_identity" where
  "identity_from_stat st =
     (if fs_size st \<le> 0 then Inl EmptyFile
      else if fs_size st > int SIZE_MAX then Inl (SizeOverflow ''file'')
      else Inr \<lparr>fi_device = fs_dev st, fi_inode = fs_ino st, fi_size = word_of_int (fs_size st)\<rparr>)"

record borrow =
  bw_name :: string
  bw_offset :: u64
  bw_nbytes :: u64
  bw_meta :: meta_tensor
  bw_data :: "u64 option"

text \<open>\<open>MappedWeightStore::Impl\<close>; \<open>ms_clock\<close> counts the system calls that look at the file.\<close>

record mapped_store =
  ms_path :: string
  ms_identity :: file_identity
  ms_mapping :: u64
  ms_mapping_size :: u64
  ms_data_offset :: u64
  ms_borrows :: "borrow list"
  ms_bound :: bool
  ms_clock :: nat

type_synonym 'a store_action = "(mapped_store, mapped_error, 'a) action"

definition tick :: "nat store_action" where
  "tick = bindM (getM ms_clock) (\<lambda>n. bindM (modifyM (\<lambda>s. s\<lparr>ms_clock := n + 1\<rparr>)) (\<lambda>_. retM n))"

definition stat_with :: "(nat \<Rightarrow> file_stat option) \<Rightarrow> string \<Rightarrow> file_identity store_action" where
  "stat_with call name =
     bindM tick (\<lambda>n.
       case call n of
         None \<Rightarrow> throwM (SystemCallFailed name)
       | Some st \<Rightarrow> if \<not> fs_regular st then throwM NotRegularFile
                    else liftM (\<lambda>e. e) (identity_from_stat st))"

definition stat_fd :: "mapped_os \<Rightarrow> file_identity store_action" where
  "stat_fd os = stat_with (mo_fstat os) ''fstat''"

definition stat_path :: "mapped_os \<Rightarrow> file_identity store_action" where
  "stat_path os = stat_with (mo_stat os) ''stat''"

definition verify_identity :: "mapped_os \<Rightarrow> unit store_action" where
  "verify_identity os =
     bindM (stat_fd os) (\<lambda>current_fd.
     bindM (stat_path os) (\<lambda>current_path.
     bindM (getM ms_identity) (\<lambda>ident.
       if ident \<noteq> current_fd \<or> ident \<noteq> current_path then throwM IdentityChanged else retM ())))"

subsection \<open>Validation of the tensors\<close>

text \<open>The loop state: names seen, the offset the next tensor must have, the borrows so far.\<close>

record layout_state =
  ly_names :: "string set"
  ly_expected :: u64
  ly_borrows :: "borrow list"

definition validate_tensor ::
  "mapped_os \<Rightarrow> u64 \<Rightarrow> u64 \<Rightarrow> raw_tensor \<Rightarrow> layout_state \<Rightarrow> mapped_error + layout_state" where
  "validate_tensor os file_alignment mapping_size raw s =
    (let name = rt_name raw; cpu_alignment = mo_cpu_alignment os; data_offset = mo_data_offset os in
     bindE (guardE (name \<noteq> []) EmptyTensorName) (\<lambda>_.
     bindE (guardE (name \<notin> ly_names s) (DuplicateTensorName name)) (\<lambda>_.
     case mo_meta os name of None \<Rightarrow> Inl (MissingMetadata name)
     | Some tensor \<Rightarrow>
     bindE (guardE (\<not> mt_owned tensor) (TensorAlreadyOwned name)) (\<lambda>_.
     bindE (guardE (supported_mapped_type (rt_type raw)) (UnsupportedType name)) (\<lambda>_.
     bindE (guardE (mt_type tensor = rt_type raw) (TypeMismatch name)) (\<lambda>_.
     let block_size = mo_block_size os (rt_type raw) in
     bindE (guardE (\<not> (block_size \<le> 0 \<or> mt_ne0 tensor \<le> 0 \<or> mt_ne0 tensor mod block_size \<noteq> 0))
       (RowNotDivisible name)) (\<lambda>_.
     let nbytes = mt_nbytes tensor; relative_offset = rt_offset raw in
     bindE (guardE (\<not> (nbytes = 0 \<or> nbytes \<noteq> rt_size raw)) (ByteSizeMismatch name)) (\<lambda>_.
     bindE (guardE (\<not> (relative_offset \<noteq> ly_expected s \<or> relative_offset mod file_alignment \<noteq> 0))
       (NonCanonicalOffset name)) (\<lambda>_.
     bindE (validate_range mapping_size data_offset relative_offset nbytes name) (\<lambda>_.
     bindE (checked_add_size data_offset relative_offset name) (\<lambda>absolute_offset.
     bindE (guardE (absolute_offset mod cpu_alignment = 0) (AddressNotAligned name)) (\<lambda>_.
     bindE (checked_pad nbytes file_alignment name) (\<lambda>padded.
     bindE (checked_add_size (ly_expected s) padded name) (\<lambda>expected.
     Inr \<lparr>ly_names = insert name (ly_names s), ly_expected = expected,
          ly_borrows = ly_borrows s @ [\<lparr>bw_name = name, bw_offset = absolute_offset, bw_nbytes = nbytes,
            bw_meta = tensor, bw_data = None\<rparr>]\<rparr>))))))))))))))"

definition validate_tensor_metadata :: "mapped_os \<Rightarrow> u64 \<Rightarrow> u64 \<Rightarrow> mapped_error + borrow list" where
  "validate_tensor_metadata os mapping mapping_size =
     bindE (gguf_alignment os) (\<lambda>file_alignment.
     let cpu_alignment = mo_cpu_alignment os; data_offset = mo_data_offset os in
     bindE (guardE (\<not> (cpu_alignment = 0 \<or> cpu_alignment AND (cpu_alignment - 1) \<noteq> 0)) BadCpuAlignment) (\<lambda>_.
     bindE (guardE (mapping mod cpu_alignment = 0) MappingNotAligned) (\<lambda>_.
     bindE (guardE (\<not> (data_offset mod file_alignment \<noteq> 0 \<or> data_offset mod cpu_alignment \<noteq> 0))
       DataSectionNotAligned) (\<lambda>_.
     bindE (guardE (mo_tensors os \<noteq> []) NoTensors) (\<lambda>_.
     bindE (foldE (validate_tensor os file_alignment mapping_size) (mo_tensors os)
              \<lparr>ly_names = {}, ly_expected = 0, ly_borrows = []\<rparr>) (\<lambda>s.
     Inr (ly_borrows s)))))))"

subsection \<open>Opening, binding, preparing\<close>

definition new_store :: "string \<Rightarrow> mapped_store" where
  "new_store path = \<lparr>ms_path = path, ms_identity = \<lparr>fi_device = 0, fi_inode = 0, fi_size = 0\<rparr>, ms_mapping = 0,
     ms_mapping_size = 0, ms_data_offset = 0, ms_borrows = [], ms_bound = False, ms_clock = 0\<rparr>"

definition require :: "bool \<Rightarrow> mapped_error \<Rightarrow> unit store_action" where
  "require ok e = (if ok then retM () else throwM e)"

definition open_store :: "mapped_os \<Rightarrow> unit store_action" where
  "open_store os =
     bindM (getM ms_path) (\<lambda>path.
     bindM (require (mo_open os path) (SystemCallFailed ''open'')) (\<lambda>_.
     bindM (stat_fd os) (\<lambda>ident.
     bindM (modifyM (\<lambda>s. s\<lparr>ms_identity := ident\<rparr>)) (\<lambda>_.
     bindM (stat_path os) (\<lambda>path_identity.
     bindM (require (ident = path_identity) IdentityChanged) (\<lambda>_.
     bindM (modifyM (\<lambda>s. s\<lparr>ms_mapping_size := fi_size ident\<rparr>)) (\<lambda>_.
     case mo_mmap os of None \<Rightarrow> throwM (SystemCallFailed ''mmap'')
     | Some base \<Rightarrow>
     bindM (modifyM (\<lambda>s. s\<lparr>ms_mapping := base\<rparr>)) (\<lambda>_.
     bindM (require (mo_dup os) (SystemCallFailed ''dup'')) (\<lambda>_.
     bindM (require (mo_fdopen os) (SystemCallFailed ''fdopen'')) (\<lambda>_.
     bindM (require (mo_parsed os) ParseFailed) (\<lambda>_.
     bindM (verify_identity os) (\<lambda>_.
     bindM (liftM (\<lambda>e. e) (validate_tensor_metadata os base (fi_size ident))) (\<lambda>borrows.
     bindM (modifyM (\<lambda>s. s\<lparr>ms_data_offset := mo_data_offset os, ms_borrows := borrows\<rparr>)) (\<lambda>_.
     verify_identity os))))))))))))))"

text \<open>Publishing one pointer, and taking all of them back.\<close>

definition publish :: "nat \<Rightarrow> unit store_action" where
  "publish i =
     bindM (getM id) (\<lambda>s.
       let b = ms_borrows s ! i in
       if bw_data b \<noteq> None \<or> mt_owned (bw_meta b) then throwM (TensorAlreadyOwned (bw_name b))
       else modifyM (\<lambda>s. s\<lparr>ms_borrows := (ms_borrows s)[i := b\<lparr>bw_data := Some (ms_mapping s + bw_offset b)\<rparr>]\<rparr>))"

definition clear_data :: "mapped_store \<Rightarrow> mapped_store" where
  "clear_data s = s\<lparr>ms_borrows := map (\<lambda>b. b\<lparr>bw_data := None\<rparr>) (ms_borrows s)\<rparr>"

text \<open>The destructor: no tensor keeps a pointer into the mapping, which is released.\<close>

definition close_store :: "mapped_store \<Rightarrow> mapped_store" where
  "close_store s = (clear_data s)\<lparr>ms_mapping := 0, ms_bound := False\<rparr>"

definition bind_validated_tensors :: "mapped_os \<Rightarrow> unit store_action" where
  "bind_validated_tensors os =
     bindM (getM ms_bound) (\<lambda>bound.
     if bound then throwM AlreadyBound
     else bindM (verify_identity os) (\<lambda>_.
       catchM
         (bindM (bindM (getM (\<lambda>s. length (ms_borrows s))) (\<lambda>n. forM [0 ..< n] publish)) (\<lambda>_.
          bindM (verify_identity os) (\<lambda>_.
          modifyM (\<lambda>s. s\<lparr>ms_bound := True\<rparr>))))
         (\<lambda>e. bindM (modifyM clear_data) (\<lambda>_. throwM e))))"

record tensor_info =
  ti_name :: string
  ti_absolute_offset :: u64
  ti_nbytes :: u64
  ti_row_stride :: u64
  ti_row_count :: int
  ti_elements_per_row :: int
  ti_type :: ggml_type

definition tensor_infos :: "mapped_store \<Rightarrow> tensor_info list" where
  "tensor_infos s = map (\<lambda>b. \<lparr>ti_name = bw_name b, ti_absolute_offset = bw_offset b, ti_nbytes = bw_nbytes b,
     ti_row_stride = mt_nb1 (bw_meta b), ti_row_count = mt_ne1 (bw_meta b),
     ti_elements_per_row = mt_ne0 (bw_meta b), ti_type = mt_type (bw_meta b)\<rparr>) (ms_borrows s)"

definition find_tensor_info :: "mapped_store \<Rightarrow> string \<Rightarrow> mapped_error + tensor_info" where
  "find_tensor_info s name =
     (case find (\<lambda>info. ti_name info = name) (tensor_infos s) of
        None \<Rightarrow> Inl (NotClassified name) | Some info \<Rightarrow> Inr info)"

subsection \<open>Checked arithmetic\<close>

lemma checked_add_size_iff:
  "checked_add_size a b n = Inr r \<longleftrightarrow> unat a + unat b < 2 ^ 64 \<and> r = a + b"
  using add_overflow_iff [of a b] by (auto simp: checked_add_size_def not_less)

lemma checked_add_size_unat: "checked_add_size a b n = Inr r \<Longrightarrow> unat r = unat a + unat b"
  using unat_add_no_overflow [of a b] by (simp add: checked_add_size_iff)

lemma checked_pad_Inr:
  assumes "checked_pad v p n = Inr r"
  shows "0 < unat p" "unat r = round_up (unat p) (unat v)"
proof -
  have p: "p \<noteq> 0" "p AND (p - 1) = 0" using assms by (auto simp: checked_pad_def split: if_splits)
  then obtain k where k: "unat p = 2 ^ k" by (rule power_of_two_wordE)
  obtain s where s: "checked_add_size v (p - 1) n = Inr s" "r = s AND NOT (p - 1)"
    using assms p by (auto simp: checked_pad_def Let_def throwing)
  show "0 < unat p" using p(1) by (simp add: unat_gt_0)
  have "unat s = unat v + (unat p - 1)"
    using checked_add_size_unat [OF s(1)] p(1) by (simp add: unat_minus_one)
  moreover have "unat r = unat s div unat p * unat p"
    unfolding s(2) by (rule unat_and_not_pred [OF k])
  ultimately show "unat r = round_up (unat p) (unat v)" using \<open>0 < unat p\<close> by (simp add: round_up_def)
qed

lemma validate_range_iff:
  "validate_range limit d off n subject = Inr u \<longleftrightarrow> unat d + unat off + unat n \<le> unat limit"
proof
  assume "validate_range limit d off n subject = Inr u"
  then obtain a b where "checked_add_size d off subject = Inr a" "checked_add_size a n subject = Inr b" "\<not> limit < b"
    by (auto simp: validate_range_def throwing)
  then show "unat d + unat off + unat n \<le> unat limit"
    using checked_add_size_unat by (metis add.assoc not_less word_le_nat_alt)
next
  assume h: "unat d + unat off + unat n \<le> unat limit"
  have limit: "unat limit < 2 ^ 64" by (rule unat_less_u64)
  have 1: "checked_add_size d off subject = Inr (d + off)" using h limit by (simp add: checked_add_size_iff)
  have d: "unat (d + off) = unat d + unat off" by (rule checked_add_size_unat [OF 1])
  have 2: "checked_add_size (d + off) n subject = Inr (d + off + n)"
    using h limit d by (simp add: checked_add_size_iff)
  have "unat (d + off + n) = unat d + unat off + unat n" using checked_add_size_unat [OF 2] d by simp
  with h d 1 2 show "validate_range limit d off n subject = Inr u"
    by (simp add: validate_range_def word_less_nat_alt not_less)
qed

subsection \<open>The layout of a validated file\<close>

text \<open>
  Tensors that tile the data section: each starts where the padded extent of the previous one
  ends.
\<close>

fun tiled :: "nat \<Rightarrow> nat \<Rightarrow> borrow list \<Rightarrow> bool" where
  "tiled p start [] \<longleftrightarrow> True"
| "tiled p start (b # bs) \<longleftrightarrow> unat (bw_offset b) = start \<and> tiled p (start + round_up p (unat (bw_nbytes b))) bs"

definition extent :: "nat \<Rightarrow> borrow list \<Rightarrow> nat" where
  "extent p bs = (\<Sum>b\<leftarrow>bs. round_up p (unat (bw_nbytes b)))"

lemma tiled_append [simp]: "tiled p start (bs @ cs) \<longleftrightarrow> tiled p start bs \<and> tiled p (start + extent p bs) cs"
  by (induction bs arbitrary: start) (auto simp: extent_def ac_simps)

lemma extent_snoc [simp]: "extent p (bs @ [b]) = extent p bs + round_up p (unat (bw_nbytes b))"
  by (simp add: extent_def)

lemma tiled_start: "tiled p start bs \<Longrightarrow> b \<in> set bs \<Longrightarrow> start \<le> unat (bw_offset b)"
  by (induction bs arbitrary: start) fastforce+

lemma tiled_disjoint:
  "0 < p \<Longrightarrow> tiled p start bs \<Longrightarrow> i < j \<Longrightarrow> j < length bs \<Longrightarrow>
   unat (bw_offset (bs ! i)) + unat (bw_nbytes (bs ! i)) \<le> unat (bw_offset (bs ! j))"
proof (induction bs arbitrary: start i j)
  case (Cons b bs)
  show ?case
  proof (cases i)
    case 0
    then have "bs ! (j - 1) \<in> set bs" using Cons.prems by auto
    then have "start + round_up p (unat (bw_nbytes b)) \<le> unat (bw_offset (bs ! (j - 1)))"
      using tiled_start Cons.prems(2) by fastforce
    then show ?thesis using 0 Cons.prems round_up_ge [OF Cons.prems(1), of "unat (bw_nbytes b)"]
      by (simp add: nth_Cons')
  next
    case (Suc k)
    then obtain l where "j = Suc l" "k < l" using Cons.prems(3) by (cases j) auto
    with Suc Cons show ?thesis by auto
  qed
qed simp

definition borrow_fits :: "mapped_os \<Rightarrow> u64 \<Rightarrow> borrow \<Rightarrow> bool" where
  "borrow_fits os limit b \<longleftrightarrow> bw_data b = None \<and> \<not> mt_owned (bw_meta b) \<and> 0 < unat (bw_nbytes b)
     \<and> unat (bw_offset b) + unat (bw_nbytes b) \<le> unat limit \<and> bw_offset b mod mo_cpu_alignment os = 0
     \<and> supported_mapped_type (mt_type (bw_meta b)) \<and> mo_meta os (bw_name b) = Some (bw_meta b)
     \<and> bw_nbytes b = mt_nbytes (bw_meta b)"

definition layout_ok :: "mapped_os \<Rightarrow> u64 \<Rightarrow> u64 \<Rightarrow> layout_state \<Rightarrow> bool" where
  "layout_ok os p limit s \<longleftrightarrow> ly_names s = set (map bw_name (ly_borrows s)) \<and> distinct (map bw_name (ly_borrows s))
     \<and> (\<forall>b\<in>set (ly_borrows s). borrow_fits os limit b) \<and> unat (ly_expected s) = extent (unat p) (ly_borrows s)
     \<and> tiled (unat p) (unat (mo_data_offset os)) (ly_borrows s)"

declare mod_0_imp_dvd [rule del]

lemma validate_tensor_layout:
  assumes "validate_tensor os p limit raw s = Inr t" and "layout_ok os p limit s"
  shows "layout_ok os p limit t" "map bw_name (ly_borrows t) = map bw_name (ly_borrows s) @ [rt_name raw]" "0 < unat p"
proof -
  obtain tensor abs padded expected where v:
    "rt_name raw \<notin> ly_names s" "mo_meta os (rt_name raw) = Some tensor" "\<not> mt_owned tensor"
    "supported_mapped_type (rt_type raw)" "mt_type tensor = rt_type raw" "mt_nbytes tensor = rt_size raw \<and> rt_size raw \<noteq> 0" "rt_offset raw = ly_expected s"
    "unat (mo_data_offset os) + unat (ly_expected s) + unat (rt_size raw) \<le> unat limit"
    "checked_add_size (mo_data_offset os) (ly_expected s) (rt_name raw) = Inr abs"
    "abs mod mo_cpu_alignment os = 0" "checked_pad (rt_size raw) p (rt_name raw) = Inr padded"
    "checked_add_size (ly_expected s) padded (rt_name raw) = Inr expected"
    "t = \<lparr>ly_names = insert (rt_name raw) (ly_names s), ly_expected = expected,
          ly_borrows = ly_borrows s @ [\<lparr>bw_name = rt_name raw, bw_offset = abs, bw_nbytes = rt_size raw,
            bw_meta = tensor, bw_data = None\<rparr>]\<rparr>"
    using assms(1) unfolding validate_tensor_def Let_def
    by (auto simp: throwing validate_range_iff split: option.splits)
  have abs: "unat abs = unat (mo_data_offset os) + unat (ly_expected s)"
    using checked_add_size_unat [OF v(9)] by simp
  have exp: "unat expected = unat (ly_expected s) + round_up (unat p) (unat (rt_size raw))"
    using checked_add_size_unat [OF v(12)] checked_pad_Inr(2) [OF v(11)] by simp
  show "layout_ok os p limit t"
    using assms(2) v abs exp by (auto simp: layout_ok_def borrow_fits_def unat_gt_0)
  show "map bw_name (ly_borrows t) = map bw_name (ly_borrows s) @ [rt_name raw]" by (simp add: v(13))
  show "0 < unat p" by (rule checked_pad_Inr(1) [OF v(11)])
qed

lemma validate_tensors_layout:
  assumes "foldE (validate_tensor os p limit) raws s = Inr t" and "layout_ok os p limit s"
  shows "layout_ok os p limit t \<and> map bw_name (ly_borrows t) = map bw_name (ly_borrows s) @ map rt_name raws
    \<and> (raws \<noteq> [] \<longrightarrow> 0 < unat p)"
  using assms
proof (induction raws arbitrary: s)
  case (Cons raw raws)
  then obtain u where u: "validate_tensor os p limit raw s = Inr u" "foldE (validate_tensor os p limit) raws u = Inr t"
    by (auto simp: throwing)
  note step = validate_tensor_layout [OF u(1) Cons.prems(2)]
  from Cons.IH [OF u(2) step(1)] step show ?case by simp
qed simp

text \<open>
  C38: a mapped file that passes validation has a sound layout. The borrows are the tensors of
  the directory in file order under distinct names; they tile the data section, each starting
  where the padded extent of the one before ends; so no two overlap, every byte of every tensor
  lies inside the mapping, and every tensor is aligned for the CPU and of a supported type.
  No data pointer has been published yet.
\<close>

theorem validated_layout:
  assumes "validate_tensor_metadata os mapping mapping_size = Inr borrows"
  shows "\<exists>p. gguf_alignment os = Inr p \<and> is_power_of_two p
    \<and> tiled (unat p) (unat (mo_data_offset os)) borrows
    \<and> map bw_name borrows = map rt_name (mo_tensors os) \<and> distinct (map bw_name borrows)
    \<and> (\<forall>b\<in>set borrows. borrow_fits os mapping_size b)
    \<and> (\<forall>i j. i < j \<and> j < length borrows \<longrightarrow>
         unat (bw_offset (borrows ! i)) + unat (bw_nbytes (borrows ! i)) \<le> unat (bw_offset (borrows ! j)))"
proof -
  obtain p s where p: "gguf_alignment os = Inr p" and ne: "mo_tensors os \<noteq> []"
    and f: "foldE (validate_tensor os p mapping_size) (mo_tensors os)
              \<lparr>ly_names = {}, ly_expected = 0, ly_borrows = []\<rparr> = Inr s" and b: "borrows = ly_borrows s"
    using assms unfolding validate_tensor_metadata_def Let_def by (auto simp: throwing)
  have "layout_ok os p mapping_size \<lparr>ly_names = {}, ly_expected = 0, ly_borrows = []\<rparr>"
    by (simp add: layout_ok_def extent_def)
  from validate_tensors_layout [OF f this] ne
  have ok: "layout_ok os p mapping_size s" "map bw_name (ly_borrows s) = map rt_name (mo_tensors os)" "0 < unat p"
    by simp_all
  have "is_power_of_two p"
    using p by (auto simp: gguf_alignment_def is_power_of_two_def Let_def split: option.splits gguf_value.splits if_splits)
  with ok p b tiled_disjoint [OF ok(3)] show ?thesis by (auto simp: layout_ok_def)
qed

subsection \<open>Publishing the data pointers\<close>

definition unpublished :: "mapped_store \<Rightarrow> bool" where
  "unpublished s \<longleftrightarrow> (\<forall>b\<in>set (ms_borrows s). bw_data b = None)"

definition published_borrow :: "mapped_store \<Rightarrow> borrow \<Rightarrow> borrow" where
  "published_borrow s b = b\<lparr>bw_data := Some (ms_mapping s + bw_offset b)\<rparr>"

definition with_clock :: "mapped_store \<Rightarrow> nat \<Rightarrow> mapped_store" where
  "with_clock s n = s\<lparr>ms_clock := n\<rparr>"

lemma with_clock_fields [simp]:
  "ms_borrows (with_clock s n) = ms_borrows s" "ms_bound (with_clock s n) = ms_bound s"
  "ms_mapping (with_clock s n) = ms_mapping s" "ms_identity (with_clock s n) = ms_identity s"
  "with_clock (with_clock s n) m = with_clock s m"
  by (simp_all add: with_clock_def)

lemma stat_with_clock: "stat_with call name s = (r, t) \<Longrightarrow> \<exists>n. t = with_clock s n"
  by (auto simp: stat_with_def tick_def bindM_run with_clock_def liftM_def
      split: option.splits if_splits sum.splits prod.splits)

text \<open>Checking the identity changes nothing but the clock.\<close>

lemma verify_identity_clock:
  assumes "verify_identity os s = (r, t)" shows "\<exists>n. t = with_clock s n"
proof -
  obtain r1 s1 where 1: "stat_fd os s = (r1, s1)" by (cases "stat_fd os s")
  obtain n1 where n1: "s1 = with_clock s n1" using stat_with_clock [OF 1 [unfolded stat_fd_def]] by blast
  obtain r2 s2 where 2: "stat_path os s1 = (r2, s2)" by (cases "stat_path os s1")
  obtain n2 where n2: "s2 = with_clock s1 n2" using stat_with_clock [OF 2 [unfolded stat_path_def]] by blast
  from assms 1 2 n1 n2 show ?thesis
    by (auto simp: verify_identity_def bindM_run split: sum.splits if_splits)
qed

lemma publish_loop:
  assumes "\<forall>j<length (ms_borrows s). i \<le> j \<longrightarrow> bw_data (ms_borrows s ! j) = None \<and> \<not> mt_owned (bw_meta (ms_borrows s ! j))"
    and "n = length (ms_borrows s)"
  shows "forM [i ..< n] publish s = (Inr (), s\<lparr>ms_borrows := take i (ms_borrows s) @ map (published_borrow s) (drop i (ms_borrows s))\<rparr>)"
  using assms
proof (induction "n - i" arbitrary: i s)
  case (Suc k)
  then have i: "i < n" by simp
  let ?bs = "ms_borrows s"
  let ?t = "s\<lparr>ms_borrows := ?bs[i := published_borrow s (?bs ! i)]\<rparr>"
  have p: "publish i s = (Inr (), ?t)"
    using Suc.prems i by (simp add: publish_def Let_def published_borrow_def)
  have pb: "published_borrow ?t = published_borrow s" by (simp add: published_borrow_def fun_eq_iff)
  have "forM [Suc i ..< n] publish ?t = (Inr (), ?t\<lparr>ms_borrows := take (Suc i) (ms_borrows ?t) @ map (published_borrow ?t) (drop (Suc i) (ms_borrows ?t))\<rparr>)"
    using Suc.prems Suc.hyps(2) by (intro Suc.hyps(1)) auto
  moreover have "take (Suc i) (ms_borrows ?t) @ map (published_borrow s) (drop (Suc i) (ms_borrows ?t))
      = take i ?bs @ map (published_borrow s) (drop i ?bs)"
    using i Suc.prems(2) by (simp add: take_Suc_conv_app_nth drop_update_cancel flip: Cons_nth_drop_Suc)
  ultimately show ?case using i p pb by (simp add: upt_conv_Cons bindM_run)
qed simp

lemma publish_all:
  assumes "unpublished s" and "\<forall>b\<in>set (ms_borrows s). \<not> mt_owned (bw_meta b)"
  shows "forM [0 ..< length (ms_borrows s)] publish s = (Inr (), s\<lparr>ms_borrows := map (published_borrow s) (ms_borrows s)\<rparr>)"
  using publish_loop [of s 0] assms by (simp add: unpublished_def)

text \<open>
  C39: data pointers are published all or not at all. From a validated, unpublished store, either
  the call succeeds, every tensor points at its own offset in the mapping and the store is
  bound, or it throws (the file no longer has the identity it was opened with) and no tensor
  points anywhere. A second call throws and changes nothing.
\<close>

theorem bind_all_or_nothing:
  assumes "unpublished s" and "\<forall>b\<in>set (ms_borrows s). \<not> mt_owned (bw_meta b)" and "\<not> ms_bound s"
    and run: "bind_validated_tensors os s = (r, t)"
  shows "(r = Inr () \<and> ms_bound t \<and> ms_borrows t = map (published_borrow s) (ms_borrows s)
            \<and> fst (bind_validated_tensors os t) = Inl AlreadyBound \<and> snd (bind_validated_tensors os t) = t)
       \<or> ((\<exists>e. r = Inl e) \<and> \<not> ms_bound t \<and> ms_borrows t = ms_borrows s)"
proof -
  obtain r1 s1 where v1: "verify_identity os s = (r1, s1)" by (cases "verify_identity os s")
  obtain n1 where s1: "s1 = with_clock s n1" using verify_identity_clock [OF v1] by blast
  have bs: "ms_borrows s1 = ms_borrows s" and pb: "published_borrow s1 = published_borrow s"
    by (simp_all add: s1 published_borrow_def fun_eq_iff)
  let ?u = "s1\<lparr>ms_borrows := map (published_borrow s) (ms_borrows s)\<rparr>"
  have p: "forM [0 ..< length (ms_borrows s)] publish s1 = (Inr (), ?u)"
    using publish_all [of s1] assms(1,2) by (simp add: bs pb unpublished_def)
  obtain r2 s2 where v2: "verify_identity os ?u = (r2, s2)" by (cases "verify_identity os ?u")
  obtain n2 where s2: "s2 = with_clock ?u n2" using verify_identity_clock [OF v2] by blast
  have cleared: "map (\<lambda>b. (published_borrow s b)\<lparr>bw_data := None\<rparr>) (ms_borrows s) = ms_borrows s"
    using assms(1) by (intro map_idI) (simp add: published_borrow_def unpublished_def)
  show ?thesis
  proof (cases r1)
    case (Inl e)
    then show ?thesis using run assms(3) v1 by (simp add: bind_validated_tensors_def bindM_run s1) force
  next
    case (Inr u1)
    then show ?thesis
    proof (cases r2)
      case (Inl e)
      then show ?thesis using run assms(3) v1 v2 Inr p cleared
        by (auto simp: bind_validated_tensors_def bindM_run catchM_def bs s2 clear_data_def s1 comp_def)
    next
      case ok: (Inr u2)
      then show ?thesis using run assms(3) v1 v2 Inr p
        by (auto simp: bind_validated_tensors_def bindM_run catchM_def bs s2 s1)
    qed
  qed
qed

subsection \<open>A concrete file\<close>

definition demo_stat :: file_stat where
  "demo_stat = \<lparr>fs_regular = True, fs_dev = 1, fs_ino = 7, fs_size = 4096\<rparr>"

definition demo_meta :: "u64 \<Rightarrow> meta_tensor" where
  "demo_meta n = \<lparr>mt_owned = False, mt_type = TypeF32, mt_ne0 = 4, mt_ne1 = 2, mt_nb1 = 16, mt_nbytes = n\<rparr>"

text \<open>The file is replaced after the eighth look at it.\<close>

definition demo_os :: mapped_os where
  "demo_os = \<lparr>mo_open = (\<lambda>_. True), mo_fstat = (\<lambda>_. Some demo_stat),
     mo_stat = (\<lambda>n. Some (if n < 8 then demo_stat else demo_stat\<lparr>fs_ino := 8\<rparr>)), mo_mmap = Some 4096, mo_dup = True,
     mo_fdopen = True, mo_parsed = True, mo_alignment = None, mo_cpu_alignment = 32, mo_data_offset = 64,
     mo_tensors = [\<lparr>rt_name = ''a'', rt_type = TypeF32, rt_size = 40, rt_offset = 0\<rparr>,
                   \<lparr>rt_name = ''b'', rt_type = TypeF32, rt_size = 32, rt_offset = 64\<rparr>],
     mo_meta = [''a'' \<mapsto> demo_meta 40, ''b'' \<mapsto> demo_meta 32], mo_block_size = (\<lambda>_. 1)\<rparr>"

definition demo_borrows :: "borrow list" where
  "demo_borrows = [\<lparr>bw_name = ''a'', bw_offset = 64, bw_nbytes = 40, bw_meta = demo_meta 40, bw_data = None\<rparr>,
     \<lparr>bw_name = ''b'', bw_offset = 128, bw_nbytes = 32, bw_meta = demo_meta 32, bw_data = None\<rparr>]"

lemma demo_validates: "validate_tensor_metadata demo_os 4096 4096 = Inr demo_borrows"
  by (simp add: validate_tensor_metadata_def gguf_alignment_def validate_tensor_def Let_def
      validate_range_def checked_add_size_def checked_pad_def supported_mapped_type_def demo_os_def demo_meta_def demo_borrows_def)

theorem validated_layout_witness:
  "tiled 32 64 demo_borrows \<and> list_all (borrow_fits demo_os 4096) demo_borrows"
proof -
  have "gguf_alignment demo_os = Inr 32" by (simp add: gguf_alignment_def demo_os_def)
  moreover have "mo_data_offset demo_os = 64" by (simp add: demo_os_def)
  ultimately show ?thesis using validated_layout [OF demo_validates] by (auto simp: list_all_iff)
qed

definition demo_store :: mapped_store where
  "demo_store = (new_store ''m.gguf'')\<lparr>ms_identity := \<lparr>fi_device = 1, fi_inode = 7, fi_size = 4096\<rparr>, ms_mapping := 4096,
     ms_mapping_size := 4096, ms_data_offset := 64, ms_borrows := demo_borrows\<rparr>"

lemmas store_run = bind_validated_tensors_def verify_identity_def stat_fd_def stat_path_def stat_with_def tick_def
  identity_from_stat_def bindM_run catchM_def liftM_def

theorem bind_all_or_nothing_witness:
  "(\<exists>t. bind_validated_tensors demo_os demo_store = (Inr (), t) \<and> ms_bound t
      \<and> map bw_data (ms_borrows t) = [Some 4160, Some 4224])
   \<and> (\<exists>e t. bind_validated_tensors demo_os (with_clock demo_store 5) = (Inl e, t) \<and> ms_borrows t = demo_borrows)"
proof -
  have ready: "unpublished demo_store" "\<forall>b\<in>set (ms_borrows demo_store). \<not> mt_owned (bw_meta b)" "\<not> ms_bound demo_store"
    by (simp_all add: unpublished_def demo_store_def demo_borrows_def demo_meta_def new_store_def)
  obtain r t where rt: "bind_validated_tensors demo_os demo_store = (r, t)"
    by (cases "bind_validated_tensors demo_os demo_store")
  have "r = Inr ()" using arg_cong [OF rt, of fst]
    by (simp add: store_run publish_def Let_def demo_os_def demo_store_def demo_stat_def demo_borrows_def
        new_store_def demo_meta_def SIZE_MAX_def)
  moreover have "map bw_data (map (published_borrow demo_store) (ms_borrows demo_store)) = [Some 4160, Some 4224]"
    by (simp add: published_borrow_def demo_store_def demo_borrows_def new_store_def)
  moreover note rt bind_all_or_nothing [OF ready rt]
  moreover obtain r' t' where rt': "bind_validated_tensors demo_os (with_clock demo_store 5) = (r', t')"
    by (cases "bind_validated_tensors demo_os (with_clock demo_store 5)")
  moreover have "\<exists>e. r' = Inl e" using arg_cong [OF rt', of fst]
    by (auto simp: store_run publish_def Let_def demo_os_def demo_store_def demo_stat_def demo_borrows_def with_clock_def
        new_store_def demo_meta_def SIZE_MAX_def)
  moreover have "ms_borrows demo_store = demo_borrows" by (simp add: demo_store_def)
  moreover have "ms_borrows t' = ms_borrows (with_clock demo_store 5)"
    using bind_all_or_nothing [OF _ _ _ rt'] ready \<open>\<exists>e. r' = Inl e\<close> by (auto simp: unpublished_def)
  ultimately show ?thesis by auto
qed

end
