(* ===== verification/Tokenizer.thy ===== *)
theory Tokenizer
  imports Gguf
begin

text \<open>
  What the tokenizers of \<open>src/tokenizer\<close> share: the exception \<open>TokenizerError\<close> of \<open>tokenizer.h\<close>
  by what it reports, bytes of a \<open>std::string\<close>, the string arrays of the metadata, and the map
  from a piece to its id that \<open>unordered_map::emplace\<close> builds. A string read from the metadata
  is its C string, the bytes before the terminator.
\<close>

datatype tokenizer_error =
    NullContext
  | MissingTokenizerKey string
  | WrongTokenizerType string
  | TokenIdOutOfRange string
  | NotAnArray string
  | NotStrings string
  | UnsupportedSize
  | OutsideVocabulary string
  | LimitTooSmall
  | TooManyMerges
  | Undecodable
  | MergeCache string
  | FamilyNotImplemented string
  | UnsupportedFamily string

definition byte :: "char \<Rightarrow> nat" where
  "byte c = of_char c"

lemma byte_less: "byte c < 256"
  by (simp add: byte_def)

lemma byte_char_of: "n < 256 \<Longrightarrow> byte (char_of n) = n"
  by (simp add: byte_def)

text \<open>An array of strings under a key.\<close>

definition require_str_array :: "gguf_file \<Rightarrow> string \<Rightarrow> tokenizer_error + string list" where
  "require_str_array f key =
     (case gf_kv f key of
        None \<Rightarrow> Inl (NotAnArray key)
      | Some v \<Rightarrow>
          (case array_length v of
             None \<Rightarrow> Inl (NotAnArray key)
           | Some _ \<Rightarrow> (case v of KvStrings xs \<Rightarrow> Inr xs | _ \<Rightarrow> Inl (NotStrings key))))"

lemma require_str_array_iff: "require_str_array f key = Inr xs \<longleftrightarrow> gf_kv f key = Some (KvStrings xs)"
  by (auto simp: require_str_array_def array_length_def split: option.splits gguf_value.splits)

subsection \<open>The ids of the pieces\<close>

text \<open>\<open>emplace\<close> inserts only when the key is absent, so a repeated piece keeps its first id.\<close>

definition emplace :: "('k \<rightharpoonup> 'v) \<Rightarrow> 'k \<Rightarrow> 'v \<Rightarrow> ('k \<rightharpoonup> 'v)" where
  "emplace m k v = (case m k of None \<Rightarrow> m(k \<mapsto> v) | Some _ \<Rightarrow> m)"

fun emplace_from :: "nat \<Rightarrow> string list \<Rightarrow> (string \<rightharpoonup> int) \<Rightarrow> (string \<rightharpoonup> int)" where
  "emplace_from i [] m = m"
| "emplace_from i (p # ps) m = emplace_from (Suc i) ps (emplace m p (int i))"

text \<open>\<open>first_index\<close> is the specification: the id of a piece is the first position it stands at.\<close>

fun first_index :: "nat \<Rightarrow> string list \<Rightarrow> string \<Rightarrow> int option" where
  "first_index i [] p = None"
| "first_index i (q # qs) p = (if q = p then Some (int i) else first_index (Suc i) qs p)"

lemma emplace_from_eq:
  "emplace_from i ps m p = (case m p of Some v \<Rightarrow> Some v | None \<Rightarrow> first_index i ps p)"
  by (induction ps arbitrary: i m) (auto simp: emplace_def split: option.splits)

lemma emplace_from_empty: "emplace_from i ps Map.empty p = first_index i ps p"
  by (simp add: emplace_from_eq)

lemma first_index_Some_iff:
  "first_index i ps p = Some k \<longleftrightarrow>
     (\<exists>j < length ps. ps ! j = p \<and> (\<forall>j' < j. ps ! j' \<noteq> p) \<and> k = int (i + j))"
proof (induction ps arbitrary: i)
  case Nil
  then show ?case by simp
next
  case (Cons q qs)
  show ?case
  proof (cases "q = p")
    case True
    then show ?thesis by (auto simp: Ex_less_Suc2 All_less_Suc2)
  next
    case False
    have "(\<exists>j < length (q # qs). (q # qs) ! j = p \<and> (\<forall>j' < j. (q # qs) ! j' \<noteq> p) \<and> k = int (i + j))
      \<longleftrightarrow> (\<exists>j < length qs. qs ! j = p \<and> (\<forall>j' < j. qs ! j' \<noteq> p) \<and> k = int (Suc i + j))"
      using False by (auto simp: Ex_less_Suc2 All_less_Suc2)
    then show ?thesis using False Cons.IH [of "Suc i"] by (simp add: add.assoc)
  qed
qed

lemma first_index_range: "first_index 0 ps p = Some k \<Longrightarrow> 0 \<le> k \<and> k < int (length ps) \<and> ps ! nat k = p"
  by (auto simp: first_index_Some_iff)

lemma first_index_dom: "p \<in> set ps \<Longrightarrow> \<exists>k. first_index i ps p = Some k"
  by (induction ps arbitrary: i) auto

lemma first_index_None: "first_index i ps p = None \<longleftrightarrow> p \<notin> set ps"
  by (induction ps arbitrary: i) auto

end
