(* ===== verification/WordPiece.thy ===== *)
theory WordPiece
  imports Tokenizer
begin

text \<open>
  The BERT tokenizer, \<open>src/tokenizer/wordpiece.cpp\<close>: loading the vocabulary, splitting the text
  into words, the greedy longest-prefix matcher and \<open>encode\<close>. The matcher is compared with its
  specification \<open>segments\<close>, the basic tokenizer with the reference \<open>split_words\<close>.
\<close>

definition kMaxInputCharsPerWord :: nat where
  "kMaxInputCharsPerWord = 100"

definition is_ascii_whitespace :: "char \<Rightarrow> bool" where
  "is_ascii_whitespace c \<longleftrightarrow> byte c = 32 \<or> byte c = 9 \<or> byte c = 10 \<or> byte c = 13"

definition is_ascii_control :: "char \<Rightarrow> bool" where
  "is_ascii_control c \<longleftrightarrow>
     (if byte c = 9 \<or> byte c = 10 \<or> byte c = 13 then False else byte c < 32 \<or> byte c = 127)"

definition is_ascii_punct :: "char \<Rightarrow> bool" where
  "is_ascii_punct c \<longleftrightarrow> (33 \<le> byte c \<and> byte c \<le> 47) \<or> (58 \<le> byte c \<and> byte c \<le> 64)
     \<or> (91 \<le> byte c \<and> byte c \<le> 96) \<or> (123 \<le> byte c \<and> byte c \<le> 126)"

record tokenizer_config =
  cls_id :: int
  sep_id :: int
  pad_id :: int
  unk_id :: int
  max_seq_len :: int
  do_lower_case :: bool

definition default_config :: tokenizer_config where
  "default_config = \<lparr>cls_id = 101, sep_id = 102, pad_id = 0, unk_id = 100, max_seq_len = 512,
     do_lower_case = True\<rparr>"

record wordpiece_tokenizer =
  wp_cfg :: tokenizer_config
  wp_vocab :: "string list"
  wp_ix :: "string \<rightharpoonup> int"

subsection \<open>Construction\<close>

definition u32_from_kv :: "gguf_file \<Rightarrow> string \<Rightarrow> tokenizer_error + int" where
  "u32_from_kv f key =
     (case gf_kv f key of
        None \<Rightarrow> Inl (MissingTokenizerKey key)
      | Some (KvU32 v) \<Rightarrow> if v > word_of_nat INT32_MAX then Inl (TokenIdOutOfRange key) else Inr (uint v)
      | Some _ \<Rightarrow> Inl (WrongTokenizerType key))"

text \<open>The begin-of-word marker, U+2581 in UTF-8.\<close>

definition kBow :: string where
  "kBow = [char_of (226::nat), char_of (150::nat), char_of (129::nat)]"

definition normalize_piece :: "string \<Rightarrow> string" where
  "normalize_piece raw =
     (if length raw > 0 \<and> raw ! 0 = CHR ''['' then raw
      else if length raw \<ge> length kBow \<and> take (length kBow) raw = kBow then drop (length kBow) raw
      else ''##'' @ raw)"

definition validate_special :: "nat \<Rightarrow> int \<Rightarrow> string \<Rightarrow> tokenizer_error + unit" where
  "validate_special n i key = guardE (\<not> (i < 0 \<or> i \<ge> int n)) (OutsideVocabulary key)"

definition wordpiece_from_gguf :: "gguf_file option \<Rightarrow> tokenizer_error + wordpiece_tokenizer" where
  "wordpiece_from_gguf ctx =
     (case ctx of None \<Rightarrow> Inl NullContext
      | Some f \<Rightarrow>
     bindE (u32_from_kv f ''tokenizer.ggml.cls_token_id'') (\<lambda>cls.
     bindE (u32_from_kv f ''tokenizer.ggml.seperator_token_id'') (\<lambda>sep.
     bindE (u32_from_kv f ''tokenizer.ggml.padding_token_id'') (\<lambda>pad.
     bindE (u32_from_kv f ''tokenizer.ggml.unknown_token_id'') (\<lambda>unk.
     bindE (require_str_array f ''tokenizer.ggml.tokens'') (\<lambda>raw.
       let n = length raw in
     bindE (guardE (\<not> (n = 0 \<or> n > INT32_MAX)) UnsupportedSize) (\<lambda>_.
       let vocab = map normalize_piece raw in
     bindE (validate_special n cls ''tokenizer.ggml.cls_token_id'') (\<lambda>_.
     bindE (validate_special n sep ''tokenizer.ggml.seperator_token_id'') (\<lambda>_.
     bindE (validate_special n pad ''tokenizer.ggml.padding_token_id'') (\<lambda>_.
     bindE (validate_special n unk ''tokenizer.ggml.unknown_token_id'') (\<lambda>_.
       Inr \<lparr>wp_cfg = default_config\<lparr>cls_id := cls, sep_id := sep, pad_id := pad, unk_id := unk\<rparr>,
         wp_vocab = vocab, wp_ix = emplace_from 0 vocab Map.empty\<rparr>)))))))))))"

definition wordpiece_vocab_size :: "wordpiece_tokenizer \<Rightarrow> int" where
  "wordpiece_vocab_size t = int (length (wp_vocab t))"

definition wordpiece_set_max_seq_len :: "int \<Rightarrow> wordpiece_tokenizer \<Rightarrow> wordpiece_tokenizer" where
  "wordpiece_set_max_seq_len n t = t\<lparr>wp_cfg := (wp_cfg t)\<lparr>max_seq_len := n\<rparr>\<rparr>"

subsection \<open>Splitting the text into words\<close>

definition flush :: "string list \<times> string \<Rightarrow> string list \<times> string" where
  "flush s = (if snd s \<noteq> [] then (fst s @ [snd s], []) else s)"

definition lower_byte :: "bool \<Rightarrow> char \<Rightarrow> char" where
  "lower_byte low c = (if low \<and> 65 \<le> byte c \<and> byte c \<le> 90 then char_of (byte c - 65 + 97) else c)"

definition scan_byte :: "bool \<Rightarrow> char \<Rightarrow> string list \<times> string \<Rightarrow> string list \<times> string" where
  "scan_byte low c s =
     (if is_ascii_control c then flush s
      else if is_ascii_whitespace c then flush s
      else if is_ascii_punct c then (fst (flush s) @ [[c]], snd (flush s))
      else (fst s, snd s @ [lower_byte low c]))"

definition basic_tokenize :: "wordpiece_tokenizer \<Rightarrow> string \<Rightarrow> string list" where
  "basic_tokenize t txt = fst (flush (fold (scan_byte (do_lower_case (wp_cfg t))) txt ([], [])))"

subsection \<open>The greedy matcher\<close>

text \<open>
  The inner loop shrinks the end of the candidate; it returns the id of the piece, or \<open>- 1\<close>,
  and the end it stopped at.
\<close>

fun longest_piece :: "(string \<rightharpoonup> int) \<Rightarrow> string \<Rightarrow> nat \<Rightarrow> nat \<Rightarrow> int \<times> nat" where
  "longest_piece ix w start stop =
     (if start < stop then
        let sub = take (stop - start) (drop start w);
            sub = if start > 0 then ''##'' @ sub else sub
        in (case ix sub of Some k \<Rightarrow> (k, stop) | None \<Rightarrow> longest_piece ix w start (stop - 1))
      else (- 1, stop))"

declare longest_piece.simps [simp del]

lemma longest_piece_stop: "longest_piece ix w start stop = (k, e) \<Longrightarrow> k = - 1 \<or> (start < e \<and> e \<le> stop)"
  by (induction ix w start stop rule: longest_piece.induct)
    (subst (asm) (2) longest_piece.simps, fastforce simp: Let_def split: if_splits option.splits)

text \<open>The outer loop; \<open>None\<close> is its \<open>ok = false\<close>.\<close>

function match_word :: "(string \<rightharpoonup> int) \<Rightarrow> string \<Rightarrow> nat \<Rightarrow> int list \<Rightarrow> int list option" where
  "match_word ix w start out =
     (if start < length w then
        (case longest_piece ix w start (length w) of
           (k, stop) \<Rightarrow> if k < 0 then None else match_word ix w stop (out @ [k]))
      else Some out)"
  by pat_completeness auto
termination
  by (relation "measure (\<lambda>(ix, w, start, out). length w - start)")
    (auto dest!: longest_piece_stop [OF sym])

declare match_word.simps [simp del]

definition wordpiece :: "wordpiece_tokenizer \<Rightarrow> string \<Rightarrow> int list" where
  "wordpiece t word =
     (if length word > kMaxInputCharsPerWord then [unk_id (wp_cfg t)]
      else case match_word (wp_ix t) word 0 [] of
             None \<Rightarrow> [unk_id (wp_cfg t)]
           | Some out \<Rightarrow> if out = [] then [unk_id (wp_cfg t)] else out)"

subsection \<open>Encoding a text\<close>

text \<open>The loops over words and pieces stop for good at the first id that does not fit.\<close>

fun push_pieces :: "int \<Rightarrow> int list \<Rightarrow> int list \<Rightarrow> bool \<times> int list" where
  "push_pieces limit [] ids = (False, ids)"
| "push_pieces limit (k # ks) ids =
     (if int (length ids) \<ge> limit - 1 then (True, ids) else push_pieces limit ks (ids @ [k]))"

fun push_words :: "wordpiece_tokenizer \<Rightarrow> int \<Rightarrow> string list \<Rightarrow> int list \<Rightarrow> int list" where
  "push_words t limit [] ids = ids"
| "push_words t limit (w # ws) ids =
     (case push_pieces limit (wordpiece t w) ids of
        (truncated, ids') \<Rightarrow> if truncated then ids' else push_words t limit ws ids')"

definition effective_limit :: "int \<Rightarrow> int \<Rightarrow> int" where
  "effective_limit override configured = (if override > 0 then override else configured)"

definition wordpiece_encode :: "wordpiece_tokenizer \<Rightarrow> string \<Rightarrow> int \<Rightarrow> tokenizer_error + int list" where
  "wordpiece_encode t txt override =
     (let limit = effective_limit override (max_seq_len (wp_cfg t)) in
      if limit < 2 then Inl LimitTooSmall
      else Inr (push_words t limit (basic_tokenize t txt) [cls_id (wp_cfg t)] @ [sep_id (wp_cfg t)]))"

subsection \<open>Reference for the basic tokenizer\<close>

text \<open>
  The text is cut at blanks (spaces and control bytes), a punctuation byte is a word of its own,
  and every maximal run of other bytes is a word, lower-cased.
\<close>

definition ordinary :: "char \<Rightarrow> bool" where
  "ordinary c \<longleftrightarrow> \<not> is_ascii_control c \<and> \<not> is_ascii_whitespace c \<and> \<not> is_ascii_punct c"

function split_words :: "bool \<Rightarrow> string \<Rightarrow> string list" where
  "split_words low [] = []"
| "split_words low (c # cs) =
     (if is_ascii_punct c then [c] # split_words low cs
      else if ordinary c then
        map (lower_byte low) (c # takeWhile ordinary cs) # split_words low (dropWhile ordinary cs)
      else split_words low cs)"
  by pat_completeness auto
termination
  by (relation "measure (length \<circ> snd)") (auto simp: less_Suc_eq_le length_dropWhile_le)

lemma punct_not_blank: "is_ascii_punct c \<Longrightarrow> \<not> is_ascii_control c \<and> \<not> is_ascii_whitespace c"
  by (auto simp: is_ascii_punct_def is_ascii_control_def is_ascii_whitespace_def)

definition word_if_any :: "string \<Rightarrow> string list" where
  "word_if_any w = (if w = [] then [] else [w])"

lemma split_words_run:
  "split_words low cs =
     word_if_any (map (lower_byte low) (takeWhile ordinary cs)) @ split_words low (dropWhile ordinary cs)"
  by (cases cs) (auto simp: word_if_any_def ordinary_def)

lemma scan_bytes:
  "fst (flush (fold (scan_byte low) cs (out, cur))) =
     out @ word_if_any (cur @ map (lower_byte low) (takeWhile ordinary cs))
       @ split_words low (dropWhile ordinary cs)"
proof (induction cs arbitrary: out cur)
  case Nil
  then show ?case by (simp add: flush_def word_if_any_def)
next
  case (Cons c cs)
  show ?case
  proof (cases "ordinary c")
    case True
    then have "scan_byte low c (out, cur) = (out, cur @ [lower_byte low c])"
      by (simp add: scan_byte_def ordinary_def)
    then show ?thesis using True Cons.IH by simp
  next
    case False
    note run = split_words_run [of low cs]
    show ?thesis
    proof (cases "is_ascii_punct c")
      case True
      then have "scan_byte low c (out, cur) = (out @ word_if_any cur @ [[c]], [])"
        using punct_not_blank [of c] by (auto simp: scan_byte_def flush_def word_if_any_def)
      then show ?thesis using True False Cons.IH [of "out @ word_if_any cur @ [[c]]" "[]"] run by simp
    next
      case np: False
      then have "scan_byte low c (out, cur) = (out @ word_if_any cur, [])"
        using False by (auto simp: scan_byte_def flush_def ordinary_def word_if_any_def)
      then show ?thesis using np False Cons.IH [of "out @ word_if_any cur" "[]"] run by simp
    qed
  qed
qed

text \<open>
  C35: the basic tokenizer, a scan with a pending word that is flushed at blanks and punctuation,
  splits every text exactly as the reference does: blanks separate, each punctuation byte is a
  word, each maximal run of other bytes is a word, lower-cased when the configuration says so.
\<close>

theorem basic_tokenize_reference: "basic_tokenize t txt = split_words (do_lower_case (wp_cfg t)) txt"
  using scan_bytes [of _ "txt" "[]" "[]"] split_words_run [of _ "txt"] by (simp add: basic_tokenize_def)

subsection \<open>Specification of the matcher\<close>

definition mark_piece :: "bool \<Rightarrow> string \<Rightarrow> string" where
  "mark_piece first p = (if first then p else ''##'' @ p)"

text \<open>
  \<open>segments ix first w ps\<close>: \<open>ps\<close> cuts \<open>w\<close> into pieces of the vocabulary, each the longest one
  that starts there; every piece but the one that begins the word carries the mark.
\<close>

inductive segments :: "(string \<rightharpoonup> int) \<Rightarrow> bool \<Rightarrow> string \<Rightarrow> (string \<times> int) list \<Rightarrow> bool" for ix where
  segments_Nil: "segments ix first [] []"
| segments_Cons: "p \<noteq> [] \<Longrightarrow> ix (mark_piece first p) = Some k \<Longrightarrow>
    (\<And>m. 0 < m \<Longrightarrow> m \<le> length r \<Longrightarrow> ix (mark_piece first (p @ take m r)) = None) \<Longrightarrow>
    segments ix False r ps \<Longrightarrow> segments ix first (p @ r) ((p, k) # ps)"

lemma segments_concat: "segments ix first w ps \<Longrightarrow> concat (map fst ps) = w"
  by (induction rule: segments.induct) auto

definition natural_ids :: "(string \<rightharpoonup> int) \<Rightarrow> bool" where
  "natural_ids ix \<longleftrightarrow> (\<forall>p k. ix p = Some k \<longrightarrow> 0 \<le> k)"

definition piece_at :: "(string \<rightharpoonup> int) \<Rightarrow> string \<Rightarrow> nat \<Rightarrow> nat \<Rightarrow> int option" where
  "piece_at ix w start stop = ix (mark_piece (start = 0) (take (stop - start) (drop start w)))"

lemma longest_piece_unfold:
  "longest_piece ix w start stop =
     (if start < stop then
        (case piece_at ix w start stop of
           Some k \<Rightarrow> (k, stop) | None \<Rightarrow> longest_piece ix w start (stop - 1))
      else (- 1, stop))"
  by (subst longest_piece.simps) (simp add: piece_at_def mark_piece_def Let_def)

lemma longest_piece_spec:
  assumes "natural_ids ix" and "longest_piece ix w start stop = (k, e)"
  shows "(k = - 1 \<and> (\<forall>e'. start < e' \<and> e' \<le> stop \<longrightarrow> piece_at ix w start e' = None))
    \<or> (0 \<le> k \<and> start < e \<and> e \<le> stop \<and> piece_at ix w start e = Some k
        \<and> (\<forall>e'. e < e' \<and> e' \<le> stop \<longrightarrow> piece_at ix w start e' = None))"
  using assms(2)
proof (induction stop)
  case 0
  then show ?case by (subst (asm) longest_piece_unfold) simp
next
  case (Suc stop)
  show ?case
  proof (cases "start < Suc stop")
    case False
    then show ?thesis using Suc.prems by (subst (asm) longest_piece_unfold) auto
  next
    case True
    show ?thesis
    proof (cases "piece_at ix w start (Suc stop)")
      case None
      then have "longest_piece ix w start stop = (k, e)"
        using Suc.prems True by (subst (asm) longest_piece_unfold) simp
      from Suc.IH [OF this] show ?thesis using None by (auto simp: le_Suc_eq)
    next
      case (Some j)
      then have "k = j" "e = Suc stop"
        using Suc.prems True by (subst (asm) longest_piece_unfold, simp)+
      moreover have "0 \<le> j" using Some assms(1) by (auto simp: piece_at_def natural_ids_def)
      ultimately show ?thesis using Some True by auto
    qed
  qed
qed

definition longest_at :: "(string \<rightharpoonup> int) \<Rightarrow> string \<Rightarrow> nat \<Rightarrow> nat \<Rightarrow> int \<Rightarrow> bool" where
  "longest_at ix w start e k \<longleftrightarrow> start < e \<and> e \<le> length w \<and> piece_at ix w start e = Some k
     \<and> (\<forall>e'. e < e' \<and> e' \<le> length w \<longrightarrow> piece_at ix w start e' = None)"

lemma longest_at_unique: "longest_at ix w s e k \<Longrightarrow> longest_at ix w s e' k' \<Longrightarrow> e = e' \<and> k = k'"
  unfolding longest_at_def by (metis linorder_neqE_nat option.distinct(1) option.inject)

lemma longest_piece_longest_at:
  assumes "natural_ids ix" and "longest_piece ix w start (length w) = (k, e)"
  shows "if k < 0 then (\<nexists>e k. longest_at ix w start e k) else longest_at ix w start e k"
  using longest_piece_spec [OF assms] unfolding longest_at_def by fastforce

lemma segments_step:
  assumes "segments ix (start = 0) (drop start w) ps" and "start < length w"
  obtains e k qs where "longest_at ix w start e k" and "segments ix False (drop e w) qs"
    and "map snd ps = k # map snd qs"
  using assms(1)
proof (cases rule: segments.cases)
  case segments_Nil
  then show ?thesis using assms(2) by simp
next
  case (segments_Cons p k r qs)
  define e where "e = start + length p"
  have len: "length w = e + length r"
    using arg_cong [OF segments_Cons(1), of length] assms(2) by (simp add: e_def)
  have r: "drop e w = r"
    using segments_Cons(1) by (metis add.commute append_eq_conv_conj drop_drop e_def)
  have at: "piece_at ix w start e' = ix (mark_piece (start = 0) (p @ take (e' - e) r))" if e': "e \<le> e'" for e'
    using e' segments_Cons(1) by (simp add: piece_at_def e_def diff_diff_add)
  have "longest_at ix w start e k"
    unfolding longest_at_def using segments_Cons(3,4,5) len at
    by (auto simp: e_def)
  then show ?thesis using segments_Cons(2,6) that [of e k qs] r by simp
qed

lemma segments_extend:
  assumes "longest_at ix w start e k" and "segments ix False (drop e w) qs"
  shows "\<exists>p. segments ix (start = 0) (drop start w) ((p, k) # qs)"
proof -
  define p where "p = take (e - start) (drop start w)"
  have e: "start < e" "e \<le> length w" using assms(1) by (auto simp: longest_at_def)
  have w: "drop start w = p @ drop e w"
    using e by (simp add: p_def) (metis append_take_drop_id drop_drop le_add_diff_inverse2 less_imp_le)
  have "segments ix (start = 0) (p @ drop e w) ((p, k) # qs)"
  proof (rule segments_Cons)
    show "p \<noteq> []" using e by (simp add: p_def)
    show "ix (mark_piece (start = 0) p) = Some k"
      using assms(1) by (simp add: longest_at_def piece_at_def p_def)
    show "segments ix False (drop e w) qs" by (rule assms(2))
    fix m assume m: "0 < m" "m \<le> length (drop e w)"
    have "p @ take m (drop e w) = take (e + m - start) (drop start w)"
      unfolding w using e by (simp add: p_def)
    moreover have "piece_at ix w start (e + m) = None"
      using assms(1) m e unfolding longest_at_def by auto
    ultimately show "ix (mark_piece (start = 0) (p @ take m (drop e w))) = None"
      by (simp add: piece_at_def)
  qed
  then show ?thesis using w by auto
qed

lemma match_word_segments:
  assumes "natural_ids ix"
  shows "match_word ix w start out = Some res \<longleftrightarrow>
     (\<exists>ps. segments ix (start = 0) (drop start w) ps \<and> res = out @ map snd ps)"
  using assms
proof (induction ix w start out arbitrary: res rule: match_word.induct)
  case (1 ix w start out)
  show ?case
  proof (cases "start < length w")
    case False
    then show ?thesis
      by (subst match_word.simps) (auto intro: segments_Nil elim: segments.cases)
  next
    case True
    obtain k e where ke: "longest_piece ix w start (length w) = (k, e)" by fastforce
    note longest = longest_piece_longest_at [OF 1(2) ke]
    show ?thesis
    proof (cases "k < 0")
      case neg: True
      then have "match_word ix w start out = None"
        using True ke by (subst match_word.simps) simp
      moreover have "\<not> segments ix (start = 0) (drop start w) ps" for ps
        using neg longest segments_step [OF _ True] by (metis (full_types))
      ultimately show ?thesis by simp
    next
      case pos: False
      then have at: "longest_at ix w start e k" using longest by simp
      then have e: "(e = 0) = False" by (auto simp: longest_at_def)
      have "match_word ix w start out = match_word ix w e (out @ [k])"
        using True ke pos by (subst match_word.simps) simp
      also have "\<dots> = Some res \<longleftrightarrow> (\<exists>qs. segments ix False (drop e w) qs \<and> res = (out @ [k]) @ map snd qs)"
        using 1(1) [OF True ke [symmetric] pos 1(2), of res] unfolding e .
      also have "\<dots> \<longleftrightarrow> (\<exists>ps. segments ix (start = 0) (drop start w) ps \<and> res = out @ map snd ps)"
      proof
        assume "\<exists>qs. segments ix False (drop e w) qs \<and> res = (out @ [k]) @ map snd qs"
        then show "\<exists>ps. segments ix (start = 0) (drop start w) ps \<and> res = out @ map snd ps"
          using segments_extend [OF at] by force
      next
        assume "\<exists>ps. segments ix (start = 0) (drop start w) ps \<and> res = out @ map snd ps"
        then obtain ps where ps: "segments ix (start = 0) (drop start w) ps" "res = out @ map snd ps"
          by blast
        from segments_step [OF ps(1) True] obtain e' k' qs where "longest_at ix w start e' k'"
          and "segments ix False (drop e' w) qs" and "map snd ps = k' # map snd qs" by metis
        then show "\<exists>qs. segments ix False (drop e w) qs \<and> res = (out @ [k]) @ map snd qs"
          using longest_at_unique [OF at] ps(2) by force
      qed
      finally show ?thesis .
    qed
  qed
qed

lemma matched_segments:
  "natural_ids ix \<Longrightarrow> match_word ix w 0 [] = Some res \<Longrightarrow> \<exists>ps. segments ix True w ps \<and> map snd ps = res"
  using match_word_segments [of ix w 0 "[]"] by auto

lemma unmatched_segments:
  "natural_ids ix \<Longrightarrow> match_word ix w 0 [] = None \<Longrightarrow> \<not> segments ix True w ps"
  using match_word_segments [of ix w 0 "[]" "map snd ps"] by auto

subsection \<open>What loading and encoding establish\<close>

definition wordpiece_ok :: "wordpiece_tokenizer \<Rightarrow> bool" where
  "wordpiece_ok t \<longleftrightarrow>
     (let n = length (wp_vocab t) in 0 < n \<and> n \<le> INT32_MAX
      \<and> (\<forall>k\<in>{cls_id (wp_cfg t), sep_id (wp_cfg t), pad_id (wp_cfg t), unk_id (wp_cfg t)}. 0 \<le> k \<and> k < int n)
      \<and> wp_ix t = first_index 0 (wp_vocab t))"

lemma wordpiece_ok_natural: "wordpiece_ok t \<Longrightarrow> natural_ids (wp_ix t)"
  by (auto simp: wordpiece_ok_def natural_ids_def Let_def dest: first_index_range)

lemma wordpiece_loads_ok:
  assumes "wordpiece_from_gguf ctx = Inr t"
  shows "wordpiece_ok t \<and> max_seq_len (wp_cfg t) = 512
    \<and> (\<exists>f raw. ctx = Some f \<and> gf_kv f ''tokenizer.ggml.tokens'' = Some (KvStrings raw)
         \<and> wp_vocab t = map normalize_piece raw)"
proof -
  obtain f where f: "ctx = Some f" using assms by (auto simp: wordpiece_from_gguf_def split: option.splits)
  then show ?thesis
    using assms
    by (auto simp: wordpiece_from_gguf_def throwing Let_def validate_special_def require_str_array_iff
        wordpiece_ok_def emplace_from_empty default_config_def not_le not_less)
qed

text \<open>
  C37: loading a vocabulary either throws or gives a tokenizer whose special ids are rows of the
  vocabulary, whose index maps every piece to the first id it has, and whose pieces are the
  normalised ones of the file.
\<close>

theorem wordpiece_from_gguf_ok:
  assumes "wordpiece_from_gguf ctx = Inr t"
  shows "wordpiece_ok t \<and> max_seq_len (wp_cfg t) = 512
    \<and> (\<exists>f raw. ctx = Some f \<and> gf_kv f ''tokenizer.ggml.tokens'' = Some (KvStrings raw)
         \<and> wp_vocab t = map normalize_piece raw)"
  by (rule wordpiece_loads_ok [OF assms])

definition tiny_gguf :: gguf_file where
  "tiny_gguf = \<lparr>gf_kv = (\<lambda>key.
      if key = ''tokenizer.ggml.cls_token_id'' then Some (KvU32 1)
      else if key = ''tokenizer.ggml.seperator_token_id'' then Some (KvU32 2)
      else if key = ''tokenizer.ggml.padding_token_id'' then Some (KvU32 0)
      else if key = ''tokenizer.ggml.unknown_token_id'' then Some (KvU32 3)
      else if key = ''tokenizer.ggml.tokens'' then
        Some (KvStrings [''[PAD]'', ''[CLS]'', ''[SEP]'', ''[UNK]'', kBow @ ''un'', ''able'', kBow @ ''una'', ''ble''])
      else None),
     gf_tensor = (\<lambda>_. None), gf_meta = (\<lambda>_. None)\<rparr>"

definition tiny_wordpiece :: wordpiece_tokenizer where
  "tiny_wordpiece = \<lparr>wp_cfg = default_config\<lparr>cls_id := 1, sep_id := 2, pad_id := 0, unk_id := 3\<rparr>,
     wp_vocab = [''[PAD]'', ''[CLS]'', ''[SEP]'', ''[UNK]'', ''un'', ''##able'', ''una'', ''##ble''],
     wp_ix = first_index 0 [''[PAD]'', ''[CLS]'', ''[SEP]'', ''[UNK]'', ''un'', ''##able'', ''una'', ''##ble'']\<rparr>"

lemma tiny_kv:
  "gf_kv tiny_gguf ''tokenizer.ggml.cls_token_id'' = Some (KvU32 1)"
  "gf_kv tiny_gguf ''tokenizer.ggml.seperator_token_id'' = Some (KvU32 2)"
  "gf_kv tiny_gguf ''tokenizer.ggml.padding_token_id'' = Some (KvU32 0)"
  "gf_kv tiny_gguf ''tokenizer.ggml.unknown_token_id'' = Some (KvU32 3)"
  "gf_kv tiny_gguf ''tokenizer.ggml.tokens'' =
     Some (KvStrings [''[PAD]'', ''[CLS]'', ''[SEP]'', ''[UNK]'', kBow @ ''un'', ''able'', kBow @ ''una'', ''ble''])"
  by (simp_all add: tiny_gguf_def)

lemma tiny_pieces:
  "map normalize_piece [''[PAD]'', ''[CLS]'', ''[SEP]'', ''[UNK]'', kBow @ ''un'', ''able'', kBow @ ''una'', ''ble''] =
     [''[PAD]'', ''[CLS]'', ''[SEP]'', ''[UNK]'', ''un'', ''##able'', ''una'', ''##ble'']"
  by code_simp

lemma tiny_wordpiece_loads: "wordpiece_from_gguf (Some tiny_gguf) = Inr tiny_wordpiece"
  unfolding wordpiece_from_gguf_def option.case u32_from_kv_def require_str_array_def tiny_kv array_length_def
    gguf_value.case bindE.simps Let_def tiny_pieces
  by (simp add: validate_special_def tiny_wordpiece_def INT32_MAX_def emplace_from_empty fun_eq_iff
      del: emplace_from.simps first_index.simps)

lemma wordpiece_from_gguf_ok_witness: "wordpiece_ok tiny_wordpiece"
  using wordpiece_from_gguf_ok [OF tiny_wordpiece_loads] by simp

text \<open>
  C33: the matcher is greedy and total. The ids of a word are those of the cut of the word into
  longest vocabulary pieces, marked where they continue the word, whenever there is such a cut;
  a word that is too long, empty, or has no such cut becomes the single unknown token.
\<close>

theorem wordpiece_greedy:
  assumes "wordpiece_ok t"
  shows "(length w \<le> kMaxInputCharsPerWord \<and> w \<noteq> [] \<and> segments (wp_ix t) True w ps \<longrightarrow>
            wordpiece t w = map snd ps \<and> concat (map fst ps) = w)
    \<and> (length w > kMaxInputCharsPerWord \<or> w = [] \<or> (\<nexists>ps. segments (wp_ix t) True w ps) \<longrightarrow>
            wordpiece t w = [unk_id (wp_cfg t)])"
proof -
  note match = match_word_segments [OF wordpiece_ok_natural [OF assms], of w 0 "[]", simplified]
  show ?thesis
  proof (intro conjI impI)
    assume h: "length w \<le> kMaxInputCharsPerWord \<and> w \<noteq> [] \<and> segments (wp_ix t) True w ps"
    then have "ps \<noteq> []" using segments_concat by fastforce
    moreover have "match_word (wp_ix t) w 0 [] = Some (map snd ps)" using h match by blast
    ultimately show "wordpiece t w = map snd ps" "concat (map fst ps) = w"
      using h segments_concat by (auto simp: wordpiece_def)
  next
    assume h: "length w > kMaxInputCharsPerWord \<or> w = [] \<or> (\<nexists>ps. segments (wp_ix t) True w ps)"
    have "match_word (wp_ix t) [] 0 [] = Some []" by (simp add: match_word.simps)
    moreover have "match_word (wp_ix t) w 0 [] = None" if "\<nexists>ps. segments (wp_ix t) True w ps"
      using that match by (metis option.exhaust)
    ultimately show "wordpiece t w = [unk_id (wp_cfg t)]"
      using h by (auto simp: wordpiece_def)
  qed
qed

lemma tiny_matches:
  "match_word (first_index 0 [''[PAD]'', ''[CLS]'', ''[SEP]'', ''[UNK]'', ''un'', ''##able'', ''una'', ''##ble''])
     ''unable'' 0 [] = Some [6, 7]"
  "match_word (first_index 0 [''[PAD]'', ''[CLS]'', ''[SEP]'', ''[UNK]'', ''un'', ''##able'', ''una'', ''##ble''])
     ''unx'' 0 [] = None"
  by code_simp+

lemma wordpiece_greedy_witness:
  "wordpiece tiny_wordpiece ''unable'' = [6, 7] \<and> wordpiece tiny_wordpiece ''unx'' = [3]"
proof -
  have ok: "wordpiece_ok tiny_wordpiece"
    by (simp add: wordpiece_ok_def tiny_wordpiece_def default_config_def INT32_MAX_def)
  have run: "match_word (wp_ix tiny_wordpiece) ''unable'' 0 [] = Some [6, 7]"
    "match_word (wp_ix tiny_wordpiece) ''unx'' 0 [] = None"
    using tiny_matches by (simp_all add: tiny_wordpiece_def)
  from matched_segments [OF wordpiece_ok_natural [OF ok] run(1)]
  obtain ps where ps: "segments (wp_ix tiny_wordpiece) True ''unable'' ps \<and> map snd ps = [6, 7]" ..
  note no_segments = unmatched_segments [OF wordpiece_ok_natural [OF ok] run(2)]
  show ?thesis
    using wordpiece_greedy [OF ok, of "''unable''" ps] wordpiece_greedy [OF ok, of "''unx''"] ps no_segments
    by (simp add: kMaxInputCharsPerWord_def tiny_wordpiece_def)
qed

text \<open>The loops over the words are one bounded append.\<close>

lemma push_pieces_eq:
  "push_pieces limit ks ids =
     (let room = nat (limit - 1) - length ids in (length ks > room, ids @ take room ks))"
proof (induction ks arbitrary: ids)
  case Nil
  then show ?case by simp
next
  case (Cons k ks)
  then show ?case
    by (cases "nat (limit - 1) - length ids") (auto simp: Let_def Suc_diff_Suc diff_Suc)
qed

lemma push_words_eq:
  "push_words t limit ws ids = ids @ take (nat (limit - 1) - length ids) (concat (map (wordpiece t) ws))"
  by (induction ws arbitrary: ids) (auto simp: push_pieces_eq Let_def)

lemma segments_ids: "segments ix first w ps \<Longrightarrow> k \<in> snd ` set ps \<Longrightarrow> \<exists>p. ix p = Some k"
  by (induction rule: segments.induct) auto

lemma wordpiece_ids:
  assumes "wordpiece_ok t" and "k \<in> set (wordpiece t w)"
  shows "0 \<le> k \<and> k < wordpiece_vocab_size t"
proof (cases "match_word (wp_ix t) w 0 []")
  case None
  then show ?thesis using assms
    by (auto simp: wordpiece_def wordpiece_ok_def wordpiece_vocab_size_def Let_def split: if_splits)
next
  case (Some out)
  then obtain ps where ps: "segments (wp_ix t) True w ps" "out = map snd ps"
    using match_word_segments [OF wordpiece_ok_natural [OF assms(1)], of w 0 "[]"] by auto
  have "0 \<le> i \<and> i < wordpiece_vocab_size t" if i: "i \<in> set out" for i
    using segments_ids [OF ps(1), of i] ps(2) i assms(1)
    by (auto simp: wordpiece_ok_def wordpiece_vocab_size_def Let_def dest: first_index_range)
  then show ?thesis using assms Some
    by (auto simp: wordpiece_def wordpiece_ok_def wordpiece_vocab_size_def Let_def split: if_splits)
qed

text \<open>
  C36: what \<open>encode\<close> returns, on every input: the class token, the ids of the words of the text in
  order, cut off at two less than the limit, and the separator token; the limit is the override
  when it is positive, and a limit below two is the only error.
\<close>

theorem wordpiece_encode_exact:
  "wordpiece_encode t txt override =
     (let limit = if override > 0 then override else max_seq_len (wp_cfg t) in
      if limit < 2 then Inl LimitTooSmall
      else Inr (cls_id (wp_cfg t)
        # take (nat limit - 2) (concat (map (wordpiece t) (split_words (do_lower_case (wp_cfg t)) txt)))
        @ [sep_id (wp_cfg t)]))"
  using scan_bytes [of _ "txt" "[]" "[]"] split_words_run [of _ "txt"]
  by (simp add: wordpiece_encode_def effective_limit_def Let_def push_words_eq basic_tokenize_def
      nat_diff_distrib' flip: numeral_2_eq_2)

lemma wordpiece_encode_in_bounds:
  assumes "wordpiece_ok t" and "wordpiece_encode t txt override = Inr ids"
  shows "2 \<le> length ids \<and> int (length ids) \<le> effective_limit override (max_seq_len (wp_cfg t))
    \<and> hd ids = cls_id (wp_cfg t) \<and> last ids = sep_id (wp_cfg t)
    \<and> (\<forall>k\<in>set ids. 0 \<le> k \<and> k < wordpiece_vocab_size t)"
proof -
  define limit where "limit = effective_limit override (max_seq_len (wp_cfg t))"
  define body where "body = take (nat (limit - 1) - 1) (concat (map (wordpiece t) (basic_tokenize t txt)))"
  from assms(2) have limit: "2 \<le> limit" and ids: "ids = cls_id (wp_cfg t) # body @ [sep_id (wp_cfg t)]"
    by (auto simp: wordpiece_encode_def limit_def Let_def push_words_eq body_def split: if_splits)
  have "length body \<le> nat (limit - 1) - 1" by (simp add: body_def)
  then have "int (length ids) \<le> limit" using limit by (simp add: ids)
  moreover have "\<forall>k\<in>set body. 0 \<le> k \<and> k < wordpiece_vocab_size t"
    using wordpiece_ids [OF assms(1)] by (auto simp: body_def dest!: in_set_takeD)
  moreover have "\<forall>k\<in>{cls_id (wp_cfg t), sep_id (wp_cfg t)}. 0 \<le> k \<and> k < wordpiece_vocab_size t"
    using assms(1) by (auto simp: wordpiece_ok_def wordpiece_vocab_size_def Let_def)
  ultimately show ?thesis by (auto simp: ids limit_def)
qed

text \<open>
  C34: the ids of a text fit the limit of the call and name rows of the vocabulary, so that the
  embedding lookup stays in range; the first is the class token, the last the separator.
\<close>

theorem wordpiece_encode_bounds:
  assumes "wordpiece_ok t" and "wordpiece_encode t txt override = Inr ids"
  shows "2 \<le> length ids \<and> int (length ids) \<le> effective_limit override (max_seq_len (wp_cfg t))
    \<and> hd ids = cls_id (wp_cfg t) \<and> last ids = sep_id (wp_cfg t)
    \<and> (\<forall>k\<in>set ids. 0 \<le> k \<and> k < wordpiece_vocab_size t)"
  by (rule wordpiece_encode_in_bounds [OF assms])

lemma wordpiece_encode_bounds_witness:
  "wordpiece_encode tiny_wordpiece ''Unable, un!'' 6 = Inr [1, 6, 7, 3, 4, 2]
   \<and> int (length [1, 6, 7, 3, 4, 2 :: int]) \<le> 6"
proof -
  have e: "wordpiece_encode tiny_wordpiece ''Unable, un!'' 6 = Inr [1, 6, 7, 3, 4, 2]"
    unfolding tiny_wordpiece_def by code_simp
  have ok: "wordpiece_ok tiny_wordpiece"
    by (simp add: wordpiece_ok_def tiny_wordpiece_def default_config_def INT32_MAX_def)
  from wordpiece_encode_bounds [OF ok e] e show ?thesis by (simp add: effective_limit_def)
qed

end
