(* ===== verification/Bytes.thy ===== *)
theory Bytes
  imports Prelude
begin

text \<open>
  Integers in byte buffers: the little-endian readers and writers of
  \<open>src/tokenizer/disk_merge_index.cpp\<close>, the big-endian ones of \<open>src/tokenizer/sha256.cpp\<close>, and
  the copies into a fixed buffer they share. A buffer is the list of its bytes; a writer returns
  the bytes it stores, \<open>put\<close> places them.
\<close>

definition put :: "nat \<Rightarrow> 'a list \<Rightarrow> 'a list \<Rightarrow> 'a list" where
  "put off src buf = take off buf @ src @ drop (off + length src) buf"

definition slice :: "nat \<Rightarrow> nat \<Rightarrow> 'a list \<Rightarrow> 'a list" where
  "slice off n buf = take n (drop off buf)"

lemma length_put [simp]: "off + length src \<le> length buf \<Longrightarrow> length (put off src buf) = length buf"
  by (simp add: put_def)

lemma slice_length [simp]: "off + n \<le> length buf \<Longrightarrow> length (slice off n buf) = n"
  by (simp add: slice_def)

lemma slice_put_same:
  "off + length src \<le> length buf \<Longrightarrow> n = length src \<Longrightarrow> slice off n (put off src buf) = src"
  by (simp add: put_def slice_def)

lemma nth_put:
  assumes "off + length src \<le> length buf" and "i < length buf"
  shows "put off src buf ! i = (if off \<le> i \<and> i < off + length src then src ! (i - off) else buf ! i)"
  using assms by (auto simp: put_def nth_append min_def)

lemma slice_nth: "off + n \<le> length buf \<Longrightarrow> i < n \<Longrightarrow> slice off n buf ! i = buf ! (off + i)"
  by (simp add: slice_def)

lemma slice_put_other:
  assumes "off + length src \<le> length buf" and "at + n \<le> length buf"
    and "at + n \<le> off \<or> off + length src \<le> at"
  shows "slice at n (put off src buf) = slice at n buf"
  by (rule nth_equalityI) (use assms in \<open>auto simp: slice_nth nth_put\<close>)

lemma slice_full: "length buf = n \<Longrightarrow> slice 0 n buf = buf"
  by (simp add: slice_def)

lemma slice_replicate: "off + n \<le> m \<Longrightarrow> slice off n (replicate m x) = replicate n x"
  by (simp add: slice_def)

lemma slice_slice: "i + m \<le> n \<Longrightarrow> slice i m (slice off n buf) = slice (off + i) m buf"
  by (simp add: slice_def drop_take min_def add.commute)

lemma slice_append_right: "length a \<le> off \<Longrightarrow> slice off n (a @ b) = slice (off - length a) n b"
  by (simp add: slice_def)

lemma slice_append_left: "off + n \<le> length a \<Longrightarrow> slice off n (a @ b) = slice off n a"
  by (simp add: slice_def)

text \<open>A list of writes into one buffer: the last write to a place is what is read there.\<close>

definition write_at :: "nat \<times> 'a list \<Rightarrow> 'a list \<Rightarrow> 'a list" where
  "write_at w buf = put (fst w) (snd w) buf"

lemma length_writes:
  "\<forall>w \<in> set ws. fst w + length (snd w) \<le> length buf \<Longrightarrow> length (fold write_at ws buf) = length buf"
  by (induction ws arbitrary: buf) (auto simp: write_at_def)

lemma slice_writes_other:
  "\<forall>w \<in> set ws. fst w + length (snd w) \<le> length buf \<and> (at + n \<le> fst w \<or> fst w + length (snd w) \<le> at) \<Longrightarrow>
     at + n \<le> length buf \<Longrightarrow> slice at n (fold write_at ws buf) = slice at n buf"
  by (induction ws arbitrary: buf) (auto simp: write_at_def slice_put_other)

lemma slice_writes:
  assumes "\<forall>w \<in> set ws. fst w + length (snd w) \<le> length buf" and "k < length ws" and "ws ! k = (at, src)"
    and "\<forall>w \<in> set (drop (Suc k) ws). at + length src \<le> fst w \<or> fst w + length (snd w) \<le> at"
  shows "slice at (length src) (fold write_at ws buf) = src"
proof -
  define buf1 where "buf1 = fold write_at (take k ws) buf"
  have len1: "length buf1 = length buf"
    unfolding buf1_def using assms(1) by (intro length_writes) (auto dest: in_set_takeD)
  have fits: "at + length src \<le> length buf" using assms(1-3) by (metis fst_conv nth_mem snd_conv)
  have "ws = take k ws @ (at, src) # drop (Suc k) ws" using assms(2,3) by (metis id_take_nth_drop)
  then have "fold write_at ws buf = fold write_at (drop (Suc k) ws) (put at src buf1)"
    by (metis buf1_def fold_append fold_simps(2) comp_apply fst_conv snd_conv write_at_def)
  moreover have "slice at (length src) (fold write_at (drop (Suc k) ws) (put at src buf1))
      = slice at (length src) (put at src buf1)"
    using assms(1,4) fits len1 by (intro slice_writes_other) (auto dest: in_set_dropD)
  ultimately show ?thesis using fits len1 by (simp add: slice_put_same)
qed

subsection \<open>Little-endian\<close>

text \<open>The writer's loop stores the low byte and shifts.\<close>

fun le_bytes :: "nat \<Rightarrow> 'a::len word \<Rightarrow> u8 list" where
  "le_bytes 0 v = []"
| "le_bytes (Suc n) v = ucast v # le_bytes n (drop_bit 8 v)"

definition write_le32 :: "u32 \<Rightarrow> u8 list" where
  "write_le32 v = le_bytes 4 v"

definition write_le64 :: "u64 \<Rightarrow> u8 list" where
  "write_le64 v = le_bytes 8 v"

definition read_le32 :: "u8 list \<Rightarrow> u32" where
  "read_le32 p = ucast (p ! 0) OR push_bit 8 (ucast (p ! 1)) OR push_bit 16 (ucast (p ! 2))
     OR push_bit 24 (ucast (p ! 3))"

definition read_le64 :: "u8 list \<Rightarrow> u64" where
  "read_le64 p = fold (\<lambda>i result. push_bit 8 result OR ucast (p ! i)) [7, 6, 5, 4, 3, 2, 1, 0] 0"

lemma length_le_bytes [simp]: "length (le_bytes n v) = n"
  by (induction n v rule: le_bytes.induct) auto

lemma length_write_le [simp]: "length (write_le32 v) = 4" "length (write_le64 w) = 8"
  by (simp_all add: write_le32_def write_le64_def)

lemma nth_le_bytes: "i < n \<Longrightarrow> le_bytes n v ! i = ucast (drop_bit (8 * i) v)"
proof (induction n v arbitrary: i rule: le_bytes.induct)
  case (1 v)
  then show ?case by simp
next
  case (2 n v)
  then show ?case by (cases i) (auto simp: add.commute)
qed

lemma le_step:
  "push_bit 8 (drop_bit (8 + k) v) OR ucast (ucast (drop_bit k v) :: u8) = drop_bit k v" for v :: "'a::len word"
proof (rule bit_word_eqI)
  fix n assume n: "n < LENGTH('a)"
  show "bit (push_bit 8 (drop_bit (8 + k) v) OR ucast (ucast (drop_bit k v) :: u8)) n = bit (drop_bit k v) n"
  proof (cases "n < 8")
    case False
    then have "8 + k + (n - 8) = k + n" by simp
    then show ?thesis using n False by (auto simp: bit_simps ac_simps)
  qed (use n in \<open>auto simp: bit_simps ac_simps\<close>)
qed

lemma drop_all_64: "drop_bit 64 (v :: u64) = 0"
  by (rule bit_word_eqI) (auto simp: bit_simps dest: bit_imp_le_length)

lemma drop_all_32: "drop_bit 32 (v :: u32) = 0"
  by (rule bit_word_eqI) (auto simp: bit_simps dest: bit_imp_le_length)

lemma read_write_le64 [simp]: "read_le64 (write_le64 v) = v"
proof -
  note step = le_step [of 56 v] le_step [of 48 v] le_step [of 40 v] le_step [of 32 v]
    le_step [of 24 v] le_step [of 16 v] le_step [of 8 v] le_step [of 0 v]
  show ?thesis
    using step by (simp add: read_le64_def write_le64_def nth_le_bytes drop_all_64)
qed

lemma or_pushes:
  "a OR push_bit 8 b OR push_bit 16 c OR push_bit 24 d = push_bit 8 (push_bit 8 (push_bit 8 d OR c) OR b) OR a"
  for a :: "'a::len word"
  by (simp add: push_bit_or ac_simps or.left_commute)

lemma read_write_le32 [simp]: "read_le32 (write_le32 v) = v"
proof -
  note step = le_step [of 24 v] le_step [of 16 v] le_step [of 8 v] le_step [of 0 v]
  show ?thesis
    unfolding read_le32_def or_pushes using step by (simp add: write_le32_def nth_le_bytes drop_all_32)
qed

lemma write_le64_inj: "write_le64 v = write_le64 w \<Longrightarrow> v = w"
  by (metis read_write_le64)

subsection \<open>Big-endian\<close>

fun be_bytes :: "nat \<Rightarrow> 'a::len word \<Rightarrow> u8 list" where
  "be_bytes 0 v = []"
| "be_bytes (Suc n) v = be_bytes n (drop_bit 8 v) @ [ucast v]"

definition write_be64 :: "u64 \<Rightarrow> u8 list" where
  "write_be64 v = be_bytes 8 v"

definition read_be32 :: "u8 list \<Rightarrow> u32" where
  "read_be32 p = push_bit 24 (ucast (p ! 0)) OR push_bit 16 (ucast (p ! 1))
     OR push_bit 8 (ucast (p ! 2)) OR ucast (p ! 3)"

lemma length_be_bytes [simp]: "length (be_bytes n v) = n"
  by (induction n v rule: be_bytes.induct) auto

lemma length_write_be64 [simp]: "length (write_be64 v) = 8"
  by (simp add: write_be64_def)

end
