(* ===== verification/Sha256.thy ===== *)
theory Sha256
  imports Bytes
begin

text \<open>
  The incremental SHA-256 of \<open>src/tokenizer/sha256.cpp\<close>: the object with its partly filled
  buffer, \<open>update\<close> and \<open>finish\<close> with their logic errors, and the hexadecimal digest that names
  the merge cache. It is compared with the one-shot specification \<open>sha_digest\<close>, the compression
  of the padded message, whatever the chunks the message arrived in.
\<close>

datatype sha_error = UpdateAfterFinish | NullShaInput | FinishTwice

text \<open>\<open>data\<close> and \<open>size\<close> of a call: a null pointer with a size, or the bytes.\<close>

datatype sha_input = NullInput nat | InputBytes "u8 list"

record sha_object =
  sh_state :: "u32 list"
  total_bytes :: u64
  sh_buffer :: "u8 list"
  buffered :: nat
  finished :: bool

definition kRound :: "u32 list" where
  "kRound = concat [
     [0x428a2f98, 0x71374491, 0xb5c0fbcf, 0xe9b5dba5, 0x3956c25b, 0x59f111f1, 0x923f82a4, 0xab1c5ed5],
     [0xd807aa98, 0x12835b01, 0x243185be, 0x550c7dc3, 0x72be5d74, 0x80deb1fe, 0x9bdc06a7, 0xc19bf174],
     [0xe49b69c1, 0xefbe4786, 0x0fc19dc6, 0x240ca1cc, 0x2de92c6f, 0x4a7484aa, 0x5cb0a9dc, 0x76f988da],
     [0x983e5152, 0xa831c66d, 0xb00327c8, 0xbf597fc7, 0xc6e00bf3, 0xd5a79147, 0x06ca6351, 0x14292967],
     [0x27b70a85, 0x2e1b2138, 0x4d2c6dfc, 0x53380d13, 0x650a7354, 0x766a0abb, 0x81c2c92e, 0x92722c85],
     [0xa2bfe8a1, 0xa81a664b, 0xc24b8b70, 0xc76c51a3, 0xd192e819, 0xd6990624, 0xf40e3585, 0x106aa070],
     [0x19a4c116, 0x1e376c08, 0x2748774c, 0x34b0bcb5, 0x391c0cb3, 0x4ed8aa4a, 0x5b9cca4f, 0x682e6ff3],
     [0x748f82ee, 0x78a5636f, 0x84c87814, 0x8cc70208, 0x90befffa, 0xa4506ceb, 0xbef9a3f7, 0xc67178f2]]"

definition initial_state :: "u32 list" where
  "initial_state = [0x6a09e667, 0xbb67ae85, 0x3c6ef372, 0xa54ff53a,
     0x510e527f, 0x9b05688c, 0x1f83d9ab, 0x5be0cd19]"

definition new_sha256 :: sha_object where
  "new_sha256 = \<lparr>sh_state = initial_state, total_bytes = 0, sh_buffer = replicate 64 0, buffered = 0,
     finished = False\<rparr>"

subsection \<open>The compression function\<close>

definition rotate_right :: "u32 \<Rightarrow> nat \<Rightarrow> u32" where
  "rotate_right v n = drop_bit n v OR push_bit (32 - n) v"

definition schedule_step :: "nat \<Rightarrow> u32 list \<Rightarrow> u32 list" where
  "schedule_step i w =
     (let s0 = rotate_right (w ! (i - 15)) 7 XOR rotate_right (w ! (i - 15)) 18 XOR drop_bit 3 (w ! (i - 15));
          s1 = rotate_right (w ! (i - 2)) 17 XOR rotate_right (w ! (i - 2)) 19 XOR drop_bit 10 (w ! (i - 2))
      in w @ [w ! (i - 16) + s0 + w ! (i - 7) + s1])"

definition message_schedule :: "u8 list \<Rightarrow> u32 list" where
  "message_schedule block =
     fold schedule_step [16 ..< 64] (map (\<lambda>i. read_be32 (drop (i * 4) block)) [0 ..< 16])"

type_synonym regs = "u32 \<times> u32 \<times> u32 \<times> u32 \<times> u32 \<times> u32 \<times> u32 \<times> u32"

fun round_step :: "u32 \<times> u32 \<Rightarrow> regs \<Rightarrow> regs" where
  "round_step (k, wi) (a, b, c, d, e, f, g, h) =
     (let s1 = rotate_right e 6 XOR rotate_right e 11 XOR rotate_right e 25;
          chosen = (e AND f) XOR (NOT e AND g);
          temp1 = h + s1 + chosen + k + wi;
          s0 = rotate_right a 2 XOR rotate_right a 13 XOR rotate_right a 22;
          majority = (a AND b) XOR (a AND c) XOR (b AND c);
          temp2 = s0 + majority
      in (temp1 + temp2, a, b, c, d + temp1, e, f, g))"

definition transform :: "u8 list \<Rightarrow> u32 list \<Rightarrow> u32 list" where
  "transform block st =
     (case fold round_step (zip kRound (message_schedule block))
             (st ! 0, st ! 1, st ! 2, st ! 3, st ! 4, st ! 5, st ! 6, st ! 7) of
        (a, b, c, d, e, f, g, h) \<Rightarrow>
          [st ! 0 + a, st ! 1 + b, st ! 2 + c, st ! 3 + d, st ! 4 + e, st ! 5 + f, st ! 6 + g, st ! 7 + h])"

subsection \<open>The object\<close>

text \<open>The loop over whole blocks; it returns the bytes it leaves.\<close>

function transform_blocks :: "u8 list \<Rightarrow> u32 list \<Rightarrow> u32 list \<times> u8 list" where
  "transform_blocks p st =
     (if length p \<ge> 64 then transform_blocks (drop 64 p) (transform (take 64 p) st) else (st, p))"
  by pat_completeness auto
termination
  by (relation "measure (length \<circ> fst)") auto

declare transform_blocks.simps [simp del]

definition fill_buffer :: "u8 list \<Rightarrow> sha_object \<Rightarrow> u8 list \<times> sha_object" where
  "fill_buffer p s =
     (if buffered s \<noteq> 0 then
        let taken = min (length p) (64 - buffered s);
            buf = put (buffered s) (take taken p) (sh_buffer s);
            n = buffered s + taken
        in if n = 64 then (drop taken p, s\<lparr>sh_state := transform buf (sh_state s), sh_buffer := buf, buffered := 0\<rparr>)
           else (drop taken p, s\<lparr>sh_buffer := buf, buffered := n\<rparr>)
      else (p, s))"

definition absorb :: "u8 list \<Rightarrow> sha_object \<Rightarrow> sha_object" where
  "absorb data s =
     (case fill_buffer data (s\<lparr>total_bytes := total_bytes s + word_of_nat (length data)\<rparr>) of
        (p, s1) \<Rightarrow>
          (case transform_blocks p (sh_state s1) of
             (st, rest) \<Rightarrow>
               if rest \<noteq> [] then s1\<lparr>sh_state := st, sh_buffer := put 0 rest (sh_buffer s1), buffered := length rest\<rparr>
               else s1\<lparr>sh_state := st\<rparr>))"

definition update :: "sha_input \<Rightarrow> (sha_object, sha_error, unit) action" where
  "update inp =
     bindM (getM finished) (\<lambda>fin.
     if fin then throwM UpdateAfterFinish
     else case inp of
            NullInput n \<Rightarrow> if n \<noteq> 0 then throwM NullShaInput else modifyM (absorb [])
          | InputBytes data \<Rightarrow> modifyM (absorb data))"

definition digest_bytes :: "u32 list \<Rightarrow> u8 list" where
  "digest_bytes st =
     concat (map (\<lambda>v. [ucast (drop_bit 24 v), ucast (drop_bit 16 v), ucast (drop_bit 8 v), ucast v]) st)"

definition close_padding :: "sha_object \<Rightarrow> sha_object" where
  "close_padding s =
     (let bit_count = total_bytes s * 8;
          buf = put (buffered s) [0x80] (sh_buffer s);
          n = buffered s + 1;
          over = n > 56;
          buf1 = (if over then put n (replicate (64 - n) 0) buf else buf);
          st = (if over then transform buf1 (sh_state s) else sh_state s);
          n1 = (if over then 0 else n);
          buf2 = put n1 (replicate (56 - n1) 0) buf1;
          buf3 = put 56 (write_be64 bit_count) buf2
      in s\<lparr>sh_state := transform buf3 st, sh_buffer := buf3, buffered := n1, finished := True\<rparr>)"

definition finish :: "(sha_object, sha_error, u8 list) action" where
  "finish =
     bindM (getM finished) (\<lambda>fin.
     if fin then throwM FinishTwice
     else bindM (modifyM close_padding) (\<lambda>_. getM (digest_bytes \<circ> sh_state)))"

definition sha256 :: "sha_input \<Rightarrow> sha_error + u8 list" where
  "sha256 inp = fst (bindM (update inp) (\<lambda>_. finish) new_sha256)"

definition kHex :: string where
  "kHex = ''0123456789abcdef''"

definition sha256_hex :: "u8 list \<Rightarrow> string" where
  "sha256_hex digest = concat (map (\<lambda>b. [kHex ! unat (drop_bit 4 b), kHex ! unat (b AND 0x0f)]) digest)"

subsection \<open>Specification: the compression of the padded message\<close>

definition pad_message :: "u8 list \<Rightarrow> u8 list" where
  "pad_message m =
     m @ [0x80] @ replicate ((119 - length m mod 64) mod 64) 0 @ write_be64 (word_of_nat (8 * length m))"

definition compress :: "u8 list \<Rightarrow> u32 list" where
  "compress m = fst (transform_blocks m initial_state)"

definition sha_digest :: "u8 list \<Rightarrow> u8 list" where
  "sha_digest m = digest_bytes (compress (pad_message m))"

subsection \<open>Splitting a message into chunks\<close>

lemma transform_blocks_short: "length p < 64 \<Longrightarrow> transform_blocks p st = (st, p)"
  by (subst transform_blocks.simps) simp

lemma transform_blocks_block:
  "length b = 64 \<Longrightarrow> transform_blocks (b @ p) st = transform_blocks p (transform b st)"
  by (subst transform_blocks.simps) simp

lemma transform_blocks_append:
  "transform_blocks (p @ q) st = (case transform_blocks p st of (st', r) \<Rightarrow> transform_blocks (r @ q) st')"
proof (induction p st rule: transform_blocks.induct)
  case (1 p st)
  show ?case
  proof (cases "64 \<le> length p")
    case True
    then have "transform_blocks (p @ q) st = transform_blocks (drop 64 p @ q) (transform (take 64 p) st)"
      by (subst transform_blocks.simps) simp
    also have "\<dots> = (case transform_blocks p st of (st', r) \<Rightarrow> transform_blocks (r @ q) st')"
      using 1 [OF True] True by (subst (2) transform_blocks.simps) simp
    finally show ?thesis .
  qed (simp add: transform_blocks_short)
qed

lemma transform_blocks_rest: "transform_blocks p st = (st', r) \<Longrightarrow> length r = length p mod 64"
proof (induction p st rule: transform_blocks.induct)
  case (1 p st)
  show ?case
  proof (cases "64 \<le> length p")
    case True
    then have "transform_blocks (drop 64 p) (transform (take 64 p) st) = (st', r)"
      using 1(2) by (subst (asm) transform_blocks.simps) simp
    with 1(1) [OF True] show ?thesis using True by (simp add: le_mod_geq)
  qed (use 1(2) in \<open>simp add: transform_blocks_short\<close>)
qed

text \<open>The object after the bytes \<open>m\<close>: whole blocks are compressed, the buffer holds the rest.\<close>

definition sha_inv :: "sha_object \<Rightarrow> u8 list \<Rightarrow> bool" where
  "sha_inv s m \<longleftrightarrow> \<not> finished s \<and> length (sh_buffer s) = 64 \<and> buffered s < 64
     \<and> total_bytes s = word_of_nat (length m)
     \<and> transform_blocks m initial_state = (sh_state s, take (buffered s) (sh_buffer s))"

lemma sha_inv_new: "sha_inv new_sha256 []"
  by (simp add: sha_inv_def new_sha256_def transform_blocks_short)

lemma take_put: "off + length src \<le> length buf \<Longrightarrow> take (off + length src) (put off src buf) = take off buf @ src"
  by (simp add: put_def)

lemma fill_buffer_inv:
  assumes "length (sh_buffer s) = 64" and "buffered s < 64" and "fill_buffer data s = (p, s')"
    and "\<not> finished s"
  shows "transform_blocks (take (buffered s) (sh_buffer s) @ data) (sh_state s)
      = transform_blocks (take (buffered s') (sh_buffer s') @ p) (sh_state s')
    \<and> length (sh_buffer s') = 64 \<and> buffered s' < 64 \<and> (p \<noteq> [] \<longrightarrow> buffered s' = 0)
    \<and> \<not> finished s' \<and> total_bytes s' = total_bytes s"
proof (cases "buffered s = 0")
  case True
  then show ?thesis using assms by (auto simp: fill_buffer_def)
next
  case False
  define r where "r = take (buffered s) (sh_buffer s)"
  define n where "n = min (length data) (64 - buffered s)"
  define buf where "buf = put (buffered s) (take n data) (sh_buffer s)"
  have len: "length (take n data) = n" "buffered s + n \<le> 64" using assms(2) by (auto simp: n_def)
  have buf: "length buf = 64" "take (buffered s + n) buf = r @ take n data"
    using assms(1) len take_put [of "buffered s" "take n data" "sh_buffer s"] by (auto simp: buf_def r_def)
  show ?thesis
  proof (cases "buffered s + n = 64")
    case full: True
    then have s': "p = drop n data" "s' = s\<lparr>sh_state := transform buf (sh_state s), sh_buffer := buf, buffered := 0\<rparr>"
      using assms(3) False by (auto simp: fill_buffer_def Let_def n_def buf_def)
    have block: "r @ take n data = buf" using buf full by simp
    have "r @ data = buf @ drop n data" by (simp flip: block)
    then show ?thesis using s' buf assms by (simp add: transform_blocks_block r_def)
  next
    case part: False
    then have "n = length data" using len by (auto simp: n_def)
    moreover have "p = drop n data" "s' = s\<lparr>sh_buffer := buf, buffered := buffered s + n\<rparr>"
      using assms(3) False part by (auto simp: fill_buffer_def Let_def n_def buf_def)
    ultimately show ?thesis using buf part len assms by (simp add: r_def)
  qed
qed

lemma absorb_inv:
  assumes "sha_inv s m" shows "sha_inv (absorb data s) (m @ data)"
proof -
  define s0 where "s0 = s\<lparr>total_bytes := total_bytes s + word_of_nat (length data)\<rparr>"
  obtain p s1 where s1: "fill_buffer data s0 = (p, s1)" by fastforce
  obtain st r where r: "transform_blocks p (sh_state s1) = (st, r)" by fastforce
  have pre: "length (sh_buffer s0) = 64" "buffered s0 < 64" "\<not> finished s0"
    using assms by (auto simp: sha_inv_def s0_def)
  note fill = fill_buffer_inv [OF pre(1,2) s1 pre(3)]
  have total: "total_bytes s1 = word_of_nat (length (m @ data))"
    using fill assms by (simp add: s0_def sha_inv_def)
  have whole: "transform_blocks m initial_state = (sh_state s0, take (buffered s0) (sh_buffer s0))"
    using assms by (simp add: sha_inv_def s0_def)
  have all: "transform_blocks (m @ data) initial_state
      = transform_blocks (take (buffered s1) (sh_buffer s1) @ p) (sh_state s1)"
    by (simp only: transform_blocks_append [of m data] whole prod.case fill [THEN conjunct1])
  have absorbed: "absorb data s = (if r \<noteq> []
      then s1\<lparr>sh_state := st, sh_buffer := put 0 r (sh_buffer s1), buffered := length r\<rparr> else s1\<lparr>sh_state := st\<rparr>)"
    using s1 r by (simp add: absorb_def s0_def)
  have len: "length r < 64" using transform_blocks_rest [OF r] by simp
  show ?thesis
  proof (cases "p = []")
    case True
    then have "st = sh_state s1" "r = []" using r by (auto simp: transform_blocks_short)
    then show ?thesis
      using fill all True total absorbed by (simp add: sha_inv_def transform_blocks_short)
  next
    case False
    then have "buffered s1 = 0" using fill by simp
    then have run: "transform_blocks (m @ data) initial_state = (st, r)" using all r by simp
    show ?thesis
      unfolding sha_inv_def run absorbed
      using fill total len take_put [of 0 r "sh_buffer s1"] \<open>buffered s1 = 0\<close> by auto
  qed
qed

lemma update_inv:
  assumes "sha_inv s m"
  shows "\<exists>s'. update (InputBytes data) s = (Inr (), s') \<and> sha_inv s' (m @ data)"
  using absorb_inv [OF assms] assms by (simp add: update_def sha_inv_def)

subsection \<open>Finishing\<close>

lemma pad_tail: "b < 64 \<Longrightarrow> (119 - b) mod 64 = (if b < 56 then 55 - b else 119 - b)" for b :: nat
  using le_mod_geq [of 64 "119 - b"] by auto

lemma put_end: "off + length src = length buf \<Longrightarrow> put off src buf = take off buf @ src"
  by (simp add: put_def)

lemma close_padding_inv:
  assumes "sha_inv s m"
  shows "sh_state (close_padding s) = compress (pad_message m) \<and> finished (close_padding s)"
proof -
  define b r where "b = buffered s" and "r = take b (sh_buffer s)"
  define lenb where "lenb = write_be64 (word_of_nat (8 * length m))"
  have inv: "length (sh_buffer s) = 64" "b < 64" "length r = b" "b = length m mod 64"
    "transform_blocks m initial_state = (sh_state s, r)" "total_bytes s * 8 = word_of_nat (8 * length m)"
    using assms transform_blocks_rest [of m initial_state] by (auto simp: sha_inv_def b_def r_def)
  have sum: "compress (pad_message m)
      = fst (transform_blocks (r @ [0x80] @ replicate (if b < 56 then 55 - b else 119 - b) 0 @ lenb) (sh_state s))"
    unfolding compress_def pad_message_def lenb_def transform_blocks_append [of m] inv(4) [symmetric] pad_tail [OF inv(2)]
    by (simp add: inv(5))
  have len: "length lenb = 8" by (simp add: lenb_def)
  have one: "take (b + 1) (put b [0x80] (sh_buffer s)) = r @ [0x80]"
    using take_put [of b "[0x80]" "sh_buffer s"] inv by (simp add: r_def)
  show ?thesis
  proof (cases "b < 56")
    case True
    define buf2 where "buf2 = put (b + 1) (replicate (56 - (b + 1)) 0) (put b [0x80] (sh_buffer s))"
    have "take 56 buf2 = (r @ [0x80]) @ replicate (55 - b) 0"
      using take_put [of "b + 1" "replicate (55 - b) 0" "put b [0x80] (sh_buffer s)"] True inv one
      by (simp add: buf2_def)
    moreover have "put 56 lenb buf2 = take 56 buf2 @ lenb" using len inv True by (intro put_end) (simp add: buf2_def)
    ultimately have block: "put 56 lenb buf2 = r @ [0x80] @ replicate (55 - b) 0 @ lenb" by simp
    have "close_padding s = s\<lparr>sh_state := transform (put 56 lenb buf2) (sh_state s), sh_buffer := put 56 lenb buf2,
        buffered := b + 1, finished := True\<rparr>"
      using True inv(6) by (simp add: close_padding_def Let_def lenb_def buf2_def flip: b_def)
    moreover have "length (put 56 lenb buf2) = 64" using len inv True by (simp add: block)
    ultimately show ?thesis
      using True transform_blocks_block [of "put 56 lenb buf2" "[]"] block sum
      by (simp add: transform_blocks_short)
  next
    case False
    define buf1 where "buf1 = put (b + 1) (replicate (64 - (b + 1)) 0) (put b [0x80] (sh_buffer s))"
    define buf2 where "buf2 = put 0 (replicate 56 0) buf1"
    have buf1: "buf1 = (r @ [0x80]) @ replicate (63 - b) 0"
      using False inv one by (simp add: buf1_def put_end del: take_put)
    then have len1: "length buf1 = 64" using inv False by simp
    have "take 56 buf2 = replicate 56 0" using take_put [of 0 "replicate 56 0" buf1] len1 by (simp add: buf2_def)
    moreover have "put 56 lenb buf2 = take 56 buf2 @ lenb" using len len1 by (intro put_end) (simp add: buf2_def)
    ultimately have block2: "put 56 lenb buf2 = replicate 56 0 @ lenb" by simp
    have "replicate (119 - b) (0 :: u8) = replicate (63 - b) 0 @ replicate 56 0"
      using False inv(2) by (simp flip: replicate_add)
    then have tail: "r @ [0x80] @ replicate (119 - b) 0 @ lenb = buf1 @ put 56 lenb buf2"
      by (simp add: buf1 block2)
    have "close_padding s = s\<lparr>sh_state := transform (put 56 lenb buf2) (transform buf1 (sh_state s)),
        sh_buffer := put 56 lenb buf2, buffered := 0, finished := True\<rparr>"
      using False inv(6) by (simp add: close_padding_def Let_def lenb_def buf1_def buf2_def flip: b_def)
    moreover have "length (put 56 lenb buf2) = 64" using len by (simp add: block2)
    ultimately show ?thesis
      using False transform_blocks_block [of "put 56 lenb buf2" "[]"] transform_blocks_block [OF len1] tail sum
      by (simp add: transform_blocks_short)
  qed
qed

lemma finish_inv:
  assumes "sha_inv s m"
  shows "\<exists>s'. finish s = (Inr (sha_digest m), s') \<and> finished s'"
  using close_padding_inv [OF assms] assms by (simp add: finish_def sha_inv_def sha_digest_def)

lemma update_chunks:
  "sha_inv s m \<Longrightarrow> \<exists>s'. forM chunks (\<lambda>c. update (InputBytes c)) s = (Inr (), s') \<and> sha_inv s' (m @ concat chunks)"
proof (induction chunks arbitrary: s m)
  case Nil
  then show ?case by simp
next
  case (Cons c chunks)
  from update_inv [OF Cons.prems] obtain s1 where "update (InputBytes c) s = (Inr (), s1)" "sha_inv s1 (m @ c)"
    by blast
  with Cons.IH [OF this(2)] show ?case by (simp add: bindM_eq)
qed

lemma sha256_run:
  "\<exists>s'. bindM (forM chunks (\<lambda>c. update (InputBytes c))) (\<lambda>_. finish) new_sha256
       = (Inr (sha_digest (concat chunks)), s') \<and> finished s'"
proof -
  from update_chunks [OF sha_inv_new, of chunks] obtain s1
    where s1: "forM chunks (\<lambda>c. update (InputBytes c)) new_sha256 = (Inr (), s1)"
      "sha_inv s1 (concat chunks)" by auto
  from finish_inv [OF s1(2)] show ?thesis using s1(1) by (auto simp: bindM_eq)
qed

text \<open>
  C32: the hash of a message does not depend on how it arrives. Updating a fresh object with the
  chunks of a message, of any sizes, and finishing it returns the digest of the padded message,
  and afterwards the object refuses both calls.
\<close>

theorem sha256_chunks:
  "\<exists>s'. bindM (forM chunks (\<lambda>c. update (InputBytes c))) (\<lambda>_. finish) new_sha256
       = (Inr (sha_digest (concat chunks)), s')
     \<and> fst (finish s') = Inl FinishTwice \<and> fst (update inp s') = Inl UpdateAfterFinish"
proof -
  from sha256_run [of chunks] obtain s2
    where s2: "bindM (forM chunks (\<lambda>c. update (InputBytes c))) (\<lambda>_. finish) new_sha256
      = (Inr (sha_digest (concat chunks)), s2)" "finished s2" by blast
  moreover from s2(2) have "finish s2 = (Inl FinishTwice, s2)" "update inp s2 = (Inl UpdateAfterFinish, s2)"
    by (simp_all add: finish_def update_def)
  ultimately show ?thesis by simp
qed

lemma sha256_bytes: "sha256 (InputBytes m) = Inr (sha_digest m)"
proof -
  from update_inv [OF sha_inv_new, of m] obtain s1
    where s1: "update (InputBytes m) new_sha256 = (Inr (), s1)" "sha_inv s1 m" by auto
  from finish_inv [OF s1(2)] show ?thesis using s1(1) by (auto simp: sha256_def bindM_eq)
qed

subsection \<open>The hexadecimal name of a digest\<close>

lemma kHex_inj: "i < 16 \<Longrightarrow> j < 16 \<Longrightarrow> kHex ! i = kHex ! j \<Longrightarrow> i = j"
proof -
  have "distinct kHex" "length kHex = 16" by (simp_all add: kHex_def)
  then show "i < 16 \<Longrightarrow> j < 16 \<Longrightarrow> kHex ! i = kHex ! j \<Longrightarrow> i = j"
    by (simp add: nth_eq_iff_index_eq)
qed

lemma low_nibble: "unat (b AND 0x0f) = unat b mod 16" for b :: u8
  using unat_and_pred [of "16 :: u8" 4 b] by simp

lemma high_nibble: "unat (drop_bit 4 b) = unat b div 16" for b :: u8
  by (simp add: drop_bit_eq_div unat_div)

lemma nibbles_inj:
  fixes b b' :: u8
  assumes "kHex ! unat (drop_bit 4 b) = kHex ! unat (drop_bit 4 b')"
    and "kHex ! unat (b AND 0x0f) = kHex ! unat (b' AND 0x0f)"
  shows "b = b'"
proof -
  have "unat x div 16 < 16" for x :: u8 using unsigned_less [where ?'a = nat, of x] by (simp add: div_less_iff_less_mult)
  then have "unat b div 16 = unat b' div 16" "unat b mod 16 = unat b' mod 16"
    using assms by (auto simp: low_nibble high_nibble intro: kHex_inj)
  then have "unat b = unat b'" by (metis div_mult_mod_eq)
  then show ?thesis by (simp add: word_unat_eq_iff)
qed

text \<open>
  The hexadecimal form of a digest has two characters per byte and determines the digest, so
  caches of different tokenizers have different file names.
\<close>

theorem sha256_hex_injective:
  "length (sha256_hex d) = 2 * length d \<and> (sha256_hex d = sha256_hex d' \<longleftrightarrow> d = d')"
proof
  show "length (sha256_hex d) = 2 * length d"
    by (induction d) (auto simp: sha256_hex_def)
  show "sha256_hex d = sha256_hex d' \<longleftrightarrow> d = d'"
  proof (induction d arbitrary: d')
    case Nil
    then show ?case by (cases d') (auto simp: sha256_hex_def)
  next
    case (Cons b d)
    then show ?case by (cases d') (auto simp: sha256_hex_def dest!: nibbles_inj)
  qed
qed

end
