(* ===== verification/MergeFormat.thy ===== *)
theory MergeFormat
  imports Tokenizer Sha256 "HOL-Library.Product_Lexorder"
begin

text \<open>
  The file format of the BPE merge cache, \<open>src/tokenizer/disk_merge_index.cpp\<close>: the digest of the
  tokenizer that names the file, the checksum of a page, the merge records that a vocabulary and
  its merge rules resolve to, and the image that \<open>create_cache\<close> writes: a header page, the
  fences, and one page per 255 records.
\<close>

datatype merge_error =
    OffsetOverflow
  | NoUsableRules
  | CacheTooLarge
  | CreateFailed
  | WriteFailed
  | FlushFailed
  | SyncFailed
  | CloseFailed
  | ReplaceFailed
  | CacheOpenFailed
  | CacheSizeFailed
  | ShortRead
  | OffsetRange
  | ReadFailed
  | ShorterThanHeader
  | FormatMismatch
  | DigestMismatch
  | BadCounts
  | PayloadMismatch
  | FenceOrder
  | PageHeaderInvalid
  | RecordOrder
  | RecordOutsideVocabulary
  | PageCountsMismatch
  | PageBecameInvalid
  | TokenOutsideVocabulary
  | NoCacheDirectory
  | DirectoryFailed
  | GeneratedInvalid merge_error
  | HashError sha_error

definition kPageSize :: nat where "kPageSize = 4096"
definition kPageHeaderSize :: nat where "kPageHeaderSize = 16"
definition kRecordSize :: nat where "kRecordSize = 16"
definition kRecordsPerPage :: nat where "kRecordsPerPage = 255"
definition kFormatVersion :: u32 where "kFormatVersion = 1"
definition kEndianMarker :: u32 where "kEndianMarker = 0x01020304"
definition kMagic :: "u8 list" where "kMagic = [78, 69, 66, 80, 69, 73, 49, 0]"

lemmas format_sizes = kPageSize_def kPageHeaderSize_def kRecordSize_def kRecordsPerPage_def

definition align_page :: "u64 \<Rightarrow> merge_error + u64" where
  "align_page v =
     (if v > - 1 - (word_of_nat kPageSize - 1) then Inl OffsetOverflow
      else Inr ((v + word_of_nat kPageSize - 1) AND NOT (word_of_nat kPageSize - 1)))"

definition pair_key :: "int \<Rightarrow> int \<Rightarrow> u64" where
  "pair_key left right = push_bit 32 (ucast (word_of_int left :: u32)) OR ucast (word_of_int right :: u32)"

subsection \<open>Checksums\<close>

definition crc_bit :: "u32 \<Rightarrow> u32" where
  "crc_bit v = drop_bit 1 v XOR (0xedb88320 AND (0 - (v AND 1)))"

definition crc_entry :: "u32 \<Rightarrow> u32" where
  "crc_entry i = (crc_bit ^^ 8) i"

definition crc32 :: "u8 list \<Rightarrow> u32" where
  "crc32 bytes =
     NOT (fold (\<lambda>b crc. drop_bit 8 crc XOR crc_entry ((crc XOR ucast b) AND 0xff)) bytes 0xffffffff)"

definition string_bytes :: "string \<Rightarrow> u8 list" where
  "string_bytes s = map (\<lambda>c. word_of_nat (byte c)) s"

text \<open>The chunks that \<open>tokenizer_digest\<close> feeds to the hash, in order.\<close>

definition digest_strings :: "string \<Rightarrow> string list \<Rightarrow> u8 list list" where
  "digest_strings tag xs =
     [string_bytes tag, write_le64 (word_of_nat (length xs))]
       @ concat (map (\<lambda>v. [write_le64 (word_of_nat (length v)), string_bytes v]) xs)"

definition tokenizer_digest :: "string list \<Rightarrow> string list \<Rightarrow> merge_error + u8 list" where
  "tokenizer_digest tokens merges =
     map_sum HashError (\<lambda>d. d) (fst (bindM
       (forM (digest_strings ''nanoembed-bpe-tokens-v1'' tokens
              @ digest_strings ''nanoembed-bpe-merges-v1'' merges) (\<lambda>c. update (InputBytes c)))
       (\<lambda>_. finish) new_sha256))"

subsection \<open>The merge records\<close>

record raw_record =
  rr_key :: u64
  rr_rank :: int
  rr_merged :: int

text \<open>\<open>rule.find(' ')\<close> and the two substrings around it.\<close>

definition split_rule :: "string \<Rightarrow> (string \<times> string) option" where
  "split_rule rule =
     (let left = takeWhile (\<lambda>c. c \<noteq> CHR '' '') rule in
      if length left = length rule then None else Some (left, drop (length left + 1) rule))"

definition resolve_rule :: "(string \<rightharpoonup> int) \<Rightarrow> nat \<Rightarrow> string \<Rightarrow> raw_record list" where
  "resolve_rule ix i rule =
     (case split_rule rule of None \<Rightarrow> []
      | Some (left, right) \<Rightarrow>
          (case (ix left, ix right) of
             (Some l, Some r) \<Rightarrow>
               (case ix (left @ right) of
                  None \<Rightarrow> []
                | Some m \<Rightarrow> [\<lparr>rr_key = pair_key l r, rr_rank = i32_of_nat i, rr_merged = m\<rparr>])
           | _ \<Rightarrow> []))"

fun resolve_rules :: "(string \<rightharpoonup> int) \<Rightarrow> nat \<Rightarrow> string list \<Rightarrow> raw_record list" where
  "resolve_rules ix i [] = []"
| "resolve_rules ix i (rule # rules) = resolve_rule ix i rule @ resolve_rules ix (Suc i) rules"

text \<open>\<open>std::unique\<close> by key: of every run of equal keys the first record stays.\<close>

fun unique_keys :: "raw_record list \<Rightarrow> raw_record list" where
  "unique_keys [] = []"
| "unique_keys [r] = [r]"
| "unique_keys (r # s # rs) = (if rr_key r = rr_key s then unique_keys (r # rs) else r # unique_keys (s # rs))"

definition merge_records :: "string list \<Rightarrow> string list \<Rightarrow> merge_error + raw_record list" where
  "merge_records tokens merges =
     (let records = resolve_rules (emplace_from 0 tokens Map.empty) 0 merges in
      if records = [] then Inl NoUsableRules
      else Inr (unique_keys (sort_key (\<lambda>r. (rr_key r, rr_rank r)) records)))"

subsection \<open>The image\<close>

record layout =
  lay_records :: u64
  lay_pages :: u64
  lay_fences :: u64
  lay_data :: u64
  lay_file :: u64

definition page_count_of :: "u64 \<Rightarrow> u64" where
  "page_count_of n = (n + word_of_nat kRecordsPerPage - 1) div word_of_nat kRecordsPerPage"

definition plan_layout :: "nat \<Rightarrow> merge_error + layout" where
  "plan_layout n =
     (let record_count = word_of_nat n;
          page_count = page_count_of record_count;
          fence_size = page_count * 16
      in bindE (align_page (word_of_nat kPageSize + fence_size)) (\<lambda>data_offset.
         Inr \<lparr>lay_records = record_count, lay_pages = page_count, lay_fences = fence_size,
           lay_data = data_offset, lay_file = data_offset + page_count * word_of_nat kPageSize\<rparr>))"

definition record_bytes :: "raw_record \<Rightarrow> u8 list" where
  "record_bytes r = write_le64 (rr_key r) @ write_le32 (word_of_int (rr_rank r)) @ write_le32 (word_of_int (rr_merged r))"

definition page_image :: "raw_record list \<Rightarrow> u8 list" where
  "page_image chunk =
     (let area = concat (map record_bytes chunk) in
      write_le32 (word_of_nat (length chunk)) @ write_le32 (crc32 area) @ write_le64 (rr_key (hd chunk)) @ area)"

definition page_chunk :: "raw_record list \<Rightarrow> nat \<Rightarrow> raw_record list" where
  "page_chunk records i = take kRecordsPerPage (drop (i * kRecordsPerPage) records)"

definition place_page :: "layout \<Rightarrow> raw_record list \<Rightarrow> nat \<Rightarrow> u8 list \<Rightarrow> u8 list" where
  "place_page lay records i payload =
     (let chunk = page_chunk records i;
          page_offset = lay_data lay + word_of_nat i * word_of_nat kPageSize
      in put (unat (page_offset - word_of_nat kPageSize)) (page_image chunk)
           (put (i * 16) (write_le64 (rr_key (hd chunk)) @ write_le64 page_offset) payload))"

definition payload_image :: "layout \<Rightarrow> raw_record list \<Rightarrow> u8 list" where
  "payload_image lay records =
     fold (place_page lay records) [0 ..< unat (lay_pages lay)]
       (replicate (unat (lay_file lay - word_of_nat kPageSize)) 0)"

definition header_writes :: "layout \<Rightarrow> u8 list \<Rightarrow> u8 list \<Rightarrow> (nat \<times> u8 list) list" where
  "header_writes lay source_digest payload_digest =
     [(0, kMagic), (8, write_le32 kFormatVersion), (12, write_le32 kEndianMarker),
      (16, write_le32 (word_of_nat kPageSize)), (20, write_le32 (word_of_nat kRecordSize)),
      (24, write_le32 (word_of_nat kRecordsPerPage)), (32, write_le64 (lay_records lay)),
      (40, write_le64 (lay_pages lay)), (48, write_le64 (word_of_nat kPageSize)),
      (56, write_le64 (lay_fences lay)), (64, write_le64 (lay_data lay)),
      (72, source_digest), (104, payload_digest)]"

definition header_image :: "layout \<Rightarrow> u8 list \<Rightarrow> u8 list \<Rightarrow> u8 list" where
  "header_image lay source_digest payload_digest =
     fold write_at (header_writes lay source_digest payload_digest) (replicate kPageSize 0)"

text \<open>What \<open>create_cache\<close> is about to write: the header and the payload.\<close>

definition cache_image ::
  "string list \<Rightarrow> string list \<Rightarrow> u8 list \<Rightarrow> merge_error + (u8 list \<times> u8 list)" where
  "cache_image tokens merges source_digest =
     bindE (merge_records tokens merges) (\<lambda>records.
     bindE (plan_layout (length records)) (\<lambda>lay.
     if lay_file lay > - 1 then Inl CacheTooLarge
     else
       let payload = payload_image lay records in
       bindE (map_sum HashError (\<lambda>d. d) (sha256 (InputBytes payload))) (\<lambda>payload_digest.
       Inr (header_image lay source_digest payload_digest, payload))))"

end
