(* ===== verification/MergeIndex.thy ===== *)
theory MergeIndex
  imports MergeFormat
begin

text \<open>
  The merge index of \<open>src/tokenizer/disk_merge_index.cpp\<close>: writing the cache file, opening and
  validating it, and \<open>find\<close>, which keeps eight pages and searches one. The operating system is
  the parameter \<open>'w\<close>-free record \<open>sys\<close> of outcomes, indexed by a count of the calls made so far;
  the directory of files is part of the state. An interrupted call is one that was repeated
  until it answered. The Windows branches are not modelled.
\<close>

subsection \<open>Files\<close>

record sys =
  sy_open_ok :: "nat \<Rightarrow> bool"
  sy_stat_ok :: "nat \<Rightarrow> bool"
  sy_read :: "nat \<Rightarrow> u8 list \<Rightarrow> u64 \<Rightarrow> nat \<Rightarrow> u8 list option"
  sy_create_ok :: "nat \<Rightarrow> bool"
  sy_written :: "nat \<Rightarrow> nat \<Rightarrow> nat"
  sy_flush_ok :: "nat \<Rightarrow> bool"
  sy_sync_ok :: "nat \<Rightarrow> bool"
  sy_close_ok :: "nat \<Rightarrow> bool"
  sy_rename_ok :: "nat \<Rightarrow> bool"
  sy_remove_ok :: "nat \<Rightarrow> bool"

record world =
  files :: "string \<rightharpoonup> u8 list"
  calls :: nat
  serial :: nat

definition callM :: "(nat \<Rightarrow> 'a) \<Rightarrow> (world, 'e, 'a) action" where
  "callM f = (\<lambda>w. (Inr (f (calls w)), w\<lparr>calls := Suc (calls w)\<rparr>))"

text \<open>
  An open file: the bytes and the size it had when it was opened, which a replacement of the name
  does not change. What a later read of it delivers is the outcome \<open>sy_read\<close> of that call: any
  bytes at all, or a failure. So an edit in place, a truncation and a failing disk are outcomes
  like any other, and a theorem about every \<open>sys\<close> covers them.
\<close>

type_synonym opened = "u8 list \<times> u64"

text \<open>The loop of \<open>read_at\<close>; it returns the error, what it stored, and the call count.\<close>

function read_loop :: "sys \<Rightarrow> u8 list \<Rightarrow> u64 \<Rightarrow> nat \<Rightarrow> u8 list \<Rightarrow> nat \<Rightarrow> (merge_error option \<times> u8 list) \<times> nat" where
  "read_loop sy data off n acc t =
     (if n = 0 then ((None, acc), t)
      else case sy_read sy t data off (min n INT64_MAX) of
             None \<Rightarrow> ((Some ReadFailed, acc), Suc t)
           | Some bs \<Rightarrow>
               let got = take (min n INT64_MAX) bs in
               if got = [] then ((Some ReadFailed, acc), Suc t)
               else read_loop sy data (off + word_of_nat (length got)) (n - length got) (acc @ got) (Suc t))"
  by pat_completeness auto
termination
  by (relation "measure (\<lambda>(sy, data, off, n, acc, t). n)") (auto simp: INT64_MAX_def)

declare read_loop.simps [simp del]

definition read_at :: "sys \<Rightarrow> opened \<Rightarrow> u64 \<Rightarrow> nat \<Rightarrow> nat \<Rightarrow> (merge_error option \<times> u8 list) \<times> nat" where
  "read_at sy f off n t =
     (if off > snd f \<or> word_of_nat n > snd f - off then ((Some ShortRead, []), t)
      else if off > word_of_nat INT64_MAX then ((Some OffsetRange, []), t)
      else read_loop sy (fst f) off n [] t)"

definition readM :: "sys \<Rightarrow> opened \<Rightarrow> u64 \<Rightarrow> nat \<Rightarrow> (world, merge_error, u8 list) action" where
  "readM sy f off n =
     (\<lambda>w. case read_at sy f off n (calls w) of
            ((None, bs), t) \<Rightarrow> (Inr bs, w\<lparr>calls := t\<rparr>)
          | ((Some e, bs), t) \<Rightarrow> (Inl e, w\<lparr>calls := t\<rparr>))"

definition open_file :: "sys \<Rightarrow> string \<Rightarrow> (world, merge_error, opened) action" where
  "open_file sy path =
     bindM (callM (sy_open_ok sy)) (\<lambda>ok.
     bindM (getM (\<lambda>w. files w path)) (\<lambda>f.
     case f of None \<Rightarrow> throwM CacheOpenFailed
     | Some data \<Rightarrow>
         if \<not> ok then throwM CacheOpenFailed
         else bindM (callM (sy_stat_ok sy)) (\<lambda>ok.
              if \<not> ok then throwM CacheSizeFailed else retM (data, word_of_nat (length data)))))"

subsection \<open>Writing the cache\<close>

text \<open>\<open>fwrite\<close> until everything is written; the bytes go to the end of the file.\<close>

definition append_file :: "string \<Rightarrow> u8 list \<Rightarrow> world \<Rightarrow> world" where
  "append_file path bs w = w\<lparr>files := (files w)(path := map_option (\<lambda>old. old @ bs) (files w path))\<rparr>"

function write_all :: "sys \<Rightarrow> string \<Rightarrow> u8 list \<Rightarrow> world \<Rightarrow> (merge_error + unit) \<times> world" where
  "write_all sy path bs w =
     (if bs = [] then (Inr (), w)
      else
        let written = min (sy_written sy (calls w) (length bs)) (length bs);
            w1 = (append_file path (take written bs) w)\<lparr>calls := Suc (calls w)\<rparr>
        in if written = 0 then (Inl WriteFailed, w1) else write_all sy path (drop written bs) w1)"
  by pat_completeness auto
termination
  by (relation "measure (\<lambda>(sy, path, bs, w). length bs)") auto

declare write_all.simps [simp del]

definition durable_close :: "sys \<Rightarrow> (world, merge_error, unit) action" where
  "durable_close sy =
     bindM (callM (sy_flush_ok sy)) (\<lambda>ok. if \<not> ok then throwM FlushFailed
     else bindM (callM (sy_sync_ok sy)) (\<lambda>ok. if \<not> ok then throwM SyncFailed
     else bindM (callM (sy_close_ok sy)) (\<lambda>ok. if \<not> ok then throwM CloseFailed else retM ())))"

definition atomic_replace :: "sys \<Rightarrow> string \<Rightarrow> string \<Rightarrow> (world, merge_error, unit) action" where
  "atomic_replace sy temp target =
     bindM (callM (sy_rename_ok sy)) (\<lambda>ok. if \<not> ok then throwM ReplaceFailed
     else modifyM (\<lambda>w. w\<lparr>files := (files w)(target := files w temp, temp := None)\<rparr>))"

text \<open>The process id is an argument; the serial number is the static counter.\<close>

definition unique_temp_path :: "nat \<Rightarrow> string \<Rightarrow> (world, merge_error, string) action" where
  "unique_temp_path pid target =
     bindM (getM serial) (\<lambda>n.
     bindM (modifyM (\<lambda>w. w\<lparr>serial := Suc n\<rparr>)) (\<lambda>_.
     retM (target @ ''.tmp.'' @ nat_digits pid @ ''.'' @ nat_digits n)))"

text \<open>\<open>fopen(temp, "wbx")\<close> fails when the name exists.\<close>

definition create_file :: "sys \<Rightarrow> string \<Rightarrow> (world, merge_error, unit) action" where
  "create_file sy temp =
     bindM (callM (sy_create_ok sy)) (\<lambda>ok.
     bindM (getM (\<lambda>w. files w temp)) (\<lambda>f.
     if \<not> ok \<or> f \<noteq> None then throwM CreateFailed
     else modifyM (\<lambda>w. w\<lparr>files := (files w)(temp \<mapsto> [])\<rparr>)))"

text \<open>\<open>std::filesystem::remove\<close> with an error code that nobody reads: it may leave the file there.\<close>

definition remove_file :: "sys \<Rightarrow> string \<Rightarrow> (world, merge_error, unit) action" where
  "remove_file sy path =
     bindM (callM (sy_remove_ok sy)) (\<lambda>ok. if \<not> ok then retM ()
     else modifyM (\<lambda>w. w\<lparr>files := (files w)(path := None)\<rparr>))"

definition create_cache ::
  "sys \<Rightarrow> nat \<Rightarrow> string list \<Rightarrow> string list \<Rightarrow> u8 list \<Rightarrow> string \<Rightarrow> (world, merge_error, unit) action" where
  "create_cache sy pid tokens merges source_digest path =
     (case cache_image tokens merges source_digest of
        Inl e \<Rightarrow> throwM e
      | Inr (header, payload) \<Rightarrow>
          bindM (unique_temp_path pid path) (\<lambda>temp.
          catchM
            (bindM (create_file sy temp) (\<lambda>_.
             bindM (write_all sy temp header) (\<lambda>_.
             bindM (write_all sy temp payload) (\<lambda>_.
             bindM (durable_close sy) (\<lambda>_.
             atomic_replace sy temp path)))))
            (\<lambda>e. bindM (remove_file sy temp) (\<lambda>_. throwM e))))"

subsection \<open>Opening and validating\<close>

record fence =
  first_key :: u64
  fence_offset :: u64

record merge_index =
  mi_file :: "opened option"
  mi_fences :: "fence list"
  mi_path :: string
  mi_record_count :: u64
  mi_vocab_size :: int
  mi_cache_hit :: bool

definition empty_index :: merge_index where
  "empty_index = \<lparr>mi_file = None, mi_fences = [], mi_path = [], mi_record_count = 0, mi_vocab_size = 0,
     mi_cache_hit = False\<rparr>"

definition at32 :: "u8 list \<Rightarrow> nat \<Rightarrow> u32" where
  "at32 buf off = read_le32 (drop off buf)"

definition at64 :: "u8 list \<Rightarrow> nat \<Rightarrow> u64" where
  "at64 buf off = read_le64 (drop off buf)"

text \<open>The checks of the header; the result is the record count, page count and data offset.\<close>

definition check_header :: "u8 list \<Rightarrow> u64 \<Rightarrow> u8 list \<Rightarrow> merge_error + (u64 \<times> u64 \<times> u64)" where
  "check_header header fsize source_digest =
     bindE (guardE (take (length kMagic) header = kMagic \<and> at32 header 8 = kFormatVersion
        \<and> at32 header 12 = kEndianMarker \<and> at32 header 16 = word_of_nat kPageSize
        \<and> at32 header 20 = word_of_nat kRecordSize \<and> at32 header 24 = word_of_nat kRecordsPerPage)
        FormatMismatch) (\<lambda>_.
     bindE (guardE (source_digest = slice 72 (length source_digest) header) DigestMismatch) (\<lambda>_.
       let record_count = at64 header 32;
           page_count = at64 header 40;
           fence_off = at64 header 48;
           fence_size = at64 header 56;
           data_offset = at64 header 64
       in
       if record_count = 0 \<or> page_count = 0
          \<or> page_count > fsize div word_of_nat kPageSize
          \<or> page_count > - 1 div 16
          \<or> record_count > - 1 - (word_of_nat kRecordsPerPage - 1)
          \<or> page_count \<noteq> page_count_of record_count
          \<or> fence_off \<noteq> word_of_nat kPageSize \<or> fence_size \<noteq> page_count * 16
       then Inl BadCounts
       else bindE (align_page (fence_off + fence_size)) (\<lambda>aligned.
         if data_offset \<noteq> aligned
            \<or> data_offset > fsize \<or> page_count > (fsize - data_offset) div word_of_nat kPageSize
            \<or> data_offset + page_count * word_of_nat kPageSize \<noteq> fsize
            \<or> page_count > - 1 div 16
         then Inl BadCounts
         else Inr (record_count, page_count, data_offset))))"

lemma hash_payload_decreases:
  assumes "off < (sz :: u64)" shows "unat sz - unat (off + min 65536 (sz - off)) < unat sz - unat off"
proof -
  have le: "unat (min 65536 (sz - off)) \<le> unat (sz - off)"
    by (simp add: min_def word_le_nat_alt)
  have sub: "unat (sz - off) = unat sz - unat off" using assms by (simp add: unat_sub)
  have "min 65536 (sz - off) \<noteq> 0" using assms unfolding min_def by auto
  then have pos: "0 < unat (min 65536 (sz - off))" by (simp add: unat_gt_0)
  have lt: "unat off < unat sz" using assms by (simp add: word_less_nat_alt)
  have "unat (off + min 65536 (sz - off)) = unat off + unat (min 65536 (sz - off))"
    using le sub lt unat_less_u64 [of sz] by (intro unat_add_no_overflow) simp
  then show ?thesis using pos lt by simp
qed

text \<open>Hashing the payload in chunks of 64 KiB.\<close>

function hash_payload :: "sys \<Rightarrow> opened \<Rightarrow> u64 \<Rightarrow> sha_object \<Rightarrow> world \<Rightarrow> (merge_error + sha_object) \<times> world" where
  "hash_payload sy f off h w =
     (if off < snd f then
        let amount = min 65536 (snd f - off) in
        (case readM sy f off (unat amount) w of
           (Inl e, w1) \<Rightarrow> (Inl e, w1)
         | (Inr bs, w1) \<Rightarrow>
             (case update (InputBytes bs) h of
                (Inl e, h1) \<Rightarrow> (Inl (HashError e), w1)
              | (Inr _, h1) \<Rightarrow> hash_payload sy f (off + amount) h1 w1))
      else (Inr h, w))"
  by pat_completeness auto

termination
  by (relation "measure (\<lambda>(sy, f, off, h, w). unat (snd f) - unat off)") (auto dest: hash_payload_decreases)

declare hash_payload.simps [simp del]

text \<open>The records of one page, given the key that came before.\<close>

definition check_record :: "u8 list \<Rightarrow> u64 \<Rightarrow> int \<Rightarrow> nat \<Rightarrow> u64 option \<Rightarrow> merge_error + u64 option" where
  "check_record page fkey vocab_size j prev =
     (let record = kPageHeaderSize + j * kRecordSize;
          key = at64 page record;
          merged = sint (at32 page (record + 12))
      in bindE (guardE (\<not> ((case prev of None \<Rightarrow> False | Some p \<Rightarrow> key \<le> p) \<or> (j = 0 \<and> key \<noteq> fkey))) RecordOrder) (\<lambda>_.
         bindE (guardE (\<not> (merged < 0 \<or> merged \<ge> vocab_size)) RecordOutsideVocabulary) (\<lambda>_.
         Inr (Some key))))"

record page_scan =
  ps_seen :: u64
  ps_prev :: "u64 option"
  ps_fences :: "fence list"

definition check_page :: "u8 list \<Rightarrow> fence \<Rightarrow> u64 \<Rightarrow> int \<Rightarrow> page_scan \<Rightarrow> merge_error + page_scan" where
  "check_page page fn record_count vocab_size sc =
     (let count = at32 page 0 in
      if count = 0 \<or> count > word_of_nat kRecordsPerPage \<or> at64 page 8 \<noteq> first_key fn
         \<or> at32 page 4 \<noteq> crc32 (slice kPageHeaderSize (unat (count * word_of_nat kRecordSize)) page)
         \<or> ps_seen sc + ucast count > record_count
      then Inl PageHeaderInvalid
      else bindE (foldE (check_record page (first_key fn) vocab_size) [0 ..< unat count] (ps_prev sc)) (\<lambda>prev.
           Inr \<lparr>ps_seen = ps_seen sc + ucast count, ps_prev = prev, ps_fences = ps_fences sc @ [fn]\<rparr>))"

definition scan_fence ::
  "sys \<Rightarrow> opened \<Rightarrow> u64 \<Rightarrow> u64 \<Rightarrow> int \<Rightarrow> nat \<Rightarrow> page_scan \<Rightarrow> fence \<Rightarrow> (world, merge_error, page_scan) action" where
  "scan_fence sy f data_offset record_count vocab_size i sc fn =
     (if fence_offset fn \<noteq> data_offset + word_of_nat i * word_of_nat kPageSize
         \<or> (i \<noteq> 0 \<and> first_key fn \<le> first_key (ps_fences sc ! (i - 1)))
      then throwM FenceOrder
      else bindM (readM sy f (fence_offset fn) kPageSize) (\<lambda>page.
           liftM (\<lambda>e. e) (check_page page fn record_count vocab_size sc)))"

definition scan_page ::
  "sys \<Rightarrow> opened \<Rightarrow> u64 \<Rightarrow> u64 \<Rightarrow> int \<Rightarrow> nat \<Rightarrow> page_scan \<Rightarrow> (world, merge_error, page_scan) action" where
  "scan_page sy f data_offset record_count vocab_size i sc =
     bindM (readM sy f (word_of_nat kPageSize + word_of_nat i * 16) 16) (\<lambda>fence_bytes.
     scan_fence sy f data_offset record_count vocab_size i sc
       \<lparr>first_key = read_le64 fence_bytes, fence_offset = at64 fence_bytes 8\<rparr>)"

definition open_validated ::
  "sys \<Rightarrow> string \<Rightarrow> u8 list \<Rightarrow> int \<Rightarrow> (world, merge_error, merge_index) action" where
  "open_validated sy path source_digest vocab_size =
     bindM (open_file sy path) (\<lambda>f.
     if snd f < word_of_nat kPageSize then throwM ShorterThanHeader
     else
       bindM (readM sy f 0 kPageSize) (\<lambda>header.
       bindM (liftM (\<lambda>e. e) (check_header header (snd f) source_digest)) (\<lambda>(record_count, page_count, data_offset).
       bindM (hash_payload sy f (word_of_nat kPageSize) new_sha256) (\<lambda>h.
       bindM (liftM HashError (fst (finish h))) (\<lambda>actual.
       if actual \<noteq> slice 104 (length actual) header then throwM PayloadMismatch
       else
         bindM (foldM (scan_page sy f data_offset record_count vocab_size) [0 ..< unat page_count]
                  \<lparr>ps_seen = 0, ps_prev = None, ps_fences = []\<rparr>) (\<lambda>sc.
         if ps_seen sc \<noteq> record_count then throwM PageCountsMismatch
         else retM \<lparr>mi_file = Some f, mi_fences = ps_fences sc, mi_path = path,
                mi_record_count = record_count, mi_vocab_size = vocab_size, mi_cache_hit = False\<rparr>))))))"

subsection \<open>Loading\<close>

text \<open>
  \<open>cache_root\<close> on Linux, by the values of the three environment variables;
  \<open>create_directories\<close> is an outcome.
\<close>

definition cache_root :: "(string \<Rightarrow> string option) \<Rightarrow> merge_error + string" where
  "cache_root env =
     (case env ''NANOEMBED_CACHE_DIR'' of
        Some (c # cs) \<Rightarrow> Inr (c # cs)
      | _ \<Rightarrow>
          (case env ''XDG_CACHE_HOME'' of
             Some (c # cs) \<Rightarrow> Inr ((c # cs) @ ''/nanoembed'')
           | _ \<Rightarrow>
               (case env ''HOME'' of
                  Some (c # cs) \<Rightarrow> Inr ((c # cs) @ ''/.cache/nanoembed'')
                | _ \<Rightarrow> Inl NoCacheDirectory)))"

definition tryM :: "('s, 'e, 'a) action \<Rightarrow> ('s, 'e, 'e + 'a) action" where
  "tryM m = (\<lambda>s. case m s of (r, t) \<Rightarrow> (Inr r, t))"

definition index_from_gguf ::
  "sys \<Rightarrow> (string \<Rightarrow> string option) \<Rightarrow> (nat \<Rightarrow> bool) \<Rightarrow> nat \<Rightarrow> string list \<Rightarrow> string list
    \<Rightarrow> (world, merge_error, merge_index) action" where
  "index_from_gguf sy env mkdir_ok pid tokens merges =
     bindM (liftM (\<lambda>e. e) (tokenizer_digest tokens merges)) (\<lambda>source_digest.
       let vocab_size = int (length tokens) in
     bindM (liftM (\<lambda>e. e) (cache_root env)) (\<lambda>root.
     bindM (callM mkdir_ok) (\<lambda>ok. if \<not> ok then throwM DirectoryFailed else
       let path = root @ ''/bpe-merges-v1-'' @ sha256_hex source_digest @ ''.idx'' in
     bindM (tryM (open_validated sy path source_digest vocab_size)) (\<lambda>first.
     case first of Inr ix \<Rightarrow> retM (ix\<lparr>mi_cache_hit := True\<rparr>)
     | Inl _ \<Rightarrow>
         bindM (tryM (create_cache sy pid tokens merges source_digest path)) (\<lambda>created.
         case created of
           Inl creation_error \<Rightarrow>
             bindM (tryM (open_validated sy path source_digest vocab_size)) (\<lambda>again.
             case again of Inr ix \<Rightarrow> retM (ix\<lparr>mi_cache_hit := True\<rparr>) | Inl _ \<Rightarrow> throwM creation_error)
         | Inr _ \<Rightarrow>
             bindM (tryM (open_validated sy path source_digest vocab_size)) (\<lambda>again.
             case again of Inr ix \<Rightarrow> retM (ix\<lparr>mi_cache_hit := False\<rparr>)
             | Inl reason \<Rightarrow> throwM (GeneratedInvalid reason)))))))"

subsection \<open>Looking a pair up\<close>

record rule =
  rule_rank :: int
  rule_merged :: int

record cache_slot =
  slot_page :: u64
  slot_bytes :: "u8 list"

text \<open>\<open>LookupScratch\<close>, with the count of the system calls beside it.\<close>

record lookup_scratch =
  slots :: "cache_slot list"
  next_slot :: u64
  page_reads :: u64
  ls_calls :: nat

definition new_scratch :: "nat \<Rightarrow> lookup_scratch" where
  "new_scratch t = \<lparr>slots = replicate 8 \<lparr>slot_page = - 1, slot_bytes = replicate kPageSize 0\<rparr>,
     next_slot = 0, page_reads = 0, ls_calls = t\<rparr>"

text \<open>\<open>std::upper_bound\<close> over the ordered fences, less one: the last page whose first key is not above.\<close>

definition page_of_key :: "fence list \<Rightarrow> u64 \<Rightarrow> nat" where
  "page_of_key fences key = length (takeWhile (\<lambda>fn. \<not> key < first_key fn) fences) - 1"

fun find_slot :: "cache_slot list \<Rightarrow> nat \<Rightarrow> nat \<Rightarrow> nat option" where
  "find_slot [] page i = None"
| "find_slot (sl # sls) page i = (if slot_page sl = word_of_nat page then Some i else find_slot sls page (Suc i))"

definition put_slot :: "nat \<Rightarrow> cache_slot \<Rightarrow> lookup_scratch \<Rightarrow> lookup_scratch" where
  "put_slot k sl s = s\<lparr>slots := (slots s)[k := sl]\<rparr>"

text \<open>Filling the next slot: it is claimed only after its bytes have been checked.\<close>

definition load_slot :: "sys \<Rightarrow> merge_index \<Rightarrow> opened \<Rightarrow> nat \<Rightarrow> (lookup_scratch, merge_error, nat) action" where
  "load_slot sy ix f page =
     (\<lambda>s. let k = unat (next_slot s mod word_of_nat (length (slots s)));
              old = slot_bytes (slots s ! k);
              fn = mi_fences ix ! page
          in case read_at sy f (fence_offset fn) (length old) (ls_calls s) of
               ((err, bs), t) \<Rightarrow>
                 let buf = put 0 bs old;
                     s1 = (put_slot k \<lparr>slot_page = - 1, slot_bytes = buf\<rparr> s)
                            \<lparr>next_slot := next_slot s + 1, ls_calls := t\<rparr>
                 in case err of
                      Some e \<Rightarrow> (Inl e, s1)
                    | None \<Rightarrow>
                        if at32 buf 0 = 0 \<or> at32 buf 0 > word_of_nat kRecordsPerPage \<or> at64 buf 8 \<noteq> first_key fn
                        then (Inl PageBecameInvalid, s1)
                        else (Inr k, (put_slot k \<lparr>slot_page = word_of_nat page, slot_bytes = buf\<rparr> s1)
                                \<lparr>page_reads := page_reads s1 + 1\<rparr>))"

text \<open>The binary search over the records of a page: the first one whose key is not below.\<close>

function search_page :: "u8 list \<Rightarrow> u64 \<Rightarrow> nat \<Rightarrow> nat \<Rightarrow> nat" where
  "search_page buf key low high =
     (if low < high then
        let mid = low + (high - low) div 2;
            candidate = at64 buf (kPageHeaderSize + mid * kRecordSize)
        in if candidate < key then search_page buf key (mid + 1) high else search_page buf key low mid
      else low)"
  by pat_completeness auto
termination
  by (relation "measure (\<lambda>(buf, key, low, high). high - low)") auto

declare search_page.simps [simp del]

definition read_rule :: "merge_index \<Rightarrow> u8 list \<Rightarrow> u64 \<Rightarrow> merge_error + rule option" where
  "read_rule ix buf key =
     (let count = unat (at32 buf 0);
          low = search_page buf key 0 count;
          record = kPageHeaderSize + low * kRecordSize
      in if low = count then Inr None
         else if at64 buf record \<noteq> key then Inr None
         else
           let rank = sint (at32 buf (record + 8));
               merged = sint (at32 buf (record + 12))
           in if merged < 0 \<or> merged \<ge> mi_vocab_size ix then Inl TokenOutsideVocabulary
              else Inr (Some \<lparr>rule_rank = rank, rule_merged = merged\<rparr>))"

definition find :: "sys \<Rightarrow> merge_index \<Rightarrow> u64 \<Rightarrow> (lookup_scratch, merge_error, rule option) action" where
  "find sy ix key =
     (case mi_file ix of
        None \<Rightarrow> retM None
      | Some f \<Rightarrow>
          if mi_fences ix = [] \<or> key < first_key (hd (mi_fences ix)) then retM None
          else
            let page = page_of_key (mi_fences ix) key in
            bindM (bindM (getM (\<lambda>s. find_slot (slots s) page 0)) (\<lambda>hit.
                   case hit of Some k \<Rightarrow> retM k | None \<Rightarrow> load_slot sy ix f page)) (\<lambda>k.
            bindM (getM (\<lambda>s. slot_bytes (slots s ! k))) (\<lambda>buf.
            liftM (\<lambda>e. e) (read_rule ix buf key))))"

end
