(* ===== verification/MergeLookup.thy ===== *)
theory MergeLookup
  imports MergeIndex
begin

text \<open>
  The functional correctness of \<open>DiskMergeIndex::find\<close>: over an index whose pages are ordered it
  is the lookup in the list of all entries of the file, and the page cache never changes an
  answer.
\<close>

subsection \<open>Reads of an honest file\<close>

text \<open>
  A machine whose reads inside the file succeed with bytes of the file as it was when it was opened.
  This is not a law of \<open>pread\<close>: a read may fail, and a file may be edited or cut after the index was
  loaded. Exact answers need it and say so; what holds without it is in \<open>MergeFaults\<close>.
\<close>

definition honest :: "sys \<Rightarrow> bool" where
  "honest sy \<longleftrightarrow> (\<forall>t data off n. 0 < n \<and> unat off + n \<le> length data \<longrightarrow>
     (\<exists>m. 0 < m \<and> m \<le> n \<and> sy_read sy t data off n = Some (slice (unat off) m data)))"

lemma slice_split: "m \<le> n \<Longrightarrow> slice off m data @ slice (off + m) (n - m) data = slice off n data"
  by (simp add: slice_def) (metis add.commute drop_drop le_add_diff_inverse take_add)

lemma read_loop_honest:
  assumes "honest sy" and "length data \<le> INT64_MAX" and "unat off + n \<le> length data"
  shows "\<exists>t'. read_loop sy data off n acc t = ((None, acc @ slice (unat off) n data), t')"
  using assms(3)
proof (induction n arbitrary: off acc t rule: less_induct)
  case (less n)
  show ?case
  proof (cases "n = 0")
    case True
    then show ?thesis by (subst read_loop.simps) (simp add: slice_def)
  next
    case False
    have small: "min n INT64_MAX = n" using less.prems assms(2) by simp
    obtain m where m: "0 < m" "m \<le> n" "sy_read sy t data off n = Some (slice (unat off) m data)"
      using assms(1) less.prems False unfolding honest_def by blast
    define off' where "off' = off + word_of_nat m"
    have "unat off' = unat off + m"
      unfolding off'_def using less.prems m assms(2)
      by (subst unat_add_no_overflow) (auto simp: INT64_MAX_def unat_of_nat take_bit_nat_eq_self)
    then have off': "unat off' + (n - m) \<le> length data" using less.prems m by simp
    have len: "length (slice (unat off) m data) = m" "take n (slice (unat off) m data) = slice (unat off) m data"
      using less.prems m by (auto simp: slice_def)
    then have ne: "slice (unat off) m data \<noteq> []" using m(1) by auto
    have "read_loop sy data off n acc t = read_loop sy data off' (n - m) (acc @ slice (unat off) m data) (Suc t)"
      using False m small len ne by (subst read_loop.simps) (simp add: Let_def off'_def)
    moreover have "n - m < n" using m by simp
    ultimately show ?thesis
      using less.IH [OF _ off', of "acc @ slice (unat off) m data" "Suc t"] m(2)
        \<open>unat off' = unat off + m\<close> slice_split [OF m(2), of "unat off" data] by auto
  qed
qed

lemma read_at_honest:
  assumes "honest sy" and "length data \<le> INT64_MAX" and "unat off + n \<le> length data"
  shows "\<exists>t'. read_at sy (data, word_of_nat (length data)) off n t = ((None, slice (unat off) n data), t')"
proof -
  define size where "size = (word_of_nat (length data) :: u64)"
  have size: "unat size = length data"
    using assms(2) by (simp add: size_def INT64_MAX_def unat_of_nat take_bit_nat_eq_self)
  have "off \<le> size" using assms(3) by (simp add: word_le_nat_alt size)
  moreover from this have "unat (size - off) = length data - unat off" by (simp add: unat_sub size)
  then have "word_of_nat n \<le> size - off"
    using assms by (simp add: word_le_nat_alt INT64_MAX_def unat_of_nat take_bit_nat_eq_self)
  moreover have "unat (word_of_nat INT64_MAX :: u64) = INT64_MAX" by (simp add: INT64_MAX_def)
  then have "off \<le> word_of_nat INT64_MAX" using assms by (simp add: word_le_nat_alt)
  ultimately show ?thesis
    using read_loop_honest [OF assms, of "[]"] by (simp add: read_at_def not_less flip: size_def)
qed

lemma readM_honest:
  assumes "honest sy" and "length data \<le> INT64_MAX" and "unat off + n \<le> length data"
  shows "\<exists>t'. readM sy (data, word_of_nat (length data)) off n w = (Inr (slice (unat off) n data), w\<lparr>calls := t'\<rparr>)"
  using read_at_honest [OF assms, of "calls w"] by (auto simp: readM_def)

subsection \<open>The entries of an index\<close>

definition page_count_at :: "u8 list \<Rightarrow> nat" where
  "page_count_at pg = unat (at32 pg 0)"

definition page_key :: "u8 list \<Rightarrow> nat \<Rightarrow> u64" where
  "page_key pg j = at64 pg (kPageHeaderSize + j * kRecordSize)"

definition page_rule :: "u8 list \<Rightarrow> nat \<Rightarrow> rule" where
  "page_rule pg j = \<lparr>rule_rank = sint (at32 pg (kPageHeaderSize + j * kRecordSize + 8)),
     rule_merged = sint (at32 pg (kPageHeaderSize + j * kRecordSize + 12))\<rparr>"

definition page_entries :: "u8 list \<Rightarrow> (u64 \<times> rule) list" where
  "page_entries pg = map (\<lambda>j. (page_key pg j, page_rule pg j)) [0 ..< page_count_at pg]"

definition index_page :: "merge_index \<Rightarrow> nat \<Rightarrow> u8 list" where
  "index_page ix i = slice (unat (fence_offset (mi_fences ix ! i))) kPageSize (fst (the (mi_file ix)))"

definition index_entries :: "merge_index \<Rightarrow> (u64 \<times> rule) list" where
  "index_entries ix = concat (map (\<lambda>i. page_entries (index_page ix i)) [0 ..< length (mi_fences ix)])"

text \<open>What validation establishes: pages inside the file, non-empty, ordered, with tokens in range.\<close>

definition page_ok :: "merge_index \<Rightarrow> nat \<Rightarrow> bool" where
  "page_ok ix i \<longleftrightarrow>
     (let pg = index_page ix i; fn = mi_fences ix ! i in
      unat (fence_offset fn) + kPageSize \<le> length (fst (the (mi_file ix)))
      \<and> 0 < page_count_at pg \<and> page_count_at pg \<le> kRecordsPerPage
      \<and> at64 pg 8 = first_key fn \<and> page_key pg 0 = first_key fn
      \<and> (\<forall>k < page_count_at pg. \<forall>j < k. page_key pg j < page_key pg k)
      \<and> (\<forall>j < page_count_at pg. 0 \<le> rule_merged (page_rule pg j) \<and> rule_merged (page_rule pg j) < mi_vocab_size ix)
      \<and> (\<forall>i' < i. \<forall>j < page_count_at (index_page ix i'). page_key (index_page ix i') j < first_key fn))"

definition index_ok :: "merge_index \<Rightarrow> bool" where
  "index_ok ix \<longleftrightarrow>
     (\<exists>data. mi_file ix = Some (data, word_of_nat (length data)) \<and> length data \<le> INT64_MAX)
     \<and> length (mi_fences ix) \<le> INT64_MAX
     \<and> (\<forall>i < length (mi_fences ix). page_ok ix i)"

subsection \<open>The search of a page\<close>

lemma search_page_spec:
  assumes "\<forall>k < high. \<forall>j < k. page_key buf j < page_key buf k" and "low \<le> high"
  shows "low \<le> search_page buf key low high \<and> search_page buf key low high \<le> high
    \<and> (\<forall>j. low \<le> j \<and> j < search_page buf key low high \<longrightarrow> page_key buf j < key)
    \<and> (\<forall>j. search_page buf key low high \<le> j \<and> j < high \<longrightarrow> key \<le> page_key buf j)"
  using assms
proof (induction buf key low high rule: search_page.induct)
  case (1 buf key low high)
  define mid where "mid = low + (high - low) div 2"
  show ?case
  proof (cases "low < high")
    case False
    then show ?thesis using 1(4) by (subst (1 2 3 4) search_page.simps) auto
  next
    case True
    then have mid: "low \<le> mid" "mid < high" by (auto simp: mid_def)
    have order: "page_key buf j < page_key buf k" if jk: "j < k" "k < high" for j k
      using 1(3) jk by blast
    show ?thesis
    proof (cases "page_key buf mid < key")
      case less: True
      then have eq: "search_page buf key low high = search_page buf key (mid + 1) high"
        using True by (subst search_page.simps) (simp add: page_key_def mid_def Let_def)
      have ih: "mid + 1 \<le> search_page buf key (mid + 1) high \<and> search_page buf key (mid + 1) high \<le> high
        \<and> (\<forall>j. mid + 1 \<le> j \<and> j < search_page buf key (mid + 1) high \<longrightarrow> page_key buf j < key)
        \<and> (\<forall>j. search_page buf key (mid + 1) high \<le> j \<and> j < high \<longrightarrow> key \<le> page_key buf j)"
        using 1(1) [OF True mid_def refl] less 1(3) mid by (simp add: page_key_def)
      have "page_key buf j < key" if j: "low \<le> j" "j \<le> mid" for j
        using less order [of j mid] j mid by (cases "j = mid") (auto intro: less_trans)
      then have below: "page_key buf j < key" if "low \<le> j" "j < search_page buf key (mid + 1) high" for j
        using ih that by (cases "j \<le> mid") auto
      from ih mid below show ?thesis unfolding eq by auto
    next
      case ge: False
      then have eq: "search_page buf key low high = search_page buf key low mid"
        using True by (subst search_page.simps) (simp add: page_key_def mid_def Let_def)
      have pre: "\<forall>k < mid. \<forall>j < k. page_key buf j < page_key buf k" using 1(3) mid by auto
      have ih: "low \<le> search_page buf key low mid \<and> search_page buf key low mid \<le> mid
        \<and> (\<forall>j. low \<le> j \<and> j < search_page buf key low mid \<longrightarrow> page_key buf j < key)
        \<and> (\<forall>j. search_page buf key low mid \<le> j \<and> j < mid \<longrightarrow> key \<le> page_key buf j)"
        using 1(2) [OF True mid_def refl] ge pre mid by (simp add: page_key_def)
      have "key \<le> page_key buf j" if j: "mid \<le> j" "j < high" for j
        using ge order [of mid j] j by (cases "j = mid") (auto intro: less_imp_le le_less_trans)
      then have above: "key \<le> page_key buf j" if "search_page buf key low mid \<le> j" "j < high" for j
        using ih that by (cases "j < mid") auto
      from ih mid above show ?thesis unfolding eq by auto
    qed
  qed
qed

lemma map_of_indexed:
  assumes "j < n" and "f j = key" and "\<forall>k < n. \<forall>j < k. f j < (f k :: 'a::linorder)"
  shows "map_of (map (\<lambda>j. (f j, g j)) [0 ..< n]) key = Some (g j)"
proof -
  have "inj_on f {0 ..< n}"
  proof (rule inj_onI)
    fix x y assume "x \<in> {0 ..< n}" "y \<in> {0 ..< n}" "f x = f y"
    then show "x = y" using assms(3) by (cases x y rule: linorder_cases) force+
  qed
  then have "distinct (map fst (map (\<lambda>j. (f j, g j)) [0 ..< n]))"
    by (simp add: distinct_map comp_def)
  then show ?thesis using assms(1,2) by (intro map_of_is_SomeI) auto
qed

lemma page_entries_None:
  assumes "\<And>j. j < page_count_at pg \<Longrightarrow> page_key pg j \<noteq> key"
  shows "map_of (page_entries pg) key = None"
proof (rule ccontr)
  assume "map_of (page_entries pg) key \<noteq> None"
  then have "key \<in> fst ` set (page_entries pg)" by (simp add: map_of_eq_None_iff)
  then obtain j where "j < page_count_at pg" "key = page_key pg j" by (auto simp: page_entries_def)
  with assms show False by blast
qed

lemma read_rule_entries:
  assumes "\<forall>k < page_count_at pg. \<forall>j < k. page_key pg j < page_key pg k"
    and "\<forall>j < page_count_at pg. 0 \<le> rule_merged (page_rule pg j) \<and> rule_merged (page_rule pg j) < mi_vocab_size ix"
  shows "read_rule ix pg key = Inr (map_of (page_entries pg) key)"
proof -
  define low where "low = search_page pg key 0 (page_count_at pg)"
  note spec = search_page_spec [OF assms(1), of 0 key, folded low_def, simplified]
  show ?thesis
  proof (cases "low < page_count_at pg \<and> page_key pg low = key")
    case True
    then have "map_of (page_entries pg) key = Some (page_rule pg low)"
      unfolding page_entries_def by (intro map_of_indexed) (use assms(1) in auto)
    moreover have "read_rule ix pg key = Inr (Some (page_rule pg low))"
      using True assms(2) [rule_format, of low]
      by (simp add: not_less not_le read_rule_def Let_def page_rule_def flip: page_count_at_def low_def page_key_def)
    ultimately show ?thesis by simp
  next
    case False
    have "key \<noteq> page_key pg j" if j: "j < page_count_at pg" for j
    proof (cases j low rule: linorder_cases)
      case less
      then show ?thesis using spec by auto
    next
      case equal
      then show ?thesis using False j by simp
    next
      case greater
      then have "page_key pg low < page_key pg j" using assms(1) j by blast
      moreover have "key \<le> page_key pg low" using spec greater j by simp
      ultimately show ?thesis by simp
    qed
    then have "map_of (page_entries pg) key = None" by (intro page_entries_None) metis
    moreover have "read_rule ix pg key = Inr None"
      using False spec by (auto simp: read_rule_def Let_def simp flip: page_count_at_def low_def page_key_def)
    ultimately show ?thesis by simp
  qed
qed

subsection \<open>The page of a key\<close>

lemma page_of_key_bounds:
  assumes "fences \<noteq> []" and "\<not> key < first_key (hd fences)"
    and "\<forall>i < length fences. \<forall>i' < i. first_key (fences ! i') < first_key (fences ! i)"
  shows "page_of_key fences key < length fences"
    and "first_key (fences ! page_of_key fences key) \<le> key"
    and "\<And>i. page_of_key fences key < i \<Longrightarrow> i < length fences \<Longrightarrow> key < first_key (fences ! i)"
proof -
  define P where "P = (\<lambda>fn :: fence. \<not> key < first_key fn)"
  define tw where "tw = takeWhile P fences"
  have page: "page_of_key fences key = length tw - 1" by (simp add: page_of_key_def tw_def P_def)
  have "tw \<noteq> []" using assms(1,2) by (cases fences) (auto simp: tw_def P_def)
  moreover have "length tw \<le> length fences" unfolding tw_def by (rule length_takeWhile_le)
  ultimately have lt: "length tw - 1 < length tw" "length tw \<le> length fences" by auto
  then show "page_of_key fences key < length fences" by (simp add: page)
  have "tw ! (length tw - 1) = fences ! (length tw - 1)"
    using lt unfolding tw_def by (intro takeWhile_nth) simp
  moreover have "P (tw ! (length tw - 1))"
    using lt unfolding tw_def by (metis nth_mem set_takeWhileD)
  ultimately show "first_key (fences ! page_of_key fences key) \<le> key" by (simp add: page P_def)
  fix i assume i: "page_of_key fences key < i" "i < length fences"
  then have tl: "length tw \<le> i" "length tw < length fences" using page lt by auto
  then have "key < first_key (fences ! length tw)"
    using nth_length_takeWhile [of P fences] by (simp add: tw_def P_def)
  then show "key < first_key (fences ! i)"
    using tl i assms(3) by (cases "i = length tw") (auto intro: less_trans)
qed

lemma map_of_concat_None:
  "(\<And>i. i \<in> set js \<Longrightarrow> map_of (f i) key = None) \<Longrightarrow> map_of (concat (map f js)) key = None"
  by (induction js) (auto simp: map_add_None)

lemma map_of_concat_one:
  assumes "p \<in> set js" and "\<And>i. i \<in> set js \<Longrightarrow> i \<noteq> p \<Longrightarrow> map_of (f i) key = None"
  shows "map_of (concat (map f js)) key = map_of (f p) key"
  using assms
proof (induction js)
  case Nil
  then show ?case by simp
next
  case (Cons i js)
  show ?case
  proof (cases "p \<in> set js")
    case True
    then have "map_of (concat (map f js)) key = map_of (f p) key" using Cons by auto
    then show ?thesis using Cons.prems(2) [of i] by (cases "i = p") (auto simp: map_add_def split: option.splits)
  next
    case False
    then have "map_of (concat (map f js)) key = None"
      using Cons.prems(2) by (intro map_of_concat_None) auto
    then show ?thesis using False Cons.prems(1) by (auto simp: map_add_def split: option.splits)
  qed
qed

lemma page_okD:
  assumes "page_ok ix i"
  shows "unat (fence_offset (mi_fences ix ! i)) + kPageSize \<le> length (fst (the (mi_file ix)))"
    and "0 < page_count_at (index_page ix i)" and "page_count_at (index_page ix i) \<le> kRecordsPerPage"
    and "at64 (index_page ix i) 8 = first_key (mi_fences ix ! i)"
    and "page_key (index_page ix i) 0 = first_key (mi_fences ix ! i)"
    and "\<forall>k < page_count_at (index_page ix i). \<forall>j < k. page_key (index_page ix i) j < page_key (index_page ix i) k"
    and "\<forall>j < page_count_at (index_page ix i). 0 \<le> rule_merged (page_rule (index_page ix i) j)
           \<and> rule_merged (page_rule (index_page ix i) j) < mi_vocab_size ix"
    and "\<And>i' j. i' < i \<Longrightarrow> j < page_count_at (index_page ix i') \<Longrightarrow>
           page_key (index_page ix i') j < first_key (mi_fences ix ! i)"
  using assms by (auto simp: page_ok_def Let_def)

lemma page_keys_from_first:
  assumes "page_ok ix i" and "j < page_count_at (index_page ix i)"
  shows "first_key (mi_fences ix ! i) \<le> page_key (index_page ix i) j"
  using page_okD(5,6) [OF assms(1)] assms(2) by (cases j) (force intro: less_imp_le)+

lemma fences_ordered:
  assumes "index_ok ix"
  shows "\<forall>i < length (mi_fences ix). \<forall>i' < i. first_key (mi_fences ix ! i') < first_key (mi_fences ix ! i)"
  using assms unfolding index_ok_def
  by (metis page_okD(2,5,8) less_trans)

text \<open>The rules of an index merge to tokens of its vocabulary.\<close>

lemma entries_in_vocabulary:
  assumes "index_ok ix" and "map_of (index_entries ix) key = Some r"
  shows "0 \<le> rule_merged r \<and> rule_merged r < mi_vocab_size ix"
proof -
  obtain i j where "i < length (mi_fences ix)" "j < page_count_at (index_page ix i)" "r = page_rule (index_page ix i) j"
    using map_of_SomeD [OF assms(2)] by (auto simp: index_entries_def page_entries_def)
  then show ?thesis using assms(1) page_okD(7) [of ix i] by (auto simp: index_ok_def)
qed

text \<open>The entries with a key are those of its page.\<close>

lemma lookup_in_page:
  assumes "index_ok ix" and "mi_fences ix \<noteq> []" and "\<not> key < first_key (hd (mi_fences ix))"
  defines "p \<equiv> page_of_key (mi_fences ix) key"
  shows "map_of (index_entries ix) key = map_of (page_entries (index_page ix p)) key"
proof -
  note p = page_of_key_bounds [OF assms(2,3) fences_ordered [OF assms(1)], folded p_def]
  have ok: "page_ok ix i" if "i < length (mi_fences ix)" for i
    using assms(1) that by (simp add: index_ok_def)
  have "map_of (page_entries (index_page ix i)) key = None" if i: "i < length (mi_fences ix)" "i \<noteq> p" for i
  proof -
    have "page_key (index_page ix i) j \<noteq> key" if j: "j < page_count_at (index_page ix i)" for j
    proof (cases "i < p")
      case True
      then have "page_key (index_page ix i) j < first_key (mi_fences ix ! p)"
        using page_okD(8) [OF ok [OF p(1)]] j by blast
      then show ?thesis using p(2) by simp
    next
      case False
      then have "key < first_key (mi_fences ix ! i)" using p(3) i by simp
      then show ?thesis using page_keys_from_first [OF ok [OF i(1)] j] by simp
    qed
    then show ?thesis by (rule page_entries_None)
  qed
  then show ?thesis
    unfolding index_entries_def using p(1) by (intro map_of_concat_one) auto
qed

lemma lookup_below:
  assumes "index_ok ix" and "key < first_key (hd (mi_fences ix))"
  shows "map_of (index_entries ix) key = None"
proof -
  have "page_key (index_page ix i) j \<noteq> key"
    if i: "i < length (mi_fences ix)" and j: "j < page_count_at (index_page ix i)" for i j
  proof -
    have ok: "page_ok ix i" using assms(1) i by (simp add: index_ok_def)
    have "first_key (mi_fences ix ! 0) \<le> first_key (mi_fences ix ! i)"
      using fences_ordered [OF assms(1)] i by (cases i) (auto intro: less_imp_le)
    then have "key < first_key (mi_fences ix ! i)" using assms(2) i by (cases "mi_fences ix") auto
    then show ?thesis using page_keys_from_first [OF ok j] by simp
  qed
  then have "map_of (page_entries (index_page ix i)) key = None" if "i < length (mi_fences ix)" for i
    using that by (intro page_entries_None) auto
  then show ?thesis unfolding index_entries_def by (intro map_of_concat_None) auto
qed

subsection \<open>The page cache\<close>

text \<open>A slot is free or holds the page it names.\<close>

definition slot_ok :: "merge_index \<Rightarrow> cache_slot \<Rightarrow> bool" where
  "slot_ok ix sl \<longleftrightarrow> length (slot_bytes sl) = kPageSize \<and>
     (slot_page sl = - 1 \<or>
      (\<exists>i < length (mi_fences ix). slot_page sl = word_of_nat i \<and> slot_bytes sl = index_page ix i))"

definition scratch_ok :: "merge_index \<Rightarrow> lookup_scratch \<Rightarrow> bool" where
  "scratch_ok ix s \<longleftrightarrow> length (slots s) = 8 \<and> (\<forall>sl \<in> set (slots s). slot_ok ix sl)"

lemma new_scratch_ok: "scratch_ok ix (new_scratch t)"
  by (simp add: scratch_ok_def new_scratch_def slot_ok_def)

lemma find_slot_Some:
  "find_slot sls page i = Some k \<Longrightarrow> i \<le> k \<and> k - i < length sls \<and> slot_page (sls ! (k - i)) = word_of_nat page"
proof (induction sls page i rule: find_slot.induct)
  case (2 sl sls page i)
  show ?case
  proof (cases "slot_page sl = word_of_nat page")
    case False
    with 2 have ih: "Suc i \<le> k" "k - Suc i < length sls" "slot_page (sls ! (k - Suc i)) = word_of_nat page"
      by auto
    then have "k - i = Suc (k - Suc i)" by simp
    with ih show ?thesis by simp
  qed (use 2(2) in simp)
qed simp

lemma find_slot_page:
  assumes "index_ok ix" and "scratch_ok ix s" and "page < length (mi_fences ix)"
    and "find_slot (slots s) page 0 = Some k"
  shows "slot_bytes (slots s ! k) = index_page ix page"
proof -
  have k: "k < length (slots s)" "slot_page (slots s ! k) = word_of_nat page"
    using find_slot_Some [OF assms(4)] by auto
  have small: "i \<le> INT64_MAX" if "i < length (mi_fences ix)" for i
    using assms(1) that by (simp add: index_ok_def)
  have "slot_ok ix (slots s ! k)" using assms(2) k by (simp add: scratch_ok_def)
  then show ?thesis
    using k small [OF assms(3)] assms(3) small
    by (auto simp: slot_ok_def word_of_nat_not_max dest!: word_of_nat_small_inj [rotated 2])
qed

lemma put_slot_ok:
  "scratch_ok ix s \<Longrightarrow> slot_ok ix sl \<Longrightarrow> scratch_ok ix (put_slot k sl s)"
  by (auto simp: scratch_ok_def put_slot_def dest!: subsetD [OF set_update_subset_insert])

lemma put_whole: "length src = length buf \<Longrightarrow> put 0 src buf = src"
  by (simp add: put_def)

lemma load_slot_ok:
  assumes "honest sy" and "index_ok ix" and "mi_file ix = Some f" and "scratch_ok ix s"
    and "page < length (mi_fences ix)"
  shows "\<exists>k s'. load_slot sy ix f page s = (Inr k, s') \<and> scratch_ok ix s'
    \<and> slot_bytes (slots s' ! k) = index_page ix page"
proof -
  obtain data where f: "f = (data, word_of_nat (length data))" "length data \<le> INT64_MAX"
    using assms(2,3) by (auto simp: index_ok_def)
  define k where "k = unat (next_slot s mod word_of_nat (length (slots s)))"
  have len8: "length (slots s) = 8" using assms(4) by (simp add: scratch_ok_def)
  then have k: "k < length (slots s)" by (simp add: k_def unat_mod)
  then have old: "length (slot_bytes (slots s ! k)) = kPageSize"
    using assms(4) by (simp add: scratch_ok_def slot_ok_def)
  have ok: "page_ok ix page" using assms(2,5) by (simp add: index_ok_def)
  note page = page_okD [OF ok]
  have pg: "index_page ix page = slice (unat (fence_offset (mi_fences ix ! page))) kPageSize data"
    using f assms(3) by (simp add: index_page_def)
  have inside: "unat (fence_offset (mi_fences ix ! page)) + kPageSize \<le> length data"
    using page(1) f assms(3) by simp
  then have len: "length (index_page ix page) = kPageSize" by (simp add: pg)
  obtain t where t: "read_at sy f (fence_offset (mi_fences ix ! page)) kPageSize (ls_calls s)
      = ((None, index_page ix page), t)"
    using read_at_honest [OF assms(1) f(2) inside] f(1) pg by metis
  have "unat (at32 (index_page ix page) 0) \<noteq> 0" "unat (at32 (index_page ix page) 0) \<le> 255"
    using page(2,3) by (simp_all add: page_count_at_def kRecordsPerPage_def)
  then have count: "at32 (index_page ix page) 0 \<noteq> 0"
      "\<not> at32 (index_page ix page) 0 > word_of_nat kRecordsPerPage"
    by (auto simp: word_less_nat_alt kRecordsPerPage_def)
  define s1 where "s1 = (put_slot k \<lparr>slot_page = - 1, slot_bytes = index_page ix page\<rparr> s)
      \<lparr>next_slot := next_slot s + 1, ls_calls := t\<rparr>"
  define s2 where "s2 = (put_slot k \<lparr>slot_page = word_of_nat page, slot_bytes = index_page ix page\<rparr> s1)
      \<lparr>page_reads := page_reads s1 + 1\<rparr>"
  have "load_slot sy ix f page s = (Inr k, s2)"
    using t old len page(4) count
    by (simp add: load_slot_def Let_def put_whole s1_def s2_def flip: k_def)
  moreover have "scratch_ok ix s1"
    using put_slot_ok [OF assms(4), of "\<lparr>slot_page = - 1, slot_bytes = index_page ix page\<rparr>" k] len
    by (simp add: s1_def scratch_ok_def slot_ok_def)
  then have "scratch_ok ix (put_slot k \<lparr>slot_page = word_of_nat page, slot_bytes = index_page ix page\<rparr> s1)"
    using len assms(5) by (intro put_slot_ok) (auto simp: slot_ok_def)
  then have "scratch_ok ix s2" by (simp add: s2_def scratch_ok_def)
  moreover have "slot_bytes (slots s2 ! k) = index_page ix page"
    using k by (simp add: s2_def s1_def put_slot_def)
  ultimately show ?thesis by blast
qed

end
