(* ===== verification/MergeImage.thy ===== *)
theory MergeImage
  imports MergeLookup
begin

text \<open>
  Reading back what \<open>create_cache\<close> writes: a page gives its records, the payload its fences and
  pages, the header its fields.
\<close>

lemma read_le32_append: "length v = 4 \<Longrightarrow> read_le32 (v @ r) = read_le32 v"
  by (simp add: read_le32_def nth_append)

lemma read_le64_append: "length v = 8 \<Longrightarrow> read_le64 (v @ r) = read_le64 v"
  by (simp add: read_le64_def nth_append)

lemma read_back32 [simp]: "read_le32 (write_le32 v @ r) = v"
  by (simp add: read_le32_append)

lemma read_back64 [simp]: "read_le64 (write_le64 v @ r) = v"
  by (simp add: read_le64_append)

subsection \<open>A page\<close>

lemma length_record_bytes [simp]: "length (record_bytes r) = 16"
  by (simp add: record_bytes_def)

lemma length_area [simp]: "length (concat (map record_bytes chunk)) = 16 * length chunk"
  by (induction chunk) auto

lemma length_page_image [simp]: "length (page_image chunk) = 16 + 16 * length chunk"
  by (simp add: page_image_def Let_def)

lemma drop_area:
  "j < length chunk \<Longrightarrow> drop (16 * j) (concat (map record_bytes chunk) @ zs)
     = record_bytes (chunk ! j) @ concat (map record_bytes (drop (Suc j) chunk)) @ zs"
proof (induction chunk arbitrary: j)
  case Nil
  then show ?case by simp
next
  case (Cons r chunk)
  show ?case
  proof (cases j)
    case 0
    then show ?thesis by simp
  next
    case (Suc j')
    then have "drop (16 * j) (concat (map record_bytes (r # chunk)) @ zs)
        = drop (16 * j') (concat (map record_bytes chunk) @ zs)" by simp
    then show ?thesis using Cons Suc by simp
  qed
qed

definition entry_of :: "raw_record \<Rightarrow> u64 \<times> rule" where
  "entry_of r = (rr_key r, \<lparr>rule_rank = rr_rank r, rule_merged = rr_merged r\<rparr>)"

text \<open>A record whose numbers are 32-bit integers.\<close>

definition record_fits :: "raw_record \<Rightarrow> bool" where
  "record_fits r \<longleftrightarrow> 0 \<le> rr_rank r \<and> rr_rank r \<le> int INT32_MAX \<and> 0 \<le> rr_merged r \<and> rr_merged r \<le> int INT32_MAX"

lemma sint_word_of_int32: "0 \<le> i \<Longrightarrow> i \<le> int INT32_MAX \<Longrightarrow> sint (word_of_int i :: u32) = i"
  by (simp add: INT32_MAX_def sint_uint uint_word_of_int signed_take_bit_int_eq_self take_bit_int_eq_self)

definition zero_page :: "u8 list \<Rightarrow> u8 list" where
  "zero_page img = img @ replicate (kPageSize - length img) 0"

lemma length_zero_page [simp]: "length img \<le> kPageSize \<Longrightarrow> length (zero_page img) = kPageSize"
  by (simp add: zero_page_def)

lemma page_image_head:
  assumes "length chunk \<le> 255"
  shows "page_count_at (page_image chunk @ zs) = length chunk"
    and "at32 (page_image chunk @ zs) 4 = crc32 (concat (map record_bytes chunk))"
    and "at64 (page_image chunk @ zs) 8 = rr_key (hd chunk)"
    and "slice kPageHeaderSize (16 * length chunk) (page_image chunk @ zs) = concat (map record_bytes chunk)"
  using assms
  by (simp_all add: page_count_at_def at32_def at64_def page_image_def Let_def unat_of_nat
      take_bit_nat_eq_self slice_def kPageHeaderSize_def)

lemma page_image_drop:
  assumes "j < length chunk"
  shows "drop (kPageHeaderSize + j * kRecordSize) (page_image chunk @ zs)
    = record_bytes (chunk ! j) @ concat (map record_bytes (drop (Suc j) chunk)) @ zs"
proof -
  have "drop (16 + j * 16) (page_image chunk @ zs) = drop (16 * j) (concat (map record_bytes chunk) @ zs)"
    by (simp add: page_image_def Let_def mult.commute)
  then show ?thesis using drop_area [OF assms] by (simp add: kPageHeaderSize_def kRecordSize_def)
qed

lemma page_image_record:
  assumes "j < length chunk" and "record_fits (chunk ! j)"
  shows "page_key (page_image chunk @ zs) j = rr_key (chunk ! j)"
    and "page_rule (page_image chunk @ zs) j = snd (entry_of (chunk ! j))"
proof -
  have d: "at32 pg (off + k) = at32 (drop off pg) k" for pg off k
    by (simp add: at32_def add.commute)
  note img = page_image_drop [OF assms(1), of zs]
  show "page_key (page_image chunk @ zs) j = rr_key (chunk ! j)"
    unfolding page_key_def at64_def img by (simp add: record_bytes_def)
  show "page_rule (page_image chunk @ zs) j = snd (entry_of (chunk ! j))"
    unfolding page_rule_def d img using assms(2)
    by (simp add: at32_def record_bytes_def entry_of_def record_fits_def sint_word_of_int32)
qed

lemma page_image_entries:
  assumes "length chunk \<le> 255" and "\<forall>r \<in> set chunk. record_fits r"
  shows "page_entries (page_image chunk @ zs) = map entry_of chunk"
  unfolding page_entries_def page_image_head(1) [OF assms(1)]
  by (rule nth_equalityI) (use assms(2) page_image_record in \<open>auto simp: entry_of_def\<close>)

subsection \<open>A one-page index\<close>

text \<open>A file of one page at offset zero; an instance of the invariant with concrete bytes.\<close>

definition one_page_index :: "raw_record list \<Rightarrow> int \<Rightarrow> merge_index" where
  "one_page_index chunk vocab_size =
     \<lparr>mi_file = Some (zero_page (page_image chunk), word_of_nat kPageSize),
      mi_fences = [\<lparr>first_key = rr_key (hd chunk), fence_offset = 0\<rparr>], mi_path = [],
      mi_record_count = word_of_nat (length chunk), mi_vocab_size = vocab_size, mi_cache_hit = False\<rparr>"

lemma one_page_index_page:
  "length chunk \<le> 255 \<Longrightarrow> index_page (one_page_index chunk v) 0 = zero_page (page_image chunk)"
  by (simp add: index_page_def one_page_index_def slice_full kPageSize_def zero_page_def)

lemma one_page_index_ok:
  assumes "chunk \<noteq> []" and "length chunk \<le> 255" and "\<forall>r \<in> set chunk. record_fits r \<and> rr_merged r < v"
    and "sorted_wrt (<) (map rr_key chunk)"
  shows "index_ok (one_page_index chunk v)"
    and "index_entries (one_page_index chunk v) = map entry_of chunk"
proof -
  define pg where "pg = zero_page (page_image chunk)"
  have head: "page_count_at pg = length chunk" "at64 pg 8 = rr_key (hd chunk)"
    using page_image_head [OF assms(2)] by (auto simp: pg_def zero_page_def)
  have rec: "page_key pg j = rr_key (chunk ! j)" "page_rule pg j = snd (entry_of (chunk ! j))"
    if "j < length chunk" for j
    using page_image_record [OF that] that assms(3) by (auto simp: pg_def zero_page_def)
  have len: "length pg = kPageSize" using assms(2) by (simp add: pg_def zero_page_def kPageSize_def)
  have order: "rr_key (chunk ! j) < rr_key (chunk ! k)" if "k < length chunk" "j < k" for j k
    using assms(4) that by (auto simp: sorted_wrt_iff_nth_less)
  have "page_key pg 0 = rr_key (hd chunk)" using rec(1) [of 0] assms(1) by (simp add: hd_conv_nth)
  then have "page_ok (one_page_index chunk v) 0"
    unfolding page_ok_def one_page_index_page [OF assms(2), folded pg_def] Let_def
    using head rec len assms order
    by (auto simp: one_page_index_def entry_of_def record_fits_def kRecordsPerPage_def pg_def [symmetric])
  then show "index_ok (one_page_index chunk v)"
    using len by (auto simp: index_ok_def one_page_index_def pg_def INT64_MAX_def kPageSize_def)
  show "index_entries (one_page_index chunk v) = map entry_of chunk"
    using one_page_index_page [OF assms(2)] page_image_entries [OF assms(2)] assms(3)
    by (simp add: index_entries_def one_page_index_def zero_page_def)
qed

subsection \<open>Looking up is the lookup among the entries\<close>

lemma find_lookup:
  assumes "honest sy" and "index_ok ix" and "scratch_ok ix s"
  shows "\<exists>s'. find sy ix key s = (Inr (map_of (index_entries ix) key), s') \<and> scratch_ok ix s'"
proof -
  obtain f where f: "mi_file ix = Some f" using assms(2) by (auto simp: index_ok_def)
  show ?thesis
  proof (cases "mi_fences ix = [] \<or> key < first_key (hd (mi_fences ix))")
    case True
    then have "map_of (index_entries ix) key = None"
      using lookup_below [OF assms(2)] by (auto simp: index_entries_def)
    then show ?thesis using True f assms(3) by (auto simp: find_def)
  next
    case False
    define p where "p = page_of_key (mi_fences ix) key"
    have p: "p < length (mi_fences ix)"
      using page_of_key_bounds(1) [OF _ _ fences_ordered [OF assms(2)]] False by (simp add: p_def)
    then have "page_ok ix p" using assms(2) by (simp add: index_ok_def)
    note rule = read_rule_entries [OF page_okD(6,7) [OF this], of key]
    have lookup: "map_of (index_entries ix) key = map_of (page_entries (index_page ix p)) key"
      using lookup_in_page [OF assms(2)] False by (simp add: p_def)
    have "\<exists>k s'. (case find_slot (slots s) p 0 of Some k \<Rightarrow> retM k | None \<Rightarrow> load_slot sy ix f p) s = (Inr k, s')
        \<and> scratch_ok ix s' \<and> slot_bytes (slots s' ! k) = index_page ix p"
      using load_slot_ok [OF assms(1,2) f assms(3) p] find_slot_page [OF assms(2,3) p] assms(3)
      by (cases "find_slot (slots s) p 0") auto
    then show ?thesis
      using f False rule lookup by (auto simp: find_def Let_def bindM_def liftM_def simp flip: p_def)
  qed
qed

text \<open>
  C29: over a validated index and an honest file, \<open>find\<close> is the lookup among all entries of the
  file: it never throws, a missing pair is not found, a present one gives its rank and token, and
  the eight cached pages, however they were filled and evicted, never change the answer.
\<close>

theorem find_is_lookup:
  assumes "honest sy" and "index_ok ix" and "scratch_ok ix s"
  shows "\<exists>s'. find sy ix key s = (Inr (map_of (index_entries ix) key), s') \<and> scratch_ok ix s'"
  by (rule find_lookup [OF assms])

text \<open>An operating system without failures and short reads.\<close>

definition ideal_sys :: sys where
  "ideal_sys = \<lparr>sy_open_ok = (\<lambda>_. True), sy_stat_ok = (\<lambda>_. True),
     sy_read = (\<lambda>t data off n. Some (slice (unat off) n data)), sy_create_ok = (\<lambda>_. True),
     sy_written = (\<lambda>t n. n), sy_flush_ok = (\<lambda>_. True), sy_sync_ok = (\<lambda>_. True),
     sy_close_ok = (\<lambda>_. True), sy_rename_ok = (\<lambda>_. True), sy_remove_ok = (\<lambda>_. True)\<rparr>"

lemma ideal_honest: "honest ideal_sys"
  by (auto simp: honest_def ideal_sys_def)

definition two_records :: "raw_record list" where
  "two_records = [\<lparr>rr_key = 5, rr_rank = 0, rr_merged = 2\<rparr>, \<lparr>rr_key = 9, rr_rank = 1, rr_merged = 3\<rparr>]"

lemma two_records_ok:
  "index_ok (one_page_index two_records 4)"
  "index_entries (one_page_index two_records 4) = map entry_of two_records"
  by (rule one_page_index_ok; simp add: two_records_def record_fits_def INT32_MAX_def)+

lemma find_is_lookup_witness:
  "(\<exists>s. find ideal_sys (one_page_index two_records 4) 9 (new_scratch 0) = (Inr (Some \<lparr>rule_rank = 1, rule_merged = 3\<rparr>), s))
   \<and> (\<exists>s. find ideal_sys (one_page_index two_records 4) 7 (new_scratch 0) = (Inr None, s))"
  using find_is_lookup [OF ideal_honest two_records_ok(1) new_scratch_ok, of 9 0]
    find_is_lookup [OF ideal_honest two_records_ok(1) new_scratch_ok, of 7 0]
  unfolding two_records_ok(2) by (auto simp: two_records_def entry_of_def)

text \<open>
  a rule that \<open>find\<close> returns names a token of the vocabulary, whatever bytes the file delivers
  and whatever the page cache holds, so an id of a changed record never reaches the embedding
  lookup.
\<close>

theorem find_in_vocabulary:
  assumes "find sy ix key s = (Inr (Some r), s')"
  shows "0 \<le> rule_merged r \<and> rule_merged r < mi_vocab_size ix"
proof -
  obtain buf where "read_rule ix buf key = Inr (Some r)"
    using assms by (auto simp: find_def bindM_Inr_iff liftM_Inr_iff Let_def split: option.splits if_splits)
  then show ?thesis by (auto simp: read_rule_def Let_def split: if_splits)
qed

lemma find_in_vocabulary_witness: "(3 :: int) < mi_vocab_size (one_page_index two_records 4)"
proof -
  obtain s where "find ideal_sys (one_page_index two_records 4) 9 (new_scratch 0)
      = (Inr (Some \<lparr>rule_rank = 1, rule_merged = 3\<rparr>), s)"
    using find_lookup [OF ideal_honest two_records_ok(1) new_scratch_ok, of 9 0]
    unfolding two_records_ok(2) by (auto simp: two_records_def entry_of_def)
  from find_in_vocabulary [OF this] show ?thesis by simp
qed

end
