(* ===== verification/MergeOpen.thy ===== *)
theory MergeOpen
  imports MergeImage
begin

text \<open>
  Validation is sound: whatever the file holds, an index that \<open>open_validated\<close> returns satisfies
  the invariant the lookup relies on.
\<close>

lemma readM_Inr:
  assumes "honest sy" and "length data \<le> INT64_MAX" and "n \<le> INT64_MAX"
    and "readM sy (data, word_of_nat (length data)) off n w = (Inr bs, w')"
  shows "bs = slice (unat off) n data \<and> unat off + n \<le> length data"
proof -
  define size where "size = (word_of_nat (length data) :: u64)"
  have size: "unat size = length data" using unat_small_u64 [OF assms(2)] by (simp add: size_def)
  have "off \<le> size" "word_of_nat n \<le> size - off"
    using assms(4) by (auto simp: readM_def read_at_def size_def [symmetric] split: if_splits)
  then have "unat off + n \<le> length data"
    using unat_small_u64 [OF assms(3)] by (auto simp: word_le_nat_alt unat_sub size)
  with readM_honest [OF assms(1,2) this, of w] assms(4) show ?thesis by auto
qed

subsection \<open>The records of a page\<close>

lemma check_record_Inr:
  "check_record pg fkey v j prev = Inr next' \<longleftrightarrow>
     next' = Some (page_key pg j) \<and> (case prev of None \<Rightarrow> True | Some p \<Rightarrow> p < page_key pg j)
     \<and> (j = 0 \<longrightarrow> page_key pg 0 = fkey) \<and> 0 \<le> rule_merged (page_rule pg j) \<and> rule_merged (page_rule pg j) < v"
  by (cases "j = 0") (auto simp: check_record_def throwing Let_def page_key_def page_rule_def not_le not_less split: option.splits)

lemma check_records_Inr:
  assumes "foldE (check_record pg fkey v) [0 ..< n] prev = Inr last_key"
  shows "(\<forall>k < n. \<forall>j < k. page_key pg j < page_key pg k)
    \<and> (\<forall>j < n. (case prev of None \<Rightarrow> True | Some p \<Rightarrow> p < page_key pg j))
    \<and> (\<forall>j < n. 0 \<le> rule_merged (page_rule pg j) \<and> rule_merged (page_rule pg j) < v)
    \<and> (0 < n \<longrightarrow> page_key pg 0 = fkey \<and> last_key = Some (page_key pg (n - 1)))
    \<and> (n = 0 \<longrightarrow> last_key = prev)"
  using assms
proof (induction n arbitrary: last_key)
  case 0
  then show ?case by simp
next
  case (Suc n)
  from Suc.prems obtain mid where mid: "foldE (check_record pg fkey v) [0 ..< n] prev = Inr mid"
    and last: "check_record pg fkey v n mid = Inr last_key"
    by (auto simp: foldE_append throwing)
  note ih = Suc.IH [OF mid]
  note step = last [unfolded check_record_Inr]
  show ?case
  proof (cases "n = 0")
    case True
    then show ?thesis using ih step by (auto simp: less_Suc_eq)
  next
    case False
    then have m: "mid = Some (page_key pg (n - 1))" using ih by simp
    have below: "page_key pg j < page_key pg n" if "j < n" for j
    proof (cases "j = n - 1")
      case True
      then show ?thesis using step m by simp
    next
      case j: False
      then have "page_key pg j < page_key pg (n - 1)" using ih that False by auto
      then show ?thesis using step m by (simp add: less_trans)
    qed
    have "case prev of None \<Rightarrow> True | Some p \<Rightarrow> p < page_key pg n"
      using ih below [of 0] False by (auto split: option.splits intro: less_trans [of _ "page_key pg 0"])
    then show ?thesis using ih step below False by (auto simp: less_Suc_eq split: option.splits)
  qed
qed

subsection \<open>The scan of the pages\<close>

definition scanned :: "u8 list \<Rightarrow> int \<Rightarrow> fence list \<Rightarrow> merge_index" where
  "scanned data v fences = \<lparr>mi_file = Some (data, word_of_nat (length data)), mi_fences = fences, mi_path = [],
     mi_record_count = 0, mi_vocab_size = v, mi_cache_hit = False\<rparr>"

definition scan_inv :: "u8 list \<Rightarrow> int \<Rightarrow> page_scan \<Rightarrow> bool" where
  "scan_inv data v sc \<longleftrightarrow>
     (let ix = scanned data v (ps_fences sc) in
      (\<forall>i < length (ps_fences sc). page_ok ix i)
      \<and> (case ps_prev sc of
           None \<Rightarrow> ps_fences sc = []
         | Some p \<Rightarrow> \<forall>i < length (ps_fences sc). \<forall>j < page_count_at (index_page ix i).
             page_key (index_page ix i) j \<le> p))"

lemma index_page_scanned [simp]:
  "index_page (scanned data v fences) i = slice (unat (fence_offset (fences ! i))) kPageSize data"
  by (simp add: index_page_def scanned_def)

lemma page_ok_scanned_append:
  assumes "i < length fences"
  shows "page_ok (scanned data v (fences @ fs)) i = page_ok (scanned data v fences) i"
proof -
  have "(fences @ fs) ! j = fences ! j" if "j \<le> i" for j using assms that by (simp add: nth_append)
  then show ?thesis
    unfolding page_ok_def Let_def index_page_scanned by (simp add: scanned_def)
qed

lemma check_page_Inr:
  assumes "check_page pg fn rc v sc = Inr sc'"
  shows "ps_fences sc' = ps_fences sc @ [fn] \<and> 0 < page_count_at pg \<and> page_count_at pg \<le> kRecordsPerPage
    \<and> at64 pg 8 = first_key fn
    \<and> foldE (check_record pg (first_key fn) v) [0 ..< page_count_at pg] (ps_prev sc) = Inr (ps_prev sc')"
  using assms
  by (auto simp: check_page_def Let_def throwing page_count_at_def unat_gt_0 not_less word_le_nat_alt
      kRecordsPerPage_def split: if_splits)

lemma scan_page_inv:
  assumes "honest sy" and "length data \<le> INT64_MAX" and "scan_inv data v sc" and "length (ps_fences sc) = i"
    and "scan_page sy (data, word_of_nat (length data)) off rc v i sc w = (Inr sc', w')"
  shows "scan_inv data v sc' \<and> length (ps_fences sc') = Suc i"
proof -
  obtain fn w1 where "scan_fence sy (data, word_of_nat (length data)) off rc v i sc fn w1 = (Inr sc', w')"
    using assms(5) unfolding scan_page_def bindM_Inr_iff by blast
  then obtain pg w2 where pg: "readM sy (data, word_of_nat (length data)) (fence_offset fn) kPageSize w1 = (Inr pg, w2)"
    and check: "check_page pg fn rc v sc = Inr sc'"
    by (auto simp: scan_fence_def bindM_Inr_iff liftM_Inr_iff split: if_splits)
  have "kPageSize \<le> INT64_MAX" by (simp add: kPageSize_def INT64_MAX_def)
  note page = readM_Inr [OF assms(1,2) this pg]
  note c = check_page_Inr [OF check]
  note rs = check_records_Inr [of pg "first_key fn" v "page_count_at pg" "ps_prev sc" "ps_prev sc'"]
  define ix where "ix = scanned data v (ps_fences sc')"
  have fn: "ps_fences sc' ! i = fn" "length (ps_fences sc') = Suc i" using c assms(4) by auto
  then have pgi: "index_page ix i = pg" using page by (simp add: ix_def)
  have old: "index_page ix k = index_page (scanned data v (ps_fences sc)) k" if "k < i" for k
    using c assms(4) that by (simp add: ix_def nth_append)
  have prior: "page_key (index_page ix k) j < first_key fn" if kj: "k < i" "j < page_count_at (index_page ix k)" for k j
  proof -
    obtain p where p: "ps_prev sc = Some p"
      using assms(3,4) kj by (auto simp: scan_inv_def Let_def split: option.splits)
    then have "page_key (index_page ix k) j \<le> p"
      using assms(3,4) kj old [OF kj(1)] by (auto simp: scan_inv_def Let_def)
    also have "p < page_key pg 0" using c rs p by auto
    also have "\<dots> = first_key fn" using c rs by simp
    finally show ?thesis .
  qed
  have "page_ok ix i"
    unfolding page_ok_def Let_def pgi using c rs page prior fn by (auto simp: ix_def scanned_def)
  moreover have "page_ok ix k" if "k < i" for k
    using assms(3,4) that c page_ok_scanned_append [of k "ps_fences sc" data v "[fn]"]
    by (auto simp: ix_def scan_inv_def Let_def)
  ultimately have ok: "\<forall>k < length (ps_fences sc'). page_ok ix k" using fn by (auto simp: less_Suc_eq)
  have last: "ps_prev sc' = Some (page_key pg (page_count_at pg - 1))" using c rs by simp
  have "page_key (index_page ix k) j \<le> page_key pg (page_count_at pg - 1)"
    if kj: "k < Suc i" "j < page_count_at (index_page ix k)" for k j
  proof (cases "k = i")
    case True
    then show ?thesis using kj rs c pgi by (cases "j = page_count_at pg - 1") (auto intro!: less_imp_le)
  next
    case False
    then have "page_key (index_page ix k) j < page_key pg 0" using prior kj c rs by auto
    also have "\<dots> \<le> page_key pg (page_count_at pg - 1)"
    proof (cases "page_count_at pg = 1")
      case False
      then have "page_count_at pg - 1 < page_count_at pg" "0 < page_count_at pg - 1" using c by auto
      then have "page_key pg 0 < page_key pg (page_count_at pg - 1)" using rs c by blast
      then show ?thesis by simp
    qed simp
    finally show ?thesis by simp
  qed
  then show ?thesis
    using ok last fn unfolding scan_inv_def by (simp add: ix_def Let_def)
qed

lemma scan_pages_inv:
  assumes "honest sy" and "length data \<le> INT64_MAX"
    and "foldM (scan_page sy (data, word_of_nat (length data)) off rc v) [length (ps_fences sc) ..< n] sc w = (Inr sc', w')"
    and "scan_inv data v sc" and "length (ps_fences sc) \<le> n"
  shows "scan_inv data v sc' \<and> length (ps_fences sc') = n"
  using assms(3-5)
proof (induction "n - length (ps_fences sc)" arbitrary: sc w)
  case 0
  then show ?case by simp
next
  case (Suc d)
  define i where "i = length (ps_fences sc)"
  have i: "i < n" "[i ..< n] = i # [Suc i ..< n]" using Suc.hyps(2) by (auto simp: i_def upt_conv_Cons)
  from Suc.prems(1) obtain sc1 w1
    where one: "scan_page sy (data, word_of_nat (length data)) off rc v i sc w = (Inr sc1, w1)"
      and rest: "foldM (scan_page sy (data, word_of_nat (length data)) off rc v) [Suc i ..< n] sc1 w1 = (Inr sc', w')"
    by (auto simp: i(2) bindM_Inr_iff simp flip: i_def)
  from scan_page_inv [OF assms(1,2) Suc.prems(2) i_def [symmetric] one]
  have sc1: "scan_inv data v sc1" "length (ps_fences sc1) = Suc i" by auto
  show ?case
    using Suc.hyps(1) [of sc1 w1] rest sc1 Suc.hyps(2) i by (simp add: i_def)
qed

subsection \<open>Soundness of validation\<close>

definition file_fits :: "world \<Rightarrow> string \<Rightarrow> bool" where
  "file_fits w path \<longleftrightarrow> (case files w path of None \<Rightarrow> True | Some data \<Rightarrow> length data \<le> INT64_MAX)"

lemma open_validated_sound:
  assumes "honest sy" and "file_fits w path" and "open_validated sy path digest v w = (Inr ix, w')"
  shows "index_ok ix \<and> mi_vocab_size ix = v \<and> mi_path ix = path"
proof -
  obtain data where data: "files w path = Some data"
    and opened: "\<exists>w1. open_file sy path w = (Inr (data, word_of_nat (length data)), w1)"
    using assms(3)
    by (auto simp: open_validated_def open_file_def callM_def bindM_Inr_iff split: option.splits if_splits)
  have fit: "length data \<le> INT64_MAX" using assms(2) data by (simp add: file_fits_def)
  define f where "f = (data, word_of_nat (length data) :: u64)"
  obtain w1 header rc pc off sc w2 w3 where
    header: "check_header header (snd f) digest = Inr (rc, pc, off)"
    and scan: "foldM (scan_page sy f off rc v) [0 ..< unat pc] \<lparr>ps_seen = 0, ps_prev = None, ps_fences = []\<rparr> w2
      = (Inr sc, w3)"
    and ix: "ix = \<lparr>mi_file = Some f, mi_fences = ps_fences sc, mi_path = path, mi_record_count = rc,
      mi_vocab_size = v, mi_cache_hit = False\<rparr>"
    using assms(3) opened
    by (auto simp: open_validated_def bindM_Inr_iff liftM_Inr_iff f_def split: if_splits prod.splits)
  have "pc \<le> snd f div word_of_nat kPageSize"
    using header by (auto simp: check_header_def throwing Let_def not_less split: if_splits)
  then have "unat pc \<le> unat (snd f)" by (simp add: word_le_nat_alt unat_div) (meson div_le_dividend le_trans)
  then have pages: "unat pc \<le> INT64_MAX" using fit unat_small_u64 [OF fit] by (simp add: f_def)
  have "scan_inv data v \<lparr>ps_seen = 0, ps_prev = None, ps_fences = []\<rparr>" by (simp add: scan_inv_def)
  from scan_pages_inv [OF assms(1) fit _ this] scan
  have "scan_inv data v sc \<and> length (ps_fences sc) = unat pc" by (simp add: f_def)
  moreover have "page_ok (scanned data v (ps_fences sc)) i = page_ok ix i" for i
    by (simp add: page_ok_def Let_def index_page_def scanned_def ix f_def)
  ultimately show ?thesis
    using pages fit by (auto simp: index_ok_def scan_inv_def Let_def ix f_def)
qed

end
