(* ===== verification/MergeRoundtrip.thy ===== *)
theory MergeRoundtrip
  imports MergeOpen
begin

text \<open>
  The round trip of the merge cache: the file that \<open>create_cache\<close> writes passes validation, and
  looking a pair up in it gives the lowest-ranked merge rule of the tokenizer for that pair.
\<close>

subsection \<open>The records of a tokenizer\<close>

lemma find_unique_keys:
  "List.find (\<lambda>r. rr_key r = k) (unique_keys rs) = List.find (\<lambda>r. rr_key r = k) rs"
  by (induction rs rule: unique_keys.induct) auto

lemma set_unique_keys: "set (unique_keys rs) \<subseteq> set rs"
  by (induction rs rule: unique_keys.induct) auto

lemma length_unique_keys: "length (unique_keys rs) \<le> length rs"
  by (induction rs rule: unique_keys.induct) auto

lemma hd_unique_keys: "rs \<noteq> [] \<Longrightarrow> unique_keys rs \<noteq> [] \<and> rr_key (hd (unique_keys rs)) = rr_key (hd rs)"
  by (induction rs rule: unique_keys.induct) auto

lemma unique_keys_strict: "sorted (map rr_key rs) \<Longrightarrow> sorted_wrt (<) (map rr_key (unique_keys rs))"
proof (induction rs rule: unique_keys.induct)
  case (3 r s rs)
  show ?case
  proof (cases "rr_key r = rr_key s")
    case True
    then show ?thesis using 3 by simp
  next
    case False
    then have "rr_key r < rr_key x" if "x \<in> set (s # rs)" for x
      using 3(3) that by (auto simp: less_le intro: order_trans)
    then have "\<forall>x \<in> set (unique_keys (s # rs)). rr_key r < rr_key x"
      using set_unique_keys [of "s # rs"] by blast
    then show ?thesis using False 3 by simp
  qed
qed simp_all

lemma find_filter: "List.find P xs = (case filter P xs of [] \<Rightarrow> None | x # _ \<Rightarrow> Some x)"
  by (induction xs) auto

text \<open>A stable sort keeps the first record of a key when the records come in rank order.\<close>

lemma find_sorted_records:
  assumes "sorted_wrt (<) (map rr_rank rs)"
  shows "List.find (\<lambda>r. rr_key r = k) (sort_key (\<lambda>r. (rr_key r, rr_rank r)) rs)
    = List.find (\<lambda>r. rr_key r = k) rs"
proof -
  have "sorted (map rr_rank (filter (\<lambda>r. rr_key r = k) rs))"
    using assms by (metis sorted_filter strict_sorted_imp_sorted)
  then have "sorted (map (\<lambda>r. (rr_key r, rr_rank r)) (filter (\<lambda>r. rr_key r = k) rs))"
    by (induction rs) (auto simp: less_eq_prod_def)
  then show ?thesis by (simp add: find_filter filter_sort sort_key_id_if_sorted)
qed

definition rule_of_pair :: "string list \<Rightarrow> string list \<Rightarrow> u64 \<Rightarrow> rule option" where
  "rule_of_pair tokens merges key =
     map_option (\<lambda>r. snd (entry_of r))
       (List.find (\<lambda>r. rr_key r = key) (resolve_rules (first_index 0 tokens) 0 merges))"

lemma emplace_first_index: "emplace_from 0 tokens Map.empty = first_index 0 tokens"
  by (rule ext) (rule emplace_from_empty)

lemma resolve_rule_cases:
  "resolve_rule ix i rule = [] \<or> (\<exists>l r m. ix (l @ r) = Some m \<and> (\<exists>key. resolve_rule ix i rule
     = [\<lparr>rr_key = key, rr_rank = i32_of_nat i, rr_merged = m\<rparr>]))"
  by (fastforce simp: resolve_rule_def split: option.splits prod.splits)

lemma resolve_rules_ranks:
  "i + length rules \<le> INT32_MAX \<Longrightarrow>
     sorted_wrt (<) (map rr_rank (resolve_rules ix i rules))
     \<and> (\<forall>r \<in> set (resolve_rules ix i rules). int i \<le> rr_rank r \<and> rr_rank r < int (i + length rules))"
proof (induction ix i rules rule: resolve_rules.induct)
  case (1 ix i)
  then show ?case by simp
next
  case (2 ix i rule rules)
  then have ih: "sorted_wrt (<) (map rr_rank (resolve_rules ix (Suc i) rules))"
    by auto
  have ranks: "int i < rr_rank r \<and> rr_rank r < int (Suc i + length rules)"
    if "r \<in> set (resolve_rules ix (Suc i) rules)" for r
    using 2 that by fastforce
  have "i32_of_nat i = int i" using 2(2) by (intro i32_of_nat_id) simp
  then show ?case
    using resolve_rule_cases [of ix i rule] ih by (auto dest: ranks)
qed

lemma resolve_rules_merged:
  "r \<in> set (resolve_rules ix i rules) \<Longrightarrow> \<exists>p. ix p = Some (rr_merged r)"
proof (induction ix i rules rule: resolve_rules.induct)
  case (2 ix i rule rules)
  then show ?case using resolve_rule_cases [of ix i rule] by auto
qed simp

lemma length_resolve_rules: "length (resolve_rules ix i rules) \<le> length rules"
proof (induction ix i rules rule: resolve_rules.induct)
  case (2 ix i rule rules)
  then show ?case using resolve_rule_cases [of ix i rule] by auto
qed simp

lemma merge_records_facts:
  assumes "merge_records tokens merges = Inr records"
    and "length tokens \<le> INT32_MAX" and "length merges \<le> INT32_MAX"
  shows "records \<noteq> []" and "length records \<le> INT32_MAX" and "sorted_wrt (<) (map rr_key records)"
    and "\<forall>r \<in> set records. record_fits r \<and> rr_merged r < int (length tokens)"
    and "map_of (map entry_of records) key = rule_of_pair tokens merges key"
proof -
  define rs where "rs = resolve_rules (first_index 0 tokens) 0 merges"
  define sorted_rs where "sorted_rs = sort_key (\<lambda>r. (rr_key r, rr_rank r)) rs"
  have rs: "rs \<noteq> []" "records = unique_keys sorted_rs"
    using assms(1) by (auto simp: merge_records_def emplace_first_index rs_def sorted_rs_def Let_def split: if_splits)
  then have "sorted_rs \<noteq> []" by (simp add: sorted_rs_def) (metis set_empty set_sort)
  with hd_unique_keys show "records \<noteq> []" by (simp add: rs(2))
  have "length records \<le> length rs"
    using length_unique_keys [of sorted_rs] by (simp add: rs(2) sorted_rs_def)
  then show "length records \<le> INT32_MAX"
    using length_resolve_rules [of "first_index 0 tokens" 0 merges] assms(3) by (simp add: rs_def)
  have "sorted (map (\<lambda>r. (rr_key r, rr_rank r)) sorted_rs)" unfolding sorted_rs_def by (rule sorted_sort_key)
  then have "sorted (map rr_key sorted_rs)"
    by (auto simp: sorted_iff_nth_mono less_eq_prod_def intro: less_imp_le)
  with unique_keys_strict show "sorted_wrt (<) (map rr_key records)" by (simp add: rs(2))
  note ranks = resolve_rules_ranks [of 0 merges "first_index 0 tokens", folded rs_def, simplified]
  have sub: "set records \<subseteq> set rs" using set_unique_keys [of sorted_rs] by (simp add: rs(2) sorted_rs_def)
  show "\<forall>r \<in> set records. record_fits r \<and> rr_merged r < int (length tokens)"
  proof
    fix r assume "r \<in> set records"
    then have r: "r \<in> set rs" using sub by auto
    from resolve_rules_merged [OF this [unfolded rs_def]] have "0 \<le> rr_merged r \<and> rr_merged r < int (length tokens)"
      by (auto dest: first_index_range)
    then show "record_fits r \<and> rr_merged r < int (length tokens)"
      using ranks assms(2,3) r by (fastforce simp: record_fits_def)
  qed
  have "List.find (\<lambda>r. rr_key r = key) records = List.find (\<lambda>r. rr_key r = key) rs"
    unfolding rs(2) find_unique_keys sorted_rs_def using ranks assms(3) by (intro find_sorted_records) simp
  moreover have "map_of (map entry_of rs') key = map_option (\<lambda>r. snd (entry_of r)) (List.find (\<lambda>r. rr_key r = key) rs')" for rs'
    by (induction rs') (auto simp: entry_of_def)
  ultimately show "map_of (map entry_of records) key = rule_of_pair tokens merges key"
    by (simp add: rule_of_pair_def rs_def)
qed

end
