(* ===== verification/MergePayload.thy ===== *)
theory MergePayload
  imports MergeRoundtrip
begin

text \<open>
  The layout and the bytes of the cache: the arithmetic of the offsets, the fences and pages of
  the payload, the fields of the header.
\<close>

subsection \<open>Offsets\<close>

definition pages_for :: "nat \<Rightarrow> nat" where
  "pages_for n = (n + 254) div 255"

definition data_start :: "nat \<Rightarrow> nat" where
  "data_start n = round_up 4096 (4096 + 16 * pages_for n)"

lemma pages_for_bounds: "n \<le> INT32_MAX \<Longrightarrow> pages_for n \<le> 2 ^ 24" "0 < n \<Longrightarrow> 0 < pages_for n"
  by (auto simp: pages_for_def INT32_MAX_def div_greater_zero_iff)

lemma data_start_bounds: "4096 + 16 * pages_for n \<le> data_start n" "data_start n < 4096 + 16 * pages_for n + 4096"
proof -
  show "4096 + 16 * pages_for n \<le> data_start n" unfolding data_start_def by (rule round_up_ge) simp
  have "(4096 + 16 * pages_for n + 4096 - 1) div 4096 * 4096 \<le> 4096 + 16 * pages_for n + 4096 - 1"
    by (rule div_times_less_eq_dividend)
  then show "data_start n < 4096 + 16 * pages_for n + 4096" by (simp add: data_start_def round_up_def)
qed

lemma page_count_of_nat:
  assumes "n \<le> INT32_MAX" shows "page_count_of (word_of_nat n) = word_of_nat (pages_for n)"
proof -
  have "unat (word_of_nat n + word_of_nat kRecordsPerPage - 1 :: u64) = n + 254"
  proof -
    have eq: "(word_of_nat n + word_of_nat kRecordsPerPage - 1 :: u64) = word_of_nat (n + 254)"
      by (simp add: kRecordsPerPage_def)
    show ?thesis unfolding eq
      by (rule unat_small_u64) (use assms in \<open>simp add: INT32_MAX_def INT64_MAX_def\<close>)
  qed
  then have "unat (page_count_of (word_of_nat n)) = pages_for n"
    by (simp add: page_count_of_def unat_div pages_for_def kRecordsPerPage_def)
  then show ?thesis by (rule word_of_unat_eq)
qed

lemma align_page_nat:
  assumes "v \<le> INT64_MAX - 4095" shows "align_page (word_of_nat v) = Inr (word_of_nat (round_up 4096 v))"
proof -
  have v: "unat (word_of_nat v :: u64) = v" by (rule unat_small_u64) (use assms in simp)
  have "unat (- 1 - (word_of_nat kPageSize - 1) :: u64) = 2 ^ 64 - 1 - 4095"
    unfolding unat_minus_one_minus by (simp add: kPageSize_def)
  then have ok: "\<not> word_of_nat v > (- 1 - (word_of_nat kPageSize - 1) :: u64)"
    using v assms by (simp add: word_less_nat_alt INT64_MAX_def)
  have eq: "(word_of_nat v + word_of_nat kPageSize - 1 :: u64) = word_of_nat (v + 4095)"
    by (simp add: kPageSize_def)
  have "unat (word_of_nat v + word_of_nat kPageSize - 1 :: u64) = v + 4095"
    unfolding eq by (rule unat_small_u64) (use assms in \<open>simp add: INT64_MAX_def\<close>)
  moreover have p: "unat (word_of_nat kPageSize :: u64) = 2 ^ 12" by (simp add: kPageSize_def)
  ultimately have "unat ((word_of_nat v + word_of_nat kPageSize - 1) AND NOT (word_of_nat kPageSize - 1) :: u64)
      = round_up 4096 v"
    unfolding unat_and_not_pred [OF p] by (simp add: kPageSize_def round_up_def)
  from word_of_unat_eq [OF this]
  have "(word_of_nat v + word_of_nat kPageSize - 1) AND NOT (word_of_nat kPageSize - 1)
      = (word_of_nat (round_up 4096 v) :: u64)" .
  then show ?thesis using ok by (simp add: align_page_def)
qed

definition layout_of :: "nat \<Rightarrow> layout" where
  "layout_of n = \<lparr>lay_records = word_of_nat n, lay_pages = word_of_nat (pages_for n),
     lay_fences = word_of_nat (16 * pages_for n), lay_data = word_of_nat (data_start n),
     lay_file = word_of_nat (data_start n + 4096 * pages_for n)\<rparr>"

lemma plan_layout_eq:
  assumes "n \<le> INT32_MAX" shows "plan_layout n = Inr (layout_of n)"
proof -
  have "4096 + 16 * pages_for n \<le> INT64_MAX - 4095"
    using pages_for_bounds(1) [OF assms] by (simp add: INT64_MAX_def)
  from align_page_nat [OF this]
  have "align_page (word_of_nat kPageSize + word_of_nat (pages_for n) * 16) = Inr (word_of_nat (data_start n))"
    by (simp add: kPageSize_def data_start_def mult.commute)
  then show ?thesis
    by (simp add: plan_layout_def page_count_of_nat [OF assms] layout_of_def kPageSize_def mult.commute Let_def)
qed

lemma file_size_bound: "n \<le> INT32_MAX \<Longrightarrow> data_start n + 4096 * pages_for n \<le> INT64_MAX"
  using pages_for_bounds(1) [of n] data_start_bounds(2) [of n] by (simp add: INT64_MAX_def)

subsection \<open>The payload\<close>

definition fence_image :: "raw_record list \<Rightarrow> nat \<Rightarrow> u8 list" where
  "fence_image records i = write_le64 (rr_key (hd (page_chunk records i)))
     @ write_le64 (word_of_nat (data_start (length records) + 4096 * i))"

definition page_off :: "nat \<Rightarrow> nat \<Rightarrow> nat" where
  "page_off n i = data_start n - 4096 + 4096 * i"

lemma length_page_chunk: "length (page_chunk records i) \<le> 255"
  by (simp add: page_chunk_def kRecordsPerPage_def)

lemma place_page_eq:
  assumes "length records \<le> INT32_MAX" and "i < pages_for (length records)"
  shows "place_page (layout_of (length records)) records i payload
    = put (page_off (length records) i) (page_image (page_chunk records i))
        (put (i * 16) (fence_image records i) payload)"
proof -
  let ?n = "length records"
  have "(word_of_nat (data_start ?n) + word_of_nat i * word_of_nat kPageSize - word_of_nat kPageSize :: u64)
      = word_of_nat (page_off ?n i)"
    using data_start_bounds(1) [of ?n] by (simp add: page_off_def kPageSize_def of_nat_diff mult.commute)
  moreover have "page_off ?n i \<le> INT64_MAX"
    using file_size_bound [OF assms(1)] assms(2) by (simp add: page_off_def)
  ultimately show ?thesis
    by (simp add: place_page_def layout_of_def fence_image_def unat_small_u64 kPageSize_def mult.commute Let_def)
qed

lemma length_fence_image [simp]: "length (fence_image records i) = 16"
  by (simp add: fence_image_def)

text \<open>After \<open>k\<close> iterations the first \<open>k\<close> fences and pages are in place, the other pages are zero.\<close>

definition placed :: "raw_record list \<Rightarrow> nat \<Rightarrow> u8 list \<Rightarrow> bool" where
  "placed records k buf \<longleftrightarrow>
     (let n = length records; P = pages_for n in
      length buf = data_start n + 4096 * P - 4096
      \<and> (\<forall>i < k. slice (i * 16) 16 buf = fence_image records i
             \<and> slice (page_off n i) 4096 buf = zero_page (page_image (page_chunk records i)))
      \<and> (\<forall>i. k \<le> i \<and> i < P \<longrightarrow> slice (page_off n i) 4096 buf = replicate 4096 0))"

lemma slice_put_prefix:
  assumes "off + n \<le> length buf" and "length src \<le> n"
  shows "slice off n (put off src buf) = src @ drop (length src) (slice off n buf)"
  by (rule nth_equalityI) (use assms in \<open>auto simp: slice_nth nth_put nth_append\<close>)

lemma place_page_placed:
  assumes "placed records k buf" and "length records \<le> INT32_MAX" and "k < pages_for (length records)"
  shows "placed records (Suc k) (place_page (layout_of (length records)) records k buf)"
proof -
  define n P where "n = length records" and "P = pages_for n"
  define img where "img = page_image (page_chunk records k)"
  define buf1 where "buf1 = put (k * 16) (fence_image records k) buf"
  define buf2 where "buf2 = put (page_off n k) img buf1"
  have D: "4096 + 16 * P \<le> data_start n" using data_start_bounds(1) by (simp add: P_def)
  have k: "k < P" using assms(3) by (simp add: P_def n_def)
  have len: "length buf = data_start n + 4096 * P - 4096" using assms(1) by (simp add: placed_def n_def P_def Let_def)
  have img: "length img \<le> 4096" using length_page_chunk [of records k] by (simp add: img_def)
  have fits: "k * 16 + 16 \<le> length buf" "page_off n i + 4096 \<le> length buf" "i * 16 + 16 \<le> page_off n i'"
    if "i < P" for i i' using that k D len by (auto simp: page_off_def)
  have fence_fits: "i * 16 + 16 \<le> length buf" if "i < P" for i using that D len by auto
  have len1: "length buf1 = length buf" using fits(1) k by (simp add: buf1_def)
  have at1: "page_off n k + length img \<le> length buf1" using fits(2) [OF k] img len1 by simp
  have len2: "length buf2 = length buf" using at1 len1 by (simp add: buf2_def)
  have page1: "slice (page_off n i) 4096 buf1 = slice (page_off n i) 4096 buf" if "i < P" for i
    unfolding buf1_def using that fits k by (intro slice_put_other) auto
  have page_other: "slice (page_off n i) 4096 buf2 = slice (page_off n i) 4096 buf" if "i < P" "i \<noteq> k" for i
  proof -
    have "page_off n i + 4096 \<le> page_off n k \<or> page_off n k + length img \<le> page_off n i"
      using that img by (auto simp: page_off_def)
    then have "slice (page_off n i) 4096 buf2 = slice (page_off n i) 4096 buf1"
      unfolding buf2_def using at1 fits(2) [OF that(1)] len1 by (intro slice_put_other) auto
    then show ?thesis using page1 that by simp
  qed
  have "slice (page_off n k) 4096 buf = replicate 4096 0"
    using assms(1) k by (auto simp: placed_def n_def P_def Let_def)
  then have page_k: "slice (page_off n k) 4096 buf2 = zero_page img"
    unfolding buf2_def using slice_put_prefix [of "page_off n k" 4096 buf1 img] fits(2) [OF k] img len1 page1 [OF k]
    by (simp add: zero_page_def kPageSize_def)
  have fence2: "slice (i * 16) 16 buf2 = slice (i * 16) 16 buf1" if "i < P" for i
    unfolding buf2_def using at1 fits(3) [OF that, of k] fence_fits [OF that] len1
    by (intro slice_put_other) auto
  have fence_k: "slice (k * 16) 16 buf1 = fence_image records k"
    unfolding buf1_def using fits(1) k by (intro slice_put_same) auto
  have fence_other: "slice (i * 16) 16 buf1 = slice (i * 16) 16 buf" if "i < k" for i
    unfolding buf1_def using fence_fits [of i] fence_fits [OF k] k that by (intro slice_put_other) auto
  have whole: "place_page (layout_of (length records)) records k buf = buf2"
    by (simp add: place_page_eq [OF assms(2,3)] buf2_def buf1_def img_def n_def)
  show ?thesis
    unfolding placed_def Let_def whole
    using assms(1) len2 len page_other page_k fence2 fence_k fence_other k
    by (auto simp: placed_def n_def P_def Let_def less_Suc_eq img_def)
qed

lemma payload_placed:
  assumes "length records \<le> INT32_MAX"
  shows "placed records (pages_for (length records)) (payload_image (layout_of (length records)) records)"
proof -
  define n where "n = length records"
  have bound: "data_start n + 4096 * pages_for n \<le> INT64_MAX" using file_size_bound assms by (simp add: n_def)
  have "(word_of_nat (data_start n + 4096 * pages_for n) - word_of_nat kPageSize :: u64)
      = word_of_nat (data_start n + 4096 * pages_for n - 4096)"
    using data_start_bounds(1) [of n] by (simp add: kPageSize_def of_nat_diff)
  then have len: "unat (lay_file (layout_of n) - word_of_nat kPageSize) = data_start n + 4096 * pages_for n - 4096"
    using bound by (simp add: layout_of_def unat_small_u64)
  have pc: "unat (lay_pages (layout_of n)) = pages_for n"
    using bound by (simp add: layout_of_def unat_small_u64)
  have "placed records k (fold (place_page (layout_of n) records) [0 ..< k]
      (replicate (data_start n + 4096 * pages_for n - 4096) 0))" if "k \<le> pages_for n" for k
    using that
  proof (induction k)
    case 0
    have "page_off n i + 4096 \<le> data_start n + 4096 * pages_for n - 4096" if "i < pages_for n" for i
      using that data_start_bounds(1) [of n] by (simp add: page_off_def)
    then show ?case by (auto simp: placed_def n_def [symmetric] Let_def slice_replicate)
  next
    case (Suc k)
    then show ?case using place_page_placed [OF Suc.IH] assms by (simp add: n_def)
  qed
  then show ?thesis by (simp add: payload_image_def len pc flip: n_def)
qed

subsection \<open>The header\<close>

lemma length_kMagic [simp]: "length kMagic = 8"
  by (simp add: kMagic_def)

lemma at32_slice: "off + 4 \<le> length buf \<Longrightarrow> at32 buf off = read_le32 (slice off 4 buf)"
  by (simp add: at32_def read_le32_def slice_def)

lemma at64_slice: "off + 8 \<le> length buf \<Longrightarrow> at64 buf off = read_le64 (slice off 8 buf)"
  by (simp add: at64_def read_le64_def slice_def)

lemma header_field:
  assumes "length sd = 32" and "length pd = 32" and "k < 13" and "header_writes lay sd pd ! k = (at, src)"
    and "\<forall>w \<in> set (drop (Suc k) (header_writes lay sd pd)). at + length src \<le> fst w"
  shows "slice at (length src) (header_image lay sd pd) = src"
  unfolding header_image_def using assms
  by (intro slice_writes [of _ _ k]) (auto simp: header_writes_def kPageSize_def)

lemma header_fields:
  fixes lay :: layout
  assumes "length sd = 32" and "length pd = 32"
  defines "h \<equiv> header_image lay sd pd"
  shows "length h = 4096" and "slice 0 8 h = kMagic" and "at32 h 8 = kFormatVersion"
    and "at32 h 12 = kEndianMarker" and "at32 h 16 = word_of_nat kPageSize"
    and "at32 h 20 = word_of_nat kRecordSize" and "at32 h 24 = word_of_nat kRecordsPerPage"
    and "at64 h 32 = lay_records lay" and "at64 h 40 = lay_pages lay" and "at64 h 48 = word_of_nat kPageSize"
    and "at64 h 56 = lay_fences lay" and "at64 h 64 = lay_data lay"
    and "slice 72 32 h = sd" and "slice 104 32 h = pd"
proof -
  show len: "length h = 4096"
    unfolding h_def header_image_def
    by (subst length_writes) (auto simp: header_writes_def assms kPageSize_def)
  note field = header_field [OF assms(1,2), of _ lay, folded h_def]
  show "slice 0 8 h = kMagic" using field [of 0 0 kMagic] by (simp add: header_writes_def)
  show "slice 72 32 h = sd" "slice 104 32 h = pd"
    using field [of 11 72 sd] field [of 12 104 pd] assms(1,2) by (simp_all add: header_writes_def)
  note f32 = field [where src = "write_le32 v" for v, simplified]
  note f64 = field [where src = "write_le64 v" for v, simplified]
  show "at32 h 8 = kFormatVersion" "at32 h 12 = kEndianMarker" "at32 h 16 = word_of_nat kPageSize"
    "at32 h 20 = word_of_nat kRecordSize" "at32 h 24 = word_of_nat kRecordsPerPage"
    using f32 [of 1 8] f32 [of 2 12] f32 [of 3 16] f32 [of 4 20] f32 [of 5 24]
    by (simp_all add: at32_slice len header_writes_def)
  show "at64 h 32 = lay_records lay" "at64 h 40 = lay_pages lay" "at64 h 48 = word_of_nat kPageSize"
    "at64 h 56 = lay_fences lay" "at64 h 64 = lay_data lay"
    using f64 [of 6 32] f64 [of 7 40] f64 [of 8 48] f64 [of 9 56] f64 [of 10 64]
    by (simp_all add: at64_slice len header_writes_def)
qed

subsection \<open>The chunks\<close>

lemma concat_chunks: "concat (map (page_chunk records) [0 ..< k]) = take (k * 255) records"
proof (induction k)
  case (Suc k)
  have "take (k * 255) records @ take 255 (drop (k * 255) records) = take (k * 255 + 255) records"
    by (simp add: take_add)
  then show ?case using Suc by (simp add: page_chunk_def kRecordsPerPage_def add.commute)
qed simp

lemma all_chunks: "concat (map (page_chunk records) [0 ..< pages_for (length records)]) = records"
proof -
  have "length records \<le> (length records + 254) div 255 * 255"
    using div_mult_mod_eq [of "length records + 254" 255] mod_less_divisor [of 255 "length records + 254"] by linarith
  then show ?thesis by (simp add: concat_chunks pages_for_def)
qed

lemma chunk_nonempty: "i < pages_for (length records) \<Longrightarrow> page_chunk records i \<noteq> []"
proof -
  assume "i < pages_for (length records)"
  then have "Suc i * 255 \<le> length records + 254"
    by (simp add: pages_for_def less_eq_div_iff_mult_less_eq flip: Suc_le_eq)
  then have "i * 255 < length records" by simp
  then show ?thesis by (simp add: page_chunk_def kRecordsPerPage_def)
qed

lemma chunk_nth: "j < length (page_chunk records i) \<Longrightarrow>
    page_chunk records i ! j = records ! (i * 255 + j) \<and> i * 255 + j < length records"
  by (auto simp: page_chunk_def kRecordsPerPage_def)

lemma chunk_subset: "set (page_chunk records i) \<subseteq> set records"
  unfolding page_chunk_def by (meson order_trans set_drop_subset set_take_subset)

end
