(* ===== verification/MergeValid.thy ===== *)
theory MergeValid
  imports MergePayload
begin

text \<open>
  The written cache passes every check of \<open>open_validated\<close>, and the entries of the opened index
  are the records it was written from.
\<close>

subsection \<open>The hash of the payload\<close>

lemma hash_payload_honest:
  assumes "honest sy" and "length data \<le> INT64_MAX"
  shows "sha_inv h m \<Longrightarrow> unat off \<le> length data \<Longrightarrow>
    \<exists>h' t. hash_payload sy (data, word_of_nat (length data)) off h w = (Inr h', w\<lparr>calls := t\<rparr>)
      \<and> sha_inv h' (m @ drop (unat off) data)"
proof (induction "length data - unat off" arbitrary: off h m w rule: less_induct)
  case less
  define size where "size = (word_of_nat (length data) :: u64)"
  have size: "unat size = length data" using unat_small_u64 [OF assms(2)] by (simp add: size_def)
  show ?case
  proof (cases "off < size")
    case False
    then have "unat off = length data" using less.prems(2) size by (simp add: word_less_nat_alt)
    moreover have "hash_payload sy (data, size) off h w = (Inr h, w\<lparr>calls := calls w\<rparr>)"
      using False by (subst hash_payload.simps) simp
    ultimately show ?thesis using less.prems(1) by (auto simp: size_def intro!: exI [of _ "calls w"])
  next
    case True
    define amount where "amount = min 65536 (size - off)"
    have un: "unat amount \<le> length data - unat off"
      using unat_sub [of off size] less_imp_le [OF True] size by (simp add: amount_def min_def word_le_nat_alt)
    have dec: "unat size - unat (off + amount) < unat size - unat off"
      unfolding amount_def by (rule hash_payload_decreases [OF True])
    have lt: "unat off < length data" using True size by (simp add: word_less_nat_alt)
    have sum: "unat (off + amount) = unat off + unat amount"
      using un lt assms(2) by (intro unat_add_no_overflow) (simp add: INT64_MAX_def)
    have inside: "unat off + unat amount \<le> length data" using un lt by simp
    obtain t where rd: "readM sy (data, size) off (unat amount) w = (Inr (slice (unat off) (unat amount) data), w\<lparr>calls := t\<rparr>)"
      using readM_honest [OF assms inside, of w] by (auto simp: size_def)
    obtain h1 where h1: "update (InputBytes (slice (unat off) (unat amount) data)) h = (Inr (), h1)"
      "sha_inv h1 (m @ slice (unat off) (unat amount) data)"
      using update_inv [OF less.prems(1)] by blast
    have step: "hash_payload sy (data, size) off h w = hash_payload sy (data, size) (off + amount) h1 (w\<lparr>calls := t\<rparr>)"
      using True rd h1(1) by (subst hash_payload.simps) (simp add: Let_def flip: amount_def)
    have "slice (unat off) (unat amount) data @ drop (unat off + unat amount) data = drop (unat off) data"
      by (simp add: slice_def) (metis add.commute append_take_drop_id drop_drop)
    moreover have "length data - unat (off + amount) < length data - unat off" using dec size by simp
    ultimately show ?thesis
      using less.hyps [OF _ h1(2), of "off + amount" "w\<lparr>calls := t\<rparr>"] sum inside step by (auto simp: size_def)
  qed
qed

subsection \<open>The header\<close>

lemma check_header_image:
  assumes "length sd = 32" and "length pd = 32" and "0 < n" and "n \<le> INT32_MAX"
  shows "check_header (header_image (layout_of n) sd pd) (word_of_nat (data_start n + 4096 * pages_for n)) sd
    = Inr (word_of_nat n, word_of_nat (pages_for n), word_of_nat (data_start n))"
proof -
  define P D where "P = pages_for n" and "D = data_start n"
  note h = header_fields [OF assms(1,2), of "layout_of n"]
  have big: "D + 4096 * P \<le> INT64_MAX" using file_size_bound [OF assms(4)] by (simp add: P_def D_def)
  have P: "0 < P" "P \<le> 2 ^ 24" using pages_for_bounds assms(3,4) by (auto simp: P_def)
  have D: "4096 + 16 * P \<le> D" using data_start_bounds(1) by (simp add: P_def D_def)
  have u: "unat (word_of_nat n :: u64) = n" "unat (word_of_nat P :: u64) = P" "unat (word_of_nat D :: u64) = D"
    "unat (word_of_nat (D + 4096 * P) :: u64) = D + 4096 * P"
    using big assms(4) by (auto intro!: unat_small_u64 simp: INT32_MAX_def INT64_MAX_def simp del: of_nat_add of_nat_mult)
  have w: "(word_of_nat (D + 4096 * P) :: u64) - word_of_nat D = word_of_nat (4096 * P)" by simp
  have u4: "unat (word_of_nat (4096 * P) :: u64) = 4096 * P" using big by (intro unat_small_u64) simp
  have nz: "(word_of_nat n :: u64) \<noteq> 0" "(word_of_nat P :: u64) \<noteq> 0" using u(1,2) assms(3) P(1) by auto
  have lim: "\<not> word_of_nat P > (word_of_nat (D + 4096 * P) :: u64) div word_of_nat kPageSize"
    "\<not> word_of_nat P > (- 1 div 16 :: u64)"
    "\<not> word_of_nat n > (- 1 - (word_of_nat kRecordsPerPage - 1) :: u64)"
    "\<not> word_of_nat D > (word_of_nat (D + 4096 * P) :: u64)"
    "\<not> word_of_nat P > (word_of_nat (D + 4096 * P) - word_of_nat D :: u64) div word_of_nat kPageSize"
    unfolding w
    using assms(4) P by (auto simp: word_less_nat_alt u u4 unat_div kPageSize_def kRecordsPerPage_def
        unat_minus_one_minus INT32_MAX_def unsigned_minus_1_eq_mask mask_eq_exp_minus_1 simp del: of_nat_add of_nat_mult)
  have "4096 + 16 * P \<le> INT64_MAX - 4095" using P by (simp add: INT64_MAX_def)
  from align_page_nat [OF this] have al: "align_page (word_of_nat kPageSize + word_of_nat P * 16) = Inr (word_of_nat D)"
    by (simp add: kPageSize_def D_def data_start_def P_def mult.commute)
  have lay: "lay_records (layout_of n) = word_of_nat n" "lay_pages (layout_of n) = word_of_nat P"
    "lay_fences (layout_of n) = word_of_nat P * 16" "lay_data (layout_of n) = word_of_nat D"
    by (simp_all add: layout_of_def P_def D_def mult.commute)
  have magic: "take (length kMagic) (header_image (layout_of n) sd pd) = kMagic"
    using h(2) by (simp add: slice_def)
  have total: "(word_of_nat D :: u64) + word_of_nat P * word_of_nat kPageSize = word_of_nat (D + 4096 * P)"
    by (simp add: kPageSize_def mult.commute)
  show ?thesis
    unfolding check_header_def magic h(3-13) lay assms(1) Let_def P_def [symmetric] D_def [symmetric] total
    using nz lim al page_count_of_nat [OF assms(4)] by (simp add: P_def del: of_nat_add of_nat_mult)
qed

subsection \<open>The pages\<close>

lemma check_records_ok:
  assumes "\<forall>k < n. \<forall>j < k. page_key pg j < page_key pg k"
    and "\<forall>j < n. 0 \<le> rule_merged (page_rule pg j) \<and> rule_merged (page_rule pg j) < v"
    and "0 < n \<longrightarrow> page_key pg 0 = fkey \<and> (case prev of None \<Rightarrow> True | Some p \<Rightarrow> p < fkey)"
  shows "foldE (check_record pg fkey v) [0 ..< n] prev = Inr (if n = 0 then prev else Some (page_key pg (n - 1)))"
  using assms
proof (induction n)
  case (Suc n)
  have ih: "foldE (check_record pg fkey v) [0 ..< n] prev = Inr (if n = 0 then prev else Some (page_key pg (n - 1)))"
    using Suc.prems by (intro Suc.IH) auto
  have "check_record pg fkey v n (if n = 0 then prev else Some (page_key pg (n - 1))) = Inr (Some (page_key pg n))"
    using Suc.prems by (auto simp: check_record_Inr split: option.splits)
  then show ?case using ih by (simp add: foldE_append)
qed simp

text \<open>The state of the scan after \<open>i\<close> pages.\<close>

definition fence_of :: "raw_record list \<Rightarrow> nat \<Rightarrow> fence" where
  "fence_of records i = \<lparr>first_key = rr_key (hd (page_chunk records i)),
     fence_offset = word_of_nat (data_start (length records) + 4096 * i)\<rparr>"

definition scan_state :: "raw_record list \<Rightarrow> nat \<Rightarrow> page_scan" where
  "scan_state records i = \<lparr>ps_seen = word_of_nat (min (i * 255) (length records)),
     ps_prev = (if i = 0 then None else Some (rr_key (last (page_chunk records (i - 1))))),
     ps_fences = map (fence_of records) [0 ..< i]\<rparr>"

lemma chunk_length: "length (page_chunk records i) = min 255 (length records - i * 255)"
  by (simp add: page_chunk_def kRecordsPerPage_def)

lemma chunk_key_less:
  assumes "sorted_wrt (<) (map rr_key records)" and "i < i' \<or> (i = i' \<and> j < j')"
    and "j < length (page_chunk records i)" and "j' < length (page_chunk records i')"
  shows "rr_key (page_chunk records i ! j) < rr_key (page_chunk records i' ! j')"
proof -
  note c = chunk_nth [OF assms(3)] chunk_nth [OF assms(4)]
  have "j < 255" using assms(3) by (simp add: chunk_length)
  then have "i * 255 + j < i' * 255 + j'" using assms(2) by auto
  then show ?thesis using c assms(1) by (simp add: sorted_wrt_iff_nth_less)
qed

lemma check_page_image:
  assumes "sorted_wrt (<) (map rr_key records)" and "length records \<le> INT32_MAX"
    and "\<forall>r \<in> set records. record_fits r \<and> rr_merged r < v" and "i < pages_for (length records)"
  shows "check_page (zero_page (page_image (page_chunk records i))) (fence_of records i)
      (word_of_nat (length records)) v (scan_state records i) = Inr (scan_state records (Suc i))"
proof -
  define n c where "n = length records" and "c = page_chunk records i"
  define zs where "zs = replicate (kPageSize - length (page_image c)) (0 :: u8)"
  define pg where "pg = page_image c @ zs"
  have pg: "zero_page (page_image c) = pg" by (simp add: zero_page_def pg_def zs_def)
  have c: "c \<noteq> []" "length c \<le> 255" "length c = min 255 (n - i * 255)"
    using chunk_nonempty [OF assms(4)] chunk_length [of records i] by (auto simp: c_def n_def)
  have i: "i * 255 < n" using c by (cases "i * 255 < n") auto
  note head = page_image_head [OF c(2), of zs, folded pg_def]
  have fits: "record_fits (c ! j) \<and> rr_merged (c ! j) < v" if "j < length c" for j
    using assms(3) chunk_subset [of records i] nth_mem [OF that] by (auto simp: c_def)
  have rec: "page_key pg j = rr_key (c ! j)" "page_rule pg j = snd (entry_of (c ! j))" if "j < length c" for j
    using page_image_record [OF that] fits [OF that] by (simp_all add: pg_def)
  have keys: "\<forall>k < length c. \<forall>j < k. page_key pg j < page_key pg k"
    using chunk_key_less [OF assms(1), of i i] rec by (auto simp: c_def)
  have toks: "\<forall>j < length c. 0 \<le> rule_merged (page_rule pg j) \<and> rule_merged (page_rule pg j) < v"
    using fits rec by (auto simp: entry_of_def record_fits_def)
  have first: "page_key pg 0 = rr_key (hd c)" using rec(1) [of 0] c(1) by (simp add: hd_conv_nth)
  have prev: "case ps_prev (scan_state records i) of None \<Rightarrow> True | Some p \<Rightarrow> p < rr_key (hd c)"
  proof (cases "i = 0")
    case False
    define b where "b = page_chunk records (i - 1)"
    have "b \<noteq> []" using chunk_nonempty [of "i - 1" records] assms(4) by (simp add: b_def)
    then have "rr_key (last b) < rr_key (hd c)"
      using chunk_key_less [OF assms(1), of "i - 1" i "length b - 1" 0] c(1) False
      by (simp add: b_def c_def last_conv_nth hd_conv_nth)
    then show ?thesis using False by (simp add: scan_state_def b_def)
  qed (simp add: scan_state_def)
  have count: "at32 pg 0 = word_of_nat (length c)" "unat (at32 pg 0) = length c"
    using head(1) by (auto simp: page_count_at_def intro: word_of_unat_eq)
  have ct: "\<not> at32 pg 0 > word_of_nat kRecordsPerPage" "at32 pg 0 \<noteq> 0"
    "unat (at32 pg 0 * word_of_nat kRecordSize) = 16 * length c"
    "(ucast (at32 pg 0) :: u64) = word_of_nat (length c)"
  proof -
    show "\<not> at32 pg 0 > word_of_nat kRecordsPerPage"
      using c(2) unfolding word_less_nat_alt count(2) by (simp add: kRecordsPerPage_def)
    show "at32 pg 0 \<noteq> 0" using count(2) c(1) by auto
    have "unat (at32 pg 0 * word_of_nat kRecordSize) = unat (at32 pg 0) * 16"
      using c(2) count(2) by (simp add: unat_word_ariths kRecordSize_def)
    then show "unat (at32 pg 0 * word_of_nat kRecordSize) = 16 * length c" using count(2) by simp
    show "(ucast (at32 pg 0) :: u64) = word_of_nat (length c)"
      by (rule word_of_unat_eq) (use count(2) c(2) in \<open>simp add: unsigned_ucast_eq take_bit_nat_eq_self\<close>)
  qed
  have seen: "ps_seen (scan_state records i) + word_of_nat (length c) = (word_of_nat (min (Suc i * 255) n) :: u64)"
  proof -
    have "min (i * 255) n + length c = min (Suc i * 255) n" using c(3) i by auto
    then show ?thesis by (simp add: scan_state_def n_def flip: of_nat_add)
  qed
  have small: "\<not> (word_of_nat (min (Suc i * 255) n) :: u64) > word_of_nat n"
    using assms(2) unfolding word_less_nat_alt
    by (subst (1 2) unat_small_u64) (auto simp: n_def INT32_MAX_def INT64_MAX_def)
  have run: "foldE (check_record pg (rr_key (hd c)) v) [0 ..< unat (at32 pg 0)] (ps_prev (scan_state records i))
      = Inr (Some (rr_key (last c)))"
    unfolding count(2) using check_records_ok [OF keys toks, of "rr_key (hd c)"] first prev c(1) rec(1)
    by (simp add: last_conv_nth)
  show ?thesis
    unfolding c_def [symmetric] pg
    using ct head(2-4) count seen small run
    by (simp add: check_page_def Let_def fence_of_def scan_state_def c_def n_def)
qed

lemma data_slices:
  assumes "placed records (pages_for (length records)) payload" and "length header = 4096"
    and "i < pages_for (length records)"
  shows "slice (4096 + i * 16) 16 (header @ payload) = fence_image records i"
    and "slice (data_start (length records) + 4096 * i) kPageSize (header @ payload)
      = zero_page (page_image (page_chunk records i))"
proof -
  have "slice (4096 + i * 16) 16 (header @ payload) = slice (i * 16) 16 payload"
    using assms(2) by (simp add: slice_append_right)
  then show "slice (4096 + i * 16) 16 (header @ payload) = fence_image records i"
    using assms(1,3) by (simp add: placed_def Let_def)
  have "slice (data_start (length records) + 4096 * i) 4096 (header @ payload)
      = slice (page_off (length records) i) 4096 payload"
    using assms(2) data_start_bounds(1) [of "length records"] by (simp add: slice_append_right page_off_def)
  then show "slice (data_start (length records) + 4096 * i) kPageSize (header @ payload)
      = zero_page (page_image (page_chunk records i))"
    using assms(1,3) by (simp add: placed_def Let_def kPageSize_def)
qed

lemma scan_page_image:
  assumes "honest sy" and "sorted_wrt (<) (map rr_key records)" and "length records \<le> INT32_MAX"
    and "\<forall>r \<in> set records. record_fits r \<and> rr_merged r < v" and "i < pages_for (length records)"
    and "placed records (pages_for (length records)) payload" and "length header = 4096"
  defines "data \<equiv> header @ payload"
  shows "\<exists>t. scan_page sy (data, word_of_nat (length data)) (word_of_nat (data_start (length records)))
      (word_of_nat (length records)) v i (scan_state records i) w
    = (Inr (scan_state records (Suc i)), w\<lparr>calls := t\<rparr>)"
proof -
  define n where "n = length records"
  have len: "length data = data_start n + 4096 * pages_for n"
    using assms(6,7) data_start_bounds(1) [of n] by (simp add: data_def placed_def Let_def n_def)
  have fit: "length data \<le> INT64_MAX" using len file_size_bound assms(3) by (simp add: n_def)
  note sl = data_slices [OF assms(6,7,5), folded data_def n_def]
  have off1: "unat (word_of_nat kPageSize + word_of_nat i * 16 :: u64) = 4096 + i * 16"
  proof -
    have "(word_of_nat kPageSize + word_of_nat i * 16 :: u64) = word_of_nat (4096 + i * 16)"
      by (simp add: kPageSize_def)
    moreover have "4096 + i * 16 \<le> INT64_MAX"
      using fit len assms(5) data_start_bounds(1) [of n] by (simp add: n_def)
    ultimately show ?thesis by (simp only: unat_small_u64)
  qed
  have off2: "unat (word_of_nat (data_start n + 4096 * i) :: u64) = data_start n + 4096 * i"
    using fit len assms(5) by (intro unat_small_u64) (simp add: n_def)
  have in1: "unat (word_of_nat kPageSize + word_of_nat i * 16 :: u64) + 16 \<le> length data"
    unfolding off1 len using assms(5) data_start_bounds(1) [of n] by (simp add: n_def)
  have in2: "unat (fence_offset (fence_of records i)) + kPageSize \<le> length data"
    using off2 len assms(5) by (simp add: fence_of_def kPageSize_def flip: n_def)
  obtain t1 where r1: "readM sy (data, word_of_nat (length data)) (word_of_nat kPageSize + word_of_nat i * 16) 16 w
      = (Inr (fence_image records i), w\<lparr>calls := t1\<rparr>)"
    using readM_honest [OF assms(1) fit in1, of w] off1 sl(1) by auto
  obtain t2 where r2: "readM sy (data, word_of_nat (length data)) (fence_offset (fence_of records i)) kPageSize (w\<lparr>calls := t1\<rparr>)
      = (Inr (zero_page (page_image (page_chunk records i))), w\<lparr>calls := t2\<rparr>)"
    using readM_honest [OF assms(1) fit in2, of "w\<lparr>calls := t1\<rparr>"] off2 sl(2)
    by (auto simp: fence_of_def simp flip: n_def)
  have fn: "\<lparr>first_key = read_le64 (fence_image records i), fence_offset = at64 (fence_image records i) 8\<rparr> = fence_of records i"
    by (simp add: fence_image_def fence_of_def at64_def)
  have order: "i = 0 \<or> \<not> first_key (fence_of records i) \<le> first_key (ps_fences (scan_state records i) ! (i - 1))"
  proof (cases "i = 0")
    case False
    have ne: "page_chunk records (i - 1) \<noteq> []" "page_chunk records i \<noteq> []"
      using chunk_nonempty assms(5) by auto
    then have "rr_key (page_chunk records (i - 1) ! 0) < rr_key (page_chunk records i ! 0)"
      using False by (intro chunk_key_less [OF assms(2)]) auto
    then show ?thesis using False ne by (simp add: scan_state_def fence_of_def hd_conv_nth)
  qed simp
  have place: "fence_offset (fence_of records i) = word_of_nat (data_start n) + word_of_nat i * word_of_nat kPageSize"
    by (simp add: fence_of_def kPageSize_def mult.commute flip: n_def)
  have "scan_fence sy (data, word_of_nat (length data)) (word_of_nat (data_start n)) (word_of_nat n) v i
      (scan_state records i) (fence_of records i) (w\<lparr>calls := t1\<rparr>) = (Inr (scan_state records (Suc i)), w\<lparr>calls := t2\<rparr>)"
    using r2 order place check_page_image [OF assms(2-5)]
    by (auto simp: scan_fence_def bindM_def liftM_def simp flip: n_def)
  then have "scan_page sy (data, word_of_nat (length data)) (word_of_nat (data_start n)) (word_of_nat n) v i
      (scan_state records i) w = (Inr (scan_state records (Suc i)), w\<lparr>calls := t2\<rparr>)"
    unfolding scan_page_def bindM_def r1 by (simp only: prod.case sum.case fn)
  then show ?thesis by (auto simp: n_def)
qed

lemma scan_all_pages:
  assumes "honest sy" and "sorted_wrt (<) (map rr_key records)" and "length records \<le> INT32_MAX"
    and "\<forall>r \<in> set records. record_fits r \<and> rr_merged r < v"
    and "placed records (pages_for (length records)) payload" and "length header = 4096"
  defines "data \<equiv> header @ payload"
  shows "k \<le> pages_for (length records) \<Longrightarrow>
    \<exists>t. foldM (scan_page sy (data, word_of_nat (length data)) (word_of_nat (data_start (length records)))
      (word_of_nat (length records)) v) [pages_for (length records) - k ..< pages_for (length records)]
      (scan_state records (pages_for (length records) - k)) w
    = (Inr (scan_state records (pages_for (length records))), w\<lparr>calls := t\<rparr>)"
proof (induction k arbitrary: w)
  case 0
  then show ?case by (auto intro!: exI [of _ "calls w"])
next
  case (Suc k)
  define P i where "P = pages_for (length records)" and "i = P - Suc k"
  have i: "i < P" "Suc i = P - k" "[i ..< P] = i # [Suc i ..< P]"
    using Suc.prems by (auto simp: i_def P_def upt_conv_Cons Suc_diff_Suc)
  obtain t where "scan_page sy (data, word_of_nat (length data)) (word_of_nat (data_start (length records)))
      (word_of_nat (length records)) v i (scan_state records i) w = (Inr (scan_state records (Suc i)), w\<lparr>calls := t\<rparr>)"
    using scan_page_image [OF assms(1-4) _ assms(5,6), of i w] i(1) by (auto simp: data_def P_def)
  then show ?case
    using Suc.IH [of "w\<lparr>calls := t\<rparr>"] Suc.prems i
    by (simp add: bindM_def flip: P_def i_def)
qed

subsection \<open>Opening what was written\<close>

definition image_index :: "raw_record list \<Rightarrow> u8 list \<Rightarrow> string \<Rightarrow> int \<Rightarrow> merge_index" where
  "image_index records data path v = \<lparr>mi_file = Some (data, word_of_nat (length data)),
     mi_fences = map (fence_of records) [0 ..< pages_for (length records)], mi_path = path,
     mi_record_count = word_of_nat (length records), mi_vocab_size = v, mi_cache_hit = False\<rparr>"

lemma image_index_entries:
  assumes "length records \<le> INT32_MAX" and "\<forall>r \<in> set records. record_fits r"
    and "placed records (pages_for (length records)) payload" and "length header = 4096"
  shows "index_entries (image_index records (header @ payload) path v) = map entry_of records"
proof -
  have page: "page_entries (index_page (image_index records (header @ payload) path v) i)
      = map entry_of (page_chunk records i)" if i: "i < pages_for (length records)" for i
  proof -
    have off: "unat (word_of_nat (data_start (length records) + 4096 * i) :: u64) = data_start (length records) + 4096 * i"
      using file_size_bound [OF assms(1)] i by (intro unat_small_u64) simp
    have "index_page (image_index records (header @ payload) path v) i = zero_page (page_image (page_chunk records i))"
      using data_slices(2) [OF assms(3,4) i] i off
      by (simp add: index_page_def image_index_def fence_of_def del: of_nat_add of_nat_mult)
    moreover have "\<forall>r \<in> set (page_chunk records i). record_fits r" using chunk_subset assms(2) by blast
    from page_image_entries [OF length_page_chunk this]
    have "page_entries (zero_page (page_image (page_chunk records i))) = map entry_of (page_chunk records i)"
      unfolding zero_page_def .
    ultimately show ?thesis by simp
  qed
  have "index_entries (image_index records (header @ payload) path v)
      = concat (map (\<lambda>i. map entry_of (page_chunk records i)) [0 ..< pages_for (length records)])"
    unfolding index_entries_def
  proof (intro arg_cong [of _ _ concat] map_cong)
    show "[0 ..< length (mi_fences (image_index records (header @ payload) path v))] = [0 ..< pages_for (length records)]"
      by (simp add: image_index_def)
  qed (use page in auto)
  also have "\<dots> = map entry_of (concat (map (page_chunk records) [0 ..< pages_for (length records)]))"
    by (simp add: map_concat comp_def)
  also have "\<dots> = map entry_of records" by (simp only: all_chunks)
  finally show ?thesis .
qed

lemma length_sha_digest [simp]: "length (sha_digest m) = 32"
proof -
  have "length (transform block st) = 8" for block st
    by (simp add: transform_def split: prod.splits)
  moreover have "length (fst (transform_blocks p st)) = 8" if "length st = 8" for p st
    using that by (induction p st rule: transform_blocks.induct) (subst transform_blocks.simps, simp add: calculation)
  ultimately have "length (compress (pad_message m)) = 8" by (simp add: compress_def initial_state_def)
  then have "length (digest_bytes (compress (pad_message m))) = 8 * 4"
    unfolding digest_bytes_def by (simp add: length_concat comp_def sum_list_triv)
  then show ?thesis by (simp add: sha_digest_def)
qed

definition always_opens :: "sys \<Rightarrow> bool" where
  "always_opens sy \<longleftrightarrow> (\<forall>t. sy_open_ok sy t \<and> sy_stat_ok sy t)"

lemma open_image:
  assumes "honest sy" and "always_opens sy" and "merge_records tokens merges = Inr records"
    and "cache_image tokens merges sd = Inr (header, payload)"
    and "length sd = 32" and "length tokens \<le> INT32_MAX" and "length merges \<le> INT32_MAX"
    and "files w path = Some (header @ payload)"
  shows "\<exists>t. open_validated sy path sd (int (length tokens)) w
    = (Inr (image_index records (header @ payload) path (int (length tokens))), w\<lparr>calls := t\<rparr>)"
proof -
  define n v data where "n = length records" and "v = int (length tokens)" and "data = header @ payload"
  note facts = merge_records_facts [OF assms(3,6,7)]
  have n: "0 < n" "n \<le> INT32_MAX" using facts(1,2) by (auto simp: n_def)
  have img: "payload = payload_image (layout_of n) records"
    "header = header_image (layout_of n) sd (sha_digest payload)"
    using assms(3,4) plan_layout_eq [OF n(2)]
    by (auto simp: cache_image_def Let_def sha256_bytes n_def split: if_splits)
  have placed: "placed records (pages_for n) payload"
    using payload_placed [of records] n(2) by (simp add: img(1) n_def)
  note hf = header_fields [OF assms(5) length_sha_digest, of "layout_of n" payload, folded img(2)]
  have len: "length data = data_start n + 4096 * pages_for n"
    using placed hf(1) data_start_bounds(1) [of n] by (simp add: data_def placed_def Let_def n_def)
  have fit: "length data \<le> INT64_MAX" using len file_size_bound [OF n(2)] by simp
  have size: "unat (word_of_nat (length data) :: u64) = length data" by (rule unat_small_u64 [OF fit])
  have big: "\<not> (word_of_nat (length data) :: u64) < word_of_nat kPageSize"
    using len data_start_bounds(1) [of n] unfolding word_less_nat_alt size by (simp add: kPageSize_def)
  have opened: "open_file sy path w = (Inr (data, word_of_nat (length data)), w\<lparr>calls := Suc (Suc (calls w))\<rparr>)"
    using assms(2,8) by (simp add: open_file_def callM_def bindM_def always_opens_def data_def)
  have "unat (0 :: u64) + kPageSize \<le> length data" using len data_start_bounds(1) [of n] by (simp add: kPageSize_def)
  then obtain t1 where rh: "readM sy (data, word_of_nat (length data)) 0 kPageSize (w\<lparr>calls := Suc (Suc (calls w))\<rparr>)
      = (Inr header, w\<lparr>calls := t1\<rparr>)"
    using readM_honest [OF assms(1) fit, of 0 kPageSize "w\<lparr>calls := Suc (Suc (calls w))\<rparr>"] hf(1)
    by (auto simp: data_def slice_def kPageSize_def)
  have ch: "check_header header (word_of_nat (length data)) sd
      = Inr (word_of_nat n, word_of_nat (pages_for n), word_of_nat (data_start n))"
    using check_header_image [OF assms(5) length_sha_digest n, of payload] by (simp only: len img(2) [symmetric])
  have "unat (word_of_nat kPageSize :: u64) \<le> length data" using len data_start_bounds(1) [of n] by (simp add: kPageSize_def)
  then obtain h t2 where hash: "hash_payload sy (data, word_of_nat (length data)) (word_of_nat kPageSize) new_sha256 (w\<lparr>calls := t1\<rparr>)
      = (Inr h, w\<lparr>calls := t2\<rparr>)" "sha_inv h payload"
    using hash_payload_honest [OF assms(1) fit sha_inv_new, of "word_of_nat kPageSize" "w\<lparr>calls := t1\<rparr>"] hf(1)
    by (auto simp: data_def kPageSize_def)
  then have fin: "fst (finish h) = Inr (sha_digest payload)" using finish_inv by fastforce
  have digest: "slice 104 (length (sha_digest payload)) header = sha_digest payload" using hf(14) by simp
  have "\<forall>r \<in> set records. record_fits r \<and> rr_merged r < v" using facts(4) by (simp add: v_def)
  from scan_all_pages [OF assms(1) facts(3,2) this placed [unfolded n_def] hf(1) order_refl, of "w\<lparr>calls := t2\<rparr>"]
  obtain t3 where scan: "foldM (scan_page sy (data, word_of_nat (length data)) (word_of_nat (data_start n)) (word_of_nat n) v)
      [0 ..< pages_for n] (scan_state records 0) (w\<lparr>calls := t2\<rparr>) = (Inr (scan_state records (pages_for n)), w\<lparr>calls := t3\<rparr>)"
    by (auto simp: data_def n_def)
  have "length records \<le> pages_for n * 255"
    using arg_cong [OF all_chunks [of records], of length] concat_chunks [of records "pages_for n"]
    by (simp add: n_def)
  then have seen: "ps_seen (scan_state records (pages_for n)) = word_of_nat n" by (simp add: scan_state_def n_def min_def)
  have pc: "unat (word_of_nat (pages_for n) :: u64) = pages_for n" using fit len by (intro unat_small_u64) simp
  have init: "scan_state records 0 = \<lparr>ps_seen = 0, ps_prev = None, ps_fences = []\<rparr>" by (simp add: scan_state_def)
  have fences: "ps_fences (scan_state records (pages_for n)) = map (fence_of records) [0 ..< pages_for n]"
    by (simp add: scan_state_def)
  show ?thesis
    unfolding data_def [symmetric] v_def [symmetric] image_index_def n_def [symmetric]
    using opened big rh ch hash(1) fin digest scan seen pc fences
    by (auto simp: open_validated_def bindM_def liftM_def init)
qed

end
