(* ===== verification/MergeFaults.thy ===== *)
theory MergeFaults
  imports MergeOpen
begin

text \<open>
  What a loaded index still guarantees when its file does not behave: reads may fail, stop short or
  deliver other bytes than the ones that were validated. A lookup then stays inside the fences, the
  slots and the page it searches, and ends with an answer inside the vocabulary or with one of three
  errors; a page that was rejected is not left in the cache.
\<close>

subsection \<open>How much a read delivers\<close>

lemma read_loop_length:
  assumes "read_loop sy data off n acc t = ((err, bs), t')"
  shows "length bs \<le> length acc + n \<and> (err = None \<longrightarrow> length bs = length acc + n)
    \<and> (err \<noteq> None \<longrightarrow> err = Some ReadFailed)"
  using assms
proof (induction sy data off n acc t rule: read_loop.induct)
  case (1 sy data off n acc t)
  show ?case
  proof (cases "n = 0")
    case True
    then show ?thesis using 1(2) by (subst (asm) read_loop.simps) auto
  next
    case False
    show ?thesis
    proof (cases "sy_read sy t data off (min n INT64_MAX)")
      case None
      then show ?thesis using 1(2) False by (subst (asm) read_loop.simps) auto
    next
      case (Some bs0)
      define got where "got = take (min n INT64_MAX) bs0"
      show ?thesis
      proof (cases "got = []")
        case True
        then show ?thesis using 1(2) False Some
          by (subst (asm) read_loop.simps) (auto simp: Let_def simp flip: got_def)
      next
        case ne: False
        then have "read_loop sy data (off + word_of_nat (length got)) (n - length got) (acc @ got) (Suc t) = ((err, bs), t')"
          using 1(2) False Some by (subst (asm) read_loop.simps) (simp add: Let_def flip: got_def)
        from 1(1) [OF False Some got_def ne this] have
          "length bs \<le> length (acc @ got) + (n - length got) \<and> (err = None \<longrightarrow> length bs = length (acc @ got) + (n - length got))
            \<and> (err \<noteq> None \<longrightarrow> err = Some ReadFailed)" .
        moreover have "length got \<le> n" by (simp add: got_def)
        ultimately show ?thesis by simp
      qed
    qed
  qed
qed

subsection \<open>Indexes and scratch areas that are structurally sound\<close>

text \<open>The page lies within the size the file had when it was opened.\<close>

definition page_reachable :: "merge_index \<Rightarrow> nat \<Rightarrow> bool" where
  "page_reachable ix i \<longleftrightarrow>
     (case mi_file ix of None \<Rightarrow> False
      | Some f \<Rightarrow> fence_offset (mi_fences ix ! i) \<le> snd f
          \<and> word_of_nat kPageSize \<le> snd f - fence_offset (mi_fences ix ! i)
          \<and> fence_offset (mi_fences ix ! i) \<le> word_of_nat INT64_MAX)"

definition fences_sorted :: "fence list \<Rightarrow> bool" where
  "fences_sorted fences \<longleftrightarrow> (\<forall>i < length fences. \<forall>i' < i. first_key (fences ! i') < first_key (fences ! i))"

definition index_sane :: "merge_index \<Rightarrow> bool" where
  "index_sane ix \<longleftrightarrow> length (mi_fences ix) \<le> INT64_MAX \<and> fences_sorted (mi_fences ix)
     \<and> (\<forall>i < length (mi_fences ix). page_reachable ix i)"

text \<open>The structural checks that \<open>find\<close> makes of a page before it claims the slot.\<close>

definition header_valid :: "fence \<Rightarrow> u8 list \<Rightarrow> bool" where
  "header_valid fn buf \<longleftrightarrow> 0 < unat (at32 buf 0) \<and> unat (at32 buf 0) \<le> kRecordsPerPage \<and> at64 buf 8 = first_key fn"

text \<open>A slot is free, or names a page of the index and holds bytes that passed the checks.\<close>

definition slot_sound :: "merge_index \<Rightarrow> cache_slot \<Rightarrow> bool" where
  "slot_sound ix sl \<longleftrightarrow> length (slot_bytes sl) = kPageSize \<and>
     (slot_page sl = - 1 \<or>
      (\<exists>i < length (mi_fences ix). slot_page sl = word_of_nat i \<and> header_valid (mi_fences ix ! i) (slot_bytes sl)))"

definition scratch_sound :: "merge_index \<Rightarrow> lookup_scratch \<Rightarrow> bool" where
  "scratch_sound ix s \<longleftrightarrow> length (slots s) = 8 \<and> (\<forall>sl \<in> set (slots s). slot_sound ix sl)"

lemma new_scratch_sound: "scratch_sound ix (new_scratch t)"
  by (simp add: scratch_sound_def new_scratch_def slot_sound_def)

text \<open>Every record of a page that passed the checks lies inside the page.\<close>

lemma records_inside:
  assumes "header_valid fn buf" and "length buf = kPageSize" and "j < unat (at32 buf 0)"
  shows "kPageHeaderSize + j * kRecordSize + kRecordSize \<le> length buf"
  using assms by (simp add: header_valid_def kPageSize_def kPageHeaderSize_def kRecordSize_def kRecordsPerPage_def)

lemma search_page_bounds: "low \<le> high \<Longrightarrow> low \<le> search_page buf key low high \<and> search_page buf key low high \<le> high"
proof (induction buf key low high rule: search_page.induct)
  case (1 buf key low high)
  then show ?case by (subst (1 2) search_page.simps) (fastforce simp: Let_def)
qed

subsection \<open>Lookups\<close>

text \<open>The errors a lookup can end with.\<close>

definition lookup_errors :: "merge_error set" where
  "lookup_errors = {ReadFailed, PageBecameInvalid, TokenOutsideVocabulary}"

lemma put_slot_sound: "scratch_sound ix s \<Longrightarrow> slot_sound ix sl \<Longrightarrow> scratch_sound ix (put_slot k sl s)"
  by (auto simp: scratch_sound_def put_slot_def dest!: subsetD [OF set_update_subset_insert])

lemma load_slot_sound:
  assumes "index_sane ix" and "mi_file ix = Some f" and "scratch_sound ix s" and "page < length (mi_fences ix)"
    and "load_slot sy ix f page s = (r, s')"
  shows "scratch_sound ix s' \<and>
    (case r of Inl e \<Rightarrow> e \<in> lookup_errors
      | Inr k \<Rightarrow> k < length (slots s') \<and> slot_page (slots s' ! k) = word_of_nat page)"
proof -
  define k where "k = unat (next_slot s mod word_of_nat (length (slots s)))"
  have len8: "length (slots s) = 8" using assms(3) by (simp add: scratch_sound_def)
  then have k: "k < length (slots s)" by (simp add: k_def unat_mod)
  define old where "old = slot_bytes (slots s ! k)"
  have old: "length old = kPageSize" using assms(3) k by (simp add: scratch_sound_def slot_sound_def old_def)
  obtain err bs t where rd: "read_at sy f (fence_offset (mi_fences ix ! page)) (length old) (ls_calls s) = ((err, bs), t)"
    by (metis prod.collapse)
  have "page_reachable ix page" using assms(1,4) by (simp add: index_sane_def)
  then have "\<not> (fence_offset (mi_fences ix ! page) > snd f \<or> word_of_nat kPageSize > snd f - fence_offset (mi_fences ix ! page))"
    "\<not> fence_offset (mi_fences ix ! page) > word_of_nat INT64_MAX"
    using assms(2) by (auto simp: page_reachable_def not_less)
  then have "read_at sy f (fence_offset (mi_fences ix ! page)) (length old) (ls_calls s)
      = read_loop sy (fst f) (fence_offset (mi_fences ix ! page)) (length old) [] (ls_calls s)"
    unfolding read_at_def old by simp
  note loop = read_loop_length [OF rd [unfolded this]]
  define buf where "buf = put 0 bs old"
  have buf: "length buf = kPageSize" using loop old by (simp add: buf_def put_def)
  define s1 where "s1 = (put_slot k \<lparr>slot_page = - 1, slot_bytes = buf\<rparr> s)\<lparr>next_slot := next_slot s + 1, ls_calls := t\<rparr>"
  have s1: "scratch_sound ix s1"
    using put_slot_sound [OF assms(3), of "\<lparr>slot_page = - 1, slot_bytes = buf\<rparr>" k] buf
    by (simp add: s1_def scratch_sound_def slot_sound_def)
  define ok where "ok \<longleftrightarrow> header_valid (mi_fences ix ! page) buf"
  have checks: "(at32 buf 0 = 0 \<or> at32 buf 0 > word_of_nat kRecordsPerPage \<or> at64 buf 8 \<noteq> first_key (mi_fences ix ! page)) = (\<not> ok)"
    by (auto simp: ok_def header_valid_def word_less_nat_alt kRecordsPerPage_def unat_gt_0)
  have run: "(r, s') = (case err of Some e \<Rightarrow> (Inl e, s1)
      | None \<Rightarrow> if \<not> ok then (Inl PageBecameInvalid, s1)
          else (Inr k, (put_slot k \<lparr>slot_page = word_of_nat page, slot_bytes = buf\<rparr> s1)\<lparr>page_reads := page_reads s1 + 1\<rparr>))"
    using assms(5) unfolding load_slot_def Let_def k_def [symmetric] old_def [symmetric] rd prod.case
      buf_def [symmetric] checks s1_def [symmetric] by simp
  show ?thesis
  proof (cases "err = None \<and> ok")
    case True
    have "slot_sound ix \<lparr>slot_page = word_of_nat page, slot_bytes = buf\<rparr>"
      using True assms(4) buf by (auto simp: slot_sound_def ok_def)
    from put_slot_sound [OF s1 this, of k] show ?thesis
      using run True k len8 by (auto simp: scratch_sound_def put_slot_def s1_def)
  next
    case False
    then show ?thesis using run s1 loop by (auto simp: lookup_errors_def split: option.splits if_splits)
  qed
qed

text \<open>The rule read off any page is inside the vocabulary, or refused.\<close>

lemma read_rule_cases:
  "case read_rule ix buf key of Inl e \<Rightarrow> e = TokenOutsideVocabulary
    | Inr None \<Rightarrow> True | Inr (Some ru) \<Rightarrow> 0 \<le> rule_merged ru \<and> rule_merged ru < mi_vocab_size ix"
  by (auto simp: read_rule_def Let_def)

lemma find_faults:
  assumes "index_sane ix" and "scratch_sound ix s" and "find sy ix key s = (r, s')"
  shows "scratch_sound ix s' \<and>
    (case r of Inl e \<Rightarrow> e \<in> lookup_errors
      | Inr None \<Rightarrow> True | Inr (Some ru) \<Rightarrow> 0 \<le> rule_merged ru \<and> rule_merged ru < mi_vocab_size ix)"
proof (cases "mi_file ix = None \<or> mi_fences ix = [] \<or> key < first_key (hd (mi_fences ix))")
  case True
  then show ?thesis using assms(2,3) by (auto simp: find_def split: option.splits if_splits)
next
  case False
  then obtain f where f: "mi_file ix = Some f" by auto
  define p where "p = page_of_key (mi_fences ix) key"
  have p: "p < length (mi_fences ix)"
    using page_of_key_bounds(1) [of "mi_fences ix" key] False assms(1) by (simp add: p_def index_sane_def fences_sorted_def)
  define pick where "pick = (case find_slot (slots s) p 0 of Some k \<Rightarrow> retM k | None \<Rightarrow> load_slot sy ix f p)"
  obtain r1 s1 where one: "pick s = (r1, s1)" by fastforce
  have step: "scratch_sound ix s1 \<and> (\<forall>e. r1 = Inl e \<longrightarrow> e \<in> lookup_errors)"
    using load_slot_sound [OF assms(1) f assms(2) p] one assms(2)
    by (cases "find_slot (slots s) p 0"; cases r1) (force simp: pick_def)+
  have run: "(r, s') = (case r1 of Inl e \<Rightarrow> (Inl e, s1) | Inr k \<Rightarrow> (read_rule ix (slot_bytes (slots s1 ! k)) key, s1))"
  proof -
    have "find sy ix key s = (case r1 of Inl e \<Rightarrow> (Inl e, s1) | Inr k \<Rightarrow> (read_rule ix (slot_bytes (slots s1 ! k)) key, s1))"
      using False f one
      by (auto simp: find_def Let_def bindM_def liftM_def sum.map_ident pick_def p_def split: option.splits sum.splits)
    then show ?thesis using assms(3) by simp
  qed
  show ?thesis
  proof (cases r1)
    case (Inl e)
    then show ?thesis using run step by simp
  next
    case (Inr k)
    then show ?thesis
      using run step read_rule_cases [of ix "slot_bytes (slots s1 ! k)" key]
      by (auto simp: lookup_errors_def split: sum.splits option.splits)
  qed
qed

subsection \<open>Validation establishes the structure, whatever the reads deliver\<close>

definition scan_sane :: "opened \<Rightarrow> page_scan \<Rightarrow> bool" where
  "scan_sane f sc \<longleftrightarrow> fences_sorted (ps_fences sc)
     \<and> (\<forall>i < length (ps_fences sc). page_reachable (empty_index\<lparr>mi_file := Some f, mi_fences := ps_fences sc\<rparr>) i)"

lemma readM_reaches:
  assumes "readM sy f off n w = (Inr bs, w')"
  shows "off \<le> snd f \<and> word_of_nat n \<le> snd f - off \<and> off \<le> word_of_nat INT64_MAX"
  using assms by (auto simp: readM_def read_at_def not_less split: if_splits)

lemma fences_sorted_snoc:
  assumes "fences_sorted fences" and "fences \<noteq> [] \<longrightarrow> first_key (last fences) < first_key fn"
  shows "fences_sorted (fences @ [fn])"
proof -
  have "first_key ((fences @ [fn]) ! i') < first_key ((fences @ [fn]) ! i)" if i: "i < Suc (length fences)" "i' < i" for i i'
  proof (cases "i = length fences")
    case False
    then show ?thesis using i assms(1) by (simp add: fences_sorted_def nth_append)
  next
    case True
    then have ne: "fences \<noteq> []" using i by auto
    have "first_key (fences ! i') \<le> first_key (last fences)"
      using assms(1) i True ne by (cases "i' = length fences - 1") (auto simp: fences_sorted_def last_conv_nth intro!: less_imp_le)
    also have "\<dots> < first_key fn" using assms(2) ne by simp
    finally show ?thesis using i True by (simp add: nth_append)
  qed
  then show ?thesis by (simp add: fences_sorted_def)
qed

lemma scan_page_sane:
  assumes "scan_sane f sc" and "length (ps_fences sc) = i"
    and "scan_page sy f off rc v i sc w = (Inr sc', w')"
  shows "scan_sane f sc' \<and> length (ps_fences sc') = Suc i"
proof -
  obtain fn w1 where fence: "scan_fence sy f off rc v i sc fn w1 = (Inr sc', w')"
    using assms(3) unfolding scan_page_def bindM_Inr_iff by blast
  then obtain pg w2 where pg: "readM sy f (fence_offset fn) kPageSize w1 = (Inr pg, w2)"
    and check: "check_page pg fn rc v sc = Inr sc'"
    and order: "i \<noteq> 0 \<longrightarrow> first_key (ps_fences sc ! (i - 1)) < first_key fn"
    by (auto simp: scan_fence_def bindM_Inr_iff liftM_Inr_iff not_le split: if_splits)
  have fences: "ps_fences sc' = ps_fences sc @ [fn]" using check_page_Inr [OF check] by simp
  have "fences_sorted (ps_fences sc @ [fn])"
    using assms(1,2) order by (intro fences_sorted_snoc) (auto simp: scan_sane_def last_conv_nth)
  then show ?thesis
    using assms(1,2) readM_reaches [OF pg] fences
    by (auto simp: scan_sane_def page_reachable_def less_Suc_eq nth_append)
qed

lemma scan_pages_sane:
  assumes "foldM (scan_page sy f off rc v) [length (ps_fences sc) ..< n] sc w = (Inr sc', w')"
    and "scan_sane f sc" and "length (ps_fences sc) \<le> n"
  shows "scan_sane f sc' \<and> length (ps_fences sc') = n"
  using assms
proof (induction "n - length (ps_fences sc)" arbitrary: sc w)
  case 0
  then show ?case by simp
next
  case (Suc d)
  define i where "i = length (ps_fences sc)"
  have i: "i < n" "[i ..< n] = i # [Suc i ..< n]" using Suc.hyps(2) by (auto simp: i_def upt_conv_Cons)
  from Suc.prems(1) obtain sc1 w1
    where one: "scan_page sy f off rc v i sc w = (Inr sc1, w1)"
      and rest: "foldM (scan_page sy f off rc v) [Suc i ..< n] sc1 w1 = (Inr sc', w')"
    by (auto simp: i(2) bindM_Inr_iff simp flip: i_def)
  from scan_page_sane [OF Suc.prems(2) i_def [symmetric] one]
  have sc1: "scan_sane f sc1" "length (ps_fences sc1) = Suc i" by auto
  show ?case
    using Suc.hyps(1) [of sc1 w1] rest sc1 Suc.hyps(2) i by (simp add: i_def)
qed

lemma open_validated_sane:
  assumes "open_validated sy path digest v w = (Inr ix, w')"
  shows "index_sane ix \<and> mi_vocab_size ix = v"
proof -
  obtain f header rc pc off sc w2 w3 where
    header: "check_header header (snd f) digest = Inr (rc, pc, off)"
    and scan: "foldM (scan_page sy f off rc v) [0 ..< unat pc] \<lparr>ps_seen = 0, ps_prev = None, ps_fences = []\<rparr> w2
      = (Inr sc, w3)"
    and ix: "ix = \<lparr>mi_file = Some f, mi_fences = ps_fences sc, mi_path = path, mi_record_count = rc,
      mi_vocab_size = v, mi_cache_hit = False\<rparr>"
    using assms by (auto simp: open_validated_def bindM_Inr_iff liftM_Inr_iff split: if_splits prod.splits)
  have "pc \<le> snd f div word_of_nat kPageSize"
    using header by (auto simp: check_header_def throwing Let_def not_less split: if_splits)
  then have "unat pc \<le> unat (snd f) div 4096" by (simp add: word_le_nat_alt unat_div kPageSize_def)
  then have pages: "unat pc \<le> INT64_MAX" using unat_less_u64 [of "snd f"] by (simp add: INT64_MAX_def)
  have "scan_sane f \<lparr>ps_seen = 0, ps_prev = None, ps_fences = []\<rparr>" by (simp add: scan_sane_def fences_sorted_def)
  from scan_pages_sane [OF _ this, of sy off rc v "unat pc" w2 sc w3] scan
  have "scan_sane f sc \<and> length (ps_fences sc) = unat pc" by simp
  then show ?thesis
    using pages by (auto simp: index_sane_def scan_sane_def page_reachable_def ix empty_index_def)
qed

end
