(* ===== verification/MergeCache.thy ===== *)
theory MergeCache
  imports MergeValid MergeFaults
begin

text \<open>
  Creating and loading the merge cache: creation is atomic on the cache's name, loading gives an
  index whose lookups are the merge rules of the tokenizer, and whatever was found in the cache
  directory, an index that is returned is safe to search.
\<close>

subsection \<open>Writing\<close>

lemma write_all_step:
  assumes "bs \<noteq> []" and "written = min (sy_written sy (calls w) (length bs)) (length bs)"
    and "w1 = (append_file p (take written bs) w)\<lparr>calls := Suc (calls w)\<rparr>"
  shows "write_all sy p bs w = (if written = 0 then (Inl WriteFailed, w1) else write_all sy p (drop written bs) w1)"
  using assms(1) by (subst write_all.simps) (simp only: Let_def assms(2,3) if_False)

lemma write_all_effect:
  "files w p = Some old \<Longrightarrow> write_all sy p bs w = (r, w') \<Longrightarrow>
     \<exists>pre. files w' = (files w)(p \<mapsto> old @ pre) \<and> (r = Inr () \<longrightarrow> pre = bs)"
proof (induction sy p bs w arbitrary: old rule: write_all.induct)
  case (1 sy p bs w)
  show ?case
  proof (cases "bs = []")
    case True
    then have "w' = w" "r = Inr ()" using 1(3) by (subst (asm) write_all.simps, simp)+
    then show ?thesis using 1(2) True by (auto intro!: exI [of _ "[]"])
  next
    case False
    define written where "written = min (sy_written sy (calls w) (length bs)) (length bs)"
    define w1 where "w1 = (append_file p (take written bs) w)\<lparr>calls := Suc (calls w)\<rparr>"
    have files1: "files w1 = (files w)(p \<mapsto> old @ take written bs)"
      using 1(2) by (simp add: w1_def append_file_def)
    note step = write_all_step [OF False written_def w1_def]
    show ?thesis
    proof (cases "written = 0")
      case True
      then show ?thesis using 1(3) files1 unfolding step by (auto intro!: exI [of _ "[]"])
    next
      case pos: False
      then have run: "write_all sy p (drop written bs) w1 = (r, w')" using 1(3) unfolding step by simp
      have "files w1 p = Some (old @ take written bs)" by (simp add: files1)
      from 1(1) [OF False written_def w1_def pos this run]
      obtain pre where "files w' = (files w1)(p \<mapsto> (old @ take written bs) @ pre)" "r = Inr () \<longrightarrow> pre = drop written bs"
        by blast
      then show ?thesis by (intro exI [of _ "take written bs @ pre"]) (auto simp: files1)
    qed
  qed
qed

lemma durable_close_files: "durable_close sy w = (r, w') \<Longrightarrow> files w' = files w"
  by (auto simp: durable_close_def bindM_def callM_def split: prod.splits sum.splits if_splits)

lemma create_file_effect:
  "create_file sy temp w = (r, w') \<Longrightarrow> (r = Inr () \<and> files w temp = None \<and> files w' = (files w)(temp \<mapsto> []))
     \<or> (r = Inl CreateFailed \<and> files w' = files w)"
  by (auto simp: create_file_def bindM_def callM_def split: if_splits)

lemma atomic_replace_effect:
  "atomic_replace sy temp path w = (r, w') \<Longrightarrow>
     (r = Inr () \<and> files w' = (files w)(path := files w temp, temp := None)) \<or> (r = Inl ReplaceFailed \<and> files w' = files w)"
  by (auto simp: atomic_replace_def bindM_def callM_def split: if_splits)

text \<open>The name of the temporary file.\<close>

definition temp_name :: "nat \<Rightarrow> string \<Rightarrow> world \<Rightarrow> string" where
  "temp_name pid path w = path @ ''.tmp.'' @ nat_digits pid @ ''.'' @ nat_digits (serial w)"

lemma temp_name_not_path: "temp_name pid path w \<noteq> path"
  by (simp add: temp_name_def)

text \<open>The body of the \<open>try\<close> block.\<close>

definition write_cache :: "sys \<Rightarrow> string \<Rightarrow> string \<Rightarrow> u8 list \<Rightarrow> u8 list \<Rightarrow> (world, merge_error, unit) action" where
  "write_cache sy temp path header payload =
     bindM (create_file sy temp) (\<lambda>_.
     bindM (write_all sy temp header) (\<lambda>_.
     bindM (write_all sy temp payload) (\<lambda>_.
     bindM (durable_close sy) (\<lambda>_.
     atomic_replace sy temp path))))"

lemma write_cache_effect:
  assumes "write_cache sy temp path header payload w = (r, w')" and "temp \<noteq> path"
  shows "(\<forall>q. q \<noteq> path \<and> q \<noteq> temp \<longrightarrow> files w' q = files w q)
    \<and> ((r = Inr () \<and> files w' path = Some (header @ payload) \<and> files w' temp = None)
       \<or> ((\<exists>e. r = Inl e) \<and> files w' path = files w path))"
proof -
  obtain r1 w1 where c1: "create_file sy temp w = (r1, w1)" by fastforce
  note e1 = create_file_effect [OF c1]
  obtain r2 w2 where c2: "write_all sy temp header w1 = (r2, w2)" by fastforce
  obtain r3 w3 where c3: "write_all sy temp payload w2 = (r3, w3)" by fastforce
  obtain r4 w4 where c4: "durable_close sy w3 = (r4, w4)" by fastforce
  obtain r5 w5 where c5: "atomic_replace sy temp path w4 = (r5, w5)" by fastforce
  note steps = assms(1) [unfolded write_cache_def]
  show ?thesis
  proof (cases r1)
    case (Inl e)
    then have "r = Inl e" "w' = w1" using steps c1 by (auto simp: bindM_def)
    then show ?thesis using e1 Inl by auto
  next
    case (Inr u1)
    then have f1: "files w1 = (files w)(temp \<mapsto> [])" using e1 by auto
    from write_all_effect [OF _ c2, of "[]"] f1 obtain pre2
      where f2: "files w2 = (files w)(temp \<mapsto> pre2)" "r2 = Inr () \<longrightarrow> pre2 = header" by auto
    show ?thesis
    proof (cases r2)
      case (Inl e)
      then have "r = Inl e" "w' = w2" using steps c1 c2 Inr by (auto simp: bindM_def)
      then show ?thesis using f2 assms(2) by auto
    next
      case r2: (Inr u2)
      from write_all_effect [OF _ c3, of pre2] f2 obtain pre3
        where f3: "files w3 = (files w)(temp \<mapsto> pre2 @ pre3)" "r3 = Inr () \<longrightarrow> pre3 = payload" by auto
      show ?thesis
      proof (cases "\<exists>u3 u4. r3 = Inr u3 \<and> r4 = Inr u4")
        case True
        then have "r = r5" "w' = w5" using steps c1 c2 c3 c4 c5 Inr r2 by (auto simp: bindM_def)
        moreover have "files w4 = (files w)(temp \<mapsto> header @ payload)"
          using durable_close_files [OF c4] f3 f2 True r2 by simp
        ultimately show ?thesis using atomic_replace_effect [OF c5] assms(2) by auto
      next
        case False
        then have "\<exists>e. r = Inl e" "w' = w3 \<or> w' = w4"
          using steps c1 c2 c3 c4 Inr r2 by (auto simp: bindM_def split: sum.splits)
        then show ?thesis using f3 durable_close_files [OF c4] assms(2) by auto
      qed
    qed
  qed
qed

lemma create_cache_unfold:
  assumes "cache_image tokens merges sd = Inr (header, payload)"
  shows "create_cache sy pid tokens merges sd path w =
    (let temp = temp_name pid path w; w0 = w\<lparr>serial := Suc (serial w)\<rparr> in
     case write_cache sy temp path header payload w0 of
       (Inl e, w1) \<Rightarrow> (Inl e, w1\<lparr>calls := Suc (calls w1),
         files := if sy_remove_ok sy (calls w1) then (files w1)(temp := None) else files w1\<rparr>)
     | (Inr u, w1) \<Rightarrow> (Inr u, w1))"
  by (simp add: create_cache_def assms unique_temp_path_def temp_name_def catchM_def remove_file_def callM_def Let_def
      write_cache_def bindM_def split: prod.splits sum.splits)


text \<open>
  C31: a temporary name that is already taken is not an obstacle that creation leaves alone: the
  exclusive open fails, and the error path then removes the file that someone else is writing
  under that name. It is still there only if the removal itself fails.
\<close>

theorem create_cache_removes_foreign_temp:
  assumes "cache_image tokens merges sd = Inr (header, payload)"
    and "files w (temp_name pid path w) = Some other"
  shows "\<exists>w'. create_cache sy pid tokens merges sd path w = (Inl CreateFailed, w')
    \<and> files w' (temp_name pid path w) = (if sy_remove_ok sy (Suc (calls w)) then None else Some other)"
  unfolding create_cache_unfold [OF assms(1)]
  using assms(2) by (auto simp: write_cache_def create_file_def callM_def bindM_def Let_def)

subsection \<open>Loading\<close>

text \<open>Operations that succeed; writes may still be short.\<close>

definition faultless :: "sys \<Rightarrow> bool" where
  "faultless sy \<longleftrightarrow> honest sy \<and> always_opens sy
     \<and> (\<forall>t. sy_create_ok sy t \<and> sy_flush_ok sy t \<and> sy_sync_ok sy t \<and> sy_close_ok sy t \<and> sy_rename_ok sy t)
     \<and> (\<forall>t n. 0 < n \<longrightarrow> 0 < sy_written sy t n)"

lemma write_all_succeeds:
  assumes "\<forall>t n. 0 < n \<longrightarrow> 0 < sy_written sy t n"
  shows "fst (write_all sy p bs w) = Inr ()"
  using assms
proof (induction sy p bs w rule: write_all.induct)
  case (1 sy p bs w)
  show ?case
  proof (cases "bs = []")
    case True
    then show ?thesis by (subst write_all.simps) simp
  next
    case False
    define written where "written = min (sy_written sy (calls w) (length bs)) (length bs)"
    define w1 where "w1 = (append_file p (take written bs) w)\<lparr>calls := Suc (calls w)\<rparr>"
    have "written \<noteq> 0" using 1(2) False by (simp add: written_def)
    then show ?thesis
      using 1(1) [OF False written_def w1_def _ 1(2)] unfolding write_all_step [OF False written_def w1_def] by simp
  qed
qed

lemma write_cache_succeeds:
  assumes "faultless sy" and "files w temp = None"
  shows "fst (write_cache sy temp path header payload w) = Inr ()"
proof -
  have wr: "\<exists>w'. write_all sy p bs w = (Inr (), w')" for p bs w
    using write_all_succeeds [of sy p bs w] assms(1) by (metis faultless_def prod.collapse)
  obtain w1 where c1: "create_file sy temp w = (Inr (), w1)"
    using assms by (auto simp: create_file_def callM_def bindM_def faultless_def)
  obtain w2 where c2: "write_all sy temp header w1 = (Inr (), w2)" using wr by blast
  obtain w3 where c3: "write_all sy temp payload w2 = (Inr (), w3)" using wr by blast
  show ?thesis
    using c1 c2 c3 assms(1)
    by (simp add: write_cache_def durable_close_def atomic_replace_def callM_def bindM_def faultless_def)
qed

definition tokenizer_hash :: "string list \<Rightarrow> string list \<Rightarrow> u8 list" where
  "tokenizer_hash tokens merges = sha_digest
     (concat (digest_strings ''nanoembed-bpe-tokens-v1'' tokens @ digest_strings ''nanoembed-bpe-merges-v1'' merges))"

definition cache_path :: "string \<Rightarrow> string list \<Rightarrow> string list \<Rightarrow> string" where
  "cache_path root tokens merges = root @ ''/bpe-merges-v1-'' @ sha256_hex (tokenizer_hash tokens merges) @ ''.idx''"

lemma sha256_of_chunks:
  "fst (bindM (forM chunks (\<lambda>c. update (InputBytes c))) (\<lambda>_. finish) new_sha256) = Inr (sha_digest (concat chunks))"
  using sha256_run [of chunks] by auto

lemma tokenizer_digest_eq: "tokenizer_digest tokens merges = Inr (tokenizer_hash tokens merges)"
  unfolding tokenizer_digest_def sha256_of_chunks by (simp add: tokenizer_hash_def)

text \<open>What a load does once the digest, the directory and the name are settled.\<close>

definition load_or_create ::
  "sys \<Rightarrow> nat \<Rightarrow> string list \<Rightarrow> string list \<Rightarrow> string \<Rightarrow> (world, merge_error, merge_index) action" where
  "load_or_create sy pid tokens merges path =
     (let sd = tokenizer_hash tokens merges; v = int (length tokens) in
     bindM (tryM (open_validated sy path sd v)) (\<lambda>first.
     case first of Inr ix \<Rightarrow> retM (ix\<lparr>mi_cache_hit := True\<rparr>)
     | Inl _ \<Rightarrow>
         bindM (tryM (create_cache sy pid tokens merges sd path)) (\<lambda>created.
         case created of
           Inl creation_error \<Rightarrow>
             bindM (tryM (open_validated sy path sd v)) (\<lambda>again.
             case again of Inr ix \<Rightarrow> retM (ix\<lparr>mi_cache_hit := True\<rparr>) | Inl _ \<Rightarrow> throwM creation_error)
         | Inr _ \<Rightarrow>
             bindM (tryM (open_validated sy path sd v)) (\<lambda>again.
             case again of Inr ix \<Rightarrow> retM (ix\<lparr>mi_cache_hit := False\<rparr>)
             | Inl reason \<Rightarrow> throwM (GeneratedInvalid reason)))))"

lemma index_from_gguf_eq:
  "index_from_gguf sy env mkdir_ok pid tokens merges w =
     (case cache_root env of Inl e \<Rightarrow> (Inl e, w)
      | Inr root \<Rightarrow>
          if mkdir_ok (calls w)
          then load_or_create sy pid tokens merges (cache_path root tokens merges) (w\<lparr>calls := Suc (calls w)\<rparr>)
          else (Inl DirectoryFailed, w\<lparr>calls := Suc (calls w)\<rparr>))"
  by (simp add: index_from_gguf_def tokenizer_digest_eq callM_def load_or_create_def cache_path_def Let_def
      bindM_def [of "liftM _ _"] bindM_def [of "\<lambda>w. (Inr (mkdir_ok (calls w)), _ w)"] split: sum.split)

lemma index_ok_hit [simp]: "index_ok (ix\<lparr>mi_cache_hit := b\<rparr>) = index_ok ix"
  by (simp add: index_ok_def page_ok_def index_page_def)

lemma index_entries_hit [simp]: "index_entries (ix\<lparr>mi_cache_hit := b\<rparr>) = index_entries ix"
  by (simp add: index_entries_def index_page_def)

lemma cache_image_length:
  assumes "cache_image tokens merges sd = Inr (header, payload)" and "length sd = 32"
    and "length tokens \<le> INT32_MAX" and "length merges \<le> INT32_MAX"
  shows "length (header @ payload) \<le> INT64_MAX"
proof -
  obtain records where rs: "merge_records tokens merges = Inr records"
    using assms(1) by (auto simp: cache_image_def throwing)
  note facts = merge_records_facts(2) [OF rs assms(3,4)]
  have img: "payload = payload_image (layout_of (length records)) records"
    "header = header_image (layout_of (length records)) sd (sha_digest payload)"
    using assms(1) rs plan_layout_eq [OF facts] by (auto simp: cache_image_def Let_def sha256_bytes split: if_splits)
  have "length header = 4096" unfolding img(2) using assms(2) by (intro header_fields(1)) auto
  then show ?thesis
    using payload_placed [OF facts] img(1) file_size_bound [OF facts] data_start_bounds(1) [of "length records"]
    by (simp add: placed_def Let_def)
qed

lemma length_tokenizer_hash [simp]: "length (tokenizer_hash tokens merges) = 32"
  by (simp add: tokenizer_hash_def)

text \<open>Validation only reads: the files and the serial number stay.\<close>

definition reads_only :: "(world, 'e, 'a) action \<Rightarrow> bool" where
  "reads_only m \<longleftrightarrow> (\<forall>w. files (snd (m w)) = files w \<and> serial (snd (m w)) = serial w)"

lemma reads_only_bindM: "reads_only m \<Longrightarrow> (\<And>x. reads_only (f x)) \<Longrightarrow> reads_only (bindM m f)"
  unfolding reads_only_def bindM_def by (auto split: prod.split sum.split) (metis snd_conv)+

lemma reads_only_simps [simp]:
  "reads_only (retM x)" "reads_only (throwM e)" "reads_only (getM g)" "reads_only (liftM c r)" "reads_only (callM h)"
  by (auto simp: reads_only_def liftM_def callM_def)

lemma reads_only_readM [simp]: "reads_only (readM sy f off n)"
  by (auto simp: reads_only_def readM_def split: prod.split option.split)

lemma reads_only_open [simp]: "reads_only (open_file sy path)"
  unfolding open_file_def by (auto intro!: reads_only_bindM split: option.split)

lemma reads_only_foldM: "(\<And>x a. reads_only (f x a)) \<Longrightarrow> reads_only (foldM f xs a)"
  by (induction xs arbitrary: a) (auto intro!: reads_only_bindM)

lemma reads_only_scan [simp]: "reads_only (scan_page sy f off rc v i sc)"
  unfolding scan_page_def scan_fence_def by (auto intro!: reads_only_bindM)

lemma reads_only_hash [simp]: "reads_only (hash_payload sy f off h)"
proof -
  have "files (snd (hash_payload sy f off h w)) = files w \<and> serial (snd (hash_payload sy f off h w)) = serial w" for w
  proof (induction sy f off h w rule: hash_payload.induct)
    case (1 sy f off h w)
    define amount where "amount = min 65536 (snd f - off)"
    obtain r w1 where rd: "readM sy f off (unat amount) w = (r, w1)" by fastforce
    then have same: "files w1 = files w" "serial w1 = serial w"
      using reads_only_readM [of sy f off "unat amount"] unfolding reads_only_def by (metis snd_conv)+
    show ?case
    proof (cases "off < snd f")
      case True
      show ?thesis
      proof (cases r)
        case (Inl e)
        then show ?thesis using True rd same by (subst (1 2) hash_payload.simps) (simp add: Let_def flip: amount_def)
      next
        case (Inr bs)
        obtain r2 h1 where up: "update (InputBytes bs) h = (r2, h1)" by fastforce
        show ?thesis
        proof (cases r2)
          case (Inl e)
          then show ?thesis using True rd same Inr up
            by (subst (1 2) hash_payload.simps) (simp add: Let_def flip: amount_def)
        next
          case r2: (Inr u)
          have "hash_payload sy f off h w = hash_payload sy f (off + amount) h1 w1"
            using True rd Inr up r2 by (subst hash_payload.simps) (simp add: Let_def flip: amount_def)
          then show ?thesis
            using 1 [OF True amount_def rd [unfolded Inr, symmetric] refl up [unfolded r2, symmetric] refl] same
            by simp
        qed
      qed
    next
      case False
      then show ?thesis by (subst (1 2) hash_payload.simps) simp
    qed
  qed
  then show ?thesis by (simp add: reads_only_def)
qed

lemma reads_only_validated: "reads_only (open_validated sy path sd v)"
  unfolding open_validated_def
  by (auto intro!: reads_only_bindM reads_only_foldM split: prod.split)

lemma open_validated_files: "open_validated sy path sd v w = (r, w') \<Longrightarrow> files w' = files w \<and> serial w' = serial w"
  using reads_only_validated unfolding reads_only_def by (metis snd_conv)

subsection \<open>Loading is safe\<close>

lemma create_cache_fits:
  assumes "create_cache sy pid tokens merges sd path w = (r, w')" and "file_fits w path" and "length sd = 32"
    and "length tokens \<le> INT32_MAX" and "length merges \<le> INT32_MAX"
  shows "file_fits w' path"
proof (cases "cache_image tokens merges sd")
  case (Inl e)
  then show ?thesis using assms(1,2) by (simp add: create_cache_def)
next
  case (Inr img)
  obtain header payload where img: "img = (header, payload)" by fastforce
  define temp where "temp = temp_name pid path w"
  obtain r1 w1 where wc: "write_cache sy temp path header payload (w\<lparr>serial := Suc (serial w)\<rparr>) = (r1, w1)" by fastforce
  have ne: "temp \<noteq> path" unfolding temp_def by (rule temp_name_not_path)
  have "files w' path = Some (header @ payload) \<or> files w' path = files w path"
    using assms(1) write_cache_effect [OF wc ne] ne unfolding create_cache_unfold [OF Inr [unfolded img]]
    by (cases r1) (auto simp: Let_def wc simp flip: temp_def split: if_splits)
  then show ?thesis
    using cache_image_length [OF Inr [unfolded img] assms(3-5)] assms(2) by (auto simp: file_fits_def)
qed

lemma load_or_create_ok:
  assumes "honest sy" and "file_fits w path" and "length tokens \<le> INT32_MAX" and "length merges \<le> INT32_MAX"
    and "load_or_create sy pid tokens merges path w = (Inr ix, w')"
  shows "index_ok ix \<and> mi_vocab_size ix = int (length tokens) \<and> mi_path ix = path"
proof -
  define sd v where "sd = tokenizer_hash tokens merges" and "v = int (length tokens)"
  have sd: "length sd = 32" by (simp add: sd_def)
  obtain r1 w1 where o1: "open_validated sy path sd v w = (r1, w1)" by fastforce
  obtain r2 w2 where c: "create_cache sy pid tokens merges sd path w1 = (r2, w2)" by fastforce
  obtain r3 w3 where o3: "open_validated sy path sd v w2 = (r3, w3)" by fastforce
  have fits1: "file_fits w1 path" using open_validated_files [OF o1] assms(2) by (simp add: file_fits_def)
  have fits2: "file_fits w2 path" by (rule create_cache_fits [OF c fits1 sd assms(3,4)])
  note run = assms(5) [unfolded load_or_create_def Let_def, folded sd_def v_def]
  show ?thesis
  proof (cases r1)
    case (Inr ix1)
    then have "ix = ix1\<lparr>mi_cache_hit := True\<rparr>" using run o1 by (simp add: bindM_def tryM_def)
    then show ?thesis using open_validated_sound [OF assms(1,2) o1 [unfolded Inr]] by (simp add: v_def)
  next
    case (Inl e)
    then obtain ix3 b where "r3 = Inr ix3" "ix = ix3\<lparr>mi_cache_hit := b\<rparr>"
      using run o1 c o3 by (cases r2; cases r3) (auto simp: bindM_def tryM_def)
    then show ?thesis using open_validated_sound [OF assms(1) fits2 o3 [unfolded \<open>r3 = Inr ix3\<close>]] by (simp add: v_def)
  qed
qed

lemma index_load_ok:
  assumes "honest sy" and "\<forall>path. file_fits w path" and "length tokens \<le> INT32_MAX" and "length merges \<le> INT32_MAX"
    and "index_from_gguf sy env mkdir_ok pid tokens merges w = (Inr ix, w')"
  shows "index_ok ix \<and> mi_vocab_size ix = int (length tokens)"
proof -
  obtain root where "cache_root env = Inr root"
    and "load_or_create sy pid tokens merges (cache_path root tokens merges) (w\<lparr>calls := Suc (calls w)\<rparr>) = (Inr ix, w')"
    using assms(5) unfolding index_from_gguf_eq by (auto split: sum.splits if_splits)
  moreover have "file_fits (w\<lparr>calls := Suc (calls w)\<rparr>) path" for path
    using assms(2) by (simp add: file_fits_def)
  ultimately show ?thesis using load_or_create_ok [OF assms(1) _ assms(3,4)] by blast
qed

subsection \<open>The round trip\<close>

lemma fresh_load:
  assumes "faultless sy" and "length tokens \<le> INT32_MAX" and "length merges \<le> INT32_MAX"
    and "merge_records tokens merges = Inr records"
    and "files w path = None" and "files w (temp_name pid path w) = None"
  shows "\<exists>ix w'. load_or_create sy pid tokens merges path w = (Inr ix, w') \<and> \<not> mi_cache_hit ix
    \<and> index_entries ix = map entry_of records
    \<and> (\<exists>header payload. cache_image tokens merges (tokenizer_hash tokens merges) = Inr (header, payload)
         \<and> files w' path = Some (header @ payload))"
proof -
  define sd v where "sd = tokenizer_hash tokens merges" and "v = int (length tokens)"
  have sd: "length sd = 32" by (simp add: sd_def)
  note facts = merge_records_facts [OF assms(4,2,3)]
  have "\<exists>img. cache_image tokens merges sd = Inr img"
    using assms(4) plan_layout_eq [OF facts(2)] by (auto simp: cache_image_def sha256_bytes Let_def)
  then obtain header payload where img: "cache_image tokens merges sd = Inr (header, payload)" by auto
  obtain w1 where o1: "open_validated sy path sd v w = (Inl CacheOpenFailed, w1)"
    using assms(5) by (auto simp: open_validated_def open_file_def callM_def bindM_def)
  note same = open_validated_files [OF o1]
  define temp where "temp = temp_name pid path w1"
  have temp: "temp \<noteq> path" "files (w1\<lparr>serial := Suc (serial w1)\<rparr>) temp = None"
    using temp_name_not_path same assms(6) by (auto simp: temp_def temp_name_def)
  obtain w2 where wc: "write_cache sy temp path header payload (w1\<lparr>serial := Suc (serial w1)\<rparr>) = (Inr (), w2)"
    using write_cache_succeeds [OF assms(1) temp(2)] by (metis prod.collapse)
  have c: "create_cache sy pid tokens merges sd path w1 = (Inr (), w2)"
    unfolding create_cache_unfold [OF img] by (simp add: Let_def wc flip: temp_def)
  have stored: "files w2 path = Some (header @ payload)" using write_cache_effect [OF wc temp(1)] by auto
  have sys: "honest sy" "always_opens sy" using assms(1) by (auto simp: faultless_def)
  from open_image [OF sys assms(4) img sd assms(2,3) stored]
  obtain t where o2: "open_validated sy path sd v w2
      = (Inr (image_index records (header @ payload) path v), w2\<lparr>calls := t\<rparr>)"
    by (auto simp: v_def)
  have "load_or_create sy pid tokens merges path w
      = (Inr ((image_index records (header @ payload) path v)\<lparr>mi_cache_hit := False\<rparr>), w2\<lparr>calls := t\<rparr>)"
    unfolding load_or_create_def Let_def sd_def [symmetric] v_def [symmetric]
    using o1 c o2 by (simp add: bindM_def tryM_def)
  moreover have "placed records (pages_for (length records)) payload" "length header = 4096"
    using img assms(4) plan_layout_eq [OF facts(2)] payload_placed [OF facts(2)] header_fields(1) [OF sd length_sha_digest]
    by (auto simp: cache_image_def Let_def sha256_bytes split: if_splits)
  then have "index_entries (image_index records (header @ payload) path v) = map entry_of records"
    using facts(2,4) by (intro image_index_entries) auto
  ultimately show ?thesis using img stored by (auto simp: sd_def)
qed

lemma warm_load:
  assumes "faultless sy" and "length tokens \<le> INT32_MAX" and "length merges \<le> INT32_MAX"
    and "merge_records tokens merges = Inr records"
    and "cache_image tokens merges (tokenizer_hash tokens merges) = Inr (header, payload)"
    and "files w path = Some (header @ payload)"
  shows "\<exists>ix w'. load_or_create sy pid tokens merges path w = (Inr ix, w') \<and> mi_cache_hit ix
    \<and> index_entries ix = map entry_of records \<and> files w' = files w"
proof -
  define sd v where "sd = tokenizer_hash tokens merges" and "v = int (length tokens)"
  have sd: "length sd = 32" by (simp add: sd_def)
  note facts = merge_records_facts [OF assms(4,2,3)]
  have sys: "honest sy" "always_opens sy" using assms(1) by (auto simp: faultless_def)
  from open_image [OF sys assms(4,5) length_tokenizer_hash assms(2,3,6)]
  obtain t where o: "open_validated sy path sd v w
      = (Inr (image_index records (header @ payload) path v), w\<lparr>calls := t\<rparr>)"
    by (auto simp: v_def sd_def)
  have "load_or_create sy pid tokens merges path w
      = (Inr ((image_index records (header @ payload) path v)\<lparr>mi_cache_hit := True\<rparr>), w\<lparr>calls := t\<rparr>)"
    unfolding load_or_create_def Let_def sd_def [symmetric] v_def [symmetric] using o by (simp add: bindM_def tryM_def)
  moreover have "placed records (pages_for (length records)) payload" "length header = 4096"
    using assms(4,5) plan_layout_eq [OF facts(2)] payload_placed [OF facts(2)]
      header_fields(1) [OF length_tokenizer_hash length_sha_digest]
    by (auto simp: cache_image_def Let_def sha256_bytes split: if_splits)
  then have "index_entries (image_index records (header @ payload) path v) = map entry_of records"
    using facts(2,4) by (intro image_index_entries) auto
  ultimately show ?thesis by auto
qed

lemma find_entries_rule:
  assumes "faultless sy" and "index_ok ix" and "index_entries ix = map entry_of records"
    and "merge_records tokens merges = Inr records" and "length tokens \<le> INT32_MAX" and "length merges \<le> INT32_MAX"
    and "scratch_ok ix s"
  shows "\<exists>s'. find sy ix key s = (Inr (rule_of_pair tokens merges key), s') \<and> scratch_ok ix s'"
  using find_lookup [of sy ix s key] merge_records_facts(5) [OF assms(4-6), of key] assms
  by (simp add: faultless_def)

text \<open>
  C27: the round trip of the cache. On a machine whose calls succeed, with writes and reads of any
  length, loading a tokenizer whose cache does not exist yet writes it and opens it; loading it
  again hits the cache; and both times looking any pair up, in any state of the page cache, gives
  the lowest-ranked merge rule that the vocabulary and the rules define for that pair, or nothing
  when they define none.
\<close>

theorem merge_cache_roundtrip:
  assumes "faultless sy" and "cache_root env = Inr root" and "\<forall>t. mkdir_ok t"
    and "length tokens \<le> INT32_MAX" and "length merges \<le> INT32_MAX"
    and "merge_records tokens merges = Inr records"
    and "files w (cache_path root tokens merges) = None"
    and "files w (temp_name pid (cache_path root tokens merges) w) = None"
  shows "\<exists>ix w' ix2 w2.
    index_from_gguf sy env mkdir_ok pid tokens merges w = (Inr ix, w') \<and> \<not> mi_cache_hit ix
    \<and> index_from_gguf sy env mkdir_ok pid tokens merges w' = (Inr ix2, w2) \<and> mi_cache_hit ix2
    \<and> (\<forall>key s. scratch_ok ix s \<longrightarrow> (\<exists>s'. find sy ix key s = (Inr (rule_of_pair tokens merges key), s') \<and> scratch_ok ix s'))
    \<and> (\<forall>key s. scratch_ok ix2 s \<longrightarrow> (\<exists>s'. find sy ix2 key s = (Inr (rule_of_pair tokens merges key), s') \<and> scratch_ok ix2 s'))"
proof -
  define path w0 where "path = cache_path root tokens merges" and "w0 = w\<lparr>calls := Suc (calls w)\<rparr>"
  have w0: "files w0 path = None" "files w0 (temp_name pid path w0) = None"
    using assms(7,8) by (auto simp: path_def w0_def temp_name_def)
  obtain ix w1 header payload where one: "load_or_create sy pid tokens merges path w0 = (Inr ix, w1)"
    "\<not> mi_cache_hit ix" "index_entries ix = map entry_of records"
    "cache_image tokens merges (tokenizer_hash tokens merges) = Inr (header, payload)"
    "files w1 path = Some (header @ payload)"
    using fresh_load [OF assms(1,4-6) w0] by blast
  define w1' where "w1' = w1\<lparr>calls := Suc (calls w1)\<rparr>"
  have stored: "files w1' path = Some (header @ payload)" using one(5) by (simp add: w1'_def)
  obtain ix2 w2 where two: "load_or_create sy pid tokens merges path w1' = (Inr ix2, w2)"
    "mi_cache_hit ix2" "index_entries ix2 = map entry_of records"
    using warm_load [OF assms(1,4-6) one(4) stored] by blast
  have hon: "honest sy" using assms(1) by (simp add: faultless_def)
  have fits: "file_fits w0 path" "file_fits w1' path"
    using w0(1) stored cache_image_length [OF one(4) length_tokenizer_hash assms(4,5)] by (auto simp: file_fits_def)
  have ok: "index_ok ix" "index_ok ix2"
    using load_or_create_ok [OF hon fits(1) assms(4,5) one(1)] load_or_create_ok [OF hon fits(2) assms(4,5) two(1)] by auto
  have "index_from_gguf sy env mkdir_ok pid tokens merges w = (Inr ix, w1)"
    "index_from_gguf sy env mkdir_ok pid tokens merges w1 = (Inr ix2, w2)"
    using one(1) two(1) assms(2,3) by (auto simp: index_from_gguf_eq path_def w0_def w1'_def)
  then show ?thesis
    using one(2) two(2) find_entries_rule [OF assms(1) ok(1) one(3) assms(6,4,5)]
      find_entries_rule [OF assms(1) ok(2) two(3) assms(6,4,5)] by blast
qed

definition tiny_env :: "string \<Rightarrow> string option" where
  "tiny_env = (\<lambda>key. if key = ''HOME'' then Some ''/home'' else None)"

definition empty_world :: world where
  "empty_world = \<lparr>files = Map.empty, calls = 0, serial = 0\<rparr>"

lemma ideal_faultless: "faultless ideal_sys"
  using ideal_honest by (simp add: faultless_def always_opens_def ideal_sys_def)

lemma tiny_resolved:
  "resolve_rules (first_index 0 [''a'', ''b'', ''ab'']) 0 [''a b''] = [\<lparr>rr_key = 1, rr_rank = 0, rr_merged = 2\<rparr>]"
  by (simp add: resolve_rule_def split_rule_def i32_of_nat_def pair_key_def)

lemma tiny_records: "merge_records [''a'', ''b'', ''ab''] [''a b''] = Inr [\<lparr>rr_key = 1, rr_rank = 0, rr_merged = 2\<rparr>]"
  unfolding merge_records_def emplace_first_index tiny_resolved by simp

lemma tiny_rule: "rule_of_pair [''a'', ''b'', ''ab''] [''a b''] 1 = Some \<lparr>rule_rank = 0, rule_merged = 2\<rparr>"
  unfolding rule_of_pair_def tiny_resolved by (simp add: entry_of_def)

lemma tiny_sizes: "length [''a'', ''b'', ''ab''] \<le> INT32_MAX" "length [''a b''] \<le> INT32_MAX"
  by (simp_all add: INT32_MAX_def)

lemma empty_files: "files empty_world p = None"
  by (simp add: empty_world_def)

lemma tiny_root: "cache_root tiny_env = Inr ''/home/.cache/nanoembed''"
  by (simp add: cache_root_def tiny_env_def)

lemma merge_cache_roundtrip_witness:
  "\<exists>ix w' s'. index_from_gguf ideal_sys tiny_env (\<lambda>_. True) 7 [''a'', ''b'', ''ab''] [''a b''] empty_world = (Inr ix, w')
     \<and> find ideal_sys ix 1 (new_scratch 0) = (Inr (Some \<lparr>rule_rank = 0, rule_merged = 2\<rparr>), s')"
proof -
  have "\<forall>t. (\<lambda>_ :: nat. True) t" by simp
  from merge_cache_roundtrip [OF ideal_faultless tiny_root this tiny_sizes tiny_records empty_files empty_files, of 7]
  obtain ix w' where ix: "index_from_gguf ideal_sys tiny_env (\<lambda>_. True) 7 [''a'', ''b'', ''ab''] [''a b''] empty_world = (Inr ix, w')"
    and look: "\<forall>key s. scratch_ok ix s \<longrightarrow> (\<exists>s'. find ideal_sys ix key s
      = (Inr (rule_of_pair [''a'', ''b'', ''ab''] [''a b''] key), s') \<and> scratch_ok ix s')"
    by (elim exE conjE) (rule that)
  from look [THEN spec, THEN spec, THEN mp, OF new_scratch_ok, of 1 0] ix show ?thesis
    unfolding tiny_rule by blast
qed

lemma create_cache_removes_foreign_temp_witness:
  "\<exists>w w'. files w (temp_name 7 ''/c'' w) = Some [1]
     \<and> create_cache ideal_sys 7 [''a'', ''b'', ''ab''] [''a b''] (tokenizer_hash [] []) ''/c'' w = (Inl CreateFailed, w')
     \<and> files w' (temp_name 7 ''/c'' w) = None"
proof -
  have "\<exists>img. cache_image [''a'', ''b'', ''ab''] [''a b''] (tokenizer_hash [] []) = Inr img"
    using tiny_records plan_layout_eq [OF merge_records_facts(2) [OF tiny_records tiny_sizes]]
    by (auto simp: cache_image_def sha256_bytes Let_def)
  then obtain header payload where
    img: "cache_image [''a'', ''b'', ''ab''] [''a b''] (tokenizer_hash [] []) = Inr (header, payload)" by auto
  define w where "w = empty_world\<lparr>files := [temp_name 7 ''/c'' empty_world \<mapsto> [1]]\<rparr>"
  have taken: "files w (temp_name 7 ''/c'' w) = Some [1]" by (simp add: w_def temp_name_def)
  from create_cache_removes_foreign_temp [OF img taken, of ideal_sys] taken show ?thesis
    by (auto simp: ideal_sys_def)
qed

lemma load_or_create_sane:
  assumes "load_or_create sy pid tokens merges path w = (Inr ix, w')"
  shows "index_sane ix \<and> mi_vocab_size ix = int (length tokens)"
proof -
  define sd v where "sd = tokenizer_hash tokens merges" and "v = int (length tokens)"
  have hit: "index_sane (ix\<lparr>mi_cache_hit := b\<rparr>) = index_sane ix" for ix b
    by (cases "mi_file ix") (simp_all add: index_sane_def page_reachable_def)
  obtain r1 w1 where o1: "open_validated sy path sd v w = (r1, w1)" by fastforce
  obtain r2 w2 where c: "create_cache sy pid tokens merges sd path w1 = (r2, w2)" by fastforce
  obtain r3 w3 where o3: "open_validated sy path sd v w2 = (r3, w3)" by fastforce
  note run = assms [unfolded load_or_create_def Let_def, folded sd_def v_def]
  show ?thesis
  proof (cases r1)
    case (Inr ix1)
    then have "ix = ix1\<lparr>mi_cache_hit := True\<rparr>" using run o1 by (simp add: bindM_def tryM_def)
    then show ?thesis using open_validated_sane [OF o1 [unfolded Inr]] by (simp add: hit v_def)
  next
    case (Inl e)
    then obtain ix3 b where "r3 = Inr ix3" "ix = ix3\<lparr>mi_cache_hit := b\<rparr>"
      using run o1 c o3 by (cases r2; cases r3) (auto simp: bindM_def tryM_def)
    then show ?thesis using open_validated_sane [OF o3 [unfolded \<open>r3 = Inr ix3\<close>]] by (simp add: hit v_def)
  qed
qed

lemma index_load_sane:
  "index_from_gguf sy env mkdir_ok pid tokens merges w = (Inr ix, w') \<Longrightarrow>
     index_sane ix \<and> mi_vocab_size ix = int (length tokens)"
  unfolding index_from_gguf_eq by (auto split: sum.splits if_splits dest: load_or_create_sane)


text \<open>A machine whose reads fail once a number of calls has been made.\<close>

definition failing_sys :: "nat \<Rightarrow> sys" where
  "failing_sys n = ideal_sys\<lparr>sy_read := (\<lambda>t data off k. if n \<le> t then None else Some (slice (unat off) k data))\<rparr>"


end
