(* ===== verification/SpmBpe.thy ===== *)
theory SpmBpe
  imports MergeCache
begin

text \<open>
  The byte-pair tokenizer of the Gemma 3 family, \<open>src/tokenizer/spm_bpe.cpp\<close>: loading from the
  metadata, the merge loop over a linked list of symbols with a priority queue of candidates, and
  \<open>encode\<close>. The rank table is the disk merge index of \<open>MergeIndex\<close>.
\<close>

text \<open>The exceptions: the tokenizer's own, and those of the merge index.\<close>

datatype spm_error =
    Spm tokenizer_error
  | Index merge_error

definition kSpaceMarker :: string where
  "kSpaceMarker = [char_of (226::nat), char_of (150::nat), char_of (129::nat)]"

definition utf8_len :: "char \<Rightarrow> nat" where
  "utf8_len c =
     (if byte c < 0x80 then 1
      else if byte c div 2 ^ 5 = 0x06 then 2
      else if byte c div 2 ^ 4 = 0x0E then 3
      else if byte c div 2 ^ 3 = 0x1E then 4
      else 1)"

lemma utf8_len_pos: "0 < utf8_len c"
  by (simp add: utf8_len_def)

definition is_single_codepoint :: "string \<Rightarrow> bool" where
  "is_single_codepoint s \<longleftrightarrow> s \<noteq> [] \<and> utf8_len (s ! 0) = length s"

definition hex_value :: "char \<Rightarrow> int option" where
  "hex_value c =
     (if 48 \<le> byte c \<and> byte c \<le> 57 then Some (int (byte c) - 48)
      else if 65 \<le> byte c \<and> byte c \<le> 70 then Some (int (byte c) - 65 + 10)
      else if 97 \<le> byte c \<and> byte c \<le> 102 then Some (int (byte c) - 97 + 10)
      else None)"

definition parse_byte_token :: "string \<Rightarrow> int" where
  "parse_byte_token s =
     (if length s \<noteq> 6 \<or> s ! 0 \<noteq> CHR ''<'' \<or> s ! 1 \<noteq> CHR ''0'' \<or> s ! 2 \<noteq> CHR ''x'' \<or> s ! 5 \<noteq> CHR ''>'' then - 1
      else case hex_value (s ! 3) of None \<Rightarrow> - 1
        | Some d3 \<Rightarrow> (case hex_value (s ! 4) of None \<Rightarrow> - 1 | Some d4 \<Rightarrow> (0 * 16 + d3) * 16 + d4))"

definition optional_id :: "gguf_file \<Rightarrow> string \<Rightarrow> tokenizer_error + int" where
  "optional_id f key =
     (case gf_kv f key of
        None \<Rightarrow> Inr (- 1)
      | Some (KvU32 value) \<Rightarrow> if value > word_of_nat INT32_MAX then Inl (TokenIdOutOfRange key) else Inr (uint value)
      | Some (KvI32 value) \<Rightarrow> Inr value
      | Some _ \<Rightarrow> Inl (WrongTokenizerType key))"

definition optional_flag :: "gguf_file \<Rightarrow> string \<Rightarrow> bool \<Rightarrow> tokenizer_error + bool" where
  "optional_flag f key fallback =
     (case gf_kv f key of
        None \<Rightarrow> Inr fallback
      | Some (KvBool b) \<Rightarrow> Inr b
      | Some _ \<Rightarrow> Inl (WrongTokenizerType key))"

record spm_tokenizer =
  sp_vocab_size :: int
  char_ix :: "string \<rightharpoonup> int"
  byte_id :: "int list"
  sp_index :: merge_index
  sp_bos :: int
  sp_eos :: int
  sp_pad :: int
  sp_unk :: int
  prefix_id :: int
  suffix_id :: int
  sp_max_seq_len :: int

subsection \<open>Construction\<close>

text \<open>One iteration of the loop over the vocabulary: the byte table and the single characters.\<close>

definition scan_piece :: "nat \<Rightarrow> string \<Rightarrow> int list \<times> (string \<rightharpoonup> int) \<Rightarrow> int list \<times> (string \<rightharpoonup> int)" where
  "scan_piece i piece s =
     (let b = parse_byte_token piece
      in (if b \<ge> 0 then (fst s)[nat b := int i] else fst s,
          if is_single_codepoint piece then emplace (snd s) piece (int i) else snd s))"

fun scan_pieces :: "nat \<Rightarrow> string list \<Rightarrow> int list \<times> (string \<rightharpoonup> int) \<Rightarrow> int list \<times> (string \<rightharpoonup> int)" where
  "scan_pieces i [] s = s"
| "scan_pieces i (piece # ps) s = scan_pieces (Suc i) ps (scan_piece i piece s)"

definition validate_optional_id :: "nat \<Rightarrow> int \<Rightarrow> string \<Rightarrow> tokenizer_error + unit" where
  "validate_optional_id n i key = guardE (\<not> (i < - 1 \<or> i \<ge> int n)) (OutsideVocabulary key)"

text \<open>The special tokens, and what is put before and after the text.\<close>

definition special_ids :: "gguf_file \<Rightarrow> nat \<Rightarrow> spm_tokenizer \<Rightarrow> tokenizer_error + spm_tokenizer" where
  "special_ids f n t =
     bindE (optional_id f ''tokenizer.ggml.bos_token_id'') (\<lambda>bos.
     bindE (optional_id f ''tokenizer.ggml.eos_token_id'') (\<lambda>eos.
     bindE (optional_id f ''tokenizer.ggml.padding_token_id'') (\<lambda>pad.
     bindE (optional_id f ''tokenizer.ggml.unknown_token_id'') (\<lambda>unk.
     bindE (validate_optional_id n bos ''tokenizer.ggml.bos_token_id'') (\<lambda>_.
     bindE (validate_optional_id n eos ''tokenizer.ggml.eos_token_id'') (\<lambda>_.
     bindE (validate_optional_id n pad ''tokenizer.ggml.padding_token_id'') (\<lambda>_.
     bindE (validate_optional_id n unk ''tokenizer.ggml.unknown_token_id'') (\<lambda>_.
     bindE (optional_flag f ''tokenizer.ggml.add_bos_token'' True) (\<lambda>add_bos.
       let prefix = if add_bos \<and> bos \<ge> 0 then bos else prefix_id t in
     bindE (optional_id f ''tokenizer.ggml.suffix_token_id'') (\<lambda>suffix.
     bindE (validate_optional_id n suffix ''tokenizer.ggml.suffix_token_id'') (\<lambda>_.
     bindE (if suffix \<ge> 0 then Inr suffix
            else bindE (optional_flag f ''tokenizer.ggml.add_eos_token'' False) (\<lambda>add_eos.
                   Inr (if add_eos \<and> eos \<ge> 0 then eos else suffix_id t))) (\<lambda>wrap.
     bindE (guardE (\<not> (- 1 \<in> set (byte_id t) \<and> unk < 0)) Undecodable) (\<lambda>_.
       Inr (t\<lparr>sp_bos := bos, sp_eos := eos, sp_pad := pad, sp_unk := unk, prefix_id := prefix,
         suffix_id := wrap\<rparr>))))))))))))))"

definition new_spm :: spm_tokenizer where
  "new_spm = \<lparr>sp_vocab_size = 0, char_ix = Map.empty, byte_id = replicate 256 (- 1), sp_index = empty_index,
     sp_bos = - 1, sp_eos = - 1, sp_pad = - 1, sp_unk = - 1, prefix_id = - 1, suffix_id = - 1,
     sp_max_seq_len = 512\<rparr>"

definition spm_from_gguf ::
  "sys \<Rightarrow> (string \<Rightarrow> string option) \<Rightarrow> (nat \<Rightarrow> bool) \<Rightarrow> nat \<Rightarrow> gguf_file option \<Rightarrow> (world, spm_error, spm_tokenizer) action" where
  "spm_from_gguf sy env mkdir_ok pid ctx =
     (case ctx of None \<Rightarrow> throwM (Spm NullContext)
      | Some f \<Rightarrow>
     bindM (liftM Spm (require_str_array f ''tokenizer.ggml.tokens'')) (\<lambda>tokens.
       let n = length tokens in
     bindM (liftM Spm (guardE (\<not> (n = 0 \<or> n > INT32_MAX)) UnsupportedSize)) (\<lambda>_.
       let pieces = scan_pieces 0 tokens (byte_id new_spm, char_ix new_spm) in
     bindM (liftM Spm (require_str_array f ''tokenizer.ggml.merges'')) (\<lambda>merges.
     bindM (liftM Spm (guardE (\<not> (length merges > INT32_MAX)) TooManyMerges)) (\<lambda>_.
     bindM (mapErrM Index (index_from_gguf sy env mkdir_ok pid tokens merges)) (\<lambda>ix.
     liftM Spm (special_ids f n (new_spm\<lparr>sp_vocab_size := int n, byte_id := fst pieces, char_ix := snd pieces,
       sp_index := ix\<rparr>))))))))"

definition spm_set_max_seq_len :: "int \<Rightarrow> spm_tokenizer \<Rightarrow> spm_tokenizer" where
  "spm_set_max_seq_len n t = t\<lparr>sp_max_seq_len := n\<rparr>"

subsection \<open>The symbol list\<close>

record symbol =
  sym_id :: int
  sym_prev :: int
  sym_next :: int

definition seed_char :: "spm_tokenizer \<Rightarrow> string \<Rightarrow> int list" where
  "seed_char t ch =
     (case char_ix t ch of
        Some i \<Rightarrow> [i]
      | None \<Rightarrow> map (\<lambda>c. let i = byte_id t ! byte c in if i \<ge> 0 then i else sp_unk t) ch)"

function seeds :: "spm_tokenizer \<Rightarrow> string \<Rightarrow> int list" where
  "seeds t [] = []"
| "seeds t (c # cs) =
     (let len = min (utf8_len c) (length (c # cs))
      in seed_char t (take len (c # cs)) @ seeds t (drop len (c # cs)))"
  by pat_completeness auto
termination
  by (relation "measure (length \<circ> snd)") (simp_all add: utf8_len_pos min_def)

text \<open>The two passes over the symbols: push them, then link them.\<close>

definition link :: "int list \<Rightarrow> symbol list" where
  "link is =
     (let n = i32_of_nat (length is)
      in map (\<lambda>(i, k). \<lparr>sym_id = k, sym_prev = i - 1, sym_next = if i + 1 < n then i + 1 else - 1\<rparr>)
           (zip [0 .. n - 1] is))"

subsection \<open>Candidates\<close>

record candidate =
  cd_rank :: int
  cd_left :: int
  cd_right :: int
  cd_lid :: int
  cd_rid :: int
  cd_merged :: int

definition worse :: "candidate \<Rightarrow> candidate \<Rightarrow> bool" where
  "worse a b \<longleftrightarrow> (if cd_rank a \<noteq> cd_rank b then cd_rank a > cd_rank b else cd_left a > cd_left b)"

text \<open>
  \<open>std::priority_queue\<close>: \<open>top\<close> is an element that no other is better than. Which of several equally
  good ones it is, is left open by the standard; the model takes the one that was pushed first.
\<close>

fun top_of :: "candidate \<Rightarrow> candidate list \<Rightarrow> candidate" where
  "top_of c [] = c"
| "top_of c (d # ds) = top_of (if worse c d then d else c) ds"

type_synonym ('s, 'e) looker = "u64 \<Rightarrow> ('s, 'e, rule option) action"

definition offer :: "('s, 'e) looker \<Rightarrow> symbol list \<Rightarrow> int \<Rightarrow> int \<Rightarrow> candidate list \<Rightarrow> ('s, 'e, candidate list) action" where
  "offer look syms l r queue =
     (if l < 0 \<or> r < 0 then retM queue
      else bindM (look (pair_key (sym_id (syms ! nat l)) (sym_id (syms ! nat r)))) (\<lambda>res.
        case res of None \<Rightarrow> retM queue
        | Some ru \<Rightarrow> retM (queue @ [\<lparr>cd_rank = rule_rank ru, cd_left = l, cd_right = r,
            cd_lid = sym_id (syms ! nat l), cd_rid = sym_id (syms ! nat r), cd_merged = rule_merged ru\<rparr>])))"

text \<open>The test that a candidate still describes the list.\<close>

definition current :: "candidate \<Rightarrow> symbol list \<Rightarrow> bool" where
  "current c syms \<longleftrightarrow>
     \<not> (sym_id (syms ! nat (cd_left c)) \<noteq> cd_lid c \<or> sym_next (syms ! nat (cd_left c)) \<noteq> cd_right c)
     \<and> \<not> sym_id (syms ! nat (cd_right c)) \<noteq> cd_rid c"

definition apply_merge :: "candidate \<Rightarrow> symbol list \<Rightarrow> symbol list" where
  "apply_merge c syms =
     (let l = nat (cd_left c); r = nat (cd_right c); next = sym_next (syms ! r);
          syms = syms[l := (syms ! l)\<lparr>sym_id := cd_merged c, sym_next := next\<rparr>];
          syms = (if next \<ge> 0 then syms[nat next := (syms ! nat next)\<lparr>sym_prev := cd_left c\<rparr>] else syms)
      in syms[r := (syms ! r)\<lparr>sym_id := - 1\<rparr>])"

text \<open>The loop \<open>while (!queue.empty())\<close>; \<open>None\<close> is a loop that does not end.\<close>

partial_function (option) merge_loop ::
  "('s, 'e) looker \<Rightarrow> candidate list \<Rightarrow> symbol list \<Rightarrow> 's \<Rightarrow> (('e + symbol list) \<times> 's) option" where
  "merge_loop look queue syms s =
     (if queue = [] then Some (Inr syms, s)
      else let c = top_of (hd queue) (tl queue); rest = remove1 c queue in
        if \<not> current c syms then merge_loop look rest syms s
        else let syms = apply_merge c syms in
          (case bindM (offer look syms (sym_prev (syms ! nat (cd_left c))) (cd_left c) rest)
                 (offer look syms (cd_left c) (sym_next (syms ! nat (cd_left c)))) s of
             (Inl e, t) \<Rightarrow> Some (Inl e, t)
           | (Inr q, t) \<Rightarrow> merge_loop look q syms t))"

text \<open>The loop that walks the list and pushes the ids.\<close>

partial_function (option) collect :: "symbol list \<Rightarrow> int \<Rightarrow> int \<Rightarrow> int \<Rightarrow> int list \<Rightarrow> int list option" where
  "collect syms i produced budget out =
     (if i \<ge> 0 \<and> produced < budget then
        let sym = syms ! nat i in
        if sym_id sym < 0 then collect syms (sym_next sym) produced budget out
        else collect syms (sym_next sym) (produced + 1) budget (out @ [sym_id sym])
      else Some out)"

definition run_bpe ::
  "('s, 'e) looker \<Rightarrow> int list \<Rightarrow> int \<Rightarrow> int list \<Rightarrow> 's \<Rightarrow> (('e + int list) \<times> 's) option" where
  "run_bpe look is budget out s =
     (let syms = link is; n = i32_of_nat (length syms) in
      case foldM (\<lambda>i. offer look syms i (i + 1)) [0 .. n - 2] [] s of
        (Inl e, t) \<Rightarrow> Some (Inl e, t)
      | (Inr queue, t) \<Rightarrow>
          (case merge_loop look queue syms t of
             None \<Rightarrow> None
           | Some (Inl e, u) \<Rightarrow> Some (Inl e, u)
           | Some (Inr syms', u) \<Rightarrow>
               (case collect syms' 0 0 budget out of None \<Rightarrow> None | Some ids \<Rightarrow> Some (Inr ids, u))))"

text \<open>\<open>SpmBpeTokenizer::bpe\<close>: the ids pushed behind \<open>out\<close>, and the pages that were read.\<close>

definition bpe :: "sys \<Rightarrow> spm_tokenizer \<Rightarrow> nat \<Rightarrow> string \<Rightarrow> int \<Rightarrow> int list \<Rightarrow> (merge_error + int list \<times> u64) option" where
  "bpe sy t time s budget out =
     (if budget \<le> 0 \<or> s = [] then Some (Inr (out, 0))
      else let is = seeds t s in
        if is = [] then Some (Inr (out, 0))
        else case run_bpe (find sy (sp_index t)) is budget out (new_scratch time) of
               None \<Rightarrow> None
             | Some (Inl e, u) \<Rightarrow> Some (Inl e)
             | Some (Inr ids, u) \<Rightarrow> Some (Inr (ids, page_reads u)))"

subsection \<open>Encoding a text\<close>

definition normalize_text :: "string \<Rightarrow> string" where
  "normalize_text txt = concat (map (\<lambda>c. if c = CHR '' '' then kSpaceMarker else [c]) txt)"

definition spm_encode_impl ::
  "sys \<Rightarrow> spm_tokenizer \<Rightarrow> nat \<Rightarrow> string \<Rightarrow> int \<Rightarrow> (spm_error + int list \<times> u64) option" where
  "spm_encode_impl sy t time txt override =
     (let limit = if override > 0 then override else sp_max_seq_len t;
          reserved = (if prefix_id t \<ge> 0 then 1 else 0) + (if suffix_id t \<ge> 0 then 1 else 0)
      in if limit < reserved then Some (Inl (Spm LimitTooSmall))
         else let budget = max (limit - reserved) 0;
                  ids = if prefix_id t \<ge> 0 then [prefix_id t] else []
              in case bpe sy t time (normalize_text txt) budget ids of
                   None \<Rightarrow> None
                 | Some (Inl e) \<Rightarrow> Some (Inl (Index e))
                 | Some (Inr (ids, reads)) \<Rightarrow>
                     Some (Inr (if suffix_id t \<ge> 0 then ids @ [suffix_id t] else ids, reads)))"

definition spm_encode ::
  "sys \<Rightarrow> spm_tokenizer \<Rightarrow> nat \<Rightarrow> string \<Rightarrow> int \<Rightarrow> (spm_error + int list) option" where
  "spm_encode sy t time txt override = map_option (map_sum id fst) (spm_encode_impl sy t time txt override)"

subsection \<open>The reference: apply the lowest-ranked pair, leftmost first\<close>

definition mergeable :: "(u64 \<Rightarrow> rule option) \<Rightarrow> int list \<Rightarrow> nat \<Rightarrow> rule \<Rightarrow> bool" where
  "mergeable rules xs k r \<longleftrightarrow> Suc k < length xs \<and> rules (pair_key (xs ! k) (xs ! Suc k)) = Some r"

fun best_pair :: "(u64 \<Rightarrow> rule option) \<Rightarrow> int list \<Rightarrow> (nat \<times> rule) option" where
  "best_pair rules (x # y # zs) =
     (case (rules (pair_key x y), best_pair rules (y # zs)) of
        (None, None) \<Rightarrow> None
      | (Some r, None) \<Rightarrow> Some (0, r)
      | (None, Some (k, r')) \<Rightarrow> Some (Suc k, r')
      | (Some r, Some (k, r')) \<Rightarrow> if rule_rank r \<le> rule_rank r' then Some (0, r) else Some (Suc k, r'))"
| "best_pair rules _ = None"

definition merge_at :: "nat \<Rightarrow> int \<Rightarrow> int list \<Rightarrow> int list" where
  "merge_at k m xs = take k xs @ m # drop (k + 2) xs"

lemma best_pair_mergeable: "best_pair rules xs = Some (k, r) \<Longrightarrow> mergeable rules xs k r"
  by (induction rules xs arbitrary: k rule: best_pair.induct)
    (auto simp: mergeable_def split: option.splits if_splits)

lemma merge_at_shorter: "best_pair rules xs = Some (k, r) \<Longrightarrow> length (merge_at k m xs) < length xs"
  using best_pair_mergeable [of rules xs k r] by (auto simp: merge_at_def mergeable_def)

function reduce :: "(u64 \<Rightarrow> rule option) \<Rightarrow> int list \<Rightarrow> int list" where
  "reduce rules xs =
     (case best_pair rules xs of None \<Rightarrow> xs | Some (k, r) \<Rightarrow> reduce rules (merge_at k (rule_merged r) xs))"
  by pat_completeness auto
termination
  by (relation "measure (length \<circ> snd)")
    (auto intro: merge_at_shorter)

declare reduce.simps [simp del]

end
