(* ===== verification/SpmMerge.thy ===== *)
theory SpmMerge
  imports SpmBpe
begin

text \<open>
  The merge loop of the byte-pair tokenizer computes the reference \<open>reduce\<close>. The symbols that are
  still alive form a chain through the linked list; every adjacent pair of the chain that has a
  rule has a candidate in the queue; a candidate that is still current is such a pair. The rank
  table enters through the interface \<open>merge_source\<close>, which the disk merge index implements.
\<close>

subsection \<open>The best pair\<close>

lemma mergeable_Cons:
  "mergeable rules (x # xs) k r \<longleftrightarrow>
     (case k of 0 \<Rightarrow> xs \<noteq> [] \<and> rules (pair_key x (hd xs)) = Some r | Suc j \<Rightarrow> mergeable rules xs j r)"
  by (cases k; cases xs) (auto simp: mergeable_def)

lemma best_pair_None: "best_pair rules xs = None \<longleftrightarrow> (\<forall>k r. \<not> mergeable rules xs k r)"
proof (induction rules xs rule: best_pair.induct)
  case (1 rules x y zs)
  have "(\<forall>k r. \<not> mergeable rules (x # y # zs) k r)
      \<longleftrightarrow> rules (pair_key x y) = None \<and> (\<forall>k r. \<not> mergeable rules (y # zs) k r)"
  proof -
    have "(\<forall>k r. \<not> mergeable rules (x # y # zs) k r)
        \<longleftrightarrow> (\<forall>r. \<not> mergeable rules (x # y # zs) 0 r) \<and> (\<forall>j r. \<not> mergeable rules (x # y # zs) (Suc j) r)"
      by (metis nat.exhaust)
    then show ?thesis by (simp add: mergeable_Cons)
  qed
  then show ?case using 1 by (auto split: option.splits)
qed (auto simp: mergeable_def)

text \<open>The best pair has the lowest rank, and is the leftmost of those.\<close>

lemma best_pair_least:
  assumes "best_pair rules xs = Some (k, r)" and "mergeable rules xs j r'"
  shows "rule_rank r < rule_rank r' \<or> (rule_rank r = rule_rank r' \<and> k \<le> j)"
  using assms
proof (induction rules xs arbitrary: k r j r' rule: best_pair.induct)
  case (1 rules x y zs)
  show ?case
  proof (cases j)
    case 0
    then show ?thesis using 1 by (auto simp: mergeable_Cons split: option.splits if_splits)
  next
    case (Suc i)
    then have m: "mergeable rules (y # zs) i r'" using 1(3) by (simp add: mergeable_Cons)
    then obtain k2 r2 where b: "best_pair rules (y # zs) = Some (k2, r2)"
      using best_pair_None [of rules "y # zs"] by (cases "best_pair rules (y # zs)") auto
    from 1(1) [OF b m] 1(2) b Suc show ?thesis by (auto split: option.splits if_splits)
  qed
qed (auto simp: mergeable_def)

lemma best_pair_eqI:
  assumes "mergeable rules xs k r"
    and "\<And>j r'. mergeable rules xs j r' \<Longrightarrow> rule_rank r < rule_rank r' \<or> (rule_rank r = rule_rank r' \<and> k \<le> j)"
  shows "best_pair rules xs = Some (k, r)"
proof (cases "best_pair rules xs")
  case None
  then show ?thesis using assms(1) by (simp add: best_pair_None)
next
  case (Some b)
  obtain k2 r2 where b: "b = (k2, r2)" by fastforce
  note best = Some [unfolded b]
  have "k2 = k"
    using best_pair_least [OF best assms(1)] assms(2) [OF best_pair_mergeable [OF best]] by auto
  then show ?thesis using best best_pair_mergeable [OF best] assms(1) by (auto simp: mergeable_def)
qed

text \<open>A merge keeps the ids within any bound that the rules keep.\<close>

lemma reduce_bounded:
  assumes "\<forall>key r. rules key = Some r \<longrightarrow> P (rule_merged r)" and "\<forall>x\<in>set xs. P x"
  shows "\<forall>x\<in>set (reduce rules xs). P x"
  using assms
proof (induction rules xs rule: reduce.induct)
  case (1 rules xs)
  show ?case
  proof (cases "best_pair rules xs")
    case None
    then show ?thesis using 1(3) by (subst reduce.simps) simp
  next
    case (Some b)
    obtain k r where b: "b = (k, r)" by fastforce
    have "P (rule_merged r)" using best_pair_mergeable [OF Some [unfolded b]] 1(2) by (auto simp: mergeable_def)
    then have "\<forall>x\<in>set (merge_at k (rule_merged r) xs). P x"
      using 1(3) by (auto simp: merge_at_def dest: in_set_takeD in_set_dropD)
    from 1(1) [OF Some b [symmetric] 1(2) this] show ?thesis by (subst reduce.simps) (simp add: Some b)
  qed
qed

lemma reduce_nonempty: "xs \<noteq> [] \<Longrightarrow> reduce rules xs \<noteq> []"
proof (induction rules xs rule: reduce.induct)
  case (1 rules xs)
  then show ?case by (subst reduce.simps) (auto simp: merge_at_def split: option.splits)
qed

lemma reduce_length: "length (reduce rules xs) \<le> length xs"
proof (induction rules xs rule: reduce.induct)
  case (1 rules xs)
  show ?case
  proof (cases "best_pair rules xs")
    case None
    then show ?thesis by (subst reduce.simps) simp
  next
    case (Some b)
    obtain k r where b: "b = (k, r)" by fastforce
    show ?thesis
      using 1 [OF Some b [symmetric]] merge_at_shorter [OF Some [unfolded b], of "rule_merged r"]
      by (subst reduce.simps) (simp add: Some b)
  qed
qed

subsection \<open>Adjacent elements of a list\<close>

fun adj :: "'a \<Rightarrow> 'a \<Rightarrow> 'a list \<Rightarrow> bool" where
  "adj x y (a # b # xs) = ((x = a \<and> y = b) \<or> adj x y (b # xs))"
| "adj x y _ = False"

lemma adj_append:
  "adj x y (A @ B) \<longleftrightarrow> adj x y A \<or> adj x y B \<or> (A \<noteq> [] \<and> B \<noteq> [] \<and> x = last A \<and> y = hd B)"
proof (induction A)
  case Nil
  then show ?case by simp
next
  case (Cons a A)
  then show ?case by (cases A; cases B) auto
qed

lemma adj_Cons: "adj x y (b # B) \<longleftrightarrow> (B \<noteq> [] \<and> x = b \<and> y = hd B) \<or> adj x y B"
  by (cases B) auto

lemma adj_nth: "adj x y xs \<longleftrightarrow> (\<exists>k. Suc k < length xs \<and> x = xs ! k \<and> y = xs ! Suc k)"
proof (induction xs)
  case Nil
  then show ?case by simp
next
  case (Cons a B)
  have "(\<exists>k. P k) \<longleftrightarrow> P 0 \<or> (\<exists>k. P (Suc k))" for P :: "nat \<Rightarrow> bool" by (metis nat.exhaust)
  note this [of "\<lambda>k. Suc k < length (a # B) \<and> x = (a # B) ! k \<and> y = (a # B) ! Suc k"]
  then show ?case using Cons by (cases B) (simp_all add: adj_Cons)
qed

lemma adj_in_set: "adj x y xs \<Longrightarrow> x \<in> set xs \<and> y \<in> set xs"
  by (induction x y xs rule: adj.induct) auto

subsection \<open>The chain of the symbols that are alive\<close>

text \<open>The elements of \<open>xs\<close> are linked one to the next, coming from \<open>p\<close> and going on to \<open>q\<close>.\<close>

definition hd_or :: "nat list \<Rightarrow> int \<Rightarrow> int" where
  "hd_or xs q = (case xs of [] \<Rightarrow> q | y # _ \<Rightarrow> int y)"

definition last_or :: "int \<Rightarrow> nat list \<Rightarrow> int" where
  "last_or p xs = (if xs = [] then p else int (last xs))"

lemma hd_or_simps [simp]: "hd_or [] q = q" "hd_or (y # ys) q = int y"
  by (simp_all add: hd_or_def)

lemma last_or_simps [simp]: "last_or p [] = p" "last_or p (y # ys) = last_or (int y) ys"
  by (auto simp: last_or_def)

lemma hd_or_append: "hd_or (A @ B) q = hd_or A (hd_or B q)"
  by (cases A) auto

lemma last_or_append: "last_or p (A @ B) = last_or (last_or p A) B"
  by (induction A arbitrary: p) auto

fun linked :: "symbol list \<Rightarrow> int \<Rightarrow> nat list \<Rightarrow> int \<Rightarrow> bool" where
  "linked syms p [] q = True"
| "linked syms p (x # xs) q =
     (x < length syms \<and> sym_prev (syms ! x) = p \<and> sym_next (syms ! x) = hd_or xs q \<and> linked syms (int x) xs q)"

lemma linked_append: "linked syms p (A @ B) q \<longleftrightarrow> linked syms p A (hd_or B q) \<and> linked syms (last_or p A) B q"
  by (induction A arbitrary: p) (auto simp: hd_or_append)

lemma linked_cong:
  assumes "\<forall>x\<in>set xs. syms' ! x = syms ! x" and "length syms' = length syms"
  shows "linked syms' p xs q = linked syms p xs q"
  using assms by (induction xs arbitrary: p) auto

lemma linked_bound: "linked syms p xs q \<Longrightarrow> \<forall>x\<in>set xs. x < length syms"
  by (induction xs arbitrary: p) auto

definition chain :: "symbol list \<Rightarrow> nat list \<Rightarrow> bool" where
  "chain syms live \<longleftrightarrow> linked syms (- 1) live (- 1) \<and> sorted_wrt (<) live \<and> live \<noteq> [] \<and> hd live = 0
     \<and> (\<forall>x\<in>set live. 0 \<le> sym_id (syms ! x))
     \<and> (\<forall>x < length syms. x \<notin> set live \<longrightarrow> sym_id (syms ! x) = - 1)"

definition ids_of :: "symbol list \<Rightarrow> nat list \<Rightarrow> int list" where
  "ids_of syms live = map (\<lambda>x. sym_id (syms ! x)) live"

text \<open>The candidate of an adjacent pair.\<close>

definition candidate_of :: "symbol list \<Rightarrow> nat \<Rightarrow> nat \<Rightarrow> rule \<Rightarrow> candidate" where
  "candidate_of syms x y r = \<lparr>cd_rank = rule_rank r, cd_left = int x, cd_right = int y,
     cd_lid = sym_id (syms ! x), cd_rid = sym_id (syms ! y), cd_merged = rule_merged r\<rparr>"

definition pair_rule :: "(u64 \<Rightarrow> rule option) \<Rightarrow> symbol list \<Rightarrow> nat \<Rightarrow> nat \<Rightarrow> rule option" where
  "pair_rule rules syms x y = rules (pair_key (sym_id (syms ! x)) (sym_id (syms ! y)))"

text \<open>A candidate of the queue was a pair with that rule when it was pushed.\<close>

definition sound :: "(u64 \<Rightarrow> rule option) \<Rightarrow> nat \<Rightarrow> candidate \<Rightarrow> bool" where
  "sound rules n c \<longleftrightarrow>
     rules (pair_key (cd_lid c) (cd_rid c)) = Some \<lparr>rule_rank = cd_rank c, rule_merged = cd_merged c\<rparr>
     \<and> 0 \<le> cd_lid c \<and> 0 \<le> cd_rid c \<and> 0 \<le> cd_left c \<and> cd_left c < int n \<and> 0 \<le> cd_right c \<and> cd_right c < int n"

definition complete :: "(u64 \<Rightarrow> rule option) \<Rightarrow> symbol list \<Rightarrow> nat list \<Rightarrow> candidate list \<Rightarrow> bool" where
  "complete rules syms live queue \<longleftrightarrow>
     (\<forall>x y r. adj x y live \<and> pair_rule rules syms x y = Some r \<longrightarrow> candidate_of syms x y r \<in> set queue)"

text \<open>A candidate that is current is an adjacent pair of the chain.\<close>

lemma current_pair:
  assumes "chain syms live" and "sound rules (length syms) c" and "current c syms"
  shows "\<exists>A x y B r. live = A @ x # y # B \<and> pair_rule rules syms x y = Some r \<and> c = candidate_of syms x y r"
proof -
  define x y where "x = nat (cd_left c)" and "y = nat (cd_right c)"
  have c: "cd_left c = int x" "cd_right c = int y" "x < length syms" "y < length syms" "0 \<le> cd_lid c"
    and rule: "rules (pair_key (cd_lid c) (cd_rid c)) = Some \<lparr>rule_rank = cd_rank c, rule_merged = cd_merged c\<rparr>"
    using assms(2) by (auto simp: sound_def x_def y_def)
  have cur: "sym_id (syms ! x) = cd_lid c" "sym_next (syms ! x) = int y" "sym_id (syms ! y) = cd_rid c"
    using assms(3) c by (auto simp: current_def)
  have "x \<in> set live" using assms(1) c cur(1) by (auto simp: chain_def)
  then obtain A B where live: "live = A @ x # B" by (auto simp: in_set_conv_decomp)
  have "hd_or B (- 1) = int y" using assms(1) cur(2) by (auto simp: chain_def live linked_append)
  then obtain B' where "B = y # B'" by (cases B) auto
  moreover have "c = candidate_of syms x y \<lparr>rule_rank = cd_rank c, rule_merged = cd_merged c\<rparr>"
    by (cases c) (use c cur in \<open>simp add: candidate_of_def\<close>)
  moreover have "pair_rule rules syms x y = Some \<lparr>rule_rank = cd_rank c, rule_merged = cd_merged c\<rparr>"
    using rule cur by (simp add: pair_rule_def)
  ultimately show ?thesis using live by blast
qed

subsection \<open>One merge\<close>

lemma apply_merge_nth:
  assumes "chain syms (A @ l # r # B)" and "syms' = apply_merge (candidate_of syms l r ru) syms"
  shows "length syms' = length syms"
    and "syms' ! l = (syms ! l)\<lparr>sym_id := rule_merged ru, sym_next := hd_or B (- 1)\<rparr>"
    and "sym_id (syms' ! r) = - 1"
    and "\<And>b B'. B = b # B' \<Longrightarrow> syms' ! b = (syms ! b)\<lparr>sym_prev := int l\<rparr>"
    and "\<And>x. x \<noteq> l \<Longrightarrow> x \<noteq> r \<Longrightarrow> int x \<noteq> hd_or B (- 1) \<Longrightarrow> syms' ! x = syms ! x"
proof -
  have n: "sym_next (syms ! r) = hd_or B (- 1)" "l < length syms" "r < length syms" "l \<noteq> r"
    and B: "\<And>b B'. B = b # B' \<Longrightarrow> b < length syms \<and> b \<noteq> l \<and> b \<noteq> r"
    using assms(1) by (auto simp: chain_def linked_append sorted_wrt_append)
  note def = assms(2) [unfolded apply_merge_def candidate_of_def Let_def]
  show "length syms' = length syms" by (simp add: def)
  show "syms' ! l = (syms ! l)\<lparr>sym_id := rule_merged ru, sym_next := hd_or B (- 1)\<rparr>"
    using n B by (cases B) (simp_all add: def)
  show "sym_id (syms' ! r) = - 1"
    using n B by (cases B) (simp_all add: def)
  show "syms' ! b = (syms ! b)\<lparr>sym_prev := int l\<rparr>" if "B = b # B'" for b B'
    using n B [OF that] that by (simp add: def nth_list_update)
  show "syms' ! x = syms ! x" if "x \<noteq> l" "x \<noteq> r" "int x \<noteq> hd_or B (- 1)" for x
    using n that by (cases B) (simp_all add: def)
qed

lemma apply_merge_id:
  assumes "chain syms (A @ l # r # B)" and "syms' = apply_merge (candidate_of syms l r ru) syms"
  shows "sym_id (syms' ! x) = (if x = l then rule_merged ru else if x = r then - 1 else sym_id (syms ! x))"
proof -
  note nths = apply_merge_nth [OF assms]
  show ?thesis
  proof (cases "int x = hd_or B (- 1)")
    case True
    then obtain B' where "B = x # B'" by (cases B) auto
    moreover from this have "x \<noteq> l" "x \<noteq> r" using assms(1) by (auto simp: chain_def sorted_wrt_append)
    ultimately show ?thesis using nths(4) by simp
  qed (use nths in auto)
qed

lemma apply_merge_chain:
  assumes "chain syms (A @ l # r # B)" and "syms' = apply_merge (candidate_of syms l r ru) syms"
    and "0 \<le> rule_merged ru"
  shows "chain syms' (A @ l # B)"
    and "ids_of syms' (A @ l # B) = merge_at (length A) (rule_merged ru) (ids_of syms (A @ l # r # B))"
proof -
  note nths = apply_merge_nth [OF assms(1,2)] and ids = apply_merge_id [OF assms(1,2)]
  have old: "linked syms (- 1) A (int l)" "linked syms (last_or (- 1) A) (l # r # B) (- 1)"
    and sorted: "sorted_wrt (<) (A @ l # r # B)"
    using assms(1) by (auto simp: chain_def linked_append)
  have A: "\<forall>x\<in>set A. syms' ! x = syms ! x"
    using sorted by (cases B) (auto simp: sorted_wrt_append intro!: nths(5))
  have tail: "linked syms' (int l) B (- 1)"
  proof (cases B)
    case (Cons b B')
    have "\<forall>x\<in>set B'. syms' ! x = syms ! x"
      using sorted Cons by (auto simp: sorted_wrt_append intro!: nths(5))
    from linked_cong [OF this nths(1)] show ?thesis using old(2) Cons nths(1) nths(4) [OF Cons] by simp
  qed simp
  have "linked syms' (- 1) (A @ l # B) (- 1)"
    using old(2) tail nths(1,2) linked_cong [OF A nths(1)] old(1) by (simp add: linked_append)
  moreover have "sorted_wrt (<) (A @ l # B)" using sorted by (auto simp: sorted_wrt_append)
  moreover have "hd (A @ l # B) = 0" using assms(1) by (cases A) (auto simp: chain_def)
  moreover have "0 \<le> sym_id (syms' ! x)" if "x \<in> set (A @ l # B)" for x
    using that assms(1,3) sorted by (auto simp: ids chain_def sorted_wrt_append)
  moreover have "sym_id (syms' ! x) = - 1" if "x < length syms'" "x \<notin> set (A @ l # B)" for x
    using that assms(1) nths(1) by (auto simp: ids chain_def)
  ultimately show "chain syms' (A @ l # B)" by (simp add: chain_def)
  have "r \<notin> set A" "r \<notin> set B" "l \<notin> set A" "l \<notin> set B" using sorted by (auto simp: sorted_wrt_append)
  then show "ids_of syms' (A @ l # B) = merge_at (length A) (rule_merged ru) (ids_of syms (A @ l # r # B))"
    by (auto simp: ids_of_def merge_at_def ids)
qed

text \<open>After a merge only the two pairs at the merged symbol are new.\<close>

lemma apply_merge_complete:
  assumes "chain syms (A @ l # r # B)" and "syms' = apply_merge (candidate_of syms l r ru) syms"
    and "complete rules syms (A @ l # r # B) queue"
    and "adj x y (A @ l # B)" and "x \<noteq> l" and "y \<noteq> l" and "pair_rule rules syms' x y = Some ru'"
  shows "candidate_of syms' x y ru' \<in> set (remove1 (candidate_of syms l r ru) queue)"
proof -
  note ids = apply_merge_id [OF assms(1,2)]
  have sorted: "sorted_wrt (<) (A @ l # r # B)" using assms(1) by (simp add: chain_def)
  have old: "adj x y A \<or> adj x y B" using assms(4-6) by (auto simp: adj_append adj_Cons)
  then have "adj x y (A @ l # r # B)" by (auto simp: adj_append adj_Cons)
  moreover have "x \<noteq> r" "y \<noteq> r" using old sorted by (auto dest!: adj_in_set simp: sorted_wrt_append)
  then have same: "candidate_of syms' x y ru' = candidate_of syms x y ru'" "pair_rule rules syms x y = Some ru'"
    using assms(5-7) by (simp_all add: candidate_of_def pair_rule_def ids)
  ultimately have "candidate_of syms x y ru' \<in> set queue" using assms(3) by (auto simp: complete_def)
  moreover have "candidate_of syms x y ru' \<noteq> candidate_of syms l r ru"
    using assms(5) by (simp add: candidate_of_def)
  ultimately show ?thesis using same by simp
qed

subsection \<open>The queue\<close>

lemma top_of_in: "top_of c ds \<in> set (c # ds)"
  by (induction c ds rule: top_of.induct) (auto split: if_splits)

lemma worse_trans: "\<not> worse a b \<Longrightarrow> \<not> worse b c \<Longrightarrow> \<not> worse a c"
  by (auto simp: worse_def split: if_splits)

lemma worse_asym: "worse a b \<Longrightarrow> \<not> worse b a"
  by (auto simp: worse_def split: if_splits)

lemma worse_refl: "\<not> worse a a"
  by (simp add: worse_def)

lemma top_of_best: "d \<in> set (c # ds) \<Longrightarrow> \<not> worse (top_of c ds) d"
proof (induction c ds arbitrary: d rule: top_of.induct)
  case (1 c)
  then show ?case by (simp add: worse_refl)
next
  case (2 c e ds)
  define f where "f = (if worse c e then e else c)"
  have f: "\<not> worse f c" "\<not> worse f e" using worse_asym [of c e] worse_refl by (auto simp: f_def)
  have IH: "\<not> worse (top_of f ds) d" if "d \<in> set (f # ds)" for d using 2(1) that by (simp add: f_def)
  have "\<not> worse (top_of f ds) c" "\<not> worse (top_of f ds) e"
    using worse_trans [OF IH [of f]] f by auto
  then show ?case using 2(2) IH by (auto simp flip: f_def)
qed

text \<open>A current candidate on top of the queue is the pair the reference picks.\<close>

lemma top_is_best:
  assumes "chain syms (A @ l # r # B)" and "complete rules syms (A @ l # r # B) (q # qs)"
    and "pair_rule rules syms l r = Some ru" and "top_of q qs = candidate_of syms l r ru"
  shows "best_pair rules (ids_of syms (A @ l # r # B)) = Some (length A, ru)"
proof (rule best_pair_eqI)
  let ?live = "A @ l # r # B"
  show "mergeable rules (ids_of syms ?live) (length A) ru"
    using assms(3) by (simp add: mergeable_def ids_of_def pair_rule_def nth_append)
  fix j ru'
  assume m: "mergeable rules (ids_of syms ?live) j ru'"
  then have j: "Suc j < length ?live" by (simp add: mergeable_def ids_of_def)
  define x y where "x = ?live ! j" and "y = ?live ! Suc j"
  have "pair_rule rules syms x y = Some ru'"
    using m j unfolding x_def y_def mergeable_def ids_of_def pair_rule_def by (simp only: nth_map length_map Suc_lessD)
  moreover have "adj x y ?live" using j by (auto simp: adj_nth x_def y_def)
  ultimately have "candidate_of syms x y ru' \<in> set (q # qs)" using assms(2) by (auto simp: complete_def)
  from top_of_best [OF this] have "\<not> worse (candidate_of syms l r ru) (candidate_of syms x y ru')"
    using assms(4) by simp
  then have "rule_rank ru < rule_rank ru' \<or> (rule_rank ru = rule_rank ru' \<and> l \<le> x)"
    by (auto simp: worse_def candidate_of_def split: if_splits)
  moreover have "length A \<le> j" if "l \<le> x"
  proof (rule ccontr)
    assume "\<not> length A \<le> j"
    then have "x < ?live ! length A"
      using assms(1) unfolding x_def chain_def by (intro sorted_wrt_nth_less [where P = "(<)"]) auto
    then show False using that by simp
  qed
  ultimately show "rule_rank ru < rule_rank ru' \<or> (rule_rank ru = rule_rank ru' \<and> length A \<le> j)" by auto
qed

text \<open>One iteration that merges.\<close>

lemma merge_loop_step:
  assumes "queue \<noteq> []" and "top_of (hd queue) (tl queue) = c" and "current c syms"
    and "syms' = apply_merge c syms"
    and "offer look syms' (sym_prev (syms' ! nat (cd_left c))) (cd_left c) (remove1 c queue) s = (Inr q1, s1)"
    and "offer look syms' (cd_left c) (sym_next (syms' ! nat (cd_left c))) q1 s1 = (Inr q2, s2)"
  shows "merge_loop look queue syms s = merge_loop look q2 syms' s2"
  using assms by (subst merge_loop.simps) (simp add: Let_def bindM_def)

subsection \<open>The interface of the rank table\<close>

text \<open>
  What the loop relies on: with a usable table and scratch area a lookup returns the rule of the
  key and leaves a usable scratch area; the merged tokens are ids below a bound.
\<close>

locale merge_source =
  fixes look :: "'i \<Rightarrow> ('s, 'e) looker"
    and good :: "'i \<Rightarrow> bool"
    and scratch_good :: "'i \<Rightarrow> 's \<Rightarrow> bool"
    and rules :: "'i \<Rightarrow> u64 \<Rightarrow> rule option"
    and bound :: "'i \<Rightarrow> int"
  assumes look_rules: "good i \<Longrightarrow> scratch_good i s \<Longrightarrow> \<exists>s'. look i key s = (Inr (rules i key), s') \<and> scratch_good i s'"
    and merged_in: "good i \<Longrightarrow> rules i key = Some r \<Longrightarrow> 0 \<le> rule_merged r \<and> rule_merged r < bound i"
begin

definition offered :: "'i \<Rightarrow> symbol list \<Rightarrow> int \<Rightarrow> int \<Rightarrow> candidate list" where
  "offered i syms l r =
     (if l < 0 \<or> r < 0 then []
      else case pair_rule (rules i) syms (nat l) (nat r) of None \<Rightarrow> []
        | Some ru \<Rightarrow> [candidate_of syms (nat l) (nat r) ru])"

lemma offer_eq:
  assumes "good i" and "scratch_good i s"
  shows "\<exists>s'. offer (look i) syms l r queue s = (Inr (queue @ offered i syms l r), s') \<and> scratch_good i s'"
proof (cases "l < 0 \<or> r < 0")
  case True
  then show ?thesis using assms(2) by (simp add: offer_def offered_def)
next
  case False
  obtain s' where "look i (pair_key (sym_id (syms ! nat l)) (sym_id (syms ! nat r))) s
      = (Inr (pair_rule (rules i) syms (nat l) (nat r)), s')" "scratch_good i s'"
    using look_rules [OF assms] unfolding pair_rule_def by blast
  then show ?thesis using False
    by (auto simp: offer_def offered_def bindM_def candidate_of_def split: option.splits)
qed

definition queue_ok :: "'i \<Rightarrow> symbol list \<Rightarrow> nat list \<Rightarrow> candidate list \<Rightarrow> bool" where
  "queue_ok i syms live queue \<longleftrightarrow> (\<forall>c\<in>set queue. sound (rules i) (length syms) c) \<and> complete (rules i) syms live queue"

lemma offered_sound:
  assumes "chain syms live" and "l < 0 \<or> nat l \<in> set live" and "r < 0 \<or> nat r \<in> set live"
  shows "\<forall>c\<in>set (offered i syms l r). sound (rules i) (length syms) c"
proof (cases "l < 0 \<or> r < 0")
  case False
  then have live: "nat l \<in> set live" "nat r \<in> set live" using assms(2,3) by auto
  then have "nat l < length syms" "nat r < length syms" "0 \<le> sym_id (syms ! nat l)" "0 \<le> sym_id (syms ! nat r)"
    using assms(1) linked_bound [of syms] by (auto simp: chain_def)
  then show ?thesis using False
    by (cases "pair_rule (rules i) syms (nat l) (nat r)") (auto simp: offered_def sound_def candidate_of_def pair_rule_def nat_less_iff)
qed (simp add: offered_def)

lemma last_or_live: "last_or (- 1) A < 0 \<or> nat (last_or (- 1) A) \<in> set (A @ l # B)"
  by (cases A rule: rev_cases) (auto simp: last_or_append)

lemma hd_or_live: "hd_or B (- 1) < 0 \<or> nat (hd_or B (- 1)) \<in> set (A @ l # B)"
  by (cases B) auto

text \<open>The queue after a merge and its two offers.\<close>

lemma queue_after_merge:
  assumes "chain syms (A @ l # r # B)" and "queue_ok i syms (A @ l # r # B) queue"
    and "syms' = apply_merge (candidate_of syms l r ru) syms" and "0 \<le> rule_merged ru"
  shows "queue_ok i syms' (A @ l # B)
    (remove1 (candidate_of syms l r ru) queue @ offered i syms' (last_or (- 1) A) (int l)
       @ offered i syms' (int l) (hd_or B (- 1)))" (is "queue_ok _ _ ?live ?new")
proof -
  have len: "length syms' = length syms" using apply_merge_nth(1) [OF assms(1,3)] .
  note chain' = apply_merge_chain(1) [OF assms(1,3,4)]
  have old: "\<forall>c\<in>set (remove1 (candidate_of syms l r ru) queue). sound (rules i) (length syms') c"
    using assms(2) notin_set_remove1 by (force simp: queue_ok_def len)
  have mid: "int l < 0 \<or> nat (int l) \<in> set ?live" by simp
  have sound: "\<forall>c\<in>set ?new. sound (rules i) (length syms') c"
    using old offered_sound [OF chain' last_or_live mid] offered_sound [OF chain' mid hd_or_live] by auto
  have "candidate_of syms' x y ru' \<in> set ?new"
    if p: "adj x y ?live" "pair_rule (rules i) syms' x y = Some ru'" for x y ru'
  proof (cases "x \<noteq> l \<and> y \<noteq> l")
    case True
    have "complete (rules i) syms (A @ l # r # B) queue" using assms(2) by (simp add: queue_ok_def)
    from apply_merge_complete [OF assms(1,3) this p(1) _ _ p(2)] True show ?thesis by simp
  next
    case False
    have "distinct ?live" using chain' by (auto simp: chain_def strict_sorted_iff)
    then have "(A \<noteq> [] \<and> x = last A \<and> y = l) \<or> (B \<noteq> [] \<and> x = l \<and> y = hd B)"
      using False p(1) by (auto simp: adj_append adj_Cons dest!: adj_in_set)
    then have "(int x = last_or (- 1) A \<and> y = l) \<or> (x = l \<and> int y = hd_or B (- 1))"
      by (cases B) (auto simp: last_or_def)
    then show ?thesis
    proof
      assume "int x = last_or (- 1) A \<and> y = l"
      then show ?thesis using p(2) by (auto simp: offered_def simp flip: \<open>int x = last_or (- 1) A \<and> y = l\<close> [THEN conjunct1])
    next
      assume "x = l \<and> int y = hd_or B (- 1)"
      then show ?thesis using p(2) by (auto simp: offered_def simp flip: \<open>x = l \<and> int y = hd_or B (- 1)\<close> [THEN conjunct2])
    qed
  qed
  then show ?thesis using sound by (simp add: queue_ok_def complete_def)
qed

lemma offered_length: "length (offered i syms l r) \<le> 1"
  by (auto simp: offered_def split: option.splits)

text \<open>An empty queue: no pair is left. A stale candidate can be dropped.\<close>

lemma empty_queue_reduced:
  assumes "queue_ok i syms live []"
  shows "reduce (rules i) (ids_of syms live) = ids_of syms live"
proof -
  have "\<not> mergeable (rules i) (ids_of syms live) k r" for k r
  proof
    assume "mergeable (rules i) (ids_of syms live) k r"
    then have "adj (live ! k) (live ! Suc k) live" "pair_rule (rules i) syms (live ! k) (live ! Suc k) = Some r"
      by (auto simp: mergeable_def ids_of_def pair_rule_def adj_nth)
    then show False using assms unfolding queue_ok_def complete_def by fastforce
  qed
  then have "best_pair (rules i) (ids_of syms live) = None" by (simp add: best_pair_None)
  then show ?thesis by (subst reduce.simps) simp
qed

lemma stale_dropped:
  assumes "chain syms live" and "queue_ok i syms live queue" and "\<not> current c syms"
  shows "queue_ok i syms live (remove1 c queue)"
proof -
  have "candidate_of syms x y r \<noteq> c" if "adj x y live" for x y r
  proof
    assume e: "candidate_of syms x y r = c"
    from that obtain A B where "live = A @ x # y # B"
      by (auto simp: adj_nth) (metis Cons_nth_drop_Suc Suc_lessD append_take_drop_id)
    then have "sym_next (syms ! x) = int y" using assms(1) by (auto simp: chain_def linked_append)
    then show False using assms(3) by (simp add: current_def candidate_of_def flip: e)
  qed
  then show ?thesis
    using assms(2) by (auto simp: queue_ok_def complete_def intro: in_set_remove1 dest: notin_set_remove1)
qed

text \<open>An iteration that merges takes one step of the reference, and shrinks the measure.\<close>

lemma merge_iteration:
  assumes "good i" and "scratch_good i s" and "chain syms live" and "queue_ok i syms live (q # qs)"
    and "current (top_of q qs) syms"
  shows "\<exists>q2 syms' live' s'. merge_loop (look i) (q # qs) syms s = merge_loop (look i) q2 syms' s'
    \<and> scratch_good i s' \<and> chain syms' live' \<and> queue_ok i syms' live' q2
    \<and> reduce (rules i) (ids_of syms live) = reduce (rules i) (ids_of syms' live')
    \<and> 2 * length live' + length q2 < 2 * length live + length (q # qs)"
proof -
  define c where "c = top_of q qs"
  have c: "c \<in> set (q # qs)" using top_of_in [of q qs] by (simp add: c_def)
  then have "sound (rules i) (length syms) c" using assms(4) unfolding queue_ok_def by blast
  from current_pair [OF assms(3) this] assms(5) obtain A l r B ru where
    live: "live = A @ l # r # B" and rule: "pair_rule (rules i) syms l r = Some ru" and cand: "c = candidate_of syms l r ru"
    by (auto simp: c_def)
  define syms' where "syms' = apply_merge (candidate_of syms l r ru) syms"
  have merged: "0 \<le> rule_merged ru" using merged_in [OF assms(1)] rule by (simp add: pair_rule_def)
  note chain0 = assms(3) [unfolded live] and queue0 = assms(4) [unfolded live]
  note chain' = apply_merge_chain [OF chain0 syms'_def merged]
  define q1 q2 where "q1 = remove1 c (q # qs) @ offered i syms' (last_or (- 1) A) (int l)"
    and "q2 = q1 @ offered i syms' (int l) (hd_or B (- 1))"
  have ends: "sym_prev (syms' ! nat (cd_left c)) = last_or (- 1) A" "sym_next (syms' ! nat (cd_left c)) = hd_or B (- 1)"
    "cd_left c = int l"
    using chain'(1) by (auto simp: chain_def linked_append cand candidate_of_def)
  obtain s1 where s1: "offer (look i) syms' (last_or (- 1) A) (int l) (remove1 c (q # qs)) s = (Inr q1, s1)"
    "scratch_good i s1"
    using offer_eq [OF assms(1,2)] unfolding q1_def by blast
  obtain s2 where s2: "offer (look i) syms' (int l) (hd_or B (- 1)) q1 s1 = (Inr q2, s2)" "scratch_good i s2"
    using offer_eq [OF assms(1) s1(2)] unfolding q2_def by blast
  have "merge_loop (look i) (q # qs) syms s = merge_loop (look i) q2 syms' s2"
    by (rule merge_loop_step [where c = c and ?q1.0 = q1 and ?s1.0 = s1])
      (use assms(5) s1(1) s2(1) ends in \<open>simp_all del: remove1.simps add: c_def [symmetric] syms'_def cand [symmetric]\<close>)
  moreover have "queue_ok i syms' (A @ l # B) q2"
    using queue_after_merge [OF chain0 queue0 syms'_def merged] by (simp add: q1_def q2_def cand)
  moreover have "length q2 \<le> Suc (length (q # qs))"
    using c length_pos_if_in_set [OF c] offered_length [of i syms' "last_or (- 1) A" "int l"]
      offered_length [of i syms' "int l" "hd_or B (- 1)"]
    by (simp del: remove1.simps add: q1_def q2_def length_remove1)
  moreover have "best_pair (rules i) (ids_of syms live) = Some (length A, ru)"
  proof -
    have "complete (rules i) syms (A @ l # r # B) (q # qs)" using queue0 unfolding queue_ok_def by blast
    from top_is_best [OF chain0 this rule] show ?thesis using cand by (simp add: live c_def)
  qed
  then have "reduce (rules i) (ids_of syms live) = reduce (rules i) (ids_of syms' (A @ l # B))"
    by (subst reduce.simps) (simp add: chain'(2) live)
  moreover have "2 * length (A @ l # B) + 2 = 2 * length live" by (simp add: live)
  ultimately show ?thesis using s2(2) chain'(1) by (intro exI [of _ q2] exI [of _ syms'] exI [of _ "A @ l # B"] exI [of _ s2]) simp
qed

text \<open>The loop ends, and what is left of the chain is what the reference computes.\<close>

lemma merge_loop_reduces:
  assumes "good i"
  shows "scratch_good i s \<Longrightarrow> chain syms live \<Longrightarrow> queue_ok i syms live queue \<Longrightarrow>
    \<exists>syms' live' s'. merge_loop (look i) queue syms s = Some (Inr syms', s') \<and> scratch_good i s' \<and> chain syms' live'
      \<and> ids_of syms' live' = reduce (rules i) (ids_of syms live)"
proof (induction "2 * length live + length queue" arbitrary: s syms live queue rule: less_induct)
  case less
  show ?case
  proof (cases queue)
    case Nil
    then show ?thesis using less.prems empty_queue_reduced by (subst merge_loop.simps) auto
  next
    case (Cons q qs)
    show ?thesis
    proof (cases "current (top_of q qs) syms")
      case False
      have "length (remove1 (top_of q qs) queue) < length queue"
        using top_of_in [of q qs] by (simp del: remove1.simps add: Cons length_remove1)
      moreover have "merge_loop (look i) queue syms s = merge_loop (look i) (remove1 (top_of q qs) queue) syms s"
        using False by (subst merge_loop.simps) (simp del: remove1.simps add: Cons Let_def)
      ultimately show ?thesis
        using less.hyps [OF _ less.prems(1,2) stale_dropped [OF less.prems(2,3) False]] by simp
    next
      case True
      from merge_iteration [OF assms less.prems(1,2) less.prems(3) [unfolded Cons] True]
      obtain q2 syms' live' s' where "merge_loop (look i) queue syms s = merge_loop (look i) q2 syms' s'"
        "scratch_good i s'" "chain syms' live'" "queue_ok i syms' live' q2"
        "reduce (rules i) (ids_of syms live) = reduce (rules i) (ids_of syms' live')"
        "2 * length live' + length q2 < 2 * length live + length queue"
        unfolding Cons by blast
      then show ?thesis using less.hyps [of live' q2 s' syms'] by simp
    qed
  qed
qed

end

subsection \<open>A rank table that may fail\<close>

text \<open>
  The weaker interface, of a table whose storage is not reliable: a lookup may fail, and two lookups
  of one key may differ. All that is left is that a merged token is an id below the bound. The loop
  still ends, with the error of a lookup or with a chain of ids below the bound.
\<close>

definition candidate_fits :: "int \<Rightarrow> nat \<Rightarrow> candidate \<Rightarrow> bool" where
  "candidate_fits b n c \<longleftrightarrow> 0 \<le> cd_lid c \<and> 0 \<le> cd_rid c \<and> 0 \<le> cd_left c \<and> cd_left c < int n
     \<and> 0 \<le> cd_right c \<and> cd_right c < int n \<and> 0 \<le> cd_merged c \<and> cd_merged c < b"

lemma current_fitting:
  assumes "chain syms live" and "candidate_fits b (length syms) c" and "current c syms"
  shows "\<exists>A x y B r. live = A @ x # y # B \<and> c = candidate_of syms x y r \<and> 0 \<le> rule_merged r \<and> rule_merged r < b"
proof -
  have "sound (\<lambda>_. Some \<lparr>rule_rank = cd_rank c, rule_merged = cd_merged c\<rparr>) (length syms) c"
    using assms(2) by (simp add: sound_def candidate_fits_def)
  from current_pair [OF assms(1) this assms(3)] obtain A x y B r
    where "live = A @ x # y # B" "c = candidate_of syms x y r" by blast
  then show ?thesis using assms(2) by (auto simp: candidate_fits_def candidate_of_def)
qed

locale fallible_source =
  fixes look :: "'i \<Rightarrow> ('s, 'e) looker"
    and good :: "'i \<Rightarrow> bool"
    and scratch_good :: "'i \<Rightarrow> 's \<Rightarrow> bool"
    and bound :: "'i \<Rightarrow> int"
    and fault :: "'e \<Rightarrow> bool"
  assumes look_cases: "good i \<Longrightarrow> scratch_good i s \<Longrightarrow> look i key s = (r, s') \<Longrightarrow> scratch_good i s' \<and>
      (case r of Inl e \<Rightarrow> fault e | Inr None \<Rightarrow> True
        | Inr (Some ru) \<Rightarrow> 0 \<le> rule_merged ru \<and> rule_merged ru < bound i)"
begin

definition queue_fits :: "'i \<Rightarrow> symbol list \<Rightarrow> candidate list \<Rightarrow> bool" where
  "queue_fits i syms queue \<longleftrightarrow> (\<forall>c\<in>set queue. candidate_fits (bound i) (length syms) c)"

lemma offer_cases:
  assumes "good i" and "scratch_good i s" and "chain syms live" and "l < 0 \<or> nat l \<in> set live" and "r < 0 \<or> nat r \<in> set live"
    and "queue_fits i syms queue" and "offer (look i) syms l r queue s = (res, s')"
  shows "scratch_good i s' \<and>
    (case res of Inl e \<Rightarrow> fault e | Inr q \<Rightarrow> queue_fits i syms q \<and> length q \<le> Suc (length queue))"
proof (cases "l < 0 \<or> r < 0")
  case True
  then show ?thesis using assms(2,6,7) by (auto simp: offer_def)
next
  case False
  then have live: "nat l \<in> set live" "nat r \<in> set live" using assms(4,5) by auto
  then have ends: "nat l < length syms" "nat r < length syms" "0 \<le> sym_id (syms ! nat l)" "0 \<le> sym_id (syms ! nat r)"
    using assms(3) linked_bound [of syms] by (auto simp: chain_def)
  obtain found s1 where one: "look i (pair_key (sym_id (syms ! nat l)) (sym_id (syms ! nat r))) s = (found, s1)" by fastforce
  from look_cases [OF assms(1,2) one] show ?thesis
    using assms(6,7) one False ends
    by (auto simp: offer_def bindM_def queue_fits_def candidate_fits_def nat_less_iff split: sum.splits option.splits)
qed

text \<open>An iteration that merges: it ends the loop with an error, or shortens the chain.\<close>

lemma fallible_iteration:
  assumes "good i" and "scratch_good i s" and "chain syms live" and "queue_fits i syms queue" and "queue \<noteq> []"
    and "current (top_of (hd queue) (tl queue)) syms" and "\<forall>x\<in>set (ids_of syms live). x < bound i"
  shows "(\<exists>e s'. merge_loop (look i) queue syms s = Some (Inl e, s') \<and> scratch_good i s' \<and> fault e)
    \<or> (\<exists>q2 syms' live' s'. merge_loop (look i) queue syms s = merge_loop (look i) q2 syms' s'
        \<and> scratch_good i s' \<and> chain syms' live' \<and> queue_fits i syms' q2 \<and> (\<forall>x\<in>set (ids_of syms' live'). x < bound i)
        \<and> 2 * length live' + length q2 < 2 * length live + length queue)"
proof -
  define c where "c = top_of (hd queue) (tl queue)"
  have c: "c \<in> set queue" using top_of_in [of "hd queue" "tl queue"] assms(5) by (simp add: c_def)
  then have "candidate_fits (bound i) (length syms) c" using assms(4) by (simp add: queue_fits_def)
  from current_fitting [OF assms(3) this] assms(6) obtain A l r B ru where
    live: "live = A @ l # r # B" and cand: "c = candidate_of syms l r ru"
    and merged: "0 \<le> rule_merged ru" "rule_merged ru < bound i"
    by (auto simp: c_def)
  define syms' where "syms' = apply_merge (candidate_of syms l r ru) syms"
  note chain0 = assms(3) [unfolded live]
  note chain' = apply_merge_chain [OF chain0 syms'_def merged(1)]
  have len: "length syms' = length syms" by (rule apply_merge_nth(1) [OF chain0 syms'_def])
  have ids': "\<forall>x\<in>set (ids_of syms' (A @ l # B)). x < bound i"
    using assms(7) merged(2) unfolding chain'(2) live [symmetric] by (auto simp: merge_at_def dest: in_set_takeD in_set_dropD)
  have ends: "sym_prev (syms' ! nat (cd_left c)) = last_or (- 1) A" "sym_next (syms' ! nat (cd_left c)) = hd_or B (- 1)"
    "cd_left c = int l"
    using chain'(1) by (auto simp: chain_def linked_append cand candidate_of_def)
  have rest: "queue_fits i syms' (remove1 c queue)" "length (remove1 c queue) < length queue"
    using assms(4) c len set_remove1_subset [of c queue] length_pos_if_in_set [OF c]
    by (auto simp: queue_fits_def length_remove1)
  have mid: "int l < 0 \<or> nat (int l) \<in> set (A @ l # B)" by simp
  have left: "last_or (- 1) A < 0 \<or> nat (last_or (- 1) A) \<in> set (A @ l # B)"
    by (cases A rule: rev_cases) (auto simp: last_or_append)
  have right: "hd_or B (- 1) < 0 \<or> nat (hd_or B (- 1)) \<in> set (A @ l # B)" by (cases B) auto
  obtain r1 s1 where o1: "offer (look i) syms' (last_or (- 1) A) (int l) (remove1 c queue) s = (r1, s1)" by fastforce
  note e1 = offer_cases [OF assms(1,2) chain'(1) left mid rest(1) o1]
  have unfold: "merge_loop (look i) queue syms s =
      (case bindM (offer (look i) syms' (last_or (- 1) A) (int l) (remove1 c queue))
              (offer (look i) syms' (int l) (hd_or B (- 1))) s of
         (Inl e, t) \<Rightarrow> Some (Inl e, t) | (Inr q, t) \<Rightarrow> merge_loop (look i) q syms' t)"
    using assms(5,6) unfolding c_def [symmetric]
    by (subst merge_loop.simps, unfold Let_def c_def [symmetric] syms'_def [folded cand, symmetric] ends(1,2), unfold ends(3)) simp
  show ?thesis
  proof (cases r1)
    case (Inl e)
    then show ?thesis using unfold o1 e1 by (simp add: bindM_def)
  next
    case (Inr q1)
    obtain r2 s2 where o2: "offer (look i) syms' (int l) (hd_or B (- 1)) q1 s1 = (r2, s2)" by fastforce
    have q1: "queue_fits i syms' q1" "scratch_good i s1" "length q1 \<le> length queue" using e1 Inr rest(2) by auto
    note e2 = offer_cases [OF assms(1) q1(2) chain'(1) mid right q1(1) o2]
    have run: "merge_loop (look i) queue syms s =
        (case r2 of Inl e \<Rightarrow> Some (Inl e, s2) | Inr q \<Rightarrow> merge_loop (look i) q syms' s2)"
      using unfold o1 o2 Inr by (simp add: bindM_def split: sum.split)
    show ?thesis
    proof (cases r2)
      case (Inl e)
      then show ?thesis using run e2 by simp
    next
      case r2: (Inr q2)
      then show ?thesis using run e2 ids' chain'(1) q1(3)
        by (intro disjI2 exI [of _ q2] exI [of _ syms'] exI [of _ "A @ l # B"] exI [of _ s2]) (simp add: live)
    qed
  qed
qed

lemma merge_loop_cases:
  assumes "good i"
  shows "scratch_good i s \<Longrightarrow> chain syms live \<Longrightarrow> queue_fits i syms queue \<Longrightarrow> \<forall>x\<in>set (ids_of syms live). x < bound i \<Longrightarrow>
    \<exists>res s'. merge_loop (look i) queue syms s = Some (res, s') \<and> scratch_good i s'
      \<and> (case res of Inl e \<Rightarrow> fault e
          | Inr syms' \<Rightarrow> \<exists>live'. chain syms' live' \<and> (\<forall>x\<in>set (ids_of syms' live'). x < bound i))"
proof (induction "2 * length live + length queue" arbitrary: s syms live queue rule: less_induct)
  case less
  show ?case
  proof (cases "queue = []")
    case True
    then have "merge_loop (look i) queue syms s = Some (Inr syms, s)" by (subst merge_loop.simps) simp
    then show ?thesis using less.prems by auto
  next
    case ne: False
    show ?thesis
    proof (cases "current (top_of (hd queue) (tl queue)) syms")
      case False
      define rest where "rest = remove1 (top_of (hd queue) (tl queue)) queue"
      have c: "top_of (hd queue) (tl queue) \<in> set queue" using top_of_in [of "hd queue" "tl queue"] ne by simp
      then have "length rest < length queue" "queue_fits i syms rest"
        using less.prems(3) set_remove1_subset [of "top_of (hd queue) (tl queue)" queue] length_pos_if_in_set [OF c]
        by (auto simp: rest_def queue_fits_def length_remove1)
      moreover have "merge_loop (look i) queue syms s = merge_loop (look i) rest syms s"
        using False ne by (subst merge_loop.simps) (simp add: Let_def rest_def)
      ultimately show ?thesis using less.hyps [of live rest s syms] less.prems by simp
    next
      case True
      show ?thesis
        using fallible_iteration [OF assms less.prems(1-3) ne True less.prems(4)]
      proof (elim disjE exE conjE, goal_cases)
        case (1 e s')
        then show ?case by auto
      next
        case (2 q2 syms' live' s')
        from less.hyps [OF 2(6) 2(2,3,4,5)] show ?case unfolding 2(1) .
      qed
    qed
  qed
qed

end

text \<open>A reliable table is one that never fails.\<close>

sublocale merge_source \<subseteq> reliable: fallible_source look good scratch_good bound "\<lambda>_. False"
proof (unfold_locales, goal_cases)
  case (1 i s key r s')
  from look_rules [OF 1(1,2), of key] 1(3) have "r = Inr (rules i key)" "scratch_good i s'" by auto
  then show ?case using merged_in [OF 1(1)] by (auto split: option.split)
qed

end
