(* ===== verification/SpmEncode.thy ===== *)
theory SpmEncode
  imports SpmMerge
begin

text \<open>
  The properties of the byte-pair tokenizer: the initial list and its queue, the walk that
  collects the ids, and \<open>encode\<close> as the reference merge of the text between its special tokens.
\<close>

subsection \<open>The initial list\<close>

lemma link_length: "length is \<le> INT32_MAX \<Longrightarrow> length (link is) = length is"
  by (simp add: link_def Let_def i32_of_nat_id)

lemma link_nth:
  assumes "length is \<le> INT32_MAX" and "k < length is"
  shows "link is ! k = \<lparr>sym_id = is ! k, sym_prev = int k - 1, sym_next = if Suc k < length is then int k + 1 else - 1\<rparr>"
  using assms by (auto simp: link_def Let_def i32_of_nat_id)

lemma linked_upt:
  assumes "\<forall>k. a \<le> k \<and> k < n \<longrightarrow> k < length syms \<and> sym_prev (syms ! k) = int k - 1
      \<and> sym_next (syms ! k) = (if Suc k < n then int k + 1 else - 1)"
  shows "linked syms (int a - 1) [a ..< n] (- 1)"
  using assms
proof (induction "n - a" arbitrary: a)
  case 0
  then show ?case by simp
next
  case (Suc d)
  then have "a < n" by simp
  from Suc.hyps(1) [of "Suc a"] Suc.hyps(2) Suc.prems have "linked syms (int (Suc a) - 1) [Suc a ..< n] (- 1)" by simp
  moreover have "hd_or [Suc a ..< n] (- 1) = (if Suc a < n then int a + 1 else - 1)"
    by (simp add: upt_conv_Cons)
  ultimately show ?case using Suc.prems \<open>a < n\<close> by (simp add: upt_conv_Cons)
qed

lemma link_chain:
  assumes "length is \<le> INT32_MAX" and "is \<noteq> []" and "\<forall>x\<in>set is. 0 \<le> x"
  shows "chain (link is) [0 ..< length is]" and "ids_of (link is) [0 ..< length is] = is"
proof -
  have "linked (link is) (int 0 - 1) [0 ..< length is] (- 1)"
    by (rule linked_upt) (use assms(1) in \<open>auto simp: link_length link_nth\<close>)
  then show "chain (link is) [0 ..< length is]"
    using assms by (auto simp: chain_def link_length link_nth hd_upt)
  show "ids_of (link is) [0 ..< length is] = is"
    using assms(1) by (auto simp: ids_of_def link_nth intro: nth_equalityI)
qed

subsection \<open>Walking the list\<close>

lemma collect_linked:
  assumes "\<forall>x\<in>set xs. 0 \<le> sym_id (syms ! x)" and "linked syms p xs (- 1)"
  shows "collect syms (hd_or xs (- 1)) k budget out = Some (out @ take (nat (budget - k)) (ids_of syms xs))"
  using assms
proof (induction xs arbitrary: p k out)
  case Nil
  then show ?case by (subst collect.simps) (simp add: ids_of_def)
next
  case (Cons x xs)
  show ?case
  proof (cases "k < budget")
    case True
    then have "nat (budget - k) = Suc (nat (budget - (k + 1)))" by simp
    then show ?thesis
      using True Cons.IH [of "int x" "k + 1" "out @ [sym_id (syms ! x)]"] Cons.prems
      by (subst collect.simps) (simp add: Let_def ids_of_def)
  qed (subst collect.simps, simp)
qed

lemma collect_chain:
  assumes "chain syms live"
  shows "collect syms 0 0 budget out = Some (out @ take (nat budget) (ids_of syms live))"
proof -
  have "hd_or live (- 1) = 0" using assms by (cases live) (auto simp: chain_def)
  then show ?thesis using collect_linked [of live syms "- 1" 0 budget out] assms by (simp add: chain_def)
qed

subsection \<open>The whole run\<close>

context merge_source
begin

lemma first_offers:
  assumes "good i" and "scratch_good i s"
  shows "\<exists>s'. foldM (\<lambda>k. offer (look i) syms k (k + 1)) ks queue s
      = (Inr (queue @ concat (map (\<lambda>k. offered i syms k (k + 1)) ks)), s') \<and> scratch_good i s'"
  using assms(2)
proof (induction ks arbitrary: queue s)
  case Nil
  then show ?case by simp
next
  case (Cons k ks)
  obtain s1 where s1: "offer (look i) syms k (k + 1) queue s = (Inr (queue @ offered i syms k (k + 1)), s1)"
    "scratch_good i s1"
    using offer_eq [OF assms(1) Cons.prems] by blast
  from Cons.IH [OF s1(2), of "queue @ offered i syms k (k + 1)"] show ?case by (simp add: bindM_def s1(1))
qed

lemma first_queue_ok:
  assumes "chain syms [0 ..< n]" and "length syms = n"
  shows "queue_ok i syms [0 ..< n] (concat (map (\<lambda>k. offered i syms k (k + 1)) [0 .. int n - 2]))"
proof -
  have "\<forall>c\<in>set (offered i syms k (k + 1)). sound (rules i) (length syms) c" if "k \<in> {0 .. int n - 2}" for k
    using that by (intro offered_sound [OF assms(1)]) auto
  moreover have "candidate_of syms x y r \<in> set (concat (map (\<lambda>k. offered i syms k (k + 1)) [0 .. int n - 2]))"
    if "adj x y [0 ..< n]" "pair_rule (rules i) syms x y = Some r" for x y r
  proof -
    have xy: "Suc x < n" "y = Suc x" using that(1) by (auto simp: adj_nth)
    then have "candidate_of syms x y r \<in> set (offered i syms (int x) (int x + 1))"
      using that(2) by (simp add: offered_def nat_add_distrib)
    moreover have "int x \<in> set [0 .. int n - 2]" using xy by auto
    ultimately show ?thesis by auto
  qed
  ultimately show ?thesis by (auto simp: queue_ok_def complete_def)
qed

lemma run_bpe_reduces:
  assumes "good i" and "scratch_good i s" and "length is \<le> INT32_MAX" and "is \<noteq> []" and "\<forall>x\<in>set is. 0 \<le> x"
  shows "\<exists>s'. run_bpe (look i) is budget out s = Some (Inr (out @ take (nat budget) (reduce (rules i) is)), s')"
proof -
  note start = link_chain [OF assms(3-5)] and len = link_length [OF assms(3)]
  have n: "i32_of_nat (length (link is)) = int (length is)" using assms(3) by (simp add: len i32_of_nat_id)
  obtain s1 where s1: "foldM (\<lambda>k. offer (look i) (link is) k (k + 1)) [0 .. int (length is) - 2] [] s
      = (Inr (concat (map (\<lambda>k. offered i (link is) k (k + 1)) [0 .. int (length is) - 2])), s1)" "scratch_good i s1"
    using first_offers [OF assms(1,2), of "link is" "[0 .. int (length is) - 2]" "[]"] by auto
  from merge_loop_reduces [OF assms(1) s1(2) start(1) first_queue_ok [OF start(1) len]]
  obtain syms' live' s2 where run: "merge_loop (look i)
      (concat (map (\<lambda>k. offered i (link is) k (k + 1)) [0 .. int (length is) - 2])) (link is) s1 = Some (Inr syms', s2)"
    "chain syms' live'" "ids_of syms' live' = reduce (rules i) is"
    unfolding start(2) by blast
  show ?thesis
    unfolding run_bpe_def Let_def n s1(1) prod.case sum.case run(1) option.case
    using collect_chain [OF run(2)] run(3) by simp
qed

end

text \<open>The same walk with a table that may fail.\<close>

context fallible_source
begin

lemma first_offers_cases:
  assumes "good i" and "scratch_good i s" and "chain syms [0 ..< n]" and "set ks \<subseteq> {0 .. int n - 2}"
    and "queue_fits i syms queue" and "foldM (\<lambda>k. offer (look i) syms k (k + 1)) ks queue s = (res, s')"
  shows "scratch_good i s' \<and> (case res of Inl e \<Rightarrow> fault e | Inr q \<Rightarrow> queue_fits i syms q)"
  using assms(2,4-6)
proof (induction ks arbitrary: queue s)
  case Nil
  then show ?case by (cases res) auto
next
  case (Cons k ks)
  obtain r1 s1 where one: "offer (look i) syms k (k + 1) queue s = (r1, s1)" by fastforce
  have ends: "k < 0 \<or> nat k \<in> set [0 ..< n]" "k + 1 < 0 \<or> nat (k + 1) \<in> set [0 ..< n]" using Cons.prems(2) by auto
  note step = offer_cases [OF assms(1) Cons.prems(1) assms(3) ends Cons.prems(3) one]
  show ?case
  proof (cases r1)
    case (Inl e)
    then show ?thesis using Cons.prems(4) one step by (auto simp: bindM_def)
  next
    case (Inr q)
    then have "foldM (\<lambda>k. offer (look i) syms k (k + 1)) ks q s1 = (res, s')" using Cons.prems(4) one by (simp add: bindM_def)
    then show ?thesis using Cons.IH [of s1 q] Cons.prems(2) step Inr by simp
  qed
qed

lemma run_bpe_cases:
  assumes "good i" and "scratch_good i s" and "length is \<le> INT32_MAX" and "is \<noteq> []" and "\<forall>x\<in>set is. 0 \<le> x \<and> x < bound i"
  shows "\<exists>res s'. run_bpe (look i) is budget out s = Some (res, s') \<and>
    (case res of Inl e \<Rightarrow> fault e
      | Inr ids \<Rightarrow> \<exists>content. ids = out @ content \<and> length content \<le> nat budget
          \<and> (\<forall>x\<in>set content. 0 \<le> x \<and> x < bound i))"
proof -
  have pos: "\<forall>x\<in>set is. 0 \<le> x" using assms(5) by simp
  note start = link_chain [OF assms(3,4) pos] and len = link_length [OF assms(3)]
  have n: "i32_of_nat (length (link is)) = int (length is)" using assms(3) by (simp add: len i32_of_nat_id)
  have none: "queue_fits i (link is) []" by (simp add: queue_fits_def)
  obtain r1 s1 where o: "foldM (\<lambda>k. offer (look i) (link is) k (k + 1)) [0 .. int (length is) - 2] [] s = (r1, s1)" by fastforce
  from first_offers_cases [OF assms(1,2) start(1) _ none o]
  have offers: "scratch_good i s1" "case r1 of Inl e \<Rightarrow> fault e | Inr q \<Rightarrow> queue_fits i (link is) q" by auto
  show ?thesis
  proof (cases r1)
    case (Inl e)
    then show ?thesis using o offers(2) by (auto simp: run_bpe_def Let_def n)
  next
    case (Inr queue)
    have ids: "\<forall>x\<in>set (ids_of (link is) [0 ..< length is]). x < bound i" using assms(5) by (simp add: start(2))
    have fits: "queue_fits i (link is) queue" using offers(2) Inr by simp
    from merge_loop_cases [OF assms(1) offers(1) start(1) fits ids]
    obtain r2 s2 where loop: "merge_loop (look i) queue (link is) s1 = Some (r2, s2)"
      "case r2 of Inl e \<Rightarrow> fault e
        | Inr syms' \<Rightarrow> \<exists>live'. chain syms' live' \<and> (\<forall>x\<in>set (ids_of syms' live'). x < bound i)" by blast
    show ?thesis
    proof (cases r2)
      case (Inl e)
      then show ?thesis using o Inr loop by (simp add: run_bpe_def Let_def n)
    next
      case r2: (Inr syms')
      then obtain live' where live': "chain syms' live'" "\<forall>x\<in>set (ids_of syms' live'). x < bound i" using loop(2) by auto
      have "\<forall>x\<in>set (ids_of syms' live'). 0 \<le> x \<and> x < bound i" using live' by (auto simp: chain_def ids_of_def)
      moreover have "run_bpe (look i) is budget out s = Some (Inr (out @ take (nat budget) (ids_of syms' live')), s2)"
        using o Inr loop r2 collect_chain [OF live'(1)] by (simp add: run_bpe_def Let_def n)
      ultimately show ?thesis by (auto dest: in_set_takeD)
    qed
  qed
qed

end

interpretation disk_faults: fallible_source "\<lambda>(sy, ix). find sy ix" "\<lambda>(sy, ix). index_sane ix"
  "\<lambda>(sy, ix). scratch_sound ix" "\<lambda>(sy, ix). mi_vocab_size ix" "\<lambda>e. e \<in> lookup_errors"
proof (unfold_locales, goal_cases)
  case (1 i s key r s')
  then show ?case using find_faults by (cases i) auto
qed

interpretation disk_index: merge_source "\<lambda>(sy, ix). find sy ix" "\<lambda>(sy, ix). honest sy \<and> index_ok ix"
  "\<lambda>(sy, ix). scratch_ok ix" "\<lambda>(sy, ix). map_of (index_entries ix)" "\<lambda>(sy, ix). mi_vocab_size ix"
proof (unfold_locales, goal_cases)
  case (1 i s key)
  then show ?case using find_lookup by (cases i) auto
next
  case (2 i key r)
  then show ?case using entries_in_vocabulary by (cases i) auto
qed

subsection \<open>Loaded tokenizers\<close>

definition is_token :: "spm_tokenizer \<Rightarrow> int \<Rightarrow> bool" where
  "is_token t i \<longleftrightarrow> 0 \<le> i \<and> i < sp_vocab_size t"

text \<open>Every id the tokenizer holds is absent or a token, and every byte can be represented.\<close>

definition ids_ok :: "spm_tokenizer \<Rightarrow> bool" where
  "ids_ok t \<longleftrightarrow> length (byte_id t) = 256 \<and> (\<forall>i\<in>set (byte_id t). i = - 1 \<or> is_token t i)
     \<and> (\<forall>p i. char_ix t p = Some i \<longrightarrow> is_token t i)
     \<and> (sp_unk t = - 1 \<or> is_token t (sp_unk t)) \<and> (- 1 \<in> set (byte_id t) \<longrightarrow> 0 \<le> sp_unk t)
     \<and> (prefix_id t = - 1 \<or> is_token t (prefix_id t)) \<and> (suffix_id t = - 1 \<or> is_token t (suffix_id t))"

definition spm_ok :: "spm_tokenizer \<Rightarrow> bool" where
  "spm_ok t \<longleftrightarrow> ids_ok t \<and> index_ok (sp_index t) \<and> mi_vocab_size (sp_index t) = sp_vocab_size t"

text \<open>What of it holds whatever the reads delivered while the index was loaded.\<close>

definition spm_sane :: "spm_tokenizer \<Rightarrow> bool" where
  "spm_sane t \<longleftrightarrow> ids_ok t \<and> index_sane (sp_index t) \<and> mi_vocab_size (sp_index t) = sp_vocab_size t"

lemma scan_pieces_ok:
  assumes "scan_pieces i ps s = (bytes, ix)" and "length (fst s) = 256"
    and "\<forall>x\<in>set (fst s). x = - 1 \<or> (0 \<le> x \<and> x < int (i + length ps))"
    and "\<forall>p x. snd s p = Some x \<longrightarrow> 0 \<le> x \<and> x < int (i + length ps)"
  shows "length bytes = 256 \<and> (\<forall>x\<in>set bytes. x = - 1 \<or> (0 \<le> x \<and> x < int (i + length ps)))
    \<and> (\<forall>p x. ix p = Some x \<longrightarrow> 0 \<le> x \<and> x < int (i + length ps))"
  using assms
proof (induction i ps s rule: scan_pieces.induct)
  case (1 i s)
  then show ?case by auto
next
  case (2 i piece ps s)
  define s1 where "s1 = scan_piece i piece s"
  have run: "scan_pieces (Suc i) ps s1 = (bytes, ix)" using 2(2) by (simp add: s1_def)
  have N: "i + length (piece # ps) = Suc i + length ps" by simp
  have h: "length (fst s1) = 256" using 2(3) by (simp add: s1_def scan_piece_def Let_def)
  have "\<forall>x\<in>set (fst s1). x = - 1 \<or> (0 \<le> x \<and> x < int (Suc i + length ps))"
    using 2(4) by (auto simp: s1_def scan_piece_def Let_def dest!: set_update_subset_insert [THEN subsetD])
  moreover have "\<forall>p x. snd s1 p = Some x \<longrightarrow> 0 \<le> x \<and> x < int (Suc i + length ps)"
    using 2(5) by (auto simp: s1_def scan_piece_def Let_def emplace_def split: option.splits if_splits)
  ultimately show ?case unfolding N by (rule 2(1) [folded s1_def, OF run h])
qed

lemma special_ids_ok:
  assumes "special_ids f n t = Inr t'" and "prefix_id t = - 1" and "suffix_id t = - 1" and "sp_vocab_size t = int n"
  shows "sp_vocab_size t' = int n \<and> byte_id t' = byte_id t \<and> char_ix t' = char_ix t \<and> sp_index t' = sp_index t
    \<and> (sp_unk t' = - 1 \<or> is_token t' (sp_unk t')) \<and> (- 1 \<in> set (byte_id t') \<longrightarrow> 0 \<le> sp_unk t')
    \<and> (prefix_id t' = - 1 \<or> is_token t' (prefix_id t')) \<and> (suffix_id t' = - 1 \<or> is_token t' (suffix_id t'))"
proof -
  from assms(1) obtain bos eos pad unk add_bos suffix wrap where
    unk: "\<not> (unk < - 1 \<or> int n \<le> unk)" and bos: "\<not> (bos < - 1 \<or> int n \<le> bos)"
    and eos: "\<not> (eos < - 1 \<or> int n \<le> eos)" and suffix: "\<not> (suffix < - 1 \<or> int n \<le> suffix)"
    and wrap: "wrap = suffix \<or> wrap = eos \<or> wrap = suffix_id t"
    and bytes: "\<not> (- 1 \<in> set (byte_id t) \<and> unk < 0)"
    and t': "t' = t\<lparr>sp_bos := bos, sp_eos := eos, sp_pad := pad, sp_unk := unk,
      prefix_id := if add_bos \<and> 0 \<le> bos then bos else prefix_id t, suffix_id := wrap\<rparr>"
    unfolding special_ids_def Let_def bindE_Inr_iff guardE_Inr_iff validate_optional_id_def
  proof (elim exE conjE, goal_cases)
    case (1 bos eos pad unk u1 u2 u3 u4 add_bos suffix u5 wrap u6)
    have "wrap = suffix \<or> wrap = eos \<or> wrap = suffix_id t"
      using 1(13) by (auto simp: bindE_Inr_iff split: if_splits)
    then show ?case
      by (intro 1(1) [of unk bos eos suffix wrap add_bos pad]) (use 1(6,7,9,12,14,15) in simp_all)
  qed
  show ?thesis
    using unk bos eos suffix wrap bytes assms(2-4) unfolding t' is_token_def by auto
qed

lemma spm_from_gguf_parts:
  assumes "spm_from_gguf sy env mkdir_ok pid (Some f) w = (Inr t, w')"
  shows "\<exists>tokens merges ix. require_str_array f ''tokenizer.ggml.tokens'' = Inr tokens
    \<and> require_str_array f ''tokenizer.ggml.merges'' = Inr merges
    \<and> length tokens \<le> INT32_MAX \<and> length merges \<le> INT32_MAX
    \<and> index_from_gguf sy env mkdir_ok pid tokens merges w = (Inr ix, w') \<and> sp_index t = ix
    \<and> special_ids f (length tokens) (new_spm\<lparr>sp_vocab_size := int (length tokens),
      byte_id := fst (scan_pieces 0 tokens (byte_id new_spm, char_ix new_spm)),
      char_ix := snd (scan_pieces 0 tokens (byte_id new_spm, char_ix new_spm)), sp_index := ix\<rparr>) = Inr t"
  using assms
  unfolding spm_from_gguf_def Let_def option.case bindM_Inr_iff liftM_Inr_iff mapErrM_Inr_iff guardE_Inr_iff
proof (elim exE conjE, goal_cases)
  case (1 tokens w1 u1 w2 merges w3 u2 w4 ix w5)
  have "sp_index t = ix" using special_ids_ok [of f "length tokens", OF 1(10)] by (simp add: new_spm_def)
  then show ?case using 1 by (intro exI [of _ tokens] exI [of _ merges] exI [of _ ix]) simp
qed

lemma spm_from_gguf_ids:
  assumes "spm_from_gguf sy env mkdir_ok pid (Some f) w = (Inr t, w')"
  shows "ids_ok t \<and> (\<exists>tokens merges. length tokens \<le> INT32_MAX \<and> length merges \<le> INT32_MAX
    \<and> index_from_gguf sy env mkdir_ok pid tokens merges w = (Inr (sp_index t), w') \<and> sp_vocab_size t = int (length tokens))"
proof -
  obtain tokens merges ix where tok: "length tokens \<le> INT32_MAX" and mer: "length merges \<le> INT32_MAX"
    and ix: "index_from_gguf sy env mkdir_ok pid tokens merges w = (Inr ix, w')"
    and sp: "special_ids f (length tokens) (new_spm\<lparr>sp_vocab_size := int (length tokens),
      byte_id := fst (scan_pieces 0 tokens (byte_id new_spm, char_ix new_spm)),
      char_ix := snd (scan_pieces 0 tokens (byte_id new_spm, char_ix new_spm)), sp_index := ix\<rparr>) = Inr t"
    using spm_from_gguf_parts [OF assms] by blast
  obtain bytes m where scan: "scan_pieces 0 tokens (byte_id new_spm, char_ix new_spm) = (bytes, m)" by fastforce
  have ids: "sp_vocab_size t = int (length tokens)" "byte_id t = bytes" "char_ix t = m" "sp_index t = ix"
    "sp_unk t = - 1 \<or> is_token t (sp_unk t)" "- 1 \<in> set bytes \<longrightarrow> 0 \<le> sp_unk t"
    "prefix_id t = - 1 \<or> is_token t (prefix_id t)" "suffix_id t = - 1 \<or> is_token t (suffix_id t)"
    using special_ids_ok [OF sp] by (simp_all add: new_spm_def scan [unfolded new_spm_def, simplified])
  have "length bytes = 256 \<and> (\<forall>x\<in>set bytes. x = - 1 \<or> (0 \<le> x \<and> x < int (0 + length tokens)))
      \<and> (\<forall>p x. m p = Some x \<longrightarrow> 0 \<le> x \<and> x < int (0 + length tokens))"
    by (rule scan_pieces_ok [OF scan]) (simp_all add: new_spm_def)
  then have "ids_ok t"
    using ids(5-8) unfolding ids_ok_def ids(2,3) by (simp add: is_token_def ids(1))
  then show ?thesis using tok mer ix ids(1,4) by blast
qed

lemma spm_from_gguf_sane: "spm_from_gguf sy env mkdir_ok pid (Some f) w = (Inr t, w') \<Longrightarrow> spm_sane t"
  using spm_from_gguf_ids index_load_sane unfolding spm_sane_def by metis

lemma spm_from_gguf_loads:
  assumes "honest sy" and "\<forall>path. file_fits w path"
    and "spm_from_gguf sy env mkdir_ok pid (Some f) w = (Inr t, w')"
  shows "spm_ok t"
proof -
  obtain tokens merges where "ids_ok t" and tok: "length tokens \<le> INT32_MAX" and mer: "length merges \<le> INT32_MAX"
    and ix: "index_from_gguf sy env mkdir_ok pid tokens merges w = (Inr (sp_index t), w')"
    and "sp_vocab_size t = int (length tokens)"
    using spm_from_gguf_ids [OF assms(3)] by blast
  then show ?thesis using index_load_ok [OF assms(1,2) tok mer ix] by (simp add: spm_ok_def)
qed

subsection \<open>The symbols of a text\<close>

lemma seed_char_ok:
  assumes "ids_ok t" shows "\<forall>x\<in>set (seed_char t ch). is_token t x"
proof -
  have "is_token t (let i = byte_id t ! byte c in if i \<ge> 0 then i else sp_unk t)" for c
  proof -
    have "byte_id t ! byte c \<in> set (byte_id t)" using assms byte_less [of c] by (simp add: ids_ok_def)
    then show ?thesis using assms by (auto simp: ids_ok_def is_token_def Let_def)
  qed
  then show ?thesis using assms by (auto simp: seed_char_def ids_ok_def split: option.splits)
qed

lemma seed_char_length: "ch \<noteq> [] \<Longrightarrow> 1 \<le> length (seed_char t ch) \<and> length (seed_char t ch) \<le> length ch"
  by (cases ch) (auto simp: seed_char_def split: option.splits)

lemma seeds_ok: "ids_ok t \<Longrightarrow> \<forall>x\<in>set (seeds t s). is_token t x"
  by (induction t s rule: seeds.induct) (use seed_char_ok in \<open>auto simp: Let_def\<close>)

lemma seeds_length: "length (seeds t s) \<le> length s \<and> (s \<noteq> [] \<longrightarrow> seeds t s \<noteq> [])"
proof (induction t s rule: seeds.induct)
  case (2 t c cs)
  define len where "len = min (utf8_len c) (length (c # cs))"
  define a b where "a = take len (c # cs)" and "b = drop len (c # cs)"
  have "a \<noteq> []" using utf8_len_pos [of c] by (simp add: a_def len_def)
  moreover have "length (c # cs) = length a + length b"
    unfolding a_def b_def by (metis append_take_drop_id length_append)
  moreover have "seeds t (c # cs) = seed_char t a @ seeds t b" by (simp add: a_def b_def len_def Let_def)
  moreover have "length (seeds t b) \<le> length b" using 2 [OF len_def] by (simp add: b_def)
  ultimately show ?case using seed_char_length [of a t] by auto
qed simp

subsection \<open>Encoding\<close>

definition spm_limit :: "spm_tokenizer \<Rightarrow> int \<Rightarrow> int" where
  "spm_limit t override = (if override > 0 then override else sp_max_seq_len t)"

definition before :: "spm_tokenizer \<Rightarrow> int list" where
  "before t = (if prefix_id t \<ge> 0 then [prefix_id t] else [])"

definition after :: "spm_tokenizer \<Rightarrow> int list" where
  "after t = (if suffix_id t \<ge> 0 then [suffix_id t] else [])"

definition wrapper :: "spm_tokenizer \<Rightarrow> int" where
  "wrapper t = int (length (before t) + length (after t))"

lemma bpe_reduces:
  assumes "honest sy" and "spm_ok t" and "length s \<le> INT32_MAX"
  shows "\<exists>reads. bpe sy t time s budget out
    = Some (Inr (out @ take (nat budget) (reduce (map_of (index_entries (sp_index t))) (seeds t s)), reads))"
proof (cases "budget \<le> 0 \<or> s = []")
  case True
  have "reduce rules [] = []" for rules by (subst reduce.simps) simp
  then show ?thesis using True by (auto simp: bpe_def)
next
  case False
  have sd: "seeds t s \<noteq> []" "length (seeds t s) \<le> INT32_MAX" "\<forall>x\<in>set (seeds t s). 0 \<le> x"
    using False seeds_length [of t s] seeds_ok [of t s] assms(2,3) by (auto simp: spm_ok_def is_token_def)
  have good: "case (sy, sp_index t) of (sy, ix) \<Rightarrow> honest sy \<and> index_ok ix" using assms(1,2) by (simp add: spm_ok_def)
  show ?thesis
    using disk_index.run_bpe_reduces [OF good _ sd(2,1,3), of "new_scratch time" budget out] new_scratch_ok False sd(1)
    by (auto simp: bpe_def Let_def)
qed

lemma spm_encode_impl_unfold:
  "spm_encode_impl sy t time txt override =
     (if spm_limit t override < wrapper t then Some (Inl (Spm LimitTooSmall))
      else case bpe sy t time (normalize_text txt) (max (spm_limit t override - wrapper t) 0) (before t) of
             None \<Rightarrow> None
           | Some (Inl e) \<Rightarrow> Some (Inl (Index e))
           | Some (Inr (ids, reads)) \<Rightarrow> Some (Inr (if suffix_id t \<ge> 0 then ids @ [suffix_id t] else ids, reads)))"
proof -
  have "wrapper t = (if prefix_id t \<ge> 0 then 1 else 0) + (if suffix_id t \<ge> 0 then 1 else 0)"
    by (simp add: wrapper_def before_def after_def)
  then show ?thesis by (simp add: spm_encode_impl_def Let_def before_def spm_limit_def)
qed

lemma spm_encode_impl_exact:
  assumes "honest sy" and "spm_ok t" and "length (normalize_text txt) \<le> INT32_MAX"
  shows "spm_limit t override < wrapper t \<Longrightarrow> spm_encode_impl sy t time txt override = Some (Inl (Spm LimitTooSmall))"
    and "wrapper t \<le> spm_limit t override \<Longrightarrow> \<exists>reads. spm_encode_impl sy t time txt override
      = Some (Inr (before t @ take (nat (spm_limit t override - wrapper t))
          (reduce (map_of (index_entries (sp_index t))) (seeds t (normalize_text txt))) @ after t, reads))"
proof -
  show "spm_encode_impl sy t time txt override = Some (Inl (Spm LimitTooSmall))" if "spm_limit t override < wrapper t"
    using that by (simp add: spm_encode_impl_unfold)
  show "\<exists>reads. spm_encode_impl sy t time txt override
      = Some (Inr (before t @ take (nat (spm_limit t override - wrapper t))
          (reduce (map_of (index_entries (sp_index t))) (seeds t (normalize_text txt))) @ after t, reads))"
    if fits: "wrapper t \<le> spm_limit t override"
  proof -
    have lim: "\<not> spm_limit t override < wrapper t"
        "nat (max (spm_limit t override - wrapper t) 0) = nat (spm_limit t override - wrapper t)"
      using fits by auto
    obtain reads where "bpe sy t time (normalize_text txt) (max (spm_limit t override - wrapper t) 0) (before t)
        = Some (Inr (before t @ take (nat (spm_limit t override - wrapper t))
            (reduce (map_of (index_entries (sp_index t))) (seeds t (normalize_text txt))), reads))"
      using bpe_reduces [OF assms, of time "max (spm_limit t override - wrapper t) 0" "before t"] unfolding lim(2) by blast
    then show ?thesis by (simp add: spm_encode_impl_unfold lim(1) after_def)
  qed
qed

text \<open>The ids of a loaded tokenizer, around and inside the text.\<close>

lemma reduced_tokens:
  assumes "spm_ok t"
  shows "\<forall>x\<in>set (reduce (map_of (index_entries (sp_index t))) (seeds t s)). is_token t x"
proof (rule reduce_bounded)
  show "\<forall>key r. map_of (index_entries (sp_index t)) key = Some r \<longrightarrow> is_token t (rule_merged r)"
    using assms entries_in_vocabulary [of "sp_index t"] by (auto simp: spm_ok_def is_token_def)
  show "\<forall>x\<in>set (seeds t s). is_token t x" using assms seeds_ok by (simp add: spm_ok_def)
qed

lemma wrapper_tokens: "spm_ok t \<Longrightarrow> \<forall>x\<in>set (before t @ after t). is_token t x"
  by (auto simp: spm_ok_def ids_ok_def before_def after_def is_token_def)

text \<open>Freshly built, the index holds the rules of the file.\<close>

lemma fresh_index:
  assumes "faultless sy" and "gf_kv f ''tokenizer.ggml.tokens'' = Some (KvStrings tokens)"
    and "gf_kv f ''tokenizer.ggml.merges'' = Some (KvStrings merges)" and "merge_records tokens merges = Inr records"
    and "\<forall>path. files w path = None"
    and "spm_from_gguf sy env mkdir_ok pid (Some f) w = (Inr t, w')"
  shows "map_of (index_entries (sp_index t)) = rule_of_pair tokens merges"
proof -
  obtain tokens' merges' ix where arrays: "require_str_array f ''tokenizer.ggml.tokens'' = Inr tokens'"
    "require_str_array f ''tokenizer.ggml.merges'' = Inr merges'"
    and sizes: "length tokens' \<le> INT32_MAX" "length merges' \<le> INT32_MAX"
    and load: "index_from_gguf sy env mkdir_ok pid tokens' merges' w = (Inr ix, w')" and ix: "sp_index t = ix"
    using spm_from_gguf_parts [OF assms(6)] by blast
  have same: "tokens' = tokens" "merges' = merges" using arrays assms(2,3) by (simp_all add: require_str_array_iff)
  obtain root where lc: "load_or_create sy pid tokens merges (cache_path root tokens merges) (w\<lparr>calls := Suc (calls w)\<rparr>) = (Inr ix, w')"
    using load unfolding index_from_gguf_eq same by (auto split: sum.splits if_splits)
  have none: "files (w\<lparr>calls := Suc (calls w)\<rparr>) path = None" for path using assms(5) by simp
  obtain ix1 w1 where "load_or_create sy pid tokens merges (cache_path root tokens merges) (w\<lparr>calls := Suc (calls w)\<rparr>) = (Inr ix1, w1)"
    "index_entries ix1 = map entry_of records"
    using fresh_load [OF assms(1) sizes [unfolded same] assms(4) none none, of pid] by blast
  then have "index_entries ix = map entry_of records" using lc by simp
  then show ?thesis using merge_records_facts(5) [OF assms(4) sizes [unfolded same]] ix by auto
qed

lemma spm_encode_bounded:
  assumes "honest sy" and ok: "spm_ok t" and "length (normalize_text txt) \<le> INT32_MAX"
  shows "if spm_limit t override < wrapper t then spm_encode sy t time txt override = Some (Inl (Spm LimitTooSmall))
    else \<exists>content. spm_encode sy t time txt override = Some (Inr (before t @ content @ after t))
      \<and> int (length (before t @ content @ after t)) \<le> spm_limit t override
      \<and> list_all (is_token t) (before t @ content @ after t)"
proof -
  show ?thesis
  proof (cases "spm_limit t override < wrapper t")
    case True
    then show ?thesis using spm_encode_impl_exact(1) [OF assms(1) ok assms(3) True] by (simp add: spm_encode_def)
  next
    case False
    define content where "content = take (nat (spm_limit t override - wrapper t))
      (reduce (map_of (index_entries (sp_index t))) (seeds t (normalize_text txt)))"
    have "spm_encode sy t time txt override = Some (Inr (before t @ content @ after t))"
    proof -
      have "wrapper t \<le> spm_limit t override" using False by simp
      from spm_encode_impl_exact(2) [OF assms(1) ok assms(3) this, of time] obtain reads where
        "spm_encode_impl sy t time txt override = Some (Inr (before t @ content @ after t, reads))"
        unfolding content_def by blast
      then show ?thesis by (simp add: spm_encode_def)
    qed
    moreover have "length content \<le> nat (spm_limit t override - wrapper t)" by (simp add: content_def)
    moreover have "list_all (is_token t) (before t @ content @ after t)"
      using wrapper_tokens [OF ok] reduced_tokens [OF ok] by (auto simp: list_all_iff content_def dest: in_set_takeD)
    ultimately show ?thesis using False by (auto simp: wrapper_def)
  qed
qed

text \<open>With reads that may fail or deliver anything.\<close>

lemma bpe_cases:
  assumes "spm_sane t" and "length s \<le> INT32_MAX"
  shows "\<exists>res. bpe sy t time s budget out = Some res \<and>
    (case res of Inl e \<Rightarrow> e \<in> lookup_errors
      | Inr (ids, reads) \<Rightarrow> \<exists>content. ids = out @ content \<and> length content \<le> nat budget \<and> list_all (is_token t) content)"
proof (cases "budget \<le> 0 \<or> s = []")
  case True
  then show ?thesis by (auto simp: bpe_def)
next
  case False
  have sd: "seeds t s \<noteq> []" "length (seeds t s) \<le> INT32_MAX" "\<forall>x\<in>set (seeds t s). 0 \<le> x \<and> x < mi_vocab_size (sp_index t)"
    using False seeds_length [of t s] seeds_ok [of t s] assms by (auto simp: spm_sane_def is_token_def)
  have sane: "case (sy, sp_index t) of (sy, ix) \<Rightarrow> index_sane ix" using assms(1) by (simp add: spm_sane_def)
  have "case (sy, sp_index t) of (sy, ix) \<Rightarrow> scratch_sound ix (new_scratch time)" by (simp add: new_scratch_sound)
  from disk_faults.run_bpe_cases [OF sane _ sd(2,1), of "new_scratch time" budget out] sd(3) this
  obtain res s' where "run_bpe (find sy (sp_index t)) (seeds t s) budget out (new_scratch time) = Some (res, s')"
    "case res of Inl e \<Rightarrow> e \<in> lookup_errors
      | Inr ids \<Rightarrow> \<exists>content. ids = out @ content \<and> length content \<le> nat budget
          \<and> (\<forall>x\<in>set content. 0 \<le> x \<and> x < mi_vocab_size (sp_index t))" by auto
  moreover have "mi_vocab_size (sp_index t) = sp_vocab_size t" using assms(1) by (simp add: spm_sane_def)
  ultimately show ?thesis
    using False sd(1) by (cases res) (auto simp: bpe_def Let_def list_all_iff is_token_def)
qed

lemma sane_wrapper_tokens: "spm_sane t \<Longrightarrow> list_all (is_token t) (before t) \<and> list_all (is_token t) (after t)"
  by (auto simp: spm_sane_def ids_ok_def before_def after_def is_token_def)

text \<open>What an encoding can come to.\<close>

definition encoding_ok :: "spm_tokenizer \<Rightarrow> int \<Rightarrow> spm_error + int list \<Rightarrow> bool" where
  "encoding_ok t override res \<longleftrightarrow>
     (case res of Inl e \<Rightarrow> e \<in> Index ` lookup_errors
      | Inr ids \<Rightarrow> \<exists>content. ids = before t @ content @ after t \<and> int (length ids) \<le> spm_limit t override
          \<and> list_all (is_token t) ids)"

lemma spm_encode_cases:
  assumes "spm_sane t" and "length (normalize_text txt) \<le> INT32_MAX"
  shows "if spm_limit t override < wrapper t then spm_encode sy t time txt override = Some (Inl (Spm LimitTooSmall))
    else \<exists>res. spm_encode sy t time txt override = Some res \<and> encoding_ok t override res"
proof -
  define limit where "limit = spm_limit t override"
  note encode = spm_encode_impl_unfold [of sy t time "txt" override, folded limit_def]
  obtain res where bpe: "bpe sy t time (normalize_text txt) (max (limit - wrapper t) 0) (before t) = Some res"
    "case res of Inl e \<Rightarrow> e \<in> lookup_errors
      | Inr (ids, reads) \<Rightarrow> \<exists>content. ids = before t @ content \<and> length content \<le> nat (max (limit - wrapper t) 0)
          \<and> list_all (is_token t) content"
    using bpe_cases [OF assms] by blast
  show ?thesis
  proof (cases "limit < wrapper t")
    case True
    then show ?thesis by (simp add: spm_encode_def encode flip: limit_def)
  next
    case False
    note enc = spm_encode_def [of sy t time "txt" override, unfolded encode bpe(1)]
    show ?thesis
    proof (cases res)
      case (Inl e)
      then have "e \<in> lookup_errors" "spm_encode sy t time txt override = Some (Inl (Index e))"
        using bpe(2) False by (simp_all add: enc)
      then show ?thesis using False by (simp add: encoding_ok_def flip: limit_def)
    next
      case (Inr idr)
      obtain ids reads where idr: "idr = (ids, reads)" by fastforce
      then obtain content where content: "ids = before t @ content" "length content \<le> nat (max (limit - wrapper t) 0)"
        "list_all (is_token t) content" using bpe(2) Inr by auto
      have "spm_encode sy t time txt override = Some (Inr (before t @ content @ after t))"
        using False by (simp add: enc Inr idr content(1) after_def)
      moreover have "int (length (before t @ content @ after t)) \<le> limit"
        using content(2) False by (simp add: wrapper_def)
      moreover have "list_all (is_token t) (before t @ content @ after t)"
        using content(3) sane_wrapper_tokens [OF assms(1)] by simp
      ultimately show ?thesis using False by (simp add: encoding_ok_def flip: limit_def)
    qed
  qed
qed


text \<open>
  C24: what \<open>encode\<close> computes. With a vocabulary and merge rules whose cache does not exist yet, on a
  machine whose calls succeed, the text between the special tokens is the list of its characters
  (or byte-fallback tokens) after the merge rules of the file have been applied, the lowest-ranked
  pair first and the leftmost of equals, cut at the limit. The linked list, the priority queue with
  its stale candidates, the written cache and its pages do not show.
\<close>

theorem spm_encode_merges:
  assumes "faultless sy" and "gf_kv f ''tokenizer.ggml.tokens'' = Some (KvStrings tokens)"
    and "gf_kv f ''tokenizer.ggml.merges'' = Some (KvStrings merges)" and "merge_records tokens merges = Inr records"
    and "\<forall>path. files w path = None"
    and "spm_from_gguf sy env mkdir_ok pid (Some f) w = (Inr t, w')" and "length (normalize_text txt) \<le> INT32_MAX"
    and "wrapper t \<le> spm_limit t override"
  shows "spm_encode sy t time txt override = Some (Inr (before t
    @ take (nat (spm_limit t override - wrapper t)) (reduce (rule_of_pair tokens merges) (seeds t (normalize_text txt)))
    @ after t))"
proof -
  have hon: "honest sy" using assms(1) by (simp add: faultless_def)
  have fits: "\<forall>path. file_fits w path" using assms(5) by (simp add: file_fits_def)
  note ok = spm_from_gguf_loads [OF hon fits assms(6)]
  have "map_of (index_entries (sp_index t)) = rule_of_pair tokens merges"
    by (rule fresh_index [OF assms(1-6)])
  with spm_encode_impl_exact(2) [OF hon ok assms(7,8), of time] obtain reads where
    "spm_encode_impl sy t time txt override = Some (Inr (before t
      @ take (nat (spm_limit t override - wrapper t)) (reduce (rule_of_pair tokens merges) (seeds t (normalize_text txt)))
      @ after t, reads))"
    by auto
  then show ?thesis by (simp add: spm_encode_def)
qed

subsection \<open>A tokenizer of three tokens\<close>

definition tiny_spm_file :: gguf_file where
  "tiny_spm_file = \<lparr>gf_kv = (\<lambda>key.
      if key = ''tokenizer.ggml.tokens'' then Some (KvStrings [''a'', ''b'', ''ab''])
      else if key = ''tokenizer.ggml.merges'' then Some (KvStrings [''a b''])
      else if key = ''tokenizer.ggml.unknown_token_id'' then Some (KvU32 0)
      else if key = ''tokenizer.ggml.bos_token_id'' then Some (KvU32 1)
      else None),
     gf_tensor = (\<lambda>_. None), gf_meta = (\<lambda>_. None)\<rparr>"

definition tiny_spm :: "merge_index \<Rightarrow> spm_tokenizer" where
  "tiny_spm ix = new_spm\<lparr>sp_vocab_size := 3, byte_id := replicate 256 (- 1), char_ix := [''a'' \<mapsto> 0, ''b'' \<mapsto> 1],
     sp_index := ix, sp_unk := 0, sp_bos := 1, prefix_id := 1\<rparr>"

lemma tiny_arrays:
  "gf_kv tiny_spm_file ''tokenizer.ggml.tokens'' = Some (KvStrings [''a'', ''b'', ''ab''])"
  "gf_kv tiny_spm_file ''tokenizer.ggml.merges'' = Some (KvStrings [''a b''])"
  by (simp_all add: tiny_spm_file_def)

lemma tiny_scan:
  "scan_pieces 0 [''a'', ''b'', ''ab''] (byte_id new_spm, char_ix new_spm)
    = (replicate 256 (- 1), [''a'' \<mapsto> 0, ''b'' \<mapsto> 1])"
  by (simp add: scan_piece_def Let_def parse_byte_token_def is_single_codepoint_def utf8_len_def byte_def emplace_def
      new_spm_def)

lemma tiny_specials:
  "special_ids tiny_spm_file 3 (new_spm\<lparr>sp_vocab_size := 3, byte_id := replicate 256 (- 1),
      char_ix := [''a'' \<mapsto> 0, ''b'' \<mapsto> 1], sp_index := ix\<rparr>) = Inr (tiny_spm ix)"
  by (simp add: special_ids_def optional_id_def optional_flag_def validate_optional_id_def tiny_spm_file_def tiny_spm_def
      new_spm_def Let_def INT32_MAX_def)

lemma spm_from_gguf_run:
  assumes "require_str_array f ''tokenizer.ggml.tokens'' = Inr tokens"
    and "require_str_array f ''tokenizer.ggml.merges'' = Inr merges"
    and "tokens \<noteq> []" and "length tokens \<le> INT32_MAX" and "length merges \<le> INT32_MAX"
    and "index_from_gguf sy env mkdir_ok pid tokens merges w = (Inr ix, w')"
    and "scan_pieces 0 tokens (byte_id new_spm, char_ix new_spm) = (bytes, m)"
    and "special_ids f (length tokens) (new_spm\<lparr>sp_vocab_size := int (length tokens), byte_id := bytes,
      char_ix := m, sp_index := ix\<rparr>) = Inr t"
  shows "spm_from_gguf sy env mkdir_ok pid (Some f) w = (Inr t, w')"
  using assms(3-5) by (simp add: spm_from_gguf_def assms(1,2,6-8) Let_def bindM_def mapErrM_def)

lemma tiny_spm_loads:
  "\<exists>ix w'. spm_from_gguf ideal_sys tiny_env (\<lambda>_. True) 7 (Some tiny_spm_file) empty_world = (Inr (tiny_spm ix), w')"
proof -
  have none: "files (empty_world\<lparr>calls := Suc (calls empty_world)\<rparr>) p = None" for p by (simp add: empty_files)
  from fresh_load [OF ideal_faultless tiny_sizes tiny_records none none]
  obtain ix w' where "index_from_gguf ideal_sys tiny_env (\<lambda>_. True) 7 [''a'', ''b'', ''ab''] [''a b''] empty_world = (Inr ix, w')"
    unfolding index_from_gguf_eq tiny_root sum.case if_True by blast
  note ix = this
  have arrays: "require_str_array tiny_spm_file ''tokenizer.ggml.tokens'' = Inr [''a'', ''b'', ''ab'']"
    "require_str_array tiny_spm_file ''tokenizer.ggml.merges'' = Inr [''a b'']"
    by (simp_all add: require_str_array_iff tiny_arrays)
  have "[''a'', ''b'', ''ab''] \<noteq> []" "length [''a'', ''b'', ''ab''] = 3" by simp_all
  note spm_from_gguf_run [OF arrays this(1) tiny_sizes ix tiny_scan, unfolded this(2), of "tiny_spm ix"]
  then have "spm_from_gguf ideal_sys tiny_env (\<lambda>_. True) 7 (Some tiny_spm_file) empty_world = (Inr (tiny_spm ix), w')"
    using tiny_specials [of ix] by simp
  then show ?thesis by blast
qed

lemma tiny_text: "normalize_text ''ab b'' = ''ab'' @ kSpaceMarker @ ''b''" "length (normalize_text ''ab b'') \<le> INT32_MAX"
  by (simp_all add: normalize_text_def kSpaceMarker_def INT32_MAX_def)


lemma tiny_seeds: "seeds (tiny_spm ix) (normalize_text ''ab b'') = [0, 1, 0, 0, 0, 1]"
  unfolding tiny_text(1)
  by (simp add: seed_char_def tiny_spm_def utf8_len_def byte_def kSpaceMarker_def Let_def)

lemma tiny_rules:
  "rule_of_pair [''a'', ''b'', ''ab''] [''a b''] key = (if key = 1 then Some \<lparr>rule_rank = 0, rule_merged = 2\<rparr> else None)"
  unfolding rule_of_pair_def tiny_resolved by (simp add: entry_of_def)

lemma tiny_reduced:
  "reduce (rule_of_pair [''a'', ''b'', ''ab''] [''a b'']) [0, 1, 0, 0, 0, 1] = [2, 0, 0, 2]"
  by (simp add: reduce.simps tiny_rules merge_at_def pair_key_def)

lemma spm_encode_merges_witness:
  "\<exists>ix. spm_encode ideal_sys (tiny_spm ix) 0 ''ab b'' 4 = Some (Inr [1, 2, 0, 0])"
proof -
  obtain ix w' where load: "spm_from_gguf ideal_sys tiny_env (\<lambda>_. True) 7 (Some tiny_spm_file) empty_world
      = (Inr (tiny_spm ix), w')" using tiny_spm_loads by blast
  have none: "\<forall>path. files empty_world path = None" by (simp add: empty_files)
  have at: "before (tiny_spm ix) = [1]" "after (tiny_spm ix) = []" "spm_limit (tiny_spm ix) 4 = 4"
    by (simp_all add: before_def after_def spm_limit_def tiny_spm_def new_spm_def)
  have "wrapper (tiny_spm ix) \<le> spm_limit (tiny_spm ix) 4" by (simp add: wrapper_def at)
  from spm_encode_merges [OF ideal_faultless tiny_arrays tiny_records none load tiny_text(2) this, of 0]
  show ?thesis by (auto simp: wrapper_def at tiny_seeds tiny_reduced)
qed

end
