(* ===== verification/Tokenizers.thy ===== *)
theory Tokenizers
  imports WordPiece SpmEncode
begin

text \<open>
  The tokenizer registry, \<open>src/tokenizer/registry.cpp\<close>, and the abstract class \<open>Tokenizer\<close> of
  \<open>tokenizer.h\<close>: the family named by the file chooses the implementation, the virtual methods
  dispatch to it, and the arrays that a tokenizer has consumed are dropped from the metadata.
\<close>

datatype tokenizer =
    WordPieceTokenizer wordpiece_tokenizer
  | SpmBpeTokenizer spm_tokenizer

definition read_tokenizer_family :: "gguf_file \<Rightarrow> tokenizer_error + string" where
  "read_tokenizer_family f =
     (case gf_kv f ''tokenizer.ggml.model'' of
        None \<Rightarrow> Inl (MissingTokenizerKey ''tokenizer.ggml.model'')
      | Some (KvString family) \<Rightarrow> Inr family
      | Some _ \<Rightarrow> Inl (WrongTokenizerType ''tokenizer.ggml.model''))"

definition create_tokenizer ::
  "sys \<Rightarrow> (string \<Rightarrow> string option) \<Rightarrow> (nat \<Rightarrow> bool) \<Rightarrow> nat \<Rightarrow> gguf_file \<Rightarrow> (world, spm_error, tokenizer) action" where
  "create_tokenizer sy env mkdir_ok pid f =
     bindM (liftM Spm (read_tokenizer_family f)) (\<lambda>family.
       if family = ''bert'' then
         bindM (liftM Spm (wordpiece_from_gguf (Some f))) (\<lambda>t. retM (WordPieceTokenizer t))
       else if family = ''llama'' then
         bindM (spm_from_gguf sy env mkdir_ok pid (Some f)) (\<lambda>t. retM (SpmBpeTokenizer t))
       else if family = ''gpt2'' then throwM (Spm (FamilyNotImplemented family))
       else throwM (Spm (UnsupportedFamily family)))"

subsection \<open>The virtual methods\<close>

definition tk_encode ::
  "sys \<Rightarrow> tokenizer \<Rightarrow> nat \<Rightarrow> string \<Rightarrow> int \<Rightarrow> (spm_error + int list) option" where
  "tk_encode sy tk time txt override =
     (case tk of
        WordPieceTokenizer t \<Rightarrow> Some (map_sum Spm id (wordpiece_encode t txt override))
      | SpmBpeTokenizer t \<Rightarrow> spm_encode sy t time txt override)"

definition tk_vocab_size :: "tokenizer \<Rightarrow> int" where
  "tk_vocab_size tk =
     (case tk of WordPieceTokenizer t \<Rightarrow> wordpiece_vocab_size t | SpmBpeTokenizer t \<Rightarrow> sp_vocab_size t)"

definition tk_max_seq_len :: "tokenizer \<Rightarrow> int" where
  "tk_max_seq_len tk =
     (case tk of WordPieceTokenizer t \<Rightarrow> max_seq_len (wp_cfg t) | SpmBpeTokenizer t \<Rightarrow> sp_max_seq_len t)"

definition tk_padding_id :: "tokenizer \<Rightarrow> int" where
  "tk_padding_id tk =
     (case tk of WordPieceTokenizer t \<Rightarrow> pad_id (wp_cfg t) | SpmBpeTokenizer t \<Rightarrow> sp_pad t)"

definition tk_set_max_seq_len :: "int \<Rightarrow> tokenizer \<Rightarrow> tokenizer" where
  "tk_set_max_seq_len n tk =
     (case tk of
        WordPieceTokenizer t \<Rightarrow> WordPieceTokenizer (wordpiece_set_max_seq_len n t)
      | SpmBpeTokenizer t \<Rightarrow> SpmBpeTokenizer (spm_set_max_seq_len n t))"

subsection \<open>Dropping the consumed arrays\<close>

definition kConsumedArrays :: "string list" where
  "kConsumedArrays = [''tokenizer.ggml.tokens'', ''tokenizer.ggml.merges'', ''tokenizer.ggml.scores'',
     ''tokenizer.ggml.token_type'']"

definition gguf_remove_key :: "string \<Rightarrow> gguf_file \<Rightarrow> gguf_file" where
  "gguf_remove_key key f = f\<lparr>gf_kv := (gf_kv f)(key := None)\<rparr>"

definition discard_consumed_tokenizer_metadata :: "gguf_file option \<Rightarrow> gguf_file option" where
  "discard_consumed_tokenizer_metadata ctx =
     (case ctx of None \<Rightarrow> None | Some f \<Rightarrow> Some (fold gguf_remove_key kConsumedArrays f))"

subsection \<open>What every tokenizer promises\<close>

definition tokenizer_sane :: "tokenizer \<Rightarrow> bool" where
  "tokenizer_sane tk = (case tk of WordPieceTokenizer t \<Rightarrow> wordpiece_ok t | SpmBpeTokenizer t \<Rightarrow> spm_sane t)"

lemma created_cases:
  assumes "create_tokenizer sy env mkdir_ok pid f w = (Inr tk, w')"
  obtains t where "tk = WordPieceTokenizer t" "wordpiece_from_gguf (Some f) = Inr t"
    | t where "tk = SpmBpeTokenizer t" "spm_from_gguf sy env mkdir_ok pid (Some f) w = (Inr t, w')"
  using assms unfolding create_tokenizer_def
  by (auto simp: bindM_Inr_iff liftM_Inr_iff split: if_splits)

lemma created_sane: "create_tokenizer sy env mkdir_ok pid f w = (Inr tk, w') \<Longrightarrow> tokenizer_sane tk"
  by (erule created_cases) (auto simp: tokenizer_sane_def wordpiece_loads_ok spm_from_gguf_sane)

lemma set_max_seq_len_sane: "tokenizer_sane (tk_set_max_seq_len n tk) = tokenizer_sane tk"
  by (cases tk) (auto simp: tk_set_max_seq_len_def tokenizer_sane_def wordpiece_set_max_seq_len_def wordpiece_ok_def
      spm_set_max_seq_len_def spm_sane_def ids_ok_def is_token_def Let_def)

lemma spm_set_max_seq_len_ok: "spm_ok (spm_set_max_seq_len n t) = spm_ok t"
  by (auto simp: spm_set_max_seq_len_def spm_ok_def ids_ok_def is_token_def)

text \<open>A text within the size that an \<open>int\<close> can index after normalisation.\<close>

definition text_fits :: "string \<Rightarrow> bool" where
  "text_fits txt \<longleftrightarrow> length (normalize_text txt) \<le> INT32_MAX"

text \<open>What any tokenizer can come to; \<open>faults\<close> are the errors of the cache.\<close>

definition encoded_within :: "tokenizer \<Rightarrow> int \<Rightarrow> spm_error set \<Rightarrow> spm_error + int list \<Rightarrow> bool" where
  "encoded_within tk limit faults res \<longleftrightarrow>
     (case res of Inl e \<Rightarrow> e = Spm LimitTooSmall \<or> e \<in> faults
      | Inr ids \<Rightarrow> int (length ids) \<le> limit \<and> list_all (\<lambda>k. 0 \<le> k \<and> k < tk_vocab_size tk) ids)"

lemma wordpiece_contract:
  assumes "wordpiece_ok t"
  shows "\<exists>res. tk_encode sy (WordPieceTokenizer t) time txt override = Some res
    \<and> encoded_within (WordPieceTokenizer t) (effective_limit override (tk_max_seq_len (WordPieceTokenizer t))) {} res"
  using wordpiece_encode_in_bounds [OF assms, of "txt" override]
  by (cases "wordpiece_encode t txt override")
    (auto simp: encoded_within_def list_all_iff tk_encode_def tk_max_seq_len_def tk_vocab_size_def wordpiece_encode_def
      Let_def split: if_splits)

lemma spm_contract:
  assumes "spm_sane t" and "text_fits txt"
  shows "\<exists>res. tk_encode sy (SpmBpeTokenizer t) time txt override = Some res
    \<and> encoded_within (SpmBpeTokenizer t) (effective_limit override (tk_max_seq_len (SpmBpeTokenizer t)))
        (Index ` lookup_errors) res"
proof -
  have limit: "spm_limit t override = effective_limit override (tk_max_seq_len (SpmBpeTokenizer t))"
    by (simp add: spm_limit_def effective_limit_def tk_max_seq_len_def)
  have tokens: "is_token t = (\<lambda>k. 0 \<le> k \<and> k < tk_vocab_size (SpmBpeTokenizer t))"
    by (auto simp: is_token_def tk_vocab_size_def)
  have within: "encoded_within (SpmBpeTokenizer t) (spm_limit t override) (Index ` lookup_errors) res"
    if "encoding_ok t override res" for res
    using that unfolding encoded_within_def encoding_ok_def tokens by (cases res) auto
  have "encoded_within (SpmBpeTokenizer t) (spm_limit t override) (Index ` lookup_errors) (Inl (Spm LimitTooSmall))"
    by (simp add: encoded_within_def)
  then have "\<exists>res. spm_encode sy t time txt override = Some res
      \<and> encoded_within (SpmBpeTokenizer t) (spm_limit t override) (Index ` lookup_errors) res"
    using spm_encode_cases [OF assms(1), of "txt" override sy time] assms(2) [unfolded text_fits_def] within
    by (auto split: if_splits)
  then show ?thesis by (simp add: tk_encode_def limit)
qed

lemma spm_contract_honest:
  assumes "honest sy" and "spm_ok t" and "text_fits txt"
    and "tk_encode sy (SpmBpeTokenizer t) time txt override = Some (Inl e)"
  shows "e = Spm LimitTooSmall"
  using spm_encode_bounded [OF assms(1,2), of "txt" override time] assms(3,4)
  by (auto simp: text_fits_def tk_encode_def split: if_splits)


definition tiny_llama :: gguf_file where
  "tiny_llama = tiny_spm_file\<lparr>gf_kv := (gf_kv tiny_spm_file)(''tokenizer.ggml.model'' \<mapsto> KvString ''llama'')\<rparr>"

lemma tiny_llama_same: "key \<noteq> ''tokenizer.ggml.model'' \<Longrightarrow> gf_kv tiny_llama key = gf_kv tiny_spm_file key"
  by (simp add: tiny_llama_def)


end
