(* ===== verification/Device.thy ===== *)
theory Device
  imports Registry Batch Tokenizers
begin

text \<open>
  The compute backend as an argument. ggml's backend, graph allocator and metadata arena belong to
  the submodule, so whether they succeed is the outcome of a numbered call, and the values of
  uploaded inputs and downloaded results are functions of the data. Both runners, the eager
  \<open>Embedder\<close> and the streaming one, use it.
\<close>

text \<open>
  \<open>dv_i32\<close>, \<open>dv_f16\<close> and \<open>dv_f32\<close> are an input tensor of the given dimensions after its upload,
  \<open>dv_slot\<close> one whose floats were downloaded from a tensor computed before;
  \<open>dv_read\<close> are the first floats of a computed tensor; \<open>dv_nodes\<close> is the number of nodes of the graph
  with the given outputs.
\<close>

record 't device =
  dv_i32 :: "int list \<Rightarrow> int list \<Rightarrow> 't"
  dv_f16 :: "int list \<Rightarrow> mask_cell list \<Rightarrow> 't"
  dv_f32 :: "int list \<Rightarrow> f32_cell list \<Rightarrow> 't"
  dv_slot :: "int list \<Rightarrow> f32 list \<Rightarrow> 't"
  dv_read :: "'t \<Rightarrow> nat \<Rightarrow> f32 list"
  dv_nodes :: "'t list \<Rightarrow> int"
  dv_context_ok :: "nat \<Rightarrow> bool"
  dv_reserve_ok :: "nat \<Rightarrow> bool"
  dv_alloc_ok :: "nat \<Rightarrow> bool"
  dv_backed :: "nat \<Rightarrow> bool"
  dv_compute_ok :: "nat \<Rightarrow> bool"

text \<open>A download fills its buffer.\<close>

definition reads_whole :: "'t device \<Rightarrow> bool" where
  "reads_whole dv \<longleftrightarrow> (\<forall>t n. length (dv_read dv t n) = n)"

text \<open>The number of calls made so far, and a call that must succeed.\<close>

record clocked =
  clock :: nat

definition needM :: "(nat \<Rightarrow> bool) \<Rightarrow> 'e \<Rightarrow> ('z clocked_scheme, 'e, unit) action" where
  "needM ok e = (\<lambda>s. (if ok (clock s) then Inr () else Inl e, s\<lparr>clock := Suc (clock s)\<rparr>))"

lemma needM_Inr_iff: "needM ok e s = (Inr u, t) \<longleftrightarrow> ok (clock s) \<and> t = s\<lparr>clock := Suc (clock s)\<rparr>"
  by (auto simp: needM_def)

lemma needM_state: "snd (needM ok e s) = s\<lparr>clock := Suc (clock s)\<rparr>"
  by (simp add: needM_def)

subsection \<open>Settings of a call\<close>

datatype batch_layout = LayoutDefault | LayoutPadded

record embedder_config =
  ec_n_threads :: int
  ec_max_batch :: int
  ec_max_seq_len :: int
  ec_pooling :: pool_type
  ec_normalize :: bool
  ec_batch_layout :: batch_layout

definition default_embedder_config :: embedder_config where
  "default_embedder_config = \<lparr>ec_n_threads = 0, ec_max_batch = 1, ec_max_seq_len = 0, ec_pooling = PoolMean,
     ec_normalize = True, ec_batch_layout = LayoutDefault\<rparr>"

text \<open>The token limit of a call: the configured one, at most the model's own.\<close>

definition token_limit :: "embedder_config \<Rightarrow> arch_params \<Rightarrow> int" where
  "token_limit cfg params =
     min (if ec_max_seq_len cfg > 0 then ec_max_seq_len cfg else ap_max_seq_len params) (ap_max_seq_len params)"

definition kMaxAutoThreads :: int where
  "kMaxAutoThreads = 4"

text \<open>\<open>hw\<close> is \<open>std::thread::hardware_concurrency()\<close>; the macOS branch is not modelled.\<close>

definition usable_cores :: "u32 \<Rightarrow> int" where
  "usable_cores hw = (if hw = 0 then 1 else sint hw)"

definition resolve_n_threads :: "u32 \<Rightarrow> int \<Rightarrow> int" where
  "resolve_n_threads hw requested =
     (if requested > 0 then requested else min (usable_cores hw) kMaxAutoThreads)"

subsection \<open>The graph inputs of a sub-batch\<close>

text \<open>Rows of the result are copied from the staging buffer to the place of their text.\<close>

definition row_writes :: "nat \<Rightarrow> nat list \<Rightarrow> f32 list \<Rightarrow> (nat \<times> f32 list) list" where
  "row_writes H indices staging = map (\<lambda>b. (indices ! b * H, slice (b * H) H staging)) [0 ..< length indices]"

definition scatter_rows :: "nat \<Rightarrow> nat list \<Rightarrow> f32 list \<Rightarrow> f32 list \<Rightarrow> f32 list" where
  "scatter_rows H indices staging out = fold write_at (row_writes H indices staging) out"

definition pool_inputs_of :: "'t device \<Rightarrow> pool_type \<Rightarrow> materialized_batch \<Rightarrow> 't pool_inputs" where
  "pool_inputs_of dv pooling b =
     (let S = int (seq_len b); B = int (batch_size b) in
      if padded b \<and> pooling = PoolMean then
        \<lparr>pi_valid_mask = Some (dv_f32 dv [1, S, B] (valid_mask b)),
         pi_mean_scale = Some (dv_f32 dv [1, B] (mean_scale b)), pi_last_indices = None\<rparr>
      else if padded b \<and> pooling = PoolLast then
        \<lparr>pi_valid_mask = None, pi_mean_scale = None, pi_last_indices = Some (dv_i32 dv [B] (last_indices b))\<rparr>
      else \<lparr>pi_valid_mask = None, pi_mean_scale = None, pi_last_indices = None\<rparr>)"

subsection \<open>Reading the rows back\<close>

lemma row_length:
  assumes "length staging = n * H" and "b < n"
  shows "length (slice (b * H) H staging) = H"
proof -
  have "b * H + H \<le> n * H" using assms(2) by (metis add.commute mult_Suc mult_le_mono1 Suc_leI)
  then show ?thesis using assms(1) by simp
qed

lemma scatter_length:
  assumes "length staging = length indices * H" and "\<forall>i\<in>set indices. i * H + H \<le> length out"
  shows "length (scatter_rows H indices staging out) = length out"
proof -
  have "length (fold write_at ws out) = length out" if "\<forall>w\<in>set ws. fst w + length (snd w) \<le> length out" for ws
    using that by (induction ws arbitrary: out) (auto simp: write_at_def)
  moreover have "\<forall>w\<in>set (row_writes H indices staging). fst w + length (snd w) \<le> length out"
    using row_length [OF assms(1)] assms(2) by (auto simp: row_writes_def)
  ultimately show ?thesis by (simp add: scatter_rows_def)
qed

lemma rows_apart:
  assumes "(i :: nat) \<noteq> j" shows "i * H + H \<le> j * H \<or> j * H + H \<le> i * H"
  using assms by (metis add.commute linorder_neqE_nat mult_Suc mult_le_mono1 Suc_leI)

lemma scatter_row:
  assumes "distinct indices" and "length staging = length indices * H"
    and "\<forall>i\<in>set indices. i * H + H \<le> length out" and "b < length indices"
  shows "slice (indices ! b * H) H (scatter_rows H indices staging out) = slice (b * H) H staging"
proof -
  let ?ws = "row_writes H indices staging"
  have len: "length (slice (k * H) H staging) = H" if "k < length indices" for k
    using row_length [OF assms(2) that] .
  have "\<forall>w\<in>set ?ws. fst w + length (snd w) \<le> length out"
    using assms(3) len by (auto simp: row_writes_def)
  moreover have "b < length ?ws" "?ws ! b = (indices ! b * H, slice (b * H) H staging)"
    using assms(4) by (simp_all add: row_writes_def)
  moreover have "\<forall>w\<in>set (drop (Suc b) ?ws). indices ! b * H + length (slice (b * H) H staging) \<le> fst w
      \<or> fst w + length (snd w) \<le> indices ! b * H"
  proof
    fix w assume "w \<in> set (drop (Suc b) ?ws)"
    then have "w \<in> (\<lambda>k. (indices ! k * H, slice (k * H) H staging)) ` {Suc b ..< length indices}"
      by (simp add: row_writes_def drop_map)
    then obtain k where k: "b < k" "k < length indices" "w = (indices ! k * H, slice (k * H) H staging)"
      unfolding image_iff Bex_def atLeastLessThan_iff Suc_le_eq by blast
    then have "indices ! b \<noteq> indices ! k" using assms(1,4) by (simp add: nth_eq_iff_index_eq)
    then show "indices ! b * H + length (slice (b * H) H staging) \<le> fst w \<or> fst w + length (snd w) \<le> indices ! b * H"
      using rows_apart [of "indices ! b" "indices ! k" H] len [OF assms(4)] len [OF k(2)] k(3) by simp
  qed
  ultimately show ?thesis
    unfolding scatter_rows_def using slice_writes [of ?ws out b "indices ! b * H" "slice (b * H) H staging"]
    by (simp add: len [OF assms(4)])
qed

lemma scatter_other_row:
  assumes "length staging = length indices * H" and "\<forall>i\<in>set indices. i * H + H \<le> length out"
    and "i \<notin> set indices" and "i * H + H \<le> length out"
  shows "slice (i * H) H (scatter_rows H indices staging out) = slice (i * H) H out"
proof -
  have "\<forall>w\<in>set (row_writes H indices staging). fst w + length (snd w) \<le> length out
      \<and> (i * H + H \<le> fst w \<or> fst w + length (snd w) \<le> i * H)"
  proof
    fix w assume "w \<in> set (row_writes H indices staging)"
    then obtain k where k: "k < length indices" "w = (indices ! k * H, slice (k * H) H staging)"
      by (auto simp: row_writes_def)
    moreover have "i \<noteq> indices ! k" using k(1) assms(3) by auto
    ultimately show "fst w + length (snd w) \<le> length out \<and> (i * H + H \<le> fst w \<or> fst w + length (snd w) \<le> i * H)"
      using rows_apart [of i "indices ! k" H] row_length [OF assms(1) k(1)] assms(2) by auto
  qed
  then show ?thesis unfolding scatter_rows_def by (rule slice_writes_other) (rule assms(4))
qed

end
