(* ===== verification/Embedder.thy ===== *)
theory Embedder
  imports Device
begin

text \<open>
  The eager runner, \<open>src/embedder.cpp\<close>: one graph for a whole sub-batch. The state of a call is the
  compute scratch, the output array and the number of backend calls; \<open>reserve\<close>, \<open>embed\<close> and
  \<open>embed_batch\<close> change it.
\<close>

datatype embed_error =
    EncodeFailed spm_error
  | BatchFailed "spm_error batch_error"
  | ArchFailed arch_error
  | PoolFailed forward_error
  | ContextFailed
  | ReserveFailed int
  | GraphAllocFailed
  | ComputeFailed
  | NullOutputPointer
  | StagingOverflow

record 't embedder =
  em_arch :: "'t model_arch"
  em_tokenizer :: tokenizer
  em_sys :: sys

definition em_params :: "'t embedder \<Rightarrow> arch_params" where
  "em_params em = arch_params_of (em_arch em)"

record embed_state = clocked +
  reserved_seq_len :: int
  backend_threads :: int
  out_buf :: "f32 list"

text \<open>\<open>Tokenizer::encode\<close>; by its contract the loop inside ends for every text that fits.\<close>

definition tokenize :: "'t embedder \<Rightarrow> string \<Rightarrow> int \<Rightarrow> spm_error + int list" where
  "tokenize em txt limit = the (tk_encode (em_sys em) (em_tokenizer em) 0 txt limit)"

subsection \<open>The constructor\<close>

datatype create_error =
    ScanFailed scan_error
  | OpenForInference string
  | TokenizerFailed spm_error
  | BindFailed arch_error

text \<open>
  \<open>parse\<close> is the metadata-only parse of the file, \<open>load\<close> the one that also reads the tensor data
  (the metadata, and the tensor of each name). The second component of the result is the metadata
  that is kept.
\<close>

definition create_embedder ::
  "'t ggml \<Rightarrow> sys \<Rightarrow> (string \<Rightarrow> string option) \<Rightarrow> (nat \<Rightarrow> bool) \<Rightarrow> nat \<Rightarrow> (string \<Rightarrow> gguf_file option)
    \<Rightarrow> (string \<Rightarrow> (gguf_file \<times> (string \<Rightarrow> 't option)) option) \<Rightarrow> string
    \<Rightarrow> (world, create_error, 't embedder \<times> gguf_file option) action" where
  "create_embedder g sy env mkdir_ok pid parse load path =
     bindM (liftM ScanFailed (create_model_arch_path g parse path)) (\<lambda>manifest.
     case load path of None \<Rightarrow> throwM (OpenForInference path)
     | Some (f, model_ctx) \<Rightarrow>
         bindM (mapErrM TokenizerFailed (create_tokenizer sy env mkdir_ok pid f)) (\<lambda>tokenizer.
         let f' = discard_consumed_tokenizer_metadata (Some f) in
         bindM (liftM BindFailed (bind_weights manifest model_ctx)) (\<lambda>a.
         retM (\<lparr>em_arch = a, em_tokenizer = tokenizer, em_sys = sy\<rparr>, f'))))"

subsection \<open>The graph of a sub-batch\<close>

definition packs :: "input_requirements \<Rightarrow> batch_layout \<Rightarrow> materialized_batch \<Rightarrow> bool" where
  "packs req layout b \<longleftrightarrow>
     padded b \<and> layout \<noteq> LayoutPadded \<and> consumes_seq_lengths req \<and> consumes_packed_batch req"

text \<open>The inputs \<open>build_graph\<close> creates, with the data the caller uploads after allocation.\<close>

definition packed_inputs :: "'t device \<Rightarrow> input_requirements \<Rightarrow> materialized_batch \<Rightarrow> 't graph_inputs" where
  "packed_inputs dv req b =
     no_graph_inputs\<lparr>
       gi_token_ids := Some (dv_i32 dv [total_tokens b, 1] (packed_token_ids b)),
       gi_rope_pos_ids := if needs_rope_pos_ids req then Some (dv_i32 dv [total_tokens b] (packed_positions b)) else None,
       gi_seq_lengths := Some (lengths b),
       gi_seq_offsets := Some (offsets b),
       gi_n_seq := int (batch_size b)\<rparr>"

definition padded_inputs :: "'t device \<Rightarrow> input_requirements \<Rightarrow> batch_layout \<Rightarrow> materialized_batch \<Rightarrow> 't graph_inputs" where
  "padded_inputs dv req layout b =
     (let S = int (seq_len b); B = int (batch_size b);
          seqs = (if padded b \<and> layout \<noteq> LayoutPadded \<and> consumes_seq_lengths req then Some (lengths b) else None)
      in no_graph_inputs\<lparr>
       gi_token_ids := Some (dv_i32 dv [S, B] (token_ids b)),
       gi_learned_pos_ids := if needs_learned_pos_ids req then Some (dv_i32 dv [S, B] (learned_positions b)) else None,
       gi_rope_pos_ids := if needs_rope_pos_ids req then Some (dv_i32 dv [S] (rope_positions b)) else None,
       gi_type_ids := if needs_type_ids req then Some (dv_i32 dv [S, B] (type_ids b)) else None,
       gi_seq_lengths := seqs,
       gi_kq_mask := if padded b \<and> uses_kq_mask req \<and> seqs = None
         then Some (dv_f16 dv [S, S, 1, B] (attention_mask b)) else None\<rparr>)"

definition normalized :: "'t ggml \<Rightarrow> bool \<Rightarrow> 't \<Rightarrow> 't" where
  "normalized g normalise x = (if normalise then build_l2_normalize g x f32_1e_12 else x)"

definition build_graph ::
  "'t ggml \<Rightarrow> 't device \<Rightarrow> 't model_arch \<Rightarrow> pool_type \<Rightarrow> bool \<Rightarrow> batch_layout \<Rightarrow> materialized_batch \<Rightarrow> embed_error + 't" where
  "build_graph g dv a pooling normalise layout b =
     (let req = arch_inputs a in
      if packs req layout b then
        bindE (map_sum ArchFailed (\<lambda>x. x) (arch_build_graph g a (packed_inputs dv req b))) (\<lambda>x.
        bindE (map_sum PoolFailed (\<lambda>x. x) (build_packed_pool g x pooling (Some (offsets b)) (Some (lengths b))
          (int (batch_size b)))) (\<lambda>out.
        Inr (normalized g normalise out)))
      else
        bindE (map_sum ArchFailed (\<lambda>x. x) (arch_build_graph g a (padded_inputs dv req layout b))) (\<lambda>x.
        bindE (map_sum PoolFailed (\<lambda>x. x) (build_pool_with g x pooling (pool_inputs_of dv pooling b))) (\<lambda>out.
        Inr (normalized g normalise out))))"

subsection \<open>\<open>reserve\<close>\<close>

definition reserve ::
  "'t ggml \<Rightarrow> 't device \<Rightarrow> 't embedder \<Rightarrow> int \<Rightarrow> pool_type \<Rightarrow> bool \<Rightarrow> (embed_state, embed_error, unit) action" where
  "reserve g dv em max_len pooling normalise =
     (let want = min (max max_len 1) (ap_max_seq_len (em_params em)) in
      bindM (getM reserved_seq_len) (\<lambda>have.
      if want \<le> have then retM ()
      else bindM (needM (dv_context_ok dv) ContextFailed) (\<lambda>_.
           bindM (liftM id (build_graph g dv (em_arch em) pooling normalise LayoutDefault
             (empty_batch (nat want) 1 False))) (\<lambda>_.
           bindM (needM (dv_reserve_ok dv) (ReserveFailed want)) (\<lambda>_.
           modifyM (\<lambda>s. s\<lparr>reserved_seq_len := want\<rparr>))))))"

subsection \<open>\<open>embed\<close>\<close>

text \<open>The inputs \<open>embed\<close> uploads for a single sequence.\<close>

definition single_batch :: "int list \<Rightarrow> materialized_batch" where
  "single_batch ids =
     (empty_batch (length ids) 1 False)\<lparr>token_ids := ids,
        learned_positions := map i32_of_nat [0 ..< length ids],
        rope_positions := map i32_of_nat [0 ..< length ids],
        type_ids := replicate (length ids) 0\<rparr>"

definition embed ::
  "'t ggml \<Rightarrow> 't device \<Rightarrow> u32 \<Rightarrow> 't embedder \<Rightarrow> embedder_config \<Rightarrow> string \<Rightarrow> (embed_state, embed_error, unit) action" where
  "embed g dv hw em cfg txt =
     (let H = nat (ap_n_embed (em_params em)) in
      bindM (liftM EncodeFailed (tokenize em txt (token_limit cfg (em_params em)))) (\<lambda>ids.
      bindM (getM reserved_seq_len) (\<lambda>have.
      bindM (if int (length ids) > have
             then reserve g dv em (i32_of_nat (length ids)) (ec_pooling cfg) (ec_normalize cfg) else retM ()) (\<lambda>_.
      bindM (modifyM (\<lambda>s. s\<lparr>backend_threads := resolve_n_threads hw (ec_n_threads cfg)\<rparr>)) (\<lambda>_.
      bindM (needM (dv_context_ok dv) ContextFailed) (\<lambda>_.
      bindM (liftM id (build_graph g dv (em_arch em) (ec_pooling cfg) (ec_normalize cfg) LayoutDefault
        (single_batch ids))) (\<lambda>out.
      bindM (needM (dv_alloc_ok dv) GraphAllocFailed) (\<lambda>_.
      bindM (needM (dv_compute_ok dv) ComputeFailed) (\<lambda>_.
      modifyM (\<lambda>s. s\<lparr>out_buf := put 0 (dv_read dv out H) (out_buf s)\<rparr>))))))))))"

subsection \<open>\<open>embed_batch\<close>\<close>

definition make_plan :: "'t embedder \<Rightarrow> embedder_config \<Rightarrow> string list \<Rightarrow> spm_error batch_error + batch_plan" where
  "make_plan em cfg texts = make_batch_plan (tokenize em) texts (token_limit cfg (em_params em)) (ec_max_batch cfg)"

definition sub_batch :: "'t embedder \<Rightarrow> batch_plan \<Rightarrow> nat \<Rightarrow> spm_error batch_error + materialized_batch" where
  "sub_batch em plan j =
     materialize_batch plan j (tk_padding_id (em_tokenizer em)) (tk_vocab_size (em_tokenizer em))"

definition embed_subbatch ::
  "'t ggml \<Rightarrow> 't device \<Rightarrow> 't embedder \<Rightarrow> embedder_config \<Rightarrow> batch_plan \<Rightarrow> nat \<Rightarrow> (embed_state, embed_error, unit) action" where
  "embed_subbatch g dv em cfg plan j =
     (let H = nat (ap_n_embed (em_params em)) in
      bindM (liftM BatchFailed (sub_batch em plan j)) (\<lambda>batch.
      bindM (needM (dv_context_ok dv) ContextFailed) (\<lambda>_.
      bindM (liftM id (build_graph g dv (em_arch em) (ec_pooling cfg) (ec_normalize cfg) (ec_batch_layout cfg) batch)) (\<lambda>out.
      bindM (needM (dv_alloc_ok dv) GraphAllocFailed) (\<lambda>_.
      bindM (needM (dv_compute_ok dv) ComputeFailed) (\<lambda>_.
      bindM (liftM id (guardE (\<not> batch_size batch > SIZE_MAX div H) StagingOverflow)) (\<lambda>_.
      modifyM (\<lambda>s. s\<lparr>out_buf := scatter_rows H (original_indices batch) (dv_read dv out (batch_size batch * H))
        (out_buf s)\<rparr>))))))))"

text \<open>\<open>None\<close> is a null output pointer.\<close>

definition embed_batch ::
  "'t ggml \<Rightarrow> 't device \<Rightarrow> u32 \<Rightarrow> 't embedder \<Rightarrow> embedder_config \<Rightarrow> string list \<Rightarrow> bool \<Rightarrow> (embed_state, embed_error, unit) action" where
  "embed_batch g dv hw em cfg texts out_null =
     (if out_null then throwM NullOutputPointer
      else if texts = [] then retM ()
      else bindM (liftM BatchFailed (make_plan em cfg texts)) (\<lambda>plan.
           bindM (modifyM (\<lambda>s. s\<lparr>backend_threads := resolve_n_threads hw (ec_n_threads cfg)\<rparr>)) (\<lambda>_.
           forM [0 ..< subbatch_count plan] (embed_subbatch g dv em cfg plan))))"

subsection \<open>The rows of the output\<close>

text \<open>
  The specification both runners are compared with: every row of the output holds the row of its
  text in the graph that \<open>build_graph\<close> makes of its sub-batch.
\<close>

definition subbatch_rows ::
  "'t ggml \<Rightarrow> 't device \<Rightarrow> 't embedder \<Rightarrow> embedder_config \<Rightarrow> batch_plan \<Rightarrow> f32 list \<Rightarrow> nat \<Rightarrow> bool" where
  "subbatch_rows g dv em cfg plan out j \<longleftrightarrow>
     (let H = nat (ap_n_embed (em_params em)) in
      \<exists>batch v. sub_batch em plan j = Inr batch
        \<and> build_graph g dv (em_arch em) (ec_pooling cfg) (ec_normalize cfg) (ec_batch_layout cfg) batch = Inr v
        \<and> (\<forall>b < length (subbatch_items plan j). slice (original_index (subbatch_items plan j ! b) * H) H out
             = slice (b * H) H (dv_read dv v (length (subbatch_items plan j) * H))))"

definition holds_rows ::
  "'t ggml \<Rightarrow> 't device \<Rightarrow> 't embedder \<Rightarrow> embedder_config \<Rightarrow> batch_plan \<Rightarrow> f32 list \<Rightarrow> bool" where
  "holds_rows g dv em cfg plan out \<longleftrightarrow> (\<forall>j < subbatch_count plan. subbatch_rows g dv em cfg plan out j)"

text \<open>What a materialised sub-batch says about its rows.\<close>

lemma place_items_rows:
  assumes "foldE (place_item S items) bs out = (Inr out' :: 'e batch_error + materialized_batch)" and "distinct bs"
    and "\<forall>b\<in>set bs. b < length (original_indices out)"
  shows "original_indices out' = fold (\<lambda>b xs. xs[b := original_index (items ! b)]) bs (original_indices out)
    \<and> batch_size out' = batch_size out"
  using assms
proof (induction bs arbitrary: out)
  case Nil
  then show ?case by simp
next
  case (Cons b bs)
  then obtain o1 where o1: "place_item S items b out = (Inr o1 :: 'e batch_error + materialized_batch)"
    "foldE (place_item S items) bs o1 = (Inr out' :: 'e batch_error + materialized_batch)"
    by (auto simp: throwing)
  then have "original_indices o1 = (original_indices out)[b := original_index (items ! b)]" "batch_size o1 = batch_size out"
    by (auto simp: place_item_def Let_def split: if_splits)
  with Cons.IH [OF o1(2)] Cons.prems show ?case by simp
qed

lemma fold_update_all:
  assumes "length xs = n"
  shows "fold (\<lambda>b xs. xs[b := f b]) [0 ..< n] xs = map f [0 ..< n]"
proof -
  have "fold (\<lambda>b xs. xs[b := f b]) [0 ..< k] xs = map f [0 ..< k] @ drop k xs" if "k \<le> n" for k
    using that
  proof (induction k)
    case (Suc k)
    then have "fold (\<lambda>b xs. xs[b := f b]) [0 ..< Suc k] xs = (map f [0 ..< k] @ drop k xs)[k := f k]" by simp
    also have "\<dots> = map f [0 ..< k] @ f k # drop (Suc k) xs"
      using Suc.prems assms by (simp add: list_update_append flip: Cons_nth_drop_Suc)
    finally show ?case by simp
  qed simp
  from this [of n] show ?thesis using assms by simp
qed

lemma pad_batch_rows:
  assumes "pad_batch S B cells items out = (Inr out' :: 'e batch_error + materialized_batch)"
  shows "original_indices out' = original_indices out \<and> batch_size out' = batch_size out"
proof -
  let ?same = "\<lambda>o1. original_indices o1 = original_indices out \<and> batch_size o1 = batch_size out"
  obtain cursor o1 mc where o1: "foldE (pack_item items) [0 ..< B] (0, out\<lparr>offsets := replicate (B + 1) 0\<rparr>)
      = (Inr (cursor, o1) :: 'e batch_error + nat \<times> materialized_batch)"
    and fin: "foldE (mask_item S) [0 ..< B] (o1\<lparr>offsets := (offsets o1)[B := int cursor], total_tokens := int cursor,
        attention_mask := replicate mc Mask_zero, valid_mask := replicate cells F32_zero,
        mean_scale := replicate B F32_zero, last_indices := replicate B 0\<rparr>)
      = (Inr out' :: 'e batch_error + materialized_batch)"
    using assms by (auto simp: pad_batch_def throwing Let_def)
  have "?same (snd (cursor, o1))"
    by (rule foldE_invariant [OF o1, where I = "\<lambda>s. ?same (snd s)"])
      (auto simp: pack_item_def Let_def split: if_splits)
  then show ?thesis
    by (intro foldE_invariant [OF fin, where I = ?same])
      (auto simp: mask_item_def Let_def split: if_splits)
qed

lemma sub_batch_rows:
  assumes "sub_batch em plan j = Inr batch"
  shows "original_indices batch = map original_index (subbatch_items plan j)"
    and "batch_size batch = length (subbatch_items plan j)"
proof -
  define items S where "items = subbatch_items plan j" and "S = length (item_ids (last items))"
  have run: "materialize_batch plan j (tk_padding_id (em_tokenizer em)) (tk_vocab_size (em_tokenizer em))
      = (Inr batch :: spm_error batch_error + materialized_batch)"
    using assms by (simp add: sub_batch_def)
  obtain cells start out where start: "original_indices start = replicate (length items) 0" "batch_size start = length items"
    and place: "foldE (place_item S items) [0 ..< length items] start = (Inr out :: spm_error batch_error + materialized_batch)"
    and fin: "(if length (item_ids (hd items)) \<noteq> S then pad_batch S (length items) cells items out else Inr out)
      = (Inr batch :: spm_error batch_error + materialized_batch)"
  proof -
    define pad where "pad = (if tk_padding_id (em_tokenizer em) < 0 \<or> tk_padding_id (em_tokenizer em) \<ge> tk_vocab_size (em_tokenizer em)
      then 0 else tk_padding_id (em_tokenizer em))"
    define fresh where "fresh cells = (empty_batch S (length items) (length (item_ids (hd items)) \<noteq> S))\<lparr>
        token_ids := replicate cells pad, learned_positions := replicate cells 0, rope_positions := map i32_of_nat [0 ..< S],
        type_ids := replicate cells 0, original_indices := replicate (length items) 0,
        lengths := replicate (length items) 0\<rparr>" for cells
    have "bindE (checked_mul S (length items) ''S*B'') (\<lambda>cells. bindE (foldE (place_item S items) [0 ..< length items] (fresh cells))
        (\<lambda>out. if length (item_ids (hd items)) \<noteq> S then pad_batch S (length items) cells items out else Inr out))
      = (Inr batch :: spm_error batch_error + materialized_batch)"
      using run unfolding materialize_batch_def Let_def items_def [symmetric] S_def [symmetric] pad_def [symmetric]
        fresh_def [symmetric]
      by (simp split: if_split_asm)
    then obtain cells out where "foldE (place_item S items) [0 ..< length items] (fresh cells)
        = (Inr out :: spm_error batch_error + materialized_batch)"
      "(if length (item_ids (hd items)) \<noteq> S then pad_batch S (length items) cells items out else Inr out)
        = (Inr batch :: spm_error batch_error + materialized_batch)"
      unfolding bindE_Inr_iff by blast
    moreover have "original_indices (fresh cells) = replicate (length items) 0" "batch_size (fresh cells) = length items"
      by (simp_all add: fresh_def empty_batch_def)
    ultimately show thesis by (intro that [of "fresh cells" out cells])
  qed
  have "map (\<lambda>b. original_index (items ! b)) [0 ..< length items] = map original_index items"
    by (rule nth_equalityI) simp_all
  then have "original_indices out = map original_index items \<and> batch_size out = length items"
    using place_items_rows [OF place] start by (simp add: fold_update_all [of _ "length items"])
  then show "original_indices batch = map original_index (subbatch_items plan j)"
    "batch_size batch = length (subbatch_items plan j)"
    using fin pad_batch_rows [of S "length items" cells items out batch] unfolding items_def by (auto split: if_splits)
qed

text \<open>Every text has its own row, and every row its text.\<close>

lemma distinct_of_card: "set xs = {..< length xs} \<Longrightarrow> distinct xs"
  by (rule card_distinct) simp

lemma plan_indices:
  assumes "make_plan em cfg texts = Inr plan"
  shows "distinct (map original_index (plan_items plan))"
    and "set (map original_index (plan_items plan)) = {..< length texts}"
proof -
  note p = make_batch_plan_Inr [OF assms [unfolded make_plan_def]]
  show idx: "set (map original_index (plan_items plan)) = {..< length texts}" using p(5) by simp
  show "distinct (map original_index (plan_items plan))"
    by (rule distinct_of_card) (use idx p(3) in simp)
qed

lemma distinct_concat_map_disjoint:
  "distinct (concat (map f js)) \<Longrightarrow> distinct js \<Longrightarrow> j \<in> set js \<Longrightarrow> k \<in> set js \<Longrightarrow> j \<noteq> k \<Longrightarrow> set (f j) \<inter> set (f k) = {}"
proof (induction js)
  case (Cons i js)
  then show ?case by (auto simp: disjoint_iff)
qed simp

lemma subbatch_indices:
  assumes "make_plan em cfg texts = Inr plan" and "j < subbatch_count plan"
  shows "distinct (map original_index (subbatch_items plan j))"
    and "set (map original_index (subbatch_items plan j)) \<subseteq> {..< length texts}"
    and "\<And>k. k < subbatch_count plan \<Longrightarrow> k \<noteq> j \<Longrightarrow>
      set (map original_index (subbatch_items plan j)) \<inter> set (map original_index (subbatch_items plan k)) = {}"
proof -
  note p = make_batch_plan_Inr [OF assms(1) [unfolded make_plan_def]]
  have m: "0 < plan_max_batch plan" using p(1,2) by simp
  have "concat (map (\<lambda>j. map original_index (subbatch_items plan j)) [0 ..< subbatch_count plan])
      = map original_index (plan_items plan)"
    unfolding subbatches_cover [OF m, symmetric] map_concat map_map o_def ..
  then have d: "distinct (concat (map (\<lambda>j. map original_index (subbatch_items plan j)) [0 ..< subbatch_count plan]))"
    using plan_indices(1) [OF assms(1)] by simp
  show "distinct (map original_index (subbatch_items plan j))"
    using d assms(2) by (auto simp: distinct_concat_iff)
  show "set (map original_index (subbatch_items plan j)) \<subseteq> {..< length texts}"
    using subbatch_facts(3) [OF m assms(2)] plan_indices(2) [OF assms(1)] by auto
  show "set (map original_index (subbatch_items plan j)) \<inter> set (map original_index (subbatch_items plan k)) = {}"
    if "k < subbatch_count plan" "k \<noteq> j" for k
    using distinct_concat_map_disjoint [OF d, of j k] assms(2) that by simp
qed

text \<open>Scattering one sub-batch.\<close>

lemma scatter_subbatch:
  assumes "make_plan em cfg texts = Inr plan" and "reads_whole dv" and "H = nat (ap_n_embed (em_params em))"
    and "length out = length texts * H" and "j < subbatch_count plan"
    and "sub_batch em plan j = Inr batch"
    and "build_graph g dv (em_arch em) (ec_pooling cfg) (ec_normalize cfg) (ec_batch_layout cfg) batch = Inr v"
    and "out' = scatter_rows H (original_indices batch) (dv_read dv v (batch_size batch * H)) out"
  shows "length out' = length out" and "subbatch_rows g dv em cfg plan out' j"
    and "\<And>k. k < subbatch_count plan \<Longrightarrow> k \<noteq> j \<Longrightarrow> subbatch_rows g dv em cfg plan out k \<Longrightarrow>
      subbatch_rows g dv em cfg plan out' k"
proof -
  note rows = sub_batch_rows [OF assms(6)] and idx = subbatch_indices [OF assms(1,5)]
  define indices where "indices = map original_index (subbatch_items plan j)"
  have len: "length (dv_read dv v (batch_size batch * H)) = length indices * H"
    using assms(2) by (simp add: reads_whole_def rows(2) indices_def)
  have fit: "i * H + H \<le> length out" if "i < length texts" for i
    using that assms(4) by (metis add.commute mult_Suc mult_le_mono1 Suc_leI)
  have fits: "\<forall>i\<in>set indices. i * H + H \<le> length out" using idx(2) fit unfolding indices_def by blast
  have out': "out' = scatter_rows H indices (dv_read dv v (batch_size batch * H)) out"
    by (simp add: assms(8) rows(1) indices_def)
  show "length out' = length out" unfolding out' by (rule scatter_length [OF len fits])
  have "slice (indices ! b * H) H out' = slice (b * H) H (dv_read dv v (length (subbatch_items plan j) * H))"
    if "b < length (subbatch_items plan j)" for b
    using scatter_row [OF idx(1) [folded indices_def] len fits, of b] that
    unfolding out' by (simp add: rows(2) indices_def)
  then show "subbatch_rows g dv em cfg plan out' j"
    using assms(6,7) unfolding subbatch_rows_def Let_def assms(3) [symmetric] by (auto simp: indices_def)
  show "subbatch_rows g dv em cfg plan out' k" if k: "k < subbatch_count plan" "k \<noteq> j" "subbatch_rows g dv em cfg plan out k" for k
  proof -
    have "slice (original_index (subbatch_items plan k ! b) * H) H out' = slice (original_index (subbatch_items plan k ! b) * H) H out"
      if "b < length (subbatch_items plan k)" for b
    proof -
      have mem: "original_index (subbatch_items plan k ! b) \<in> set (map original_index (subbatch_items plan k))"
        using that by simp
      then have "original_index (subbatch_items plan k ! b) \<notin> set indices" using idx(3) [OF k(1,2)] by (auto simp: indices_def)
      moreover have "original_index (subbatch_items plan k ! b) < length texts"
        using mem subbatch_indices(2) [OF assms(1) k(1)] by auto
      ultimately show ?thesis unfolding out' by (intro scatter_other_row [OF len fits]) (use fit in auto)
    qed
    then show ?thesis using k(3) unfolding subbatch_rows_def Let_def assms(3) [symmetric] by auto
  qed
qed

text \<open>A loop whose steps scatter their sub-batches fills all the rows.\<close>

lemma scatter_loop:
  assumes "make_plan em cfg texts = Inr plan" and "reads_whole dv" and "H = nat (ap_n_embed (em_params em))"
    and step: "\<And>j s t. j < subbatch_count plan \<Longrightarrow> step j s = (Inr (), t) \<Longrightarrow> \<exists>batch v. sub_batch em plan j = Inr batch
      \<and> build_graph g dv (em_arch em) (ec_pooling cfg) (ec_normalize cfg) (ec_batch_layout cfg) batch = Inr v
      \<and> outf t = scatter_rows H (original_indices batch) (dv_read dv v (batch_size batch * H)) (outf s)"
    and "forM js step s = (Inr (), t)" and "distinct js" and "set js \<subseteq> {..< subbatch_count plan}"
    and "length (outf s) = length texts * H"
  shows "length (outf t) = length texts * H \<and> (\<forall>j\<in>set js. subbatch_rows g dv em cfg plan (outf t) j)
    \<and> (\<forall>k < subbatch_count plan. k \<notin> set js \<longrightarrow> subbatch_rows g dv em cfg plan (outf s) k
         \<longrightarrow> subbatch_rows g dv em cfg plan (outf t) k)"
  using assms(5-8)
proof (induction js arbitrary: s)
  case Nil
  then show ?case by simp
next
  case (Cons j js)
  obtain s1 where s1: "step j s = (Inr (), s1)" "forM js step s1 = (Inr (), t)"
    using Cons.prems(1) by (auto simp: bindM_Inr_iff)
  have j: "j < subbatch_count plan" using Cons.prems(3) by simp
  obtain batch v where sub: "sub_batch em plan j = Inr batch"
    "build_graph g dv (em_arch em) (ec_pooling cfg) (ec_normalize cfg) (ec_batch_layout cfg) batch = Inr v"
    "outf s1 = scatter_rows H (original_indices batch) (dv_read dv v (batch_size batch * H)) (outf s)"
    using step [OF j s1(1)] by blast
  note sc = scatter_subbatch [OF assms(1-3) Cons.prems(4) j sub]
  have IH: "length (outf t) = length texts * H \<and> (\<forall>j\<in>set js. subbatch_rows g dv em cfg plan (outf t) j)
    \<and> (\<forall>k < subbatch_count plan. k \<notin> set js \<longrightarrow> subbatch_rows g dv em cfg plan (outf s1) k
         \<longrightarrow> subbatch_rows g dv em cfg plan (outf t) k)"
    by (rule Cons.IH) (use s1(2) Cons.prems sc(1) in auto)
  have "subbatch_rows g dv em cfg plan (outf t) j" using IH sc(2) j Cons.prems(2) by auto
  then show ?case using IH sc(3) by auto
qed

lemma scatter_all:
  assumes "make_plan em cfg texts = Inr plan" and "reads_whole dv" and "H = nat (ap_n_embed (em_params em))"
    and "\<And>j s t. j < subbatch_count plan \<Longrightarrow> step j s = (Inr (), t) \<Longrightarrow> \<exists>batch v. sub_batch em plan j = Inr batch
      \<and> build_graph g dv (em_arch em) (ec_pooling cfg) (ec_normalize cfg) (ec_batch_layout cfg) batch = Inr v
      \<and> outf t = scatter_rows H (original_indices batch) (dv_read dv v (batch_size batch * H)) (outf s)"
    and "forM [0 ..< subbatch_count plan] step s = (Inr (), t)" and "length (outf s) = length texts * H"
  shows "length (outf t) = length texts * H \<and> holds_rows g dv em cfg plan (outf t)"
  using scatter_loop [where step = step and outf = outf, OF assms(1-5) _ _ assms(6)]
  unfolding holds_rows_def by (auto simp: atLeast_upt)

text \<open>Two outputs with these rows are the same.\<close>

lemma rows_determine_output:
  assumes "make_plan em cfg texts = Inr plan" and "H = nat (ap_n_embed (em_params em))"
    and "holds_rows g dv em cfg plan out" and "holds_rows g dv em cfg plan out'"
    and "length out = length texts * H" and "length out' = length texts * H"
  shows "out = out'"
proof (rule nth_equalityI)
  show "length out = length out'" using assms(5,6) by simp
  fix p assume p: "p < length out"
  then have H: "0 < H" using assms(5) by (cases H) auto
  define i where "i = p div H"
  have i: "i < length texts" using p assms(5) H by (simp add: i_def less_mult_imp_div_less)
  note pl = make_batch_plan_Inr [OF assms(1) [unfolded make_plan_def]]
  have m: "0 < plan_max_batch plan" using pl(1,2) by simp
  have "i \<in> original_index ` set (plan_items plan)" using i pl(5) by simp
  then obtain j b where jb: "j < subbatch_count plan" "b < length (subbatch_items plan j)"
    "original_index (subbatch_items plan j ! b) = i"
    unfolding subbatches_cover [OF m, symmetric] by (auto simp: in_set_conv_nth)
  have same: "slice (i * H) H out = slice (i * H) H out'"
    using assms(3,4) jb unfolding holds_rows_def subbatch_rows_def Let_def assms(2) [symmetric] by fastforce
  have fit: "i * H + H \<le> length out" using i assms(5) by (metis add.commute mult_Suc mult_le_mono1 Suc_leI)
  have "p = i * H + p mod H" "p mod H < H" using H by (simp_all add: i_def)
  then show "out ! p = out' ! p"
    using same slice_nth [OF fit, of "p mod H"] slice_nth [of "i * H" H out' "p mod H"] fit assms(5,6) by metis
qed

subsection \<open>The eager runner fills the rows\<close>

lemma embed_subbatch_scatters:
  assumes "embed_subbatch g dv em cfg plan j s = (Inr (), t)"
  shows "\<exists>batch v. sub_batch em plan j = Inr batch
      \<and> build_graph g dv (em_arch em) (ec_pooling cfg) (ec_normalize cfg) (ec_batch_layout cfg) batch = Inr v
      \<and> out_buf t = scatter_rows (nat (ap_n_embed (em_params em))) (original_indices batch)
          (dv_read dv v (batch_size batch * nat (ap_n_embed (em_params em)))) (out_buf s)"
  using assms by (auto simp: embed_subbatch_def Let_def bindM_Inr_iff liftM_Inr_iff needM_Inr_iff)

lemma embed_batch_fills:
  assumes "embed_batch g dv hw em cfg texts False s = (Inr (), t)" and "reads_whole dv" and "texts \<noteq> []"
    and "length (out_buf s) = length texts * nat (ap_n_embed (em_params em))"
  shows "\<exists>plan. make_plan em cfg texts = Inr plan \<and> holds_rows g dv em cfg plan (out_buf t)
    \<and> length (out_buf t) = length (out_buf s)"
proof -
  obtain plan where plan: "make_plan em cfg texts = Inr plan"
    and run: "forM [0 ..< subbatch_count plan] (embed_subbatch g dv em cfg plan)
      (s\<lparr>backend_threads := resolve_n_threads hw (ec_n_threads cfg)\<rparr>) = (Inr (), t)"
    using assms(1,3) by (auto simp: embed_batch_def bindM_Inr_iff liftM_Inr_iff)
  have "length (out_buf t) = length texts * nat (ap_n_embed (em_params em)) \<and> holds_rows g dv em cfg plan (out_buf t)"
    by (rule scatter_all [OF plan assms(2) refl embed_subbatch_scatters run]) (use assms(4) in simp_all)
  then show ?thesis using plan assms(4) by simp
qed

subsection \<open>One text\<close>

text \<open>An unpadded sub-batch of one text makes the graph \<open>embed\<close> makes.\<close>

lemma unpadded_graph_cong:
  assumes "\<not> padded a" and "\<not> padded b" and "seq_len a = seq_len b" and "batch_size a = batch_size b"
    and "token_ids a = token_ids b" and "learned_positions a = learned_positions b"
    and "rope_positions a = rope_positions b" and "type_ids a = type_ids b"
  shows "build_graph g dv m pooling nz l a = build_graph g dv m pooling nz l' b"
  using assms by (simp add: build_graph_def packs_def padded_inputs_def pool_inputs_of_def Let_def)

lemma single_text_plan:
  assumes "make_plan em cfg [txt] = Inr plan"
  shows "\<exists>ids. tokenize em txt (token_limit cfg (em_params em)) = Inr ids \<and> ids \<noteq> []
    \<and> plan_items plan = [\<lparr>item_ids = ids, original_index = 0\<rparr>] \<and> 0 < plan_max_batch plan"
  using assms by (auto simp: make_plan_def make_batch_plan_def plan_item_def throwing split: if_splits sum.splits)

lemma single_text_batch:
  assumes "make_plan em cfg [txt] = Inr plan" and "tokenize em txt (token_limit cfg (em_params em)) = Inr ids"
    and "length ids \<le> INT32_MAX" and "0 < tk_vocab_size (em_tokenizer em)"
  shows "subbatch_count plan = 1"
    and "\<exists>batch. sub_batch em plan 0 = Inr batch \<and> original_indices batch = [0] \<and> batch_size batch = 1
      \<and> build_graph g dv m pooling nz l batch = build_graph g dv m pooling nz l' (single_batch ids)"
proof -
  have items: "plan_items plan = [\<lparr>item_ids = ids, original_index = 0\<rparr>]" "0 < plan_max_batch plan"
    using single_text_plan [OF assms(1)] assms(2) by auto
  show count: "subbatch_count plan = 1" using items by (simp add: subbatch_count_def)
  have sub: "subbatch_items plan 0 = [\<lparr>item_ids = ids, original_index = 0\<rparr>]"
    using items by (simp add: subbatch_items_def)
  define pad where "pad = (if 0 \<le> tk_padding_id (em_tokenizer em) \<and> tk_padding_id (em_tokenizer em) < tk_vocab_size (em_tokenizer em)
    then tk_padding_id (em_tokenizer em) else 0)"
  have "materialize_batch plan 0 (tk_padding_id (em_tokenizer em)) (tk_vocab_size (em_tokenizer em))
      = (Inr (plain_batch (length ids) pad [\<lparr>item_ids = ids, original_index = 0\<rparr>] False)
          :: spm_error batch_error + materialized_batch)"
    by (rule materialize_batch_tensors [OF assms(1) [unfolded make_plan_def] _ assms(4) refl refl _ pad_def, of 0, THEN conjunct1, THEN trans])
      (use count assms(3) in \<open>simp_all add: sub token_count_def\<close>)
  then have "sub_batch em plan 0 = Inr (plain_batch (length ids) pad [\<lparr>item_ids = ids, original_index = 0\<rparr>] False)"
    by (simp add: sub_batch_def)
  moreover have pos: "map i32_of_nat [0 ..< length ids] = map int [0 ..< length ids]"
    using assms(3) by (simp add: i32_of_nat_id)
  have "build_graph g dv m pooling nz l (plain_batch (length ids) pad [\<lparr>item_ids = ids, original_index = 0\<rparr>] False)
      = build_graph g dv m pooling nz l' (single_batch ids)"
    by (rule unpadded_graph_cong)
      (simp_all add: plain_batch_def empty_batch_def single_batch_def padded_row_def position_row_def token_count_def pos)
  moreover have "original_indices (plain_batch (length ids) pad [\<lparr>item_ids = ids, original_index = 0\<rparr>] False) = [0]"
    "batch_size (plain_batch (length ids) pad [\<lparr>item_ids = ids, original_index = 0\<rparr>] False) = 1"
    by (simp_all add: plain_batch_def empty_batch_def)
  ultimately show "\<exists>batch. sub_batch em plan 0 = Inr batch \<and> original_indices batch = [0] \<and> batch_size batch = 1
      \<and> build_graph g dv m pooling nz l batch = build_graph g dv m pooling nz l' (single_batch ids)" by blast
qed

lemma embed_writes:
  assumes "embed g dv hw em cfg txt s = (Inr (), t)"
  shows "\<exists>ids v. tokenize em txt (token_limit cfg (em_params em)) = Inr ids
    \<and> build_graph g dv (em_arch em) (ec_pooling cfg) (ec_normalize cfg) LayoutDefault (single_batch ids) = Inr v
    \<and> out_buf t = put 0 (dv_read dv v (nat (ap_n_embed (em_params em)))) (out_buf s)"
proof -
  have reserve_out: "out_buf s1 = out_buf s0" if "reserve g dv em n p nz s0 = (Inr (), s1)" for n p nz s0 s1
    using that by (auto simp: reserve_def Let_def bindM_Inr_iff liftM_Inr_iff needM_Inr_iff split: if_splits)
  show ?thesis
    using assms unfolding embed_def Let_def bindM_Inr_iff liftM_Inr_iff needM_Inr_iff
    by (auto split: if_splits dest!: reserve_out)
qed

text \<open>
  C6: embedding a text alone and in a batch of one are the same. Whatever layout the batch was
  asked for and however the backend calls went, when \<open>embed\<close> and \<open>embed_batch\<close> both return, they
  leave the same floats in the output.
\<close>

theorem embed_matches_batch:
  assumes "embed g dv hw em cfg txt s = (Inr (), t)" and "embed_batch g dv hw em cfg [txt] False s2 = (Inr (), t2)"
    and "reads_whole dv" and "length (out_buf s) = nat (ap_n_embed (em_params em))"
    and "length (out_buf s2) = nat (ap_n_embed (em_params em))"
    and "tokenize em txt (token_limit cfg (em_params em)) = Inr ids" and "length ids \<le> INT32_MAX"
    and "0 < tk_vocab_size (em_tokenizer em)"
  shows "out_buf t = out_buf t2"
proof -
  define H where "H = nat (ap_n_embed (em_params em))"
  obtain v where v: "build_graph g dv (em_arch em) (ec_pooling cfg) (ec_normalize cfg) LayoutDefault (single_batch ids) = Inr v"
    "out_buf t = put 0 (dv_read dv v H) (out_buf s)"
    using embed_writes [OF assms(1)] assms(6) by (auto simp: H_def)
  have one: "out_buf t = dv_read dv v H" using v(2) assms(3,4) by (simp add: put_def reads_whole_def H_def)
  obtain plan where plan: "make_plan em cfg [txt] = Inr plan" "holds_rows g dv em cfg plan (out_buf t2)"
    "length (out_buf t2) = H"
    using embed_batch_fills [OF assms(2,3)] assms(5) by (auto simp: H_def)
  note single = single_text_batch [OF plan(1) assms(6-8)]
  obtain batch v2 where b: "sub_batch em plan 0 = Inr batch"
    "build_graph g dv (em_arch em) (ec_pooling cfg) (ec_normalize cfg) (ec_batch_layout cfg) batch = Inr v2"
    "\<forall>b < length (subbatch_items plan 0). slice (original_index (subbatch_items plan 0 ! b) * H) H (out_buf t2)
       = slice (b * H) H (dv_read dv v2 (length (subbatch_items plan 0) * H))"
    using plan(2) single(1) by (auto simp: holds_rows_def subbatch_rows_def Let_def H_def)
  have "v2 = v" using single(2) [of g dv "em_arch em" "ec_pooling cfg" "ec_normalize cfg" "ec_batch_layout cfg" LayoutDefault] b(1,2) v(1) by auto
  moreover have "subbatch_items plan 0 = [\<lparr>item_ids = ids, original_index = 0\<rparr>]"
    using single_text_plan [OF plan(1)] assms(6) by (auto simp: subbatch_items_def)
  ultimately have "slice 0 H (out_buf t2) = slice 0 H (dv_read dv v H)" using b(3) by simp
  then show ?thesis using one plan(3) assms(3) by (simp add: slice_full reads_whole_def)
qed

definition demo_device :: "(nat \<Rightarrow> int) device" where
  "demo_device = \<lparr>dv_i32 = (\<lambda>ds _. dims ds), dv_f16 = (\<lambda>ds _. dims ds), dv_f32 = (\<lambda>ds _. dims ds), dv_slot = (\<lambda>ds _. dims ds),
     dv_read = (\<lambda>_ n. replicate n f32_one), dv_nodes = (\<lambda>_. 1), dv_context_ok = (\<lambda>_. True), dv_reserve_ok = (\<lambda>_. True),
     dv_alloc_ok = (\<lambda>_. True), dv_backed = (\<lambda>_. True), dv_compute_ok = (\<lambda>_. True)\<rparr>"

definition demo_bert_model :: "(nat \<Rightarrow> int) bert_model" where
  "demo_bert_model = \<lparr>bm_manifest = bert_manifest_of demo_bert_file demo_bert_arch,
     bm_embed_w = \<lparr>ew_tok = dims [4, 3], ew_pos = dims [4, 16], ew_type = dims [4, 2], ew_norm_w = dims [4], ew_norm_b = dims [4]\<rparr>,
     bm_layer_w = [demo_bert_layer]\<rparr>"

definition demo_embedder :: "(nat \<Rightarrow> int) embedder" where
  "demo_embedder = \<lparr>em_arch = BertModel demo_bert_model, em_tokenizer = WordPieceTokenizer tiny_wordpiece, em_sys = ideal_sys\<rparr>"

definition demo_state :: "f32 list \<Rightarrow> embed_state" where
  "demo_state out = \<lparr>clock = 0, reserved_seq_len = 16, backend_threads = 0, out_buf = out\<rparr>"

lemma demo_params: "ap_n_embed (em_params demo_embedder) = 4" "ap_max_seq_len (em_params demo_embedder) = 16"
  by (simp_all add: em_params_def demo_embedder_def arch_params_of_def demo_bert_model_def bert_params_def Let_def demo_bert_arch_def)

lemma demo_tokens: "tokenize demo_embedder ''Unable, un!'' 16 = Inr [1, 6, 7, 3, 4, 3, 2]"
proof -
  have "wordpiece_encode tiny_wordpiece ''Unable, un!'' 16 = Inr [1, 6, 7, 3, 4, 3, 2]"
    unfolding tiny_wordpiece_def by code_simp
  then show ?thesis by (simp add: tokenize_def demo_embedder_def tk_encode_def)
qed

lemma demo_vocab: "0 < tk_vocab_size (em_tokenizer demo_embedder)"
  by (simp add: demo_embedder_def tk_vocab_size_def wordpiece_vocab_size_def tiny_wordpiece_def)

lemma bert_graph_builds:
  assumes "em_arch em = BertModel m"
  shows "\<exists>v. build_graph g dv (em_arch em) pooling nz l b = Inr v"
proof -
  have blocks: "\<exists>y. foldE (\<lambda>li. bert_block g m inp (int li)) ls x = Inr y" for inp ls x
    by (induction ls arbitrary: x) (simp_all add: bert_block_def)
  have emb: "\<exists>x. bert_embedding_phase g m (padded_inputs dv bert_inputs l b) = Inr x"
    by (simp add: bert_embedding_phase_def padded_inputs_def bert_inputs_def no_requirements_def Let_def)
  then obtain x where x: "bert_embedding_phase g m (padded_inputs dv bert_inputs l b) = Inr x" ..
  obtain y where "foldE (\<lambda>li. bert_block g m (padded_inputs dv bert_inputs l b) (int li))
      [0 ..< nat (ap_n_layer (bert_params (bm_manifest m)))] x = Inr y"
    using blocks by blast
  with x have "arch_build_graph g (BertModel m) (padded_inputs dv bert_inputs l b) = Inr (bert_final_phase g m y)"
    by (simp add: arch_build_graph_def bert_build_graph_def)
  moreover have "\<not> consumes_packed_batch bert_inputs" by (simp add: bert_inputs_def no_requirements_def)
  ultimately show ?thesis using assms
    by (cases pooling; cases "padded b") (auto simp: build_graph_def packs_def arch_inputs_def Let_def build_pool_with_def
        pool_inputs_of_def build_masked_mean_pool_def build_indexed_last_pool_def)
qed

lemma demo_embeds:
  assumes "length out = 4"
  shows "\<exists>t. embed shape_ggml demo_device 0 demo_embedder default_embedder_config ''Unable, un!'' (demo_state out) = (Inr (), t)"
    and "\<exists>t. embed_batch shape_ggml demo_device 0 demo_embedder default_embedder_config [''Unable, un!''] False (demo_state out) = (Inr (), t)"
proof -
  let ?g = "build_graph shape_ggml demo_device (em_arch demo_embedder) PoolMean True LayoutDefault"
  have limit: "token_limit default_embedder_config (em_params demo_embedder) = 16"
    by (simp add: token_limit_def default_embedder_config_def demo_params)
  have arch: "em_arch demo_embedder = BertModel demo_bert_model" by (simp add: demo_embedder_def)
  obtain v where v: "?g (single_batch [1, 6, 7, 3, 4, 3, 2]) = Inr v"
    using bert_graph_builds [OF arch] by blast
  show "\<exists>t. embed shape_ggml demo_device 0 demo_embedder default_embedder_config ''Unable, un!'' (demo_state out) = (Inr (), t)"
    unfolding embed_def limit demo_tokens
    by (simp add: bindM_def needM_def demo_device_def default_embedder_config_def demo_state_def v [unfolded demo_device_def] Let_def)
  obtain plan where plan: "make_plan demo_embedder default_embedder_config [''Unable, un!''] = Inr plan"
    unfolding make_plan_def limit by (simp add: make_batch_plan_def plan_item_def demo_tokens default_embedder_config_def)
  have len: "length [1, 6, 7, 3, 4, 3, 2 :: int] \<le> INT32_MAX" by (simp add: INT32_MAX_def)
  note single = single_text_batch [OF plan demo_tokens [folded limit] len demo_vocab]
  obtain batch where b: "sub_batch demo_embedder plan 0 = Inr batch" "batch_size batch = 1" "?g batch = Inr v"
    using single(2) [of shape_ggml demo_device "em_arch demo_embedder" PoolMean True LayoutDefault LayoutDefault] v by auto
  show "\<exists>t. embed_batch shape_ggml demo_device 0 demo_embedder default_embedder_config [''Unable, un!''] False (demo_state out) = (Inr (), t)"
    using b(3) unfolding embed_batch_def plan
    by (simp add: single(1) embed_subbatch_def b(1,2) Let_def bindM_def needM_def demo_device_def default_embedder_config_def
        demo_state_def demo_params SIZE_MAX_def guardE_def)
qed

lemma embed_matches_batch_witness:
  "\<exists>t t2. embed shape_ggml demo_device 0 demo_embedder default_embedder_config ''Unable, un!'' (demo_state [0, 0, 0, 0]) = (Inr (), t)
     \<and> embed_batch shape_ggml demo_device 0 demo_embedder default_embedder_config [''Unable, un!''] False
         (demo_state [1, 2, 3, 4]) = (Inr (), t2) \<and> out_buf t = out_buf t2"
proof -
  have "length [0, 0, 0, 0 :: f32] = 4" "length [1, 2, 3, 4 :: f32] = 4" by simp_all
  then obtain t t2 where runs: "embed shape_ggml demo_device 0 demo_embedder default_embedder_config ''Unable, un!'' (demo_state [0, 0, 0, 0]) = (Inr (), t)"
    "embed_batch shape_ggml demo_device 0 demo_embedder default_embedder_config [''Unable, un!''] False (demo_state [1, 2, 3, 4]) = (Inr (), t2)"
    using demo_embeds by blast
  have limit: "token_limit default_embedder_config (em_params demo_embedder) = 16"
    by (simp add: token_limit_def default_embedder_config_def demo_params)
  have "out_buf t = out_buf t2"
    by (rule embed_matches_batch [OF runs, of "[1, 6, 7, 3, 4, 3, 2]"])
      (simp_all add: reads_whole_def demo_device_def demo_state_def demo_params limit demo_tokens INT32_MAX_def demo_vocab)
  with runs show ?thesis by blast
qed

end
