(* ===== verification/StreamPlan.thy ===== *)
theory StreamPlan
  imports Embedder MappedStore Residency "HOL-Library.List_Lexorder" "HOL-Library.Char_ord" "HOL-Library.Sublist"
begin

text \<open>
  The streaming model of \<open>src/streaming_execution.cpp\<close> as its constructor builds it: slot names are
  interned, every tensor of the file is claimed by exactly one class (the token table, the common
  tensors, or one unit of one layer), and the units of every layer are cut into groups with the
  byte ranges they lease and the slots they exchange.
\<close>

datatype plan_error =
    TooManySlots
  | IncompleteCommonPlan
  | TensorMissing string
  | ClassifiedTwice string string string
  | IncompleteLayerPlan
  | SlotNotReturned
  | LayersDisagree
  | UnitProducesNothing string
  | UnclassifiedTensor string
  | PlanArch arch_error
  | PlanRange range_error
  | PlanPartition partition_error
  | PlanResidency residency_error

text \<open>\<open>name\<close>, \<open>graph_inputs\<close>, \<open>stage\<close> and \<open>build\<close> of a resolved unit are those of the declared one.\<close>

record 't resolved_unit = unit_slots +
  ru_unit :: "'t streaming_unit"
  ru_weight_bytes :: u64
  ru_raw_ranges :: "byte_range list"

record 't resolved_group =
  gr_key :: string
  gr_ranges :: "byte_range list"
  gr_inputs :: "slot_id list"
  gr_outputs :: "slot_id list"
  gr_graph_inputs :: input_requirements
  gr_members :: "'t resolved_unit list"
  gr_weight_bytes :: u64

record 't resolved_layer =
  rl_units :: "'t resolved_unit list"
  rl_groups :: "'t resolved_group list"
  rl_input_slot :: slot_id
  rl_output_slot :: slot_id

record 't stream_model =
  sm_embedder :: "'t embedder"
  sm_mapped_size :: u64
  sm_page_size :: u64
  sm_common_ranges :: "byte_range list"
  sm_token :: tensor_info
  sm_preset :: string
  sm_layers :: "'t resolved_layer list"
  sm_slot_names :: "string list"
  sm_groups_per_sentence :: u64
  sm_max_group_bytes :: u64

subsection \<open>Interning slots, claiming tensors\<close>

text \<open>
  \<open>slot_ids\<close> maps a name to the number of names before it, so the list of the names in the order
  they came stands for the map; \<open>owner\<close> maps a tensor to the unit that claimed it, the last claim first.
\<close>

record plan_state =
  slot_names :: "string list"
  owner :: "(string \<times> string) list"

definition kInvalidSlot :: slot_id where
  "kInvalidSlot = - 1"

fun position_of :: "string \<Rightarrow> string list \<Rightarrow> nat option" where
  "position_of n [] = None"
| "position_of n (m # ms) = (if m = n then Some 0 else map_option Suc (position_of n ms))"

definition intern :: "string \<Rightarrow> (plan_state, plan_error, slot_id) action" where
  "intern name =
     bindM (getM slot_names) (\<lambda>names.
     case position_of name names of
       Some i \<Rightarrow> retM (word_of_nat i)
     | None \<Rightarrow>
         if length names \<ge> unat kInvalidSlot then throwM TooManySlots
         else bindM (modifyM (\<lambda>s. s\<lparr>slot_names := names @ [name]\<rparr>)) (\<lambda>_. retM (word_of_nat (length names))))"

definition take_tensor :: "tensor_info list \<Rightarrow> string \<Rightarrow> string \<Rightarrow> (plan_state, plan_error, tensor_info) action" where
  "take_tensor infos claimant name =
     (case map_of (map (\<lambda>i. (ti_name i, i)) infos) name of
        None \<Rightarrow> throwM (TensorMissing name)
      | Some i \<Rightarrow>
          bindM (getM (\<lambda>s. map_of (owner s) name)) (\<lambda>claimed.
          case claimed of
            Some who \<Rightarrow> throwM (ClassifiedTwice name who claimant)
          | None \<Rightarrow> bindM (modifyM (\<lambda>s. s\<lparr>owner := (name, claimant) # owner s\<rparr>)) (\<lambda>_. retM i)))"

definition range_of :: "tensor_info \<Rightarrow> byte_range" where
  "range_of i = ByteRange (ti_absolute_offset i) (ti_nbytes i)"

subsection \<open>One layer\<close>

definition resolve_unit :: "tensor_info list \<Rightarrow> string \<Rightarrow> 't streaming_unit \<Rightarrow> (plan_state, plan_error, 't resolved_unit) action" where
  "resolve_unit infos layer_key u =
     bindM (mapM intern (su_inputs u)) (\<lambda>ins.
     bindM (mapM intern (su_outputs u)) (\<lambda>outs.
     if outs = [] then throwM (UnitProducesNothing (su_name u))
     else bindM (mapM (take_tensor infos (layer_key @ ''/'' @ su_name u)) (su_weights u)) (\<lambda>taken.
          retM \<lparr>unit_inputs = ins, unit_outputs = outs, ru_unit = u,
                 ru_weight_bytes = sum_list (map ti_nbytes taken), ru_raw_ranges = map range_of taken\<rparr>)))"

text \<open>The flags that a group collects from its members; \<open>consumes_packed_batch\<close> is not collected.\<close>

definition join_requirements :: "input_requirements \<Rightarrow> input_requirements \<Rightarrow> input_requirements" where
  "join_requirements r q = r\<lparr>needs_learned_pos_ids := needs_learned_pos_ids r \<or> needs_learned_pos_ids q,
     needs_rope_pos_ids := needs_rope_pos_ids r \<or> needs_rope_pos_ids q,
     needs_type_ids := needs_type_ids r \<or> needs_type_ids q,
     uses_kq_mask := uses_kq_mask r \<or> uses_kq_mask q,
     consumes_seq_lengths := consumes_seq_lengths r \<or> consumes_seq_lengths q\<rparr>"

definition make_group ::
  "string \<Rightarrow> u64 \<Rightarrow> u64 \<Rightarrow> 't resolved_unit list \<Rightarrow> group_slots \<Rightarrow> plan_error + 't resolved_group" where
  "make_group layer_key mapped page members exchanged =
     (let label = foldl (\<lambda>l u. l @ (if l = [] then [] else ''+'') @ su_name (ru_unit u)) [] members in
      bindE (map_sum PlanRange (\<lambda>x. x) (page_align_and_coalesce (concat (map ru_raw_ranges members)) mapped page)) (\<lambda>ranges.
      Inr \<lparr>gr_key = layer_key @ '':'' @ label, gr_ranges = ranges, gr_inputs = group_inputs exchanged,
           gr_outputs = group_outputs exchanged,
           gr_graph_inputs = foldl (\<lambda>r u. join_requirements r (su_graph_inputs (ru_unit u))) no_requirements members,
           gr_members = members, gr_weight_bytes = sum_list (map ru_weight_bytes members)\<rparr>))"

definition make_groups ::
  "string \<Rightarrow> u64 \<Rightarrow> u64 \<Rightarrow> 't resolved_unit list \<Rightarrow> nat list \<Rightarrow> group_slots list \<Rightarrow> plan_error + 't resolved_group list" where
  "make_groups layer_key mapped page units runs exchanged =
     mapE (\<lambda>(members, gs). make_group layer_key mapped page members gs) (zip (chop runs units) exchanged)"

definition resolve_layer ::
  "'t ggml \<Rightarrow> 't model_arch \<Rightarrow> tensor_info list \<Rightarrow> u64 \<Rightarrow> u64 \<Rightarrow> string \<Rightarrow> nat \<Rightarrow> string option
    \<Rightarrow> (plan_state, plan_error, 't resolved_layer \<times> byte_range list \<times> string) action" where
  "resolve_layer g a infos mapped page preset layer previous =
     bindM (liftM PlanArch (arch_streaming_units g a (int layer))) (\<lambda>plan.
     if lp_units plan = [] \<or> lp_input_slot plan = [] \<or> lp_output_slot plan = [] then throwM IncompleteLayerPlan
     else if lp_input_slot plan \<noteq> lp_output_slot plan then throwM SlotNotReturned
     else if previous \<noteq> None \<and> previous \<noteq> Some (lp_input_slot plan) then throwM LayersDisagree
     else
       bindM (intern (lp_input_slot plan)) (\<lambda>inslot.
       bindM (intern (lp_output_slot plan)) (\<lambda>outslot.
       let layer_key = ''layer:'' @ nat_digits layer in
       bindM (mapM (resolve_unit infos layer_key) (lp_units plan)) (\<lambda>units.
       bindM (liftM PlanRange (page_align_and_coalesce (concat (map ru_raw_ranges units)) mapped page)) (\<lambda>ranges.
       bindM (liftM PlanPartition (partition_runs (map ru_weight_bytes units) (map (su_stage \<circ> ru_unit) units) preset)) (\<lambda>runs.
       bindM (liftM PlanPartition (resolve_group_slots units runs outslot)) (\<lambda>exchanged.
       bindM (liftM id (make_groups layer_key mapped page units runs exchanged)) (\<lambda>groups.
       retM (\<lparr>rl_units = units, rl_groups = groups, rl_input_slot = inslot, rl_output_slot = outslot\<rparr>,
             ranges, lp_output_slot plan)))))))))"

fun resolve_layers ::
  "'t ggml \<Rightarrow> 't model_arch \<Rightarrow> tensor_info list \<Rightarrow> u64 \<Rightarrow> u64 \<Rightarrow> string \<Rightarrow> nat list \<Rightarrow> string option
    \<Rightarrow> (plan_state, plan_error, ('t resolved_layer \<times> byte_range list) list) action" where
  "resolve_layers g a infos mapped page preset [] previous = retM []"
| "resolve_layers g a infos mapped page preset (l # ls) previous =
     bindM (resolve_layer g a infos mapped page preset l previous) (\<lambda>(layer, ranges, out).
     bindM (resolve_layers g a infos mapped page preset ls (Some out)) (\<lambda>rest.
     retM ((layer, ranges) # rest)))"

subsection \<open>The whole model\<close>

text \<open>The last check: a tensor that nothing claimed, the first in the order of the map.\<close>

definition check_classified :: "tensor_info list \<Rightarrow> (plan_state, plan_error, unit) action" where
  "check_classified infos =
     bindM (getM owner) (\<lambda>claimed.
     let names = remdups (map ti_name infos) in
     if length claimed \<noteq> length names then
       (case List.find (\<lambda>n. map_of claimed n = None) (sort names) of
          Some n \<Rightarrow> throwM (UnclassifiedTensor n) | None \<Rightarrow> retM ())
     else retM ())"

definition resolve_model ::
  "'t ggml \<Rightarrow> 't embedder \<Rightarrow> tensor_info list \<Rightarrow> u64 \<Rightarrow> u64 \<Rightarrow> string option
    \<Rightarrow> (plan_state, plan_error, 't stream_model \<times> byte_range list list) action" where
  "resolve_model g em infos mapped page env =
     (let a = em_arch em;
          preset = (case env of Some e \<Rightarrow> if e \<noteq> [] then e else ''layer'' | None \<Rightarrow> ''layer'');
          plan = arch_common_plan a
      in
      if cp_token_embedding plan = [] then throwM IncompleteCommonPlan
      else
        bindM (take_tensor infos ''token'' (cp_token_embedding plan)) (\<lambda>token.
        bindM (mapM (take_tensor infos ''common'') (cp_common plan)) (\<lambda>commons.
        bindM (liftM PlanRange (page_align_and_coalesce (map range_of commons) mapped page)) (\<lambda>common_ranges.
        bindM (resolve_layers g a infos mapped page preset [0 ..< nat (ap_n_layer (arch_params_of a))] None) (\<lambda>layers.
        bindM (check_classified infos) (\<lambda>_.
        bindM (getM slot_names) (\<lambda>names.
        retM (\<lparr>sm_embedder = em, sm_mapped_size = mapped, sm_page_size = page, sm_common_ranges = common_ranges,
               sm_token = token, sm_preset = preset, sm_layers = map fst layers, sm_slot_names = names,
               sm_groups_per_sentence = word_of_nat (sum_list (map (length \<circ> rl_groups \<circ> fst) layers) + 2),
               sm_max_group_bytes = foldl max 0 (concat (map (map gr_weight_bytes \<circ> rl_groups \<circ> fst) layers))\<rparr>,
             map snd layers))))))))"

text \<open>The coordinator the constructor makes for it.\<close>

definition start_residency ::
  "advice_function \<Rightarrow> 't stream_model \<Rightarrow> byte_range list list \<Rightarrow> plan_error + coordinator" where
  "start_residency advice m layer_ranges =
     bindE (map_sum PlanResidency (\<lambda>x. x) (new_coordinator (sm_mapped_size m) (sm_page_size m) (Some advice))) (\<lambda>c.
     bindE (map_sum PlanRange (\<lambda>x. x) (page_align_and_coalesce [range_of (sm_token m)] (sm_mapped_size m) (sm_page_size m))) (\<lambda>token_class.
     case bindM (set_classification (sm_common_ranges m) token_class layer_ranges)
            (\<lambda>_. retain_common advice (sm_common_ranges m)) c of
       (Inl e, _) \<Rightarrow> Inl (PlanResidency e)
     | (Inr _, c') \<Rightarrow> Inr c'))"

definition create_streaming ::
  "'t ggml \<Rightarrow> 't embedder \<Rightarrow> tensor_info list \<Rightarrow> u64 \<Rightarrow> u64 \<Rightarrow> string option \<Rightarrow> advice_function
    \<Rightarrow> plan_error + 't stream_model \<times> coordinator" where
  "create_streaming g em infos mapped page env advice =
     (case resolve_model g em infos mapped page env \<lparr>slot_names = [], owner = []\<rparr> of
        (Inl e, _) \<Rightarrow> Inl e
      | (Inr (m, layer_ranges), _) \<Rightarrow>
          bindE (start_residency advice m layer_ranges) (\<lambda>c. Inr (m, c)))"

text \<open>\<open>partition_info\<close>: the groups of a layer when all layers agree, otherwise zero.\<close>

record partition_info =
  pt_preset :: string
  pt_groups_per_sentence :: u64
  pt_max_group_bytes :: u64
  pt_groups_per_layer :: nat

definition partition_info_of :: "'t stream_model \<Rightarrow> partition_info" where
  "partition_info_of m =
     (let n = (if sm_layers m = [] then 0 else length (rl_groups (hd (sm_layers m)))) in
      \<lparr>pt_preset = sm_preset m, pt_groups_per_sentence = sm_groups_per_sentence m,
       pt_max_group_bytes = sm_max_group_bytes m,
       pt_groups_per_layer = (if list_all (\<lambda>l. length (rl_groups l) = n) (sm_layers m) then n else 0)\<rparr>)"


subsection \<open>Names and their slots\<close>

text \<open>The map \<open>slot_ids\<close> as a function; a name it does not hold gets the invalid slot.\<close>

definition slot_of :: "string list \<Rightarrow> string \<Rightarrow> slot_id" where
  "slot_of names n = (case position_of n names of Some i \<Rightarrow> word_of_nat i | None \<Rightarrow> kInvalidSlot)"

definition names_ok :: "string list \<Rightarrow> bool" where
  "names_ok names \<longleftrightarrow> distinct names \<and> length names \<le> unat kInvalidSlot"

lemma position_of_None: "position_of n names = None \<longleftrightarrow> n \<notin> set names"
  by (induction names) auto

lemma position_of_Some: "position_of n names = Some i \<Longrightarrow> i < length names \<and> names ! i = n"
  by (induction names arbitrary: i) (auto split: if_splits)

lemma position_of_append:
  "position_of n (names @ ys) = (case position_of n names of
     Some i \<Rightarrow> Some i | None \<Rightarrow> map_option (\<lambda>i. i + length names) (position_of n ys))"
  by (induction names) (auto split: option.splits simp: option.map_comp o_def map_option.identity)

lemma kInvalidSlot_value: "unat kInvalidSlot = 65535"
  using unat_minus_one_minus [of "0 :: slot_id"] by (simp add: kInvalidSlot_def)

lemma slot_of_member:
  assumes "names_ok names" and "position_of n names = Some i"
  shows "unat (slot_of names n) = i" and "unat (slot_of names n) < length names" and "names ! unat (slot_of names n) = n"
proof -
  have i: "i < length names" "names ! i = n" using position_of_Some [OF assms(2)] by simp_all
  then have "unat (word_of_nat i :: slot_id) = i"
    using assms(1) by (simp add: names_ok_def kInvalidSlot_value unat_of_nat take_bit_nat_eq_self_iff)
  then show "unat (slot_of names n) = i" by (simp add: slot_of_def assms(2))
  with i show "unat (slot_of names n) < length names" "names ! unat (slot_of names n) = n" by simp_all
qed

lemma slot_of_in_range:
  assumes "names_ok names" and "n \<in> set names"
  shows "unat (slot_of names n) < length names" and "names ! unat (slot_of names n) = n"
proof -
  obtain i where "position_of n names = Some i" using assms(2) position_of_None by fastforce
  from slot_of_member [OF assms(1) this]
  show "unat (slot_of names n) < length names" "names ! unat (slot_of names n) = n" by simp_all
qed

lemma slot_of_inj:
  assumes "names_ok names" and "a \<in> set names" and "slot_of names a = slot_of names b"
  shows "a = b"
proof (cases "b \<in> set names")
  case True
  show ?thesis
    using slot_of_in_range(2) [OF assms(1,2)] slot_of_in_range(2) [OF assms(1) True] unfolding assms(3) by (rule trans [OF sym])
next
  case False
  then have "unat (slot_of names b) = 65535"
    by (simp add: slot_of_def kInvalidSlot_value flip: position_of_None)
  then show ?thesis using slot_of_in_range [OF assms(1,2)] assms(1,3) by (simp add: names_ok_def kInvalidSlot_value)
qed

lemma slot_of_prefix: "prefix names names' \<Longrightarrow> n \<in> set names \<Longrightarrow> slot_of names' n = slot_of names n"
  unfolding slot_of_def by (auto simp: prefix_def position_of_append position_of_None split: option.splits)

subsection \<open>What interning and claiming do\<close>

lemma intern_Inr:
  assumes "intern n s = (Inr sid, t)" and "names_ok (slot_names s)"
  shows "names_ok (slot_names t)" and "prefix (slot_names s) (slot_names t)" and "n \<in> set (slot_names t)"
    and "sid = slot_of (slot_names t) n" and "owner t = owner s"
proof -
  have "names_ok (slot_names t) \<and> prefix (slot_names s) (slot_names t) \<and> n \<in> set (slot_names t)
      \<and> sid = slot_of (slot_names t) n \<and> owner t = owner s"
  proof (cases "position_of n (slot_names s)")
    case None
    then have "n \<notin> set (slot_names s)" by (simp add: position_of_None)
    with assms None show ?thesis
      by (auto simp: intern_def names_ok_def slot_of_def position_of_append split: if_splits)
  next
    case (Some i)
    then have "n \<in> set (slot_names s)" using position_of_Some by fastforce
    with assms Some show ?thesis by (auto simp: intern_def slot_of_def)
  qed
  then show "names_ok (slot_names t)" "prefix (slot_names s) (slot_names t)" "n \<in> set (slot_names t)"
    "sid = slot_of (slot_names t) n" "owner t = owner s" by simp_all
qed

lemma intern_all_Inr:
  assumes "mapM intern ns s = (Inr sids, t)" and "names_ok (slot_names s)"
  shows "names_ok (slot_names t) \<and> prefix (slot_names s) (slot_names t) \<and> set ns \<subseteq> set (slot_names t)
    \<and> sids = map (slot_of (slot_names t)) ns \<and> owner t = owner s"
  using assms
proof (induction ns arbitrary: s sids)
  case Nil
  then show ?case by simp
next
  case (Cons n ns)
  then obtain sid s1 rest where run: "intern n s = (Inr sid, s1)" "mapM intern ns s1 = (Inr rest, t)" "sids = sid # rest"
    by (auto simp: bindM_Inr_iff)
  note one = intern_Inr [OF run(1) Cons.prems(2)] and all = Cons.IH [OF run(2) intern_Inr(1) [OF run(1) Cons.prems(2)]]
  have "prefix (slot_names s1) (slot_names t)" using all by simp
  then have "n \<in> set (slot_names t)" "slot_of (slot_names t) n = sid"
    using one(3,4) slot_of_prefix set_mono_prefix by blast+
  with one all run(3) show ?case by (auto intro: prefix_order.trans)
qed

lemma take_tensor_Inr:
  assumes "take_tensor infos who n s = (Inr i, t)"
  shows "slot_names t = slot_names s" and "owner t = (n, who) # owner s" and "n \<notin> fst ` set (owner s)"
    and "n \<in> set (map ti_name infos)" and "ti_name i = n" and "i \<in> set infos"
proof -
  have "map_of (map (\<lambda>i. (ti_name i, i)) infos) n = Some i \<and> map_of (owner s) n = None
      \<and> t = s\<lparr>owner := (n, who) # owner s\<rparr>"
    using assms by (auto simp: take_tensor_def split: option.splits)
  then show "slot_names t = slot_names s" "owner t = (n, who) # owner s" "n \<notin> fst ` set (owner s)"
    "n \<in> set (map ti_name infos)" "ti_name i = n" "i \<in> set infos"
    by (auto simp: map_of_eq_None_iff dest!: map_of_SomeD)
qed

text \<open>The names claimed so far, each once.\<close>

definition claimed_names :: "plan_state \<Rightarrow> string list" where
  "claimed_names s = rev (map fst (owner s))"

definition claims :: "tensor_info list \<Rightarrow> string list \<Rightarrow> plan_state \<Rightarrow> plan_state \<Rightarrow> bool" where
  "claims infos ns s t \<longleftrightarrow> claimed_names t = claimed_names s @ ns
     \<and> (distinct (claimed_names s) \<longrightarrow> distinct (claimed_names t)) \<and> set ns \<subseteq> set (map ti_name infos)"

lemma claims_none: "owner t = owner s \<Longrightarrow> claims infos [] s t"
  by (simp add: claims_def claimed_names_def)

lemma claims_trans: "claims infos ms s t \<Longrightarrow> claims infos ns t u \<Longrightarrow> claims infos (ms @ ns) s u"
  by (auto simp: claims_def)

lemma take_all_Inr:
  assumes "mapM (take_tensor infos who) ns s = (Inr is, t)"
  shows "slot_names t = slot_names s \<and> claims infos ns s t"
  using assms
proof (induction ns arbitrary: s "is")
  case Nil
  then show ?case by (simp add: claims_none)
next
  case (Cons n ns)
  then obtain i s1 rest where run: "take_tensor infos who n s = (Inr i, s1)" "mapM (take_tensor infos who) ns s1 = (Inr rest, t)"
    by (auto simp: bindM_Inr_iff)
  note one = take_tensor_Inr [OF run(1)]
  have "claims infos [n] s s1" using one by (auto simp: claims_def claimed_names_def)
  with claims_trans Cons.IH [OF run(2)] one(1) show ?case by fastforce
qed

end
