(* ===== verification/StreamRun.thy ===== *)
theory StreamRun
  imports StreamPlan
begin

text \<open>
  The streaming runner of \<open>src/streaming_execution.cpp\<close>: the slot store that carries activations
  from graph to graph, one graph per group under its own lease, and \<open>embed_batch\<close>. The state
  of a call joins the context's counters and slots, the model's coordinator and the caller's output.
\<close>

datatype stream_error =
    StreamBatch "spm_error batch_error"
  | StreamArch arch_error
  | StreamPool forward_error
  | StreamRange range_error
  | StreamResidency residency_error
  | StreamNullOutput
  | StreamOutputOverflow
  | SlotOutOfRange
  | SlotNotF32
  | SlotNotProduced
  | GraphContextInjected
  | GraphArenaExhausted
  | GraphNotAllocated string
  | InputNotBacked string
  | GroupLostOutput string
  | GraphFailed string
  | CountdownTooLarge

subsection \<open>The state\<close>

record slot_entry =
  en_data :: "f32 list"
  en_ne :: "int list"
  en_valid :: bool

record stream_state = clocked +
  ss_slots :: "slot_entry list"
  ss_computes :: u64
  ss_copied :: u64
  ss_replans :: u64
  ss_batches :: u64
  ss_items :: u64
  ss_valid_tokens :: u64
  ss_padding_tokens :: u64
  ss_previous_nodes :: int
  ss_countdown :: int
  ss_threads :: int
  ss_residency :: coordinator
  ss_out :: "f32 list"

type_synonym 'a run = "(stream_state, stream_error, 'a) action"

text \<open>A call of the coordinator.\<close>

definition on_residency :: "(coordinator, residency_error, 'a) action \<Rightarrow> 'a run" where
  "on_residency m = (\<lambda>s. case m (ss_residency s) of (r, c) \<Rightarrow>
     (map_sum StreamResidency (\<lambda>x. x) r, s\<lparr>ss_residency := c\<rparr>))"

subsection \<open>\<open>SlotStore\<close>\<close>

definition fresh_entry :: slot_entry where
  "fresh_entry = \<lparr>en_data = [], en_ne = [0, 0, 0, 0], en_valid = False\<rparr>"

definition resize_slots :: "nat \<Rightarrow> slot_entry list \<Rightarrow> slot_entry list" where
  "resize_slots n es = take n es @ replicate (n - length es) fresh_entry"

definition invalidate_all :: "slot_entry list \<Rightarrow> slot_entry list" where
  "invalidate_all es = map (\<lambda>e. e\<lparr>en_valid := False\<rparr>) es"

definition entry_at :: "slot_id \<Rightarrow> slot_entry run" where
  "entry_at sid =
     bindM (getM ss_slots) (\<lambda>es. if unat sid \<ge> length es then throwM SlotOutOfRange else retM (es ! unat sid))"

definition download :: "'t ggml \<Rightarrow> 't device \<Rightarrow> slot_id \<Rightarrow> 't \<Rightarrow> unit run" where
  "download g dv sid t =
     (if \<not> g_f32_contiguous g t then throwM SlotNotF32
      else bindM (entry_at sid) (\<lambda>_.
           modifyM (\<lambda>s. s\<lparr>ss_slots := (ss_slots s)[unat sid :=
             \<lparr>en_data = dv_read dv t (nat (elements (shape g t))), en_ne = shape g t, en_valid = True\<rparr>]\<rparr>)))"

text \<open>The tensor made for a slot, with the data it is given once it is backed.\<close>

definition create_input :: "'t device \<Rightarrow> slot_id \<Rightarrow> 't run" where
  "create_input dv sid =
     bindM (entry_at sid) (\<lambda>e.
     if \<not> en_valid e then throwM SlotNotProduced else retM (dv_slot dv (en_ne e) (en_data e)))"

definition slot_nbytes :: "slot_id \<Rightarrow> u64 run" where
  "slot_nbytes sid = bindM (entry_at sid) (\<lambda>e. retM (word_of_nat (length (en_data e) * 4)))"

definition add_copied :: "u64 \<Rightarrow> unit run" where
  "add_copied n = modifyM (\<lambda>s. s\<lparr>ss_copied := ss_copied s + n\<rparr>)"

text \<open>\<open>activation_copy_bytes += slots.nbytes(id)\<close>.\<close>

definition count_slot_copy :: "slot_id \<Rightarrow> unit run" where
  "count_slot_copy sid = bindM (slot_nbytes sid) add_copied"

subsection \<open>Graphs\<close>

definition new_graph_context :: "'t device \<Rightarrow> unit run" where
  "new_graph_context dv =
     bindM (getM ss_countdown) (\<lambda>n.
     if n = 0 then bindM (modifyM (\<lambda>s. s\<lparr>ss_countdown := - 1\<rparr>)) (\<lambda>_. throwM GraphContextInjected)
     else bindM (modifyM (\<lambda>s. if n > 0 then s\<lparr>ss_countdown := n - 1\<rparr> else s)) (\<lambda>_.
          needM (dv_context_ok dv) GraphArenaExhausted))"

definition fail_graph_context_after :: "u64 \<Rightarrow> unit run" where
  "fail_graph_context_after n =
     (if unat n > INT64_MAX then throwM CountdownTooLarge else modifyM (\<lambda>s. s\<lparr>ss_countdown := int (unat n)\<rparr>))"

definition set_tensor :: "'t device \<Rightarrow> string \<Rightarrow> unit run" where
  "set_tensor dv subject = needM (dv_backed dv) (InputNotBacked subject)"

definition set_if :: "'t device \<Rightarrow> 't option \<Rightarrow> string \<Rightarrow> unit run" where
  "set_if dv tensor subject = (if tensor \<noteq> None then set_tensor dv subject else retM ())"

definition allocate :: "'t device \<Rightarrow> 't list \<Rightarrow> string \<Rightarrow> unit run" where
  "allocate dv outs subject =
     bindM (modifyM (\<lambda>s. if dv_nodes dv outs \<noteq> ss_previous_nodes s
       then s\<lparr>ss_replans := ss_replans s + 1, ss_previous_nodes := dv_nodes dv outs\<rparr> else s)) (\<lambda>_.
     needM (dv_alloc_ok dv) (GraphNotAllocated subject))"

definition compute_graph :: "'t device \<Rightarrow> string \<Rightarrow> unit run" where
  "compute_graph dv subject =
     bindM (needM (dv_compute_ok dv) (GraphFailed subject)) (\<lambda>_. modifyM (\<lambda>s. s\<lparr>ss_computes := ss_computes s + 1\<rparr>))"

subsection \<open>\<open>run_group\<close>\<close>

definition group_graph_inputs :: "'t device \<Rightarrow> input_requirements \<Rightarrow> materialized_batch \<Rightarrow> bool \<Rightarrow> bool \<Rightarrow> 't graph_inputs" where
  "group_graph_inputs dv req b packed per_sentence =
     (let S = int (seq_len b); B = int (batch_size b);
          seqs = (if per_sentence \<and> consumes_seq_lengths req then Some (lengths b) else None)
      in no_graph_inputs\<lparr>
       gi_learned_pos_ids := if needs_learned_pos_ids req then Some (dv_i32 dv [S, B] (learned_positions b)) else None,
       gi_rope_pos_ids := if needs_rope_pos_ids req
         then Some (if packed then dv_i32 dv [total_tokens b] (packed_positions b) else dv_i32 dv [S] (rope_positions b))
         else None,
       gi_type_ids := if needs_type_ids req then Some (dv_i32 dv [S, B] (type_ids b)) else None,
       gi_seq_lengths := seqs,
       gi_seq_offsets := if packed then Some (offsets b) else None,
       gi_n_seq := if packed then B else 0,
       gi_kq_mask := if padded b \<and> uses_kq_mask req \<and> seqs = None
         then Some (dv_f16 dv [S, S, 1, B] (attention_mask b)) else None\<rparr>)"

text \<open>\<open>slot_tensors\<close>: the tensor that carries a slot in the graph under construction.\<close>

type_synonym 't slot_tensors = "slot_id \<Rightarrow> 't option"

definition bind_slots :: "slot_id list \<Rightarrow> 't list \<Rightarrow> 't slot_tensors \<Rightarrow> 't slot_tensors" where
  "bind_slots sids vs tensors = fold (\<lambda>(sid, v) t. t(sid \<mapsto> v)) (zip sids vs) tensors"

definition run_member :: "'t graph_inputs \<Rightarrow> 't resolved_unit \<Rightarrow> 't slot_tensors \<Rightarrow> arch_error + 't slot_tensors" where
  "run_member gi u tensors =
     bindE (mapE (\<lambda>sid. case tensors sid of None \<Rightarrow> Inl (SlotNotBuilt (su_name (ru_unit u))) | Some v \<Rightarrow> Inr v)
       (unit_inputs u)) (\<lambda>vs.
     bindE (call_unit (ru_unit u) gi vs) (\<lambda>outs. Inr (bind_slots (unit_outputs u) outs tensors)))"

definition group_values :: "'t resolved_group \<Rightarrow> 't slot_tensors \<Rightarrow> stream_error + 't list" where
  "group_values grp tensors =
     mapE (\<lambda>sid. case tensors sid of None \<Rightarrow> Inl (GroupLostOutput (gr_key grp)) | Some v \<Rightarrow> Inr v) (gr_outputs grp)"

definition run_group ::
  "'t ggml \<Rightarrow> 't device \<Rightarrow> 't resolved_group \<Rightarrow> materialized_batch \<Rightarrow> bool \<Rightarrow> bool \<Rightarrow> unit run" where
  "run_group g dv grp b packed per_sentence =
     (let gi = group_graph_inputs dv (gr_graph_inputs grp) b packed per_sentence in
      bindM (mapM (create_input dv) (gr_inputs grp)) (\<lambda>uploads.
      bindM (liftM StreamArch (foldE (run_member gi) (gr_members grp) (bind_slots (gr_inputs grp) uploads Map.empty))) (\<lambda>tensors.
      bindM (liftM (\<lambda>e. e) (group_values grp tensors)) (\<lambda>outs.
      bindM (allocate dv outs (gr_key grp)) (\<lambda>_.
      bindM (forM (gr_inputs grp) (\<lambda>sid. bindM (set_tensor dv ''slot input'') (\<lambda>_. count_slot_copy sid))) (\<lambda>_.
      bindM (set_if dv (gi_learned_pos_ids gi) ''group_learned_position_ids'') (\<lambda>_.
      bindM (set_if dv (gi_rope_pos_ids gi) ''group_rope_position_ids'') (\<lambda>_.
      bindM (set_if dv (gi_type_ids gi) ''group_type_ids'') (\<lambda>_.
      bindM (set_if dv (gi_kq_mask gi) ''group_attention_mask'') (\<lambda>_.
      bindM (compute_graph dv (gr_key grp)) (\<lambda>_.
      forM (zip (gr_outputs grp) outs) (\<lambda>(sid, t). bindM (download g dv sid t) (\<lambda>_. count_slot_copy sid)))))))))))))"

subsection \<open>A lease around a computation\<close>

text \<open>
  The lease is marked and released after the body. When the body or the release throws it is marked
  and its destructor runs, which releases it unless it was released already.
\<close>

definition holding :: "advice_function \<Rightarrow> lease \<Rightarrow> 'a run \<Rightarrow> 'a run" where
  "holding advice l body = (\<lambda>s.
     case body s of
       (Inl e, t) \<Rightarrow> (Inl e, t\<lparr>ss_residency := lease_destroy advice (mark_compute_complete l) (ss_residency t)\<rparr>)
     | (Inr x, t) \<Rightarrow>
         (case lease_release advice (mark_compute_complete l) (ss_residency t) of
            ((Inr _, c), _) \<Rightarrow> (Inr x, t\<lparr>ss_residency := c\<rparr>)
          | ((Inl e, c), l') \<Rightarrow> (Inl (StreamResidency e),
              t\<lparr>ss_residency := lease_destroy advice (mark_compute_complete l') c\<rparr>)))"

definition with_lease :: "advice_function \<Rightarrow> string \<Rightarrow> byte_range list \<Rightarrow> bool \<Rightarrow> 'a run \<Rightarrow> 'a run" where
  "with_lease advice key ranges token_rows body =
     bindM (on_residency (acquire advice key ranges token_rows)) (\<lambda>l. holding advice l body)"

subsection \<open>The phases of a sub-batch\<close>

definition embedding_graph_inputs :: "'t device \<Rightarrow> input_requirements \<Rightarrow> materialized_batch \<Rightarrow> bool \<Rightarrow> 't graph_inputs" where
  "embedding_graph_inputs dv req b packed =
     (let S = int (seq_len b); B = int (batch_size b) in
      no_graph_inputs\<lparr>
       gi_token_ids := Some (if packed then dv_i32 dv [total_tokens b, 1] (packed_token_ids b)
         else dv_i32 dv [S, B] (token_ids b)),
       gi_learned_pos_ids := if needs_learned_pos_ids req then Some (dv_i32 dv [S, B] (learned_positions b)) else None,
       gi_rope_pos_ids := if needs_rope_pos_ids req then Some (dv_i32 dv [S] (rope_positions b)) else None,
       gi_type_ids := if needs_type_ids req then Some (dv_i32 dv [S, B] (type_ids b)) else None\<rparr>)"

text \<open>Slots of the first and the last layer; a model has at least one.\<close>

definition entry_slot :: "'t stream_model \<Rightarrow> slot_id" where
  "entry_slot m = rl_input_slot (hd (sm_layers m))"

definition exit_slot :: "'t stream_model \<Rightarrow> slot_id" where
  "exit_slot m = rl_output_slot (last (sm_layers m))"

definition embedding_body :: "'t ggml \<Rightarrow> 't device \<Rightarrow> 't stream_model \<Rightarrow> materialized_batch \<Rightarrow> bool \<Rightarrow> unit run" where
  "embedding_body g dv m b packed =
     (let a = em_arch (sm_embedder m); gi = embedding_graph_inputs dv (arch_embedding_inputs a) b packed in
      bindM (liftM StreamArch (arch_embedding_phase g a gi)) (\<lambda>x.
      bindM (allocate dv [x] ''embedding'') (\<lambda>_.
      bindM (set_tensor dv ''token_ids'') (\<lambda>_.
      bindM (set_if dv (gi_learned_pos_ids gi) ''learned_position_ids'') (\<lambda>_.
      bindM (set_if dv (gi_rope_pos_ids gi) ''rope_position_ids'') (\<lambda>_.
      bindM (set_if dv (gi_type_ids gi) ''type_ids'') (\<lambda>_.
      bindM (compute_graph dv ''embedding'') (\<lambda>_.
      bindM (download g dv (entry_slot m) x) (\<lambda>_.
      count_slot_copy (entry_slot m))))))))))"

definition embedding_phase ::
  "'t ggml \<Rightarrow> 't device \<Rightarrow> advice_function \<Rightarrow> 't stream_model \<Rightarrow> materialized_batch \<Rightarrow> bool \<Rightarrow> unit run" where
  "embedding_phase g dv advice m b packed =
     bindM (new_graph_context dv) (\<lambda>_.
     bindM (liftM StreamRange (token_row_ranges (ti_absolute_offset (sm_token m)) (ti_nbytes (sm_token m))
       (ti_row_stride (sm_token m)) (ti_row_count (sm_token m)) (token_ids b) (sm_mapped_size m) (sm_page_size m))) (\<lambda>rows.
     with_lease advice ''token'' rows True (embedding_body g dv m b packed)))"

definition group_phase ::
  "'t ggml \<Rightarrow> 't device \<Rightarrow> advice_function \<Rightarrow> materialized_batch \<Rightarrow> bool \<Rightarrow> bool \<Rightarrow> 't resolved_group \<Rightarrow> unit run" where
  "group_phase g dv advice b packed per_sentence grp =
     bindM (new_graph_context dv) (\<lambda>_.
     with_lease advice (gr_key grp) (gr_ranges grp) False (run_group g dv grp b packed per_sentence))"

definition final_phase ::
  "'t ggml \<Rightarrow> 't device \<Rightarrow> 't stream_model \<Rightarrow> embedder_config \<Rightarrow> materialized_batch \<Rightarrow> bool \<Rightarrow> nat \<Rightarrow> (f32 list) run" where
  "final_phase g dv m cfg b packed output_floats =
     (let a = em_arch (sm_embedder m);
          pool = (if packed then \<lparr>pi_valid_mask = None, pi_mean_scale = None, pi_last_indices = None\<rparr>
            else pool_inputs_of dv (ec_pooling cfg) b)
      in
      bindM (new_graph_context dv) (\<lambda>_.
      bindM (create_input dv (exit_slot m)) (\<lambda>activation.
      bindM (liftM StreamPool (if packed
        then build_packed_pool g (arch_final_phase g a activation) (ec_pooling cfg) (Some (offsets b)) (Some (lengths b))
          (int (batch_size b))
        else build_pool_with g (arch_final_phase g a activation) (ec_pooling cfg) pool)) (\<lambda>pooled.
      let out = normalized g (ec_normalize cfg) pooled in
      bindM (allocate dv [out] ''final'') (\<lambda>_.
      bindM (set_tensor dv ''final_activation'') (\<lambda>_.
      bindM (count_slot_copy (exit_slot m)) (\<lambda>_.
      bindM (set_if dv (pi_valid_mask pool) ''pool_valid_mask'') (\<lambda>_.
      bindM (set_if dv (pi_mean_scale pool) ''pool_mean_scale'') (\<lambda>_.
      bindM (set_if dv (pi_last_indices pool) ''pool_last_indices'') (\<lambda>_.
      bindM (compute_graph dv ''final'') (\<lambda>_.
      bindM (add_copied (word_of_nat (output_floats * 4))) (\<lambda>_.
      retM (dv_read dv out output_floats)))))))))))))"

subsection \<open>\<open>embed_batch\<close>\<close>

definition batch_layouts :: "'t stream_model \<Rightarrow> embedder_config \<Rightarrow> materialized_batch \<Rightarrow> bool \<times> bool" where
  "batch_layouts m cfg b =
     (let req = arch_inputs (em_arch (sm_embedder m));
          per_sentence = padded b \<and> ec_batch_layout cfg \<noteq> LayoutPadded \<and> consumes_seq_lengths req
      in (per_sentence, per_sentence \<and> consumes_packed_batch req))"

definition stream_subbatch ::
  "'t ggml \<Rightarrow> 't device \<Rightarrow> advice_function \<Rightarrow> 't stream_model \<Rightarrow> embedder_config \<Rightarrow> batch_plan \<Rightarrow> nat \<Rightarrow> unit run" where
  "stream_subbatch g dv advice m cfg plan j =
     (let em = sm_embedder m; H = nat (ap_n_embed (em_params em)) in
      bindM (liftM StreamBatch (sub_batch em plan j)) (\<lambda>b.
      bindM (liftM (\<lambda>e. e) (guardE (\<not> batch_size b > SIZE_MAX div H) StreamOutputOverflow)) (\<lambda>_.
      let (per_sentence, packed) = batch_layouts m cfg b in
      bindM (modifyM (\<lambda>s. s\<lparr>ss_slots := invalidate_all (ss_slots s)\<rparr>)) (\<lambda>_.
      bindM (embedding_phase g dv advice m b packed) (\<lambda>_.
      bindM (forM (sm_layers m) (\<lambda>layer. forM (rl_groups layer) (group_phase g dv advice b packed per_sentence))) (\<lambda>_.
      bindM (final_phase g dv m cfg b packed (H * batch_size b)) (\<lambda>batch_output.
      modifyM (\<lambda>s. s\<lparr>ss_out := scatter_rows H (original_indices b) batch_output (ss_out s),
        ss_batches := ss_batches s + 1,
        ss_items := ss_items s + word_of_nat (batch_size b),
        ss_valid_tokens := ss_valid_tokens s + word_of_nat (valid_tokens b),
        ss_padding_tokens := ss_padding_tokens s + word_of_nat (padding_tokens b)\<rparr>))))))))"

definition quiet_NaN :: f32 where
  "quiet_NaN = 0x7FC00000"

definition poison_output :: "nat \<Rightarrow> stream_state \<Rightarrow> stream_state" where
  "poison_output n s = s\<lparr>ss_out := put 0 (replicate n quiet_NaN) (ss_out s)\<rparr>"

definition stream_embed_batch ::
  "'t ggml \<Rightarrow> 't device \<Rightarrow> u32 \<Rightarrow> advice_function \<Rightarrow> 't stream_model \<Rightarrow> embedder_config \<Rightarrow> string list \<Rightarrow> bool \<Rightarrow> unit run" where
  "stream_embed_batch g dv hw advice m cfg texts out_null =
     (let em = sm_embedder m in
      if out_null then throwM StreamNullOutput
      else if texts = [] then retM ()
      else bindM (liftM StreamBatch (make_plan em cfg texts)) (\<lambda>plan.
           bindM (modifyM (\<lambda>s. s\<lparr>ss_threads := resolve_n_threads hw (ec_n_threads cfg),
             ss_slots := resize_slots (length (sm_slot_names m)) (ss_slots s)\<rparr>)) (\<lambda>_.
           catchM (forM [0 ..< subbatch_count plan] (stream_subbatch g dv advice m cfg plan)) (\<lambda>e.
             bindM (modifyM (poison_output (length texts * nat (ap_n_embed (em_params em))))) (\<lambda>_. throwM e)))))"

definition stream_embed ::
  "'t ggml \<Rightarrow> 't device \<Rightarrow> u32 \<Rightarrow> advice_function \<Rightarrow> 't stream_model \<Rightarrow> embedder_config \<Rightarrow> string \<Rightarrow> bool \<Rightarrow> unit run" where
  "stream_embed g dv hw advice m cfg txt out_null = stream_embed_batch g dv hw advice m cfg [txt] out_null"

end
