(* ===== verification/StreamFacts.thy ===== *)
theory StreamFacts
  imports StreamRun
begin

text \<open>
  What the streaming constructor guarantees (\<open>InternalStreamingModel::Impl\<close>): the units of every
  layer are those the architecture declares, with their slots by number; the groups are a partition of
  the units with the slots \<open>resolve_group_slots\<close> computes; every tensor of the file is claimed once.
\<close>

subsection \<open>One layer\<close>

definition unit_resolved :: "string list \<Rightarrow> 't streaming_unit \<Rightarrow> 't resolved_unit \<Rightarrow> bool" where
  "unit_resolved names u r \<longleftrightarrow> ru_unit r = u \<and> unit_inputs r = map (slot_of names) (su_inputs u)
     \<and> unit_outputs r = map (slot_of names) (su_outputs u) \<and> set (su_inputs u) \<union> set (su_outputs u) \<subseteq> set names"

definition group_resolved :: "'t resolved_unit list \<times> group_slots \<Rightarrow> 't resolved_group \<Rightarrow> bool" where
  "group_resolved = (\<lambda>(members, gs) gr. gr_members gr = members \<and> gr_inputs gr = group_inputs gs
     \<and> gr_outputs gr = group_outputs gs
     \<and> gr_graph_inputs gr = foldl (\<lambda>r u. join_requirements r (su_graph_inputs (ru_unit u))) no_requirements members)"

definition layer_resolved :: "string list \<Rightarrow> 't layer_plan \<Rightarrow> 't resolved_layer \<Rightarrow> bool" where
  "layer_resolved names plan layer \<longleftrightarrow>
     list_all2 (unit_resolved names) (lp_units plan) (rl_units layer)
     \<and> lp_input_slot plan = lp_output_slot plan \<and> lp_output_slot plan \<in> set names
     \<and> rl_input_slot layer = slot_of names (lp_output_slot plan) \<and> rl_output_slot layer = slot_of names (lp_output_slot plan)
     \<and> (\<exists>runs exchanged. resolve_group_slots (rl_units layer) runs (rl_output_slot layer) = Inr exchanged
          \<and> list_all2 group_resolved (zip (chop runs (rl_units layer)) exchanged) (rl_groups layer))"

lemma unit_resolved_prefix: "unit_resolved names u r \<Longrightarrow> prefix names names' \<Longrightarrow> unit_resolved names' u r"
  unfolding unit_resolved_def using set_mono_prefix [of names names'] slot_of_prefix [of names names'] by (auto simp: subset_iff)

lemma layer_resolved_prefix: "layer_resolved names plan l \<Longrightarrow> prefix names names' \<Longrightarrow> layer_resolved names' plan l"
  unfolding layer_resolved_def
  by (elim conjE, intro conjI) (auto elim!: list_all2_mono intro: unit_resolved_prefix simp: slot_of_prefix dest: set_mono_prefix)

text \<open>What a step of the constructor keeps: names are only added, claims are only added.\<close>

definition plan_step :: "tensor_info list \<Rightarrow> string list \<Rightarrow> plan_state \<Rightarrow> plan_state \<Rightarrow> bool" where
  "plan_step infos ns s t \<longleftrightarrow> (names_ok (slot_names s) \<longrightarrow> names_ok (slot_names t))
     \<and> prefix (slot_names s) (slot_names t) \<and> claims infos ns s t"

lemma plan_step_trans: "plan_step infos ms s t \<Longrightarrow> plan_step infos ns t u \<Longrightarrow> plan_step infos (ms @ ns) s u"
  by (auto simp: plan_step_def intro: claims_trans prefix_order.trans)

lemma plan_step_refl: "plan_step infos [] s s"
  by (simp add: plan_step_def claims_none)

lemma intern_step: "intern n s = (Inr sid, t) \<Longrightarrow> names_ok (slot_names s) \<Longrightarrow> plan_step infos [] s t"
  using intern_Inr [of n s sid t] by (simp add: plan_step_def claims_none)

lemma take_step: "take_tensor infos who n s = (Inr i, t) \<Longrightarrow> plan_step infos [n] s t"
  using take_all_Inr [of infos who "[n]" s "[i]" t] by (auto simp: plan_step_def bindM_Inr_iff)

lemma take_all_step: "mapM (take_tensor infos who) ns s = (Inr is, t) \<Longrightarrow> plan_step infos ns s t"
  using take_all_Inr [of infos who ns s "is" t] by (simp add: plan_step_def)

lemma resolve_unit_Inr:
  assumes "resolve_unit infos key u s = (Inr r, t)" and "names_ok (slot_names s)"
  shows "unit_resolved (slot_names t) u r" and "plan_step infos (su_weights u) s t"
proof -
  obtain ins outs taken s1 s2 where run: "mapM intern (su_inputs u) s = (Inr ins, s1)" "mapM intern (su_outputs u) s1 = (Inr outs, s2)"
    "mapM (take_tensor infos (key @ ''/'' @ su_name u)) (su_weights u) s2 = (Inr taken, t)"
    "ru_unit r = u" "unit_inputs r = ins" "unit_outputs r = outs"
    using assms(1) by (auto simp: resolve_unit_def bindM_Inr_iff split: if_splits)
  note i = intern_all_Inr [OF run(1) assms(2)]
  from i have o: "names_ok (slot_names s2) \<and> prefix (slot_names s1) (slot_names s2) \<and> set (su_outputs u) \<subseteq> set (slot_names s2)
      \<and> outs = map (slot_of (slot_names s2)) (su_outputs u) \<and> owner s2 = owner s1"
    by (intro intern_all_Inr [OF run(2)]) simp
  note c = take_all_Inr [OF run(3)]
  have "ins = map (slot_of (slot_names s2)) (su_inputs u)"
    using i o slot_of_prefix [of "slot_names s1" "slot_names s2"] by (auto simp: subset_iff)
  moreover have "set (su_inputs u) \<subseteq> set (slot_names s2)" using i o set_mono_prefix by blast
  ultimately show "unit_resolved (slot_names t) u r" using run o c by (simp add: unit_resolved_def)
  have "plan_step infos [] s s2" using i o by (auto simp: plan_step_def claims_none intro: prefix_order.trans)
  from plan_step_trans [OF this take_all_step [OF run(3)]] show "plan_step infos (su_weights u) s t" by simp
qed

lemma resolve_units_Inr:
  assumes "mapM (resolve_unit infos key) us s = (Inr rs, t)" and "names_ok (slot_names s)"
  shows "list_all2 (unit_resolved (slot_names t)) us rs \<and> plan_step infos (concat (map su_weights us)) s t"
  using assms
proof (induction us arbitrary: s rs)
  case Nil
  then show ?case by (simp add: plan_step_refl)
next
  case (Cons u us)
  then obtain r s1 rest where run: "resolve_unit infos key u s = (Inr r, s1)" "mapM (resolve_unit infos key) us s1 = (Inr rest, t)"
    "rs = r # rest"
    by (auto simp: bindM_Inr_iff)
  note one = resolve_unit_Inr [OF run(1) Cons.prems(2)]
  then have IH: "list_all2 (unit_resolved (slot_names t)) us rest \<and> plan_step infos (concat (map su_weights us)) s1 t"
    using Cons.prems(2) by (intro Cons.IH [OF run(2)]) (simp add: plan_step_def)
  then have "unit_resolved (slot_names t) u r" using unit_resolved_prefix [OF one(1)] by (simp add: plan_step_def)
  with IH plan_step_trans [OF one(2)] run(3) show ?case by simp
qed

lemma make_groups_Inr:
  assumes "make_groups key mapped page units runs exchanged = Inr groups"
  shows "list_all2 group_resolved (zip (chop runs units) exchanged) groups"
  using assms unfolding make_groups_def mapE_Inr_iff
  by (rule list_all2_mono) (auto simp: group_resolved_def make_group_def Let_def bindE_Inr_iff)

lemma resolve_layer_Inr:
  assumes "resolve_layer g a infos mapped page preset l previous s = (Inr (layer, ranges, out), t)"
    and "names_ok (slot_names s)"
  shows "\<exists>plan. arch_streaming_units g a (int l) = Inr plan \<and> layer_resolved (slot_names t) plan layer
    \<and> plan_step infos (concat (map su_weights (lp_units plan))) s t"
proof -
  obtain plan s1 s2 inslot outslot units runs exchanged groups where
    run: "arch_streaming_units g a (int l) = Inr plan" "lp_input_slot plan = lp_output_slot plan"
      "intern (lp_input_slot plan) s = (Inr inslot, s1)" "intern (lp_output_slot plan) s1 = (Inr outslot, s2)"
      "mapM (resolve_unit infos (''layer:'' @ nat_digits l)) (lp_units plan) s2 = (Inr units, t)"
      "resolve_group_slots units runs outslot = Inr exchanged"
      "make_groups (''layer:'' @ nat_digits l) mapped page units runs exchanged = Inr groups"
      "layer = \<lparr>rl_units = units, rl_groups = groups, rl_input_slot = inslot, rl_output_slot = outslot\<rparr>"
    using assms(1) unfolding resolve_layer_def Let_def bindM_Inr_iff liftM_Inr_iff
    by (clarsimp simp: bindM_Inr_iff liftM_Inr_iff simp del: nat_digits.simps split: if_split_asm)
  note i = intern_Inr [OF run(3) assms(2)] and o = intern_Inr [OF run(4) intern_Inr(1) [OF run(3) assms(2)]]
  note u = resolve_units_Inr [OF run(5) o(1)]
  have "inslot = slot_of (slot_names s2) (lp_output_slot plan)"
    using i(3,4) o(2) slot_of_prefix run(2) by metis
  moreover have p: "prefix (slot_names s2) (slot_names t)" using u by (simp add: plan_step_def)
  ultimately have "inslot = slot_of (slot_names t) (lp_output_slot plan)" "outslot = slot_of (slot_names t) (lp_output_slot plan)"
    "lp_output_slot plan \<in> set (slot_names t)"
    using o(3,4) slot_of_prefix [OF p] set_mono_prefix [OF p] by auto
  then have "layer_resolved (slot_names t) plan layer"
    using run(2,6,8) u make_groups_Inr [OF run(7)] by (auto simp: layer_resolved_def)
  moreover have "plan_step infos (concat (map su_weights (lp_units plan))) s t"
    using plan_step_trans [OF plan_step_trans [OF intern_step [OF run(3) assms(2)] intern_step [OF run(4) i(1)]]] u by fastforce
  ultimately show ?thesis using run(1) by blast
qed

lemma resolve_layers_Inr:
  assumes "resolve_layers g a infos mapped page preset ls previous s = (Inr layers, t)" and "names_ok (slot_names s)"
  shows "\<exists>plans. mapE (\<lambda>l. arch_streaming_units g a (int l)) ls = Inr plans
    \<and> list_all2 (layer_resolved (slot_names t)) plans (map fst layers)
    \<and> plan_step infos (concat (map (\<lambda>p. concat (map su_weights (lp_units p))) plans)) s t"
  using assms
proof (induction ls arbitrary: s layers previous)
  case Nil
  then show ?case by (simp add: plan_step_refl)
next
  case (Cons l ls)
  then obtain layer ranges out s1 rest where
    run: "resolve_layer g a infos mapped page preset l previous s = (Inr (layer, ranges, out), s1)"
      "resolve_layers g a infos mapped page preset ls (Some out) s1 = (Inr rest, t)" "layers = (layer, ranges) # rest"
    by (auto simp: bindM_Inr_iff)
  obtain plan where plan: "arch_streaming_units g a (int l) = Inr plan" "layer_resolved (slot_names s1) plan layer"
    "plan_step infos (concat (map su_weights (lp_units plan))) s s1"
    using resolve_layer_Inr [OF run(1) Cons.prems(2)] by blast
  then obtain plans where plans: "mapE (\<lambda>l. arch_streaming_units g a (int l)) ls = Inr plans"
    "list_all2 (layer_resolved (slot_names t)) plans (map fst rest)"
    "plan_step infos (concat (map (\<lambda>p. concat (map su_weights (lp_units p))) plans)) s1 t"
    using Cons.IH [OF run(2)] Cons.prems(2) by (auto simp: plan_step_def)
  have "layer_resolved (slot_names t) plan layer"
    using layer_resolved_prefix [OF plan(2)] plans(3) by (simp add: plan_step_def)
  then show ?case using plan(1) plans plan_step_trans [OF plan(3) plans(3)] run(3) by auto
qed

subsection \<open>The whole model\<close>

text \<open>A resolved model: its layers are those of the architecture, over one residual slot.\<close>

definition model_resolved :: "'t ggml \<Rightarrow> 't stream_model \<Rightarrow> bool" where
  "model_resolved g m \<longleftrightarrow> names_ok (sm_slot_names m)
     \<and> (\<exists>plans. mapE (\<lambda>l. arch_streaming_units g (em_arch (sm_embedder m)) (int l))
            [0 ..< nat (ap_n_layer (em_params (sm_embedder m)))] = Inr plans
          \<and> list_all2 (layer_resolved (sm_slot_names m)) plans (sm_layers m))"

lemma check_classified_Inr:
  assumes "check_classified infos s = (Inr u, t)" and "distinct (claimed_names s)"
    and "set (claimed_names s) \<subseteq> set (map ti_name infos)"
  shows "t = s" and "set (claimed_names s) = set (map ti_name infos)"
proof -
  let ?names = "remdups (map ti_name infos)"
  have unclaimed: "map_of (owner s) n = None \<longleftrightarrow> n \<notin> set (claimed_names s)" for n
    by (simp add: map_of_eq_None_iff claimed_names_def)
  have "t = s \<and> set (claimed_names s) = set ?names"
  proof (cases "length (owner s) = length ?names")
    case True
    moreover have "card (set (claimed_names s)) = length (owner s)"
      using distinct_card [OF assms(2)] by (simp add: claimed_names_def)
    ultimately have "card (set (claimed_names s)) = card (set ?names)" by (simp add: length_remdups_card_conv)
    then have "set (claimed_names s) = set ?names" using assms(3) by (intro card_subset_eq) auto
    with True assms(1) show ?thesis by (simp add: check_classified_def Let_def)
  next
    case False
    then have "List.find (\<lambda>n. map_of (owner s) n = None) (sort ?names) = None" "t = s"
      using assms(1) by (auto simp: check_classified_def Let_def split: option.splits)
    then have "set ?names \<subseteq> set (claimed_names s)" by (auto simp: find_None_iff unclaimed)
    with assms(3) \<open>t = s\<close> show ?thesis by auto
  qed
  then show "t = s" "set (claimed_names s) = set (map ti_name infos)" by simp_all
qed

text \<open>The tensors a model reads: its token table, the common ones, those of the units in order.\<close>

definition planned_tensors :: "'t model_arch \<Rightarrow> 't layer_plan list \<Rightarrow> string list" where
  "planned_tensors a plans = cp_token_embedding (arch_common_plan a) # cp_common (arch_common_plan a)
     @ concat (map (\<lambda>p. concat (map su_weights (lp_units p))) plans)"

lemma resolve_model_Inr:
  assumes "resolve_model g em infos mapped page env \<lparr>slot_names = [], owner = []\<rparr> = (Inr (m, ranges), t)"
  shows "sm_embedder m = em" and "model_resolved g m"
    and "\<exists>plans. mapE (\<lambda>l. arch_streaming_units g (em_arch em) (int l)) [0 ..< nat (ap_n_layer (em_params em))] = Inr plans
      \<and> list_all2 (layer_resolved (sm_slot_names m)) plans (sm_layers m)
      \<and> distinct (planned_tensors (em_arch em) plans) \<and> set (planned_tensors (em_arch em) plans) = set (map ti_name infos)"
    and "sm_mapped_size m = mapped" and "sm_page_size m = page"
proof -
  let ?s = "\<lparr>slot_names = [], owner = []\<rparr> :: plan_state" and ?a = "em_arch em"
  obtain preset token commons layers s1 s2 s3 where
    run: "take_tensor infos ''token'' (cp_token_embedding (arch_common_plan ?a)) ?s = (Inr token, s1)"
      "mapM (take_tensor infos ''common'') (cp_common (arch_common_plan ?a)) s1 = (Inr commons, s2)"
      "resolve_layers g ?a infos mapped page preset [0 ..< nat (ap_n_layer (arch_params_of ?a))] None s2 = (Inr layers, s3)"
      "check_classified infos s3 = (Inr (), t)" "sm_embedder m = em" "sm_layers m = map fst layers"
      "sm_slot_names m = slot_names t" "sm_mapped_size m = mapped" "sm_page_size m = page"
    using assms unfolding resolve_model_def Let_def by (auto simp: bindM_Inr_iff liftM_Inr_iff split: if_splits)
  show "sm_embedder m = em" "sm_mapped_size m = mapped" "sm_page_size m = page" by (fact run)+
  have two: "plan_step infos ([cp_token_embedding (arch_common_plan ?a)] @ cp_common (arch_common_plan ?a)) ?s s2"
    by (rule plan_step_trans [OF take_step [OF run(1)] take_all_step [OF run(2)]])
  then have "names_ok (slot_names s2)" by (simp add: plan_step_def names_ok_def)
  then obtain plans where plans: "mapE (\<lambda>l. arch_streaming_units g ?a (int l)) [0 ..< nat (ap_n_layer (arch_params_of ?a))] = Inr plans"
    "list_all2 (layer_resolved (slot_names s3)) plans (map fst layers)"
    "plan_step infos (concat (map (\<lambda>p. concat (map su_weights (lp_units p))) plans)) s2 s3"
    using resolve_layers_Inr [OF run(3)] by blast
  have all: "plan_step infos (planned_tensors ?a plans) ?s s3"
    using plan_step_trans [OF two plans(3)] by (simp add: planned_tensors_def)
  have "claimed_names ?s = []" "names_ok []" by (simp_all add: claimed_names_def names_ok_def)
  then have names: "claimed_names s3 = planned_tensors ?a plans" "distinct (claimed_names s3)"
    "set (claimed_names s3) \<subseteq> set (map ti_name infos)" "names_ok (slot_names s3)"
    using all unfolding plan_step_def claims_def by auto
  note c = check_classified_Inr [OF run(4) names(2,3)]
  have "list_all2 (layer_resolved (sm_slot_names m)) plans (sm_layers m)" using plans(2) run(6,7) c(1) by simp
  then show "model_resolved g m" "\<exists>plans. mapE (\<lambda>l. arch_streaming_units g (em_arch em) (int l)) [0 ..< nat (ap_n_layer (em_params em))] = Inr plans
      \<and> list_all2 (layer_resolved (sm_slot_names m)) plans (sm_layers m)
      \<and> distinct (planned_tensors (em_arch em) plans) \<and> set (planned_tensors (em_arch em) plans) = set (map ti_name infos)"
    using plans(1) names c run(5,7) by (auto simp: model_resolved_def em_params_def)
qed

lemma create_streaming_Inr:
  assumes "create_streaming g em infos mapped page env advice = Inr (m, c)"
  shows "\<exists>ranges t. resolve_model g em infos mapped page env \<lparr>slot_names = [], owner = []\<rparr> = (Inr (m, ranges), t)
    \<and> start_residency advice m ranges = Inr c"
  using assms by (auto simp: create_streaming_def bindE_Inr_iff split: prod.splits sum.splits)

lemma created_model:
  assumes "create_streaming g em infos mapped page env advice = Inr (m, c)"
  shows "model_resolved g m" and "sm_embedder m = em" and "sm_mapped_size m = mapped" and "sm_page_size m = page"
proof -
  obtain ranges t where "resolve_model g em infos mapped page env \<lparr>slot_names = [], owner = []\<rparr> = (Inr (m, ranges), t)"
    using create_streaming_Inr [OF assms] by blast
  note r = resolve_model_Inr [OF this]
  show "model_resolved g m" "sm_embedder m = em" "sm_mapped_size m = mapped" "sm_page_size m = page" by (fact r)+
qed

text \<open>The groups of a resolved layer are its units, in order.\<close>

lemma layer_groups_cover:
  assumes "layer_resolved names plan layer"
  shows "concat (map gr_members (rl_groups layer)) = rl_units layer"
proof -
  obtain runs exchanged where r: "resolve_group_slots (rl_units layer) runs (rl_output_slot layer) = Inr exchanged"
    "list_all2 group_resolved (zip (chop runs (rl_units layer)) exchanged) (rl_groups layer)"
    using assms by (auto simp: layer_resolved_def)
  note res = resolve_group_slots_Inr [OF r(1)]
  have chop_length: "length (chop ns xs) = length ns" for ns and xs :: "'a resolved_unit list"
    by (induction ns arbitrary: xs) simp_all
  have len: "length exchanged = length (chop runs (rl_units layer))"
    using resolve_runs_length [OF res(3)] chop_length by simp
  have "map gr_members (rl_groups layer) = map fst (zip (chop runs (rl_units layer)) exchanged)"
    using r(2) by (induction rule: list_all2_induct) (auto simp: group_resolved_def)
  then show ?thesis using len res by (simp add: concat_chop)
qed

end
