(* ===== verification/StreamRefine.thy ===== *)
theory StreamRefine
  imports StreamFacts
begin

text \<open>
  The streaming runner computes the eager graph. The simulation relation is equality of the slots that
  are still live; a group run from its declared inputs does what its units do one after another, the
  units of a layer do what the layer's block does, and the phases around them are the eager ones.
\<close>

subsection \<open>The values in the slot store\<close>

text \<open>
  A downloaded tensor that is uploaded again is the same tensor: the slot keeps its dimensions and
  all its floats. This is what ggml documents for a contiguous float tensor.
\<close>

definition slots_faithful :: "'t ggml \<Rightarrow> 't device \<Rightarrow> bool" where
  "slots_faithful g dv \<longleftrightarrow>
     (\<forall>t. g_f32_contiguous g t \<longrightarrow> dv_slot dv (shape g t) (dv_read dv t (nat (elements (shape g t)))) = t)"

definition stored :: "'t device \<Rightarrow> slot_entry list \<Rightarrow> 't slot_tensors" where
  "stored dv es sid = (if unat sid < length es \<and> en_valid (es ! unat sid)
     then Some (dv_slot dv (en_ne (es ! unat sid)) (en_data (es ! unat sid))) else None)"

lemma entry_at_Inr: "entry_at sid s = (Inr e, t) \<longleftrightarrow> unat sid < length (ss_slots s) \<and> e = ss_slots s ! unat sid \<and> t = s"
  by (auto simp: entry_at_def)

lemma create_input_Inr: "create_input dv sid s = (Inr v, t) \<longleftrightarrow> stored dv (ss_slots s) sid = Some v \<and> t = s"
  by (auto simp: create_input_def bindM_Inr_iff entry_at_Inr stored_def split: if_splits)

lemma create_inputs_Inr:
  "mapM (create_input dv) sids s = (Inr vs, t) \<longleftrightarrow> list_all2 (\<lambda>sid v. stored dv (ss_slots s) sid = Some v) sids vs \<and> t = s"
  by (induction sids arbitrary: vs) (auto simp: bindM_Inr_iff create_input_Inr list_all2_Cons1)

lemma download_Inr:
  assumes "download g dv sid v s = (Inr u, t)" and "slots_faithful g dv"
  shows "stored dv (ss_slots t) = (stored dv (ss_slots s))(sid \<mapsto> v)" and "ss_out t = ss_out s"
proof -
  have t: "g_f32_contiguous g v" "unat sid < length (ss_slots s)" "t = s\<lparr>ss_slots := (ss_slots s)[unat sid :=
      \<lparr>en_data = dv_read dv v (nat (elements (shape g v))), en_ne = shape g v, en_valid = True\<rparr>]\<rparr>"
    using assms(1) by (auto simp: download_def bindM_Inr_iff entry_at_Inr split: if_splits)
  show "ss_out t = ss_out s" by (simp add: t(3))
  have "dv_slot dv (shape g v) (dv_read dv v (nat (elements (shape g v)))) = v"
    using assms(2) t(1) by (simp add: slots_faithful_def)
  then show "stored dv (ss_slots t) = (stored dv (ss_slots s))(sid \<mapsto> v)"
    using t(2) by (auto simp: t(3) stored_def fun_eq_iff nth_list_update word_unat_eq_iff)
qed

subsection \<open>Operations that leave slots and output alone\<close>

named_theorems quietly

definition quiet :: "'a run \<Rightarrow> bool" where
  "quiet m \<longleftrightarrow> (\<forall>s. ss_slots (snd (m s)) = ss_slots s \<and> ss_out (snd (m s)) = ss_out s)"

lemma quietD: "quiet m \<Longrightarrow> m s = (r, t) \<Longrightarrow> ss_slots t = ss_slots s \<and> ss_out t = ss_out s"
  by (metis quiet_def snd_conv)

lemma quiet_bindM [quietly]: "quiet m \<Longrightarrow> (\<And>x. quiet (f x)) \<Longrightarrow> quiet (bindM m f)"
  unfolding quiet_def bindM_def by (auto split: prod.split sum.split) (metis snd_conv)+

lemma quiet_forM [quietly]: "(\<And>x. quiet (f x)) \<Longrightarrow> quiet (forM xs f)"
  by (induction xs) (auto simp: quiet_def [of "retM ()"] intro: quietly)

lemma quiet_simple [quietly]:
  "quiet (retM x)" "quiet (throwM e)" "quiet (getM f)" "quiet (liftM c r)" "quiet (needM ok e)"
  "quiet (on_residency m)"
  by (simp_all add: quiet_def liftM_def needM_def on_residency_def split: prod.split)

lemma quiet_ops [quietly]:
  "quiet (entry_at sid)" "quiet (slot_nbytes sid)" "quiet (add_copied n)" "quiet (count_slot_copy sid)"
  "quiet (new_graph_context dv)" "quiet (set_tensor dv x)" "quiet (set_if dv tensor x)" "quiet (allocate dv outs x)"
  "quiet (compute_graph dv x)" "quiet (create_input dv sid)"
proof -
  show entry: "quiet (entry_at sid)" for sid unfolding entry_at_def by (auto simp: quiet_def bindM_def)
  show nbytes: "quiet (slot_nbytes sid)" for sid unfolding slot_nbytes_def by (intro entry quietly)
  show copied: "quiet (add_copied n)" for n by (simp add: quiet_def add_copied_def)
  show "quiet (count_slot_copy sid)" unfolding count_slot_copy_def by (intro nbytes copied quietly)
  have "quiet (modifyM (\<lambda>s. s\<lparr>ss_countdown := n\<rparr>))" "quiet (modifyM (\<lambda>s. if b then s\<lparr>ss_countdown := n\<rparr> else s))" for n b
    by (simp_all add: quiet_def)
  then show "quiet (new_graph_context dv)" unfolding new_graph_context_def
    by (intro quietly) (auto intro!: quietly)
  show set: "quiet (set_tensor dv x)" unfolding set_tensor_def by (intro quietly)
  show "quiet (set_if dv tensor x)" unfolding set_if_def by (simp add: set quietly)
  have "quiet (modifyM (\<lambda>s. if n \<noteq> ss_previous_nodes s then s\<lparr>ss_replans := ss_replans s + 1, ss_previous_nodes := n\<rparr> else s))"
    for n by (simp add: quiet_def)
  then show "quiet (allocate dv outs x)" unfolding allocate_def by (intro quietly)
  have "quiet (modifyM (\<lambda>s. s\<lparr>ss_computes := ss_computes s + 1\<rparr>))" by (simp add: quiet_def)
  then show "quiet (compute_graph dv x)" unfolding compute_graph_def by (intro quietly)
  show "quiet (create_input dv sid)" unfolding create_input_def by (intro entry quietly) (auto intro: quietly)
qed

text \<open>A lease around a computation changes neither slots nor output.\<close>

lemma on_residency_Inr:
  "on_residency m s = (Inr x, t) \<longleftrightarrow> (\<exists>c. m (ss_residency s) = (Inr x, c) \<and> t = s\<lparr>ss_residency := c\<rparr>)"
  by (cases "m (ss_residency s)"; cases "fst (m (ss_residency s))") (auto simp: on_residency_def)

lemma holding_Inr:
  assumes "holding advice l body s = (Inr x, t)"
  shows "\<exists>u c. body s = (Inr x, u) \<and> t = u\<lparr>ss_residency := c\<rparr>"
proof -
  obtain r u where r: "body s = (r, u)" by (cases "body s")
  obtain y where y: "r = Inr y" using assms r by (cases r) (simp_all add: holding_def)
  obtain rc c l' where c: "lease_release advice (mark_compute_complete l) (ss_residency u) = ((rc, c), l')"
    by (metis surj_pair)
  show ?thesis using assms r y c by (cases rc) (auto simp: holding_def)
qed

lemma with_lease_Inr:
  assumes "with_lease advice key ranges token_rows body s = (Inr x, t)"
  shows "\<exists>c u. body (s\<lparr>ss_residency := c\<rparr>) = (Inr x, u) \<and> ss_slots t = ss_slots u \<and> ss_out t = ss_out u"
  using assms unfolding with_lease_def bindM_Inr_iff on_residency_Inr by (fastforce dest: holding_Inr)

subsection \<open>One unit, one group\<close>

lemma bind_slots_other: "sid \<notin> set sids \<Longrightarrow> bind_slots sids vs tensors sid = tensors sid"
  unfolding bind_slots_def
proof (induction sids arbitrary: vs tensors)
  case (Cons a sids)
  then show ?case by (cases vs) auto
qed simp

lemma bind_slots_values:
  assumes "list_all2 (\<lambda>sid v. e sid = Some v) sids vs"
  shows "bind_slots sids vs tensors sid = (if sid \<in> set sids then e sid else tensors sid)"
  using assms unfolding bind_slots_def
  by (induction arbitrary: tensors rule: list_all2_induct) auto

lemma bind_slots_le: "a \<subseteq>\<^sub>m b \<Longrightarrow> bind_slots sids vs a \<subseteq>\<^sub>m bind_slots sids vs b"
proof -
  have "a \<subseteq>\<^sub>m b \<Longrightarrow> fold (\<lambda>(sid, v) t. t(sid \<mapsto> v)) zs a \<subseteq>\<^sub>m fold (\<lambda>(sid, v) t. t(sid \<mapsto> v)) zs b" for zs
    by (induction zs arbitrary: a b) (auto simp: map_le_upd)
  then show "a \<subseteq>\<^sub>m b \<Longrightarrow> bind_slots sids vs a \<subseteq>\<^sub>m bind_slots sids vs b" by (simp add: bind_slots_def)
qed

text \<open>A unit does the same in an environment that knows more.\<close>

lemma run_member_mono:
  assumes "run_member gi u a = Inr a'" and "a \<subseteq>\<^sub>m b"
    and "\<And>vs. call_unit (ru_unit u) gi vs = call_unit (ru_unit u) gi' vs"
  shows "\<exists>b'. run_member gi' u b = Inr b' \<and> a' \<subseteq>\<^sub>m b'"
proof -
  obtain vs outs where vs: "list_all2 (\<lambda>sid v. (case a sid of None \<Rightarrow> Inl (SlotNotBuilt (su_name (ru_unit u))) | Some v \<Rightarrow> Inr v)
      = Inr v) (unit_inputs u) vs" "call_unit (ru_unit u) gi vs = Inr outs" "a' = bind_slots (unit_outputs u) outs a"
    using assms(1) by (auto simp: run_member_def bindE_Inr_iff mapE_Inr_iff)
  have "list_all2 (\<lambda>sid v. (case b sid of None \<Rightarrow> Inl (SlotNotBuilt (su_name (ru_unit u))) | Some v \<Rightarrow> Inr v)
      = Inr v) (unit_inputs u) vs"
    using vs(1) by (rule list_all2_mono) (use assms(2) in \<open>auto simp: map_le_def dom_def split: option.splits\<close>)
  then show ?thesis using vs(2,3) assms(3) bind_slots_le [OF assms(2)]
    by (auto simp: run_member_def bindE_Inr_iff mapE_Inr_iff)
qed

lemma run_members_mono:
  assumes "foldE (run_member gi) us a = Inr a'" and "a \<subseteq>\<^sub>m b"
    and "\<And>u vs. u \<in> set us \<Longrightarrow> call_unit (ru_unit u) gi vs = call_unit (ru_unit u) gi' vs"
  shows "\<exists>b'. foldE (run_member gi') us b = Inr b' \<and> a' \<subseteq>\<^sub>m b'"
  using assms
proof (induction us arbitrary: a b)
  case (Cons u us)
  then obtain a1 where a1: "run_member gi u a = Inr a1" "foldE (run_member gi) us a1 = Inr a'"
    by (auto simp: bindE_Inr_iff)
  then obtain b1 where "run_member gi' u b = Inr b1" "a1 \<subseteq>\<^sub>m b1"
    using run_member_mono [OF a1(1) Cons.prems(2)] Cons.prems(3) by (meson list.set_intros(1))
  then show ?case using Cons.IH [OF a1(2)] Cons.prems(3) by (auto simp: bindE_Inr_iff)
qed simp

lemma run_members_other:
  "foldE (run_member gi) us e = Inr e' \<Longrightarrow> sid \<notin> writes us \<Longrightarrow> e' sid = e sid"
  by (induction us arbitrary: e) (auto simp: bindE_Inr_iff run_member_def bind_slots_other)

text \<open>What a group does to the store, when it returns.\<close>

lemma run_group_Inr:
  assumes "run_group g dv gr b packed per_sentence s = (Inr u, t)" and "slots_faithful g dv"
  shows "\<exists>uploads tensors outs.
      list_all2 (\<lambda>sid v. stored dv (ss_slots s) sid = Some v) (gr_inputs gr) uploads
    \<and> foldE (run_member (group_graph_inputs dv (gr_graph_inputs gr) b packed per_sentence)) (gr_members gr)
        (bind_slots (gr_inputs gr) uploads Map.empty) = Inr tensors
    \<and> list_all2 (\<lambda>sid v. tensors sid = Some v) (gr_outputs gr) outs
    \<and> stored dv (ss_slots t) = bind_slots (gr_outputs gr) outs (stored dv (ss_slots s))
    \<and> ss_out t = ss_out s"
proof -
  let ?gi = "group_graph_inputs dv (gr_graph_inputs gr) b packed per_sentence"
  define quiet_part where "quiet_part outs =
      bindM (allocate dv outs (gr_key gr)) (\<lambda>_.
      bindM (forM (gr_inputs gr) (\<lambda>sid. bindM (set_tensor dv ''slot input'') (\<lambda>_. count_slot_copy sid))) (\<lambda>_.
      bindM (set_if dv (gi_learned_pos_ids ?gi) ''group_learned_position_ids'') (\<lambda>_.
      bindM (set_if dv (gi_rope_pos_ids ?gi) ''group_rope_position_ids'') (\<lambda>_.
      bindM (set_if dv (gi_type_ids ?gi) ''group_type_ids'') (\<lambda>_.
      bindM (set_if dv (gi_kq_mask ?gi) ''group_attention_mask'') (\<lambda>_.
      compute_graph dv (gr_key gr)))))))" for outs
  have q: "quiet (quiet_part outs)" for outs unfolding quiet_part_def by (intro quietly)
  obtain uploads tensors outs s1 where run: "mapM (create_input dv) (gr_inputs gr) s = (Inr uploads, s)"
    "foldE (run_member ?gi) (gr_members gr) (bind_slots (gr_inputs gr) uploads Map.empty) = Inr tensors"
    "group_values gr tensors = Inr outs" "quiet_part outs s = (Inr (), s1)"
    "forM (zip (gr_outputs gr) outs) (\<lambda>(sid, t). bindM (download g dv sid t) (\<lambda>_. count_slot_copy sid)) s1 = (Inr (), t)"
    using assms(1) unfolding run_group_def Let_def quiet_part_def bindM_Inr_iff liftM_Inr_iff create_inputs_Inr by auto
  note slots = quietD [OF q run(4)]
  have outs: "list_all2 (\<lambda>sid v. tensors sid = Some v) (gr_outputs gr) outs"
    using run(3) unfolding group_values_def mapE_Inr_iff by (rule list_all2_mono) (auto split: option.splits)
  have drain: "stored dv (ss_slots t') = fold (\<lambda>(sid, v) m. m(sid \<mapsto> v)) zs (stored dv (ss_slots s')) \<and> ss_out t' = ss_out s'"
    if "forM zs (\<lambda>(sid, t). bindM (download g dv sid t) (\<lambda>_. count_slot_copy sid)) s' = (Inr (), t')" for zs s' t'
    using that
  proof (induction zs arbitrary: s')
    case (Cons z zs)
    obtain sid v where z: "z = (sid, v)" by (cases z)
    obtain s2 s3 where s2: "download g dv sid v s' = (Inr (), s2)" "count_slot_copy sid s2 = (Inr (), s3)"
      "forM zs (\<lambda>(sid, t). bindM (download g dv sid t) (\<lambda>_. count_slot_copy sid)) s3 = (Inr (), t')"
      using Cons.prems by (auto simp: z bindM_Inr_iff)
    show ?case using download_Inr [OF s2(1) assms(2)] quietD [OF quiet_ops(4) s2(2)] Cons.IH [OF s2(3)] by (simp add: z)
  qed simp
  show ?thesis
    using run(1,2) outs drain [OF run(5)] slots by (auto simp: create_inputs_Inr bind_slots_def)
qed

subsection \<open>The groups of a layer\<close>

text \<open>Environments that agree on the slots of a set.\<close>

definition same_on :: "slot_id set \<Rightarrow> 't slot_tensors \<Rightarrow> 't slot_tensors \<Rightarrow> bool" where
  "same_on A a b \<longleftrightarrow> (\<forall>sid\<in>A. a sid = b sid)"

lemma reads_first_live: "reads_first us \<subseteq> live (us @ later) out"
proof -
  have "reads_first us \<subseteq> (\<Union>u\<in>set us. set (unit_inputs u))" by (induction us) auto
  then show ?thesis by (auto simp: live_def)
qed

lemma group_step:
  assumes run: "run_group g dv gr b packed per_sentence s = (Inr u, t)" and "slots_faithful g dv"
    and "gr_members gr = us" and ins: "set (gr_inputs gr) \<subseteq> live (us @ later) out"
    and outs: "set (gr_outputs gr) = writes us \<inter> live later out"
    and same: "same_on (live (us @ later) out) (stored dv (ss_slots s)) e"
    and agree: "\<And>u vs. u \<in> set us \<Longrightarrow>
      call_unit (ru_unit u) (group_graph_inputs dv (gr_graph_inputs gr) b packed per_sentence) vs = call_unit (ru_unit u) gi vs"
  shows "\<exists>e'. foldE (run_member gi) us e = Inr e' \<and> same_on (live later out) (stored dv (ss_slots t)) e' \<and> ss_out t = ss_out s"
proof -
  obtain uploads tensors vs where r: "list_all2 (\<lambda>sid v. stored dv (ss_slots s) sid = Some v) (gr_inputs gr) uploads"
    "foldE (run_member (group_graph_inputs dv (gr_graph_inputs gr) b packed per_sentence)) us
        (bind_slots (gr_inputs gr) uploads Map.empty) = Inr tensors"
    "list_all2 (\<lambda>sid v. tensors sid = Some v) (gr_outputs gr) vs"
    "stored dv (ss_slots t) = bind_slots (gr_outputs gr) vs (stored dv (ss_slots s))" "ss_out t = ss_out s"
    using run_group_Inr [OF run assms(2)] assms(3) by blast
  have "bind_slots (gr_inputs gr) uploads Map.empty \<subseteq>\<^sub>m e"
    using ins same unfolding map_le_def bind_slots_values [OF r(1)] same_on_def by (auto split: if_splits)
  then obtain e' where e': "foldE (run_member gi) us e = Inr e'" "tensors \<subseteq>\<^sub>m e'"
    using run_members_mono [OF r(2)] agree by blast
  have same_value: "tensors sid = e' sid" if "sid \<in> set (gr_outputs gr)" for sid
    using r(3) that e'(2) by (fastforce simp: list_all2_conv_all_nth in_set_conv_nth map_le_def)
  have "stored dv (ss_slots t) sid = e' sid" if "sid \<in> live later out" for sid
  proof (cases "sid \<in> writes us")
    case True
    then show ?thesis using that outs same_value by (simp add: r(4) bind_slots_values [OF r(3)])
  next
    case False
    then have "stored dv (ss_slots t) sid = stored dv (ss_slots s) sid"
      using outs by (simp add: r(4) bind_slots_values [OF r(3)])
    also have "\<dots> = e sid" using same that by (auto simp: same_on_def live_def)
    finally show ?thesis using run_members_other [OF e'(1) False] by simp
  qed
  then show ?thesis using e'(1) r(5) by (simp add: same_on_def)
qed

lemma group_phase_Inr:
  assumes "group_phase g dv advice b packed per_sentence gr s = (Inr u, t)"
  shows "\<exists>s1 t1. run_group g dv gr b packed per_sentence s1 = (Inr u, t1)
    \<and> ss_slots s1 = ss_slots s \<and> ss_out s1 = ss_out s \<and> ss_slots t = ss_slots t1 \<and> ss_out t = ss_out t1"
proof -
  obtain v s0 where s0: "new_graph_context dv s = (Inr v, s0)"
    "with_lease advice (gr_key gr) (gr_ranges gr) False (run_group g dv gr b packed per_sentence) s0 = (Inr u, t)"
    using assms by (auto simp: group_phase_def bindM_Inr_iff)
  obtain c t1 where "run_group g dv gr b packed per_sentence (s0\<lparr>ss_residency := c\<rparr>) = (Inr u, t1)"
    "ss_slots t = ss_slots t1" "ss_out t = ss_out t1"
    using with_lease_Inr [OF s0(2)] by blast
  moreover have "ss_slots s0 = ss_slots s \<and> ss_out s0 = ss_out s" using quietD [OF quiet_ops(5) s0(1)] .
  ultimately show ?thesis by (intro exI [of _ "s0\<lparr>ss_residency := c\<rparr>"] exI [of _ t1]) simp
qed

lemma groups_step:
  assumes "resolve_runs us ns out = Inr gs" and "sum_list ns = length us"
    and "list_all2 group_resolved (zip (chop ns us) gs) groups"
    and "forM groups (group_phase g dv advice b packed per_sentence) s = (Inr u, t)" and "slots_faithful g dv"
    and "\<And>gr u vs. gr \<in> set groups \<Longrightarrow> u \<in> set (gr_members gr) \<Longrightarrow>
      call_unit (ru_unit u) (group_graph_inputs dv (gr_graph_inputs gr) b packed per_sentence) vs = call_unit (ru_unit u) gi vs"
    and "same_on (live us out) (stored dv (ss_slots s)) e"
  shows "\<exists>e'. foldE (run_member gi) us e = Inr e' \<and> stored dv (ss_slots t) out = e' out \<and> ss_out t = ss_out s"
  using assms(1-4,6,7)
proof (induction ns arbitrary: us gs groups s e)
  case Nil
  then show ?case by (auto simp: same_on_def live_def)
next
  case (Cons n ns)
  let ?run = "take n us" and ?later = "drop n us"
  obtain gs' where gs: "resolve_runs ?later ns out = Inr gs'"
    "gs = \<lparr>group_inputs = run_inputs [] ?run [], group_outputs = run_outputs ?run ?later out\<rparr> # gs'"
    using Cons.prems(1) by (auto simp: throwing Let_def split: if_splits)
  then obtain gr groups' where gr: "groups = gr # groups'" "gr_members gr = ?run"
    "gr_inputs gr = run_inputs [] ?run []" "gr_outputs gr = run_outputs ?run ?later out"
    "list_all2 group_resolved (zip (chop ns ?later) gs') groups'"
    using Cons.prems(3) by (auto simp: list_all2_Cons1 group_resolved_def)
  obtain v s1 where s1: "group_phase g dv advice b packed per_sentence gr s = (Inr v, s1)"
    "forM groups' (group_phase g dv advice b packed per_sentence) s1 = (Inr u, t)"
    using Cons.prems(4) by (auto simp: gr(1) bindM_Inr_iff)
  obtain s0 t0 where phase: "run_group g dv gr b packed per_sentence s0 = (Inr v, t0)"
    "ss_slots s0 = ss_slots s" "ss_out s0 = ss_out s" "ss_slots s1 = ss_slots t0" "ss_out s1 = ss_out t0"
    using group_phase_Inr [OF s1(1)] by blast
  have "\<exists>e'. foldE (run_member gi) ?run e = Inr e' \<and> same_on (live ?later out) (stored dv (ss_slots t0)) e' \<and> ss_out t0 = ss_out s0"
  proof (rule group_step [OF phase(1) assms(5) gr(2)])
    show "set (gr_inputs gr) \<subseteq> live (?run @ ?later) out"
      using reads_first_live [of ?run ?later out] by (simp only: gr(3) run_inputs_set) auto
    show "set (gr_outputs gr) = writes ?run \<inter> live ?later out" by (simp only: gr(4) run_outputs_set)
  qed (use Cons.prems(5,6) gr phase(2) in auto)
  then obtain e1 where e1: "foldE (run_member gi) ?run e = Inr e1" "same_on (live ?later out) (stored dv (ss_slots s1)) e1"
    "ss_out s1 = ss_out s"
    using phase by auto
  have "sum_list ns = length ?later" using Cons.prems(2) by simp
  from Cons.IH [OF gs(1) this gr(5) s1(2) _ e1(2)] Cons.prems(5)
  obtain e' where "foldE (run_member gi) ?later e1 = Inr e'" "stored dv (ss_slots t) out = e' out" "ss_out t = ss_out s1"
    unfolding gr(1) by auto
  then show ?case
    using e1 foldE_append [of "run_member gi" ?run ?later e] by auto
qed

subsection \<open>Slots by name\<close>

lemma mapE_map: "mapE f (map h xs) = mapE (\<lambda>x. f (h x)) xs"
  by (induction xs) simp_all

lemma bind_slots_names:
  assumes "names_ok names" and "set ns \<subseteq> set names"
  shows "(\<lambda>n. bind_slots (map (slot_of names) ns) vs e (slot_of names n)) = bind_outputs ns vs (\<lambda>n. e (slot_of names n))"
  using assms(2)
proof (induction ns arbitrary: vs e)
  case Nil
  then show ?case by (simp add: bind_slots_def)
next
  case (Cons a ns)
  show ?case
  proof (cases vs)
    case Nil
    then show ?thesis by (simp add: bind_slots_def)
  next
    case (Cons v ws)
    have "(\<lambda>n. (e(slot_of names a \<mapsto> v)) (slot_of names n)) = (\<lambda>n. e (slot_of names n))(a \<mapsto> v)"
      using Cons.prems slot_of_inj [OF assms(1), of a, OF _ sym] by (auto simp: fun_eq_iff)
    moreover have "bind_slots (slot_of names a # map (slot_of names) ns) (v # ws) e
        = bind_slots (map (slot_of names) ns) ws (e(slot_of names a \<mapsto> v))" by (simp add: bind_slots_def)
    moreover have "set ns \<subseteq> set names" using Cons.prems by simp
    ultimately show ?thesis using Cons.IH [of ws "e(slot_of names a \<mapsto> v)"] Cons by (simp only: list.map bind_outputs.simps)
  qed
qed

lemma run_member_names:
  assumes "unit_resolved names u r" and "names_ok names" and "run_member gi r e = Inr e'"
  shows "apply_unit gi u (\<lambda>n. e (slot_of names n)) = Inr (\<lambda>n. e' (slot_of names n))"
proof -
  have r: "ru_unit r = u" "unit_inputs r = map (slot_of names) (su_inputs u)" "unit_outputs r = map (slot_of names) (su_outputs u)"
    "set (su_outputs u) \<subseteq> set names"
    using assms(1) by (auto simp: unit_resolved_def)
  then show ?thesis using assms(3) bind_slots_names [OF assms(2) r(4), symmetric]
    by (auto simp: run_member_def apply_unit_def bindE_Inr_iff mapE_map)
qed

lemma run_members_names:
  assumes "list_all2 (unit_resolved names) us rs" and "names_ok names" and "foldE (run_member gi) rs e = Inr e'"
  shows "apply_units gi us (\<lambda>n. e (slot_of names n)) = Inr (\<lambda>n. e' (slot_of names n))"
  using assms(1,3)
proof (induction arbitrary: e rule: list_all2_induct)
  case (Cons u us r rs)
  then obtain e1 where e1: "run_member gi r e = Inr e1" "foldE (run_member gi) rs e1 = Inr e'" by (auto simp: bindE_Inr_iff)
  show ?case using run_member_names [OF Cons.hyps(1) assms(2) e1(1)] Cons.IH [OF e1(2)] by simp
qed simp

subsection \<open>The graph inputs of a group and the eager ones\<close>

text \<open>What the units of both families declare, beside what the architecture declares.\<close>

definition unit_declares :: "input_requirements \<Rightarrow> input_requirements \<Rightarrow> bool" where
  "unit_declares R r \<longleftrightarrow> \<not> needs_learned_pos_ids r \<and> \<not> needs_type_ids r \<and> (needs_rope_pos_ids r \<longrightarrow> needs_rope_pos_ids R)
     \<and> (uses_kq_mask r \<longrightarrow> uses_kq_mask R \<and> (consumes_seq_lengths R \<longrightarrow> consumes_seq_lengths r))
     \<and> (consumes_seq_lengths r \<longrightarrow> consumes_seq_lengths R)"

lemma units_declare:
  assumes "arch_streaming_units g a l = Inr plan" and "u \<in> set (lp_units plan)"
  shows "unit_declares (arch_inputs a) (su_graph_inputs u)"
proof (cases a)
  case (BertModel m)
  then show ?thesis using assms
    by (auto simp: arch_streaming_units_def bert_streaming_units_def bert_unit_defs unit_declares_def no_requirements_def
        arch_inputs_def bert_inputs_def split: if_splits)
next
  case (GemmaModel m)
  then show ?thesis using assms
    by (auto simp: arch_streaming_units_def gemma_streaming_units_def gemma_unit_defs unit_declares_def no_requirements_def
        arch_inputs_def gemma_inputs_def split: if_splits)
qed

definition joined_requirements :: "'t resolved_unit list \<Rightarrow> input_requirements" where
  "joined_requirements us = foldl (\<lambda>r u. join_requirements r (su_graph_inputs (ru_unit u))) no_requirements us"

lemma joined_requirements:
  "needs_rope_pos_ids (joined_requirements us) \<longleftrightarrow> (\<exists>u\<in>set us. needs_rope_pos_ids (su_graph_inputs (ru_unit u)))"
  "uses_kq_mask (joined_requirements us) \<longleftrightarrow> (\<exists>u\<in>set us. uses_kq_mask (su_graph_inputs (ru_unit u)))"
  "consumes_seq_lengths (joined_requirements us) \<longleftrightarrow> (\<exists>u\<in>set us. consumes_seq_lengths (su_graph_inputs (ru_unit u)))"
proof -
  let ?f = "\<lambda>r u. join_requirements r (su_graph_inputs (ru_unit u))"
  have "(needs_rope_pos_ids (foldl ?f r us) \<longleftrightarrow> needs_rope_pos_ids r \<or> (\<exists>u\<in>set us. needs_rope_pos_ids (su_graph_inputs (ru_unit u))))
    \<and> (uses_kq_mask (foldl ?f r us) \<longleftrightarrow> uses_kq_mask r \<or> (\<exists>u\<in>set us. uses_kq_mask (su_graph_inputs (ru_unit u))))
    \<and> (consumes_seq_lengths (foldl ?f r us) \<longleftrightarrow> consumes_seq_lengths r \<or> (\<exists>u\<in>set us. consumes_seq_lengths (su_graph_inputs (ru_unit u))))"
    for r
    by (induction us arbitrary: r) (auto simp: join_requirements_def)
  from this [of no_requirements] show
    "needs_rope_pos_ids (joined_requirements us) \<longleftrightarrow> (\<exists>u\<in>set us. needs_rope_pos_ids (su_graph_inputs (ru_unit u)))"
    "uses_kq_mask (joined_requirements us) \<longleftrightarrow> (\<exists>u\<in>set us. uses_kq_mask (su_graph_inputs (ru_unit u)))"
    "consumes_seq_lengths (joined_requirements us) \<longleftrightarrow> (\<exists>u\<in>set us. consumes_seq_lengths (su_graph_inputs (ru_unit u)))"
    by (simp_all add: joined_requirements_def no_requirements_def)
qed

definition eager_inputs :: "'t device \<Rightarrow> input_requirements \<Rightarrow> batch_layout \<Rightarrow> materialized_batch \<Rightarrow> 't graph_inputs" where
  "eager_inputs dv R layout b = (if packs R layout b then packed_inputs dv R b else padded_inputs dv R layout b)"

lemma group_inputs_agree:
  assumes "\<And>u. u \<in> set us \<Longrightarrow> unit_declares R (su_graph_inputs (ru_unit u))" and "u \<in> set us"
    and "per_sentence \<longleftrightarrow> padded b \<and> layout \<noteq> LayoutPadded \<and> consumes_seq_lengths R"
    and "packed \<longleftrightarrow> per_sentence \<and> consumes_packed_batch R"
  shows "agree_on (su_graph_inputs (ru_unit u)) (group_graph_inputs dv (joined_requirements us) b packed per_sentence)
    (eager_inputs dv R layout b)"
proof -
  note d = assms(1) [OF assms(2), unfolded unit_declares_def]
  have rope: "needs_rope_pos_ids (su_graph_inputs (ru_unit u)) \<Longrightarrow> needs_rope_pos_ids (joined_requirements us)"
    and mask: "uses_kq_mask (su_graph_inputs (ru_unit u)) \<Longrightarrow> uses_kq_mask (joined_requirements us)"
    and seqs: "consumes_seq_lengths (su_graph_inputs (ru_unit u)) \<Longrightarrow> consumes_seq_lengths (joined_requirements us)"
    using assms(2) joined_requirements [of us] by blast+
  have packs: "packs R layout b \<longleftrightarrow> packed" using assms(3,4) by (auto simp: packs_def)
  let ?r = "su_graph_inputs (ru_unit u)" and ?group = "group_graph_inputs dv (joined_requirements us) b packed per_sentence"
    and ?eager = "eager_inputs dv R layout b"
  note parts = group_graph_inputs_def packed_inputs_def padded_inputs_def no_graph_inputs_def eager_inputs_def packs Let_def
  have "needs_rope_pos_ids ?r \<Longrightarrow> gi_rope_pos_ids ?group = gi_rope_pos_ids ?eager"
    using d rope by (simp add: parts)
  moreover have "uses_kq_mask ?r \<Longrightarrow> gi_kq_mask ?group = gi_kq_mask ?eager"
    using d mask seqs assms(3,4) by (cases "consumes_seq_lengths R") (simp_all add: parts)
  moreover have "consumes_seq_lengths ?r \<Longrightarrow> gi_seq_lengths ?group = gi_seq_lengths ?eager"
    using d seqs assms(3,4) by (simp add: parts)
  moreover have "gi_seq_offsets ?group = gi_seq_offsets ?eager" "gi_n_seq ?group = gi_n_seq ?eager" by (simp_all add: parts)
  ultimately show ?thesis using d by (simp add: agree_on_def)
qed

subsection \<open>A layer, and all of them\<close>

lemma unit_reads_declared:
  assumes "arch_streaming_units g a l = Inr plan" and "u \<in> set (lp_units plan)" and "agree_on (su_graph_inputs u) gi gi'"
  shows "call_unit u gi vs = call_unit u gi' vs"
proof -
  have "0 \<le> l \<and> l < ap_n_layer (arch_params_of a)"
    using model.units_outside [of l a g] assms(1) by force
  then have "plan_ok (lp_units plan)" using model.units_inside [of l a g] assms(1) by auto
  then show ?thesis using assms(2,3) by (auto simp: plan_ok_def)
qed

lemma list_all2_right: "list_all2 P xs ys \<Longrightarrow> y \<in> set ys \<Longrightarrow> \<exists>x\<in>set xs. P x y"
  by (induction rule: list_all2_induct) auto

lemma layer_agrees:
  assumes plan: "arch_streaming_units g a l = Inr plan" and layer: "layer_resolved names plan layer"
    and flags: "per_sentence \<longleftrightarrow> padded b \<and> layout \<noteq> LayoutPadded \<and> consumes_seq_lengths (arch_inputs a)"
      "packed \<longleftrightarrow> per_sentence \<and> consumes_packed_batch (arch_inputs a)"
    and gr: "gr \<in> set (rl_groups layer)" and v: "v \<in> set (gr_members gr)"
  shows "call_unit (ru_unit v) (group_graph_inputs dv (gr_graph_inputs gr) b packed per_sentence) vs
    = call_unit (ru_unit v) (eager_inputs dv (arch_inputs a) layout b) vs"
proof (rule unit_reads_declared [OF plan])
  obtain runs exchanged where r: "list_all2 group_resolved (zip (chop runs (rl_units layer)) exchanged) (rl_groups layer)"
    and units: "list_all2 (unit_resolved names) (lp_units plan) (rl_units layer)"
    using layer by (auto simp: layer_resolved_def)
  have declared: "ru_unit v \<in> set (lp_units plan)" if "v \<in> set (rl_units layer)" for v
    using units that by (auto simp: unit_resolved_def list_all2_conv_all_nth in_set_conv_nth)
  have sub: "set (gr_members gr) \<subseteq> set (rl_units layer)"
    using gr unfolding layer_groups_cover [OF layer, symmetric] by auto
  then show "ru_unit v \<in> set (lp_units plan)" using declared v by blast
  obtain p where "group_resolved p gr" using list_all2_right [OF r gr] by blast
  then have "gr_graph_inputs gr = joined_requirements (gr_members gr)"
    by (cases p) (simp add: group_resolved_def joined_requirements_def)
  then show "agree_on (su_graph_inputs (ru_unit v)) (group_graph_inputs dv (gr_graph_inputs gr) b packed per_sentence)
      (eager_inputs dv (arch_inputs a) layout b)"
    using group_inputs_agree [OF _ v flags] sub declared units_declare [OF plan] by auto
qed

lemma layer_step:
  assumes plan: "arch_streaming_units g a l = Inr plan" and layer: "layer_resolved names plan layer" and "names_ok names"
    and run: "forM (rl_groups layer) (group_phase g dv advice b packed per_sentence) s = (Inr u, t)" and "slots_faithful g dv"
    and flags: "per_sentence \<longleftrightarrow> padded b \<and> layout \<noteq> LayoutPadded \<and> consumes_seq_lengths (arch_inputs a)"
      "packed \<longleftrightarrow> per_sentence \<and> consumes_packed_batch (arch_inputs a)"
    and x: "stored dv (ss_slots s) (slot_of names ''x'') = Some x"
  shows "\<exists>y. arch_block g a (eager_inputs dv (arch_inputs a) layout b) l x = Inr y
    \<and> stored dv (ss_slots t) (slot_of names ''x'') = Some y \<and> ss_out t = ss_out s"
proof -
  let ?gi = "eager_inputs dv (arch_inputs a) layout b"
  have l: "0 \<le> l" "l < ap_n_layer (arch_params_of a)" using model.units_outside [of l a g] plan by force+
  then have out: "lp_output_slot plan = ''x''" using model.units_inside [of l a g] plan by auto
  obtain runs exchanged where r: "resolve_group_slots (rl_units layer) runs (slot_of names ''x'') = Inr exchanged"
    "list_all2 group_resolved (zip (chop runs (rl_units layer)) exchanged) (rl_groups layer)"
    and units: "list_all2 (unit_resolved names) (lp_units plan) (rl_units layer)"
    using layer out by (auto simp: layer_resolved_def)
  note res = resolve_group_slots_Inr [OF r(1)]
  note agree = layer_agrees [OF plan layer flags]
  obtain e' where e': "foldE (run_member ?gi) (rl_units layer) (stored dv (ss_slots s)) = Inr e'"
    "stored dv (ss_slots t) (slot_of names ''x'') = e' (slot_of names ''x'')" "ss_out t = ss_out s"
    using groups_step [OF res(3,1) r(2) run assms(5) agree, of "stored dv (ss_slots s)"] by (auto simp: same_on_def)
  have "apply_units ?gi (lp_units plan) (\<lambda>n. stored dv (ss_slots s) (slot_of names n)) = Inr (\<lambda>n. e' (slot_of names n))"
    by (rule run_members_names [OF units assms(3) e'(1)])
  then have "\<exists>y. arch_block g a ?gi l x = Inr y \<and> e' (slot_of names ''x'') = Some y"
    using model.units_block [OF l plan, of "\<lambda>n. stored dv (ss_slots s) (slot_of names n)" x ?gi] x
    by (auto split: sum.splits)
  then show ?thesis using e'(2,3) by auto
qed

lemma layers_step:
  assumes "mapE (\<lambda>l. arch_streaming_units g a (int l)) ls = Inr plans" and "list_all2 (layer_resolved names) plans layers"
    and "names_ok names" and "slots_faithful g dv"
    and "forM layers (\<lambda>layer. forM (rl_groups layer) (group_phase g dv advice b packed per_sentence)) s = (Inr u, t)"
    and flags: "per_sentence \<longleftrightarrow> padded b \<and> layout \<noteq> LayoutPadded \<and> consumes_seq_lengths (arch_inputs a)"
      "packed \<longleftrightarrow> per_sentence \<and> consumes_packed_batch (arch_inputs a)"
    and "stored dv (ss_slots s) (slot_of names ''x'') = Some x"
  shows "\<exists>y. foldE (\<lambda>l. arch_block g a (eager_inputs dv (arch_inputs a) layout b) (int l)) ls x = Inr y
    \<and> stored dv (ss_slots t) (slot_of names ''x'') = Some y \<and> ss_out t = ss_out s"
  using assms(1,2,5,8)
proof (induction ls arbitrary: plans layers s x)
  case Nil
  then show ?case by auto
next
  case (Cons l ls)
  obtain plan plans' where plans: "plans = plan # plans'" "arch_streaming_units g a (int l) = Inr plan"
    "mapE (\<lambda>l. arch_streaming_units g a (int l)) ls = Inr plans'"
    using Cons.prems(1) by (auto simp: bindE_Inr_iff)
  then obtain layer layers' where layers: "layers = layer # layers'" "layer_resolved names plan layer"
    "list_all2 (layer_resolved names) plans' layers'"
    using Cons.prems(2) by (auto simp: list_all2_Cons1)
  obtain v s1 where s1: "forM (rl_groups layer) (group_phase g dv advice b packed per_sentence) s = (Inr v, s1)"
    "forM layers' (\<lambda>layer. forM (rl_groups layer) (group_phase g dv advice b packed per_sentence)) s1 = (Inr u, t)"
    using Cons.prems(3) by (auto simp: layers(1) bindM_Inr_iff)
  from layer_step [OF plans(2) layers(2) assms(3) s1(1) assms(4) flags Cons.prems(4)]
  obtain y where y: "arch_block g a (eager_inputs dv (arch_inputs a) layout b) (int l) x = Inr y"
    "stored dv (ss_slots s1) (slot_of names ''x'') = Some y" "ss_out s1 = ss_out s" by blast
  from Cons.IH [OF plans(3) layers(3) s1(2) y(2)] y(1,3) show ?case by auto
qed

subsection \<open>The phases around the layers\<close>

lemma embedding_inputs_same:
  assumes "packed \<longleftrightarrow> packs (arch_inputs a) layout b"
  shows "arch_embedding_phase g a (embedding_graph_inputs dv (arch_embedding_inputs a) b packed)
    = arch_embedding_phase g a (eager_inputs dv (arch_inputs a) layout b)"
proof (cases a)
  case (BertModel m)
  then have "\<not> packed" using assms by (simp add: packs_def arch_inputs_def bert_inputs_def no_requirements_def)
  then show ?thesis using assms BertModel
    by (simp add: arch_embedding_phase_def bert_embedding_phase_def embedding_graph_inputs_def eager_inputs_def padded_inputs_def
        arch_embedding_inputs_def bert_embedding_inputs_def arch_inputs_def bert_inputs_def no_requirements_def no_graph_inputs_def Let_def)
next
  case (GemmaModel m)
  then show ?thesis using assms
    by (simp add: arch_embedding_phase_def gemma_embedding_phase_def embedding_graph_inputs_def eager_inputs_def padded_inputs_def
        packed_inputs_def no_graph_inputs_def Let_def)
qed

lemma embedding_phase_Inr:
  assumes "embedding_phase g dv advice m b packed s = (Inr u, t)" and "slots_faithful g dv"
  shows "\<exists>x. arch_embedding_phase g (em_arch (sm_embedder m))
        (embedding_graph_inputs dv (arch_embedding_inputs (em_arch (sm_embedder m))) b packed) = Inr x
    \<and> stored dv (ss_slots t) (entry_slot m) = Some x \<and> ss_out t = ss_out s"
proof -
  let ?a = "em_arch (sm_embedder m)"
  let ?gi = "embedding_graph_inputs dv (arch_embedding_inputs ?a) b packed"
  define quiet_part where "quiet_part x = bindM (allocate dv [x] ''embedding'') (\<lambda>_.
      bindM (set_tensor dv ''token_ids'') (\<lambda>_.
      bindM (set_if dv (gi_learned_pos_ids ?gi) ''learned_position_ids'') (\<lambda>_.
      bindM (set_if dv (gi_rope_pos_ids ?gi) ''rope_position_ids'') (\<lambda>_.
      bindM (set_if dv (gi_type_ids ?gi) ''type_ids'') (\<lambda>_. compute_graph dv ''embedding'')))))" for x
  have q: "quiet (quiet_part x)" for x unfolding quiet_part_def by (intro quietly)
  obtain v s1 rows where s1: "new_graph_context dv s = (Inr v, s1)"
    "with_lease advice ''token'' rows True (embedding_body g dv m b packed) s1 = (Inr u, t)"
    using assms(1) by (auto simp: embedding_phase_def bindM_Inr_iff liftM_Inr_iff)
  obtain c t1 where body: "embedding_body g dv m b packed (s1\<lparr>ss_residency := c\<rparr>) = (Inr u, t1)"
    "ss_slots t = ss_slots t1" "ss_out t = ss_out t1"
    using with_lease_Inr [OF s1(2)] by blast
  obtain x s2 s3 w where x: "arch_embedding_phase g ?a ?gi = Inr x" "quiet_part x (s1\<lparr>ss_residency := c\<rparr>) = (Inr (), s2)"
    "download g dv (entry_slot m) x s2 = (Inr w, s3)" "count_slot_copy (entry_slot m) s3 = (Inr u, t1)"
    using body(1) unfolding embedding_body_def Let_def quiet_part_def bindM_Inr_iff liftM_Inr_iff by auto
  have "ss_out s2 = ss_out s" using quietD [OF q x(2)] quietD [OF quiet_ops(5) s1(1)] by simp
  moreover have "stored dv (ss_slots s3) (entry_slot m) = Some x" "ss_out s3 = ss_out s2"
    using download_Inr [OF x(3) assms(2)] by simp_all
  moreover have "ss_slots t1 = ss_slots s3 \<and> ss_out t1 = ss_out s3" using quietD [OF quiet_ops(4) x(4)] .
  ultimately show ?thesis using x(1) body(2,3) by auto
qed

text \<open>Pooling, as \<open>build_graph\<close> ends.\<close>

definition eager_pool :: "'t ggml \<Rightarrow> 't device \<Rightarrow> pool_type \<Rightarrow> bool \<Rightarrow> materialized_batch \<Rightarrow> 't \<Rightarrow> forward_error + 't" where
  "eager_pool g dv pooling packed b x =
     (if packed then build_packed_pool g x pooling (Some (offsets b)) (Some (lengths b)) (int (batch_size b))
      else build_pool_with g x pooling (pool_inputs_of dv pooling b))"

lemma build_graph_parts:
  "build_graph g dv a pooling nz layout b =
     bindE (map_sum ArchFailed (\<lambda>x. x) (arch_build_graph g a (eager_inputs dv (arch_inputs a) layout b))) (\<lambda>x.
     bindE (map_sum PoolFailed (\<lambda>x. x) (eager_pool g dv pooling (packs (arch_inputs a) layout b) b x)) (\<lambda>out.
     Inr (normalized g nz out)))"
  by (simp add: build_graph_def eager_inputs_def eager_pool_def Let_def)

lemma final_phase_Inr:
  assumes "final_phase g dv m cfg b packed n s = (Inr floats, t)"
  shows "\<exists>x out. stored dv (ss_slots s) (exit_slot m) = Some x
    \<and> eager_pool g dv (ec_pooling cfg) packed b (arch_final_phase g (em_arch (sm_embedder m)) x) = Inr out
    \<and> floats = dv_read dv (normalized g (ec_normalize cfg) out) n \<and> ss_out t = ss_out s"
proof -
  define pool :: "'a pool_inputs" where "pool = (if packed then \<lparr>pi_valid_mask = None, pi_mean_scale = None, pi_last_indices = None\<rparr>
    else pool_inputs_of dv (ec_pooling cfg) b)"
  define quiet_part where "quiet_part out = bindM (allocate dv [out] ''final'') (\<lambda>_.
      bindM (set_tensor dv ''final_activation'') (\<lambda>_.
      bindM (count_slot_copy (exit_slot m)) (\<lambda>_.
      bindM (set_if dv (pi_valid_mask pool) ''pool_valid_mask'') (\<lambda>_.
      bindM (set_if dv (pi_mean_scale pool) ''pool_mean_scale'') (\<lambda>_.
      bindM (set_if dv (pi_last_indices pool) ''pool_last_indices'') (\<lambda>_.
      bindM (compute_graph dv ''final'') (\<lambda>_.
      bindM (add_copied (word_of_nat (n * 4))) (\<lambda>_. retM (dv_read dv out n)))))))))" for out
  have q: "quiet (quiet_part out)" for out unfolding quiet_part_def by (intro quietly)
  have pooled: "(if packed then build_packed_pool g x (ec_pooling cfg) (Some (offsets b)) (Some (lengths b)) (int (batch_size b))
      else build_pool_with g x (ec_pooling cfg) pool) = eager_pool g dv (ec_pooling cfg) packed b x" for x
    by (simp add: eager_pool_def pool_def)
  obtain v s1 x out where r: "new_graph_context dv s = (Inr v, s1)" "stored dv (ss_slots s1) (exit_slot m) = Some x"
    "eager_pool g dv (ec_pooling cfg) packed b (arch_final_phase g (em_arch (sm_embedder m)) x) = Inr out"
    "quiet_part (normalized g (ec_normalize cfg) out) s1 = (Inr floats, t)"
    using assms unfolding final_phase_def Let_def pool_def [symmetric] quiet_part_def [symmetric] bindM_Inr_iff
      create_input_Inr liftM_Inr_iff pooled by auto
  have "floats = dv_read dv (normalized g (ec_normalize cfg) out) n"
    using r(4) unfolding quiet_part_def bindM_Inr_iff by auto
  then show ?thesis using r(2,3) quietD [OF q r(4)] quietD [OF quiet_ops(5) r(1)] by auto
qed

subsection \<open>A sub-batch\<close>

lemma resolved_slots:
  assumes "model_resolved g m" and "0 < ap_n_layer (em_params (sm_embedder m))"
  shows "entry_slot m = slot_of (sm_slot_names m) ''x''" and "exit_slot m = slot_of (sm_slot_names m) ''x''"
proof -
  let ?a = "em_arch (sm_embedder m)" and ?n = "nat (ap_n_layer (em_params (sm_embedder m)))"
  obtain plans where plans: "mapE (\<lambda>l. arch_streaming_units g ?a (int l)) [0 ..< ?n] = Inr plans"
    "list_all2 (layer_resolved (sm_slot_names m)) plans (sm_layers m)"
    using assms(1) by (auto simp: model_resolved_def)
  have x: "rl_input_slot layer = slot_of (sm_slot_names m) ''x'' \<and> rl_output_slot layer = slot_of (sm_slot_names m) ''x''"
    if mem: "layer \<in> set (sm_layers m)" for layer
  proof -
    obtain plan where plan: "plan \<in> set plans" "layer_resolved (sm_slot_names m) plan layer"
      using list_all2_right [OF plans(2) mem] by blast
    then obtain l where l: "arch_streaming_units g ?a (int l) = Inr plan" using mapE_Inr_from [OF plans(1)] by blast
    have "0 \<le> int l \<and> int l < ap_n_layer (arch_params_of ?a)" using model.units_outside [of "int l" ?a g] l by force
    then have "lp_output_slot plan = ''x''" using model.units_inside [of "int l" ?a g] l by auto
    then show ?thesis using plan(2) by (simp add: layer_resolved_def)
  qed
  have "length (sm_layers m) = ?n" using plans mapE_length list_all2_lengthD by fastforce
  then have "sm_layers m \<noteq> []" using assms(2) by auto
  then show "entry_slot m = slot_of (sm_slot_names m) ''x''" "exit_slot m = slot_of (sm_slot_names m) ''x''"
    using x by (simp_all add: entry_slot_def exit_slot_def)
qed

lemma stream_subbatch_Inr:
  assumes run: "stream_subbatch g dv advice m cfg plan j s = (Inr u, t)" and "slots_faithful g dv"
    and res: "model_resolved g m" and n: "0 < ap_n_layer (em_params (sm_embedder m))"
  shows "\<exists>b v. sub_batch (sm_embedder m) plan j = Inr b
    \<and> build_graph g dv (em_arch (sm_embedder m)) (ec_pooling cfg) (ec_normalize cfg) (ec_batch_layout cfg) b = Inr v
    \<and> ss_out t = scatter_rows (nat (ap_n_embed (em_params (sm_embedder m)))) (original_indices b)
        (dv_read dv v (batch_size b * nat (ap_n_embed (em_params (sm_embedder m))))) (ss_out s)"
proof -
  let ?a = "em_arch (sm_embedder m)" and ?H = "nat (ap_n_embed (em_params (sm_embedder m)))" and ?names = "sm_slot_names m"
  obtain b where b: "sub_batch (sm_embedder m) plan j = Inr b"
    using run by (auto simp: stream_subbatch_def Let_def bindM_Inr_iff liftM_Inr_iff)
  define per_sentence packed where
    flags: "per_sentence \<longleftrightarrow> padded b \<and> ec_batch_layout cfg \<noteq> LayoutPadded \<and> consumes_seq_lengths (arch_inputs ?a)"
      "packed \<longleftrightarrow> per_sentence \<and> consumes_packed_batch (arch_inputs ?a)"
  have layouts: "batch_layouts m cfg b = (per_sentence, packed)" by (simp add: batch_layouts_def flags Let_def)
  define s0 where "s0 = s\<lparr>ss_slots := invalidate_all (ss_slots s)\<rparr>"
  obtain s1 s2 s3 floats where
    r: "embedding_phase g dv advice m b packed s0 = (Inr (), s1)"
      "forM (sm_layers m) (\<lambda>layer. forM (rl_groups layer) (group_phase g dv advice b packed per_sentence)) s1 = (Inr (), s2)"
      "final_phase g dv m cfg b packed (?H * batch_size b) s2 = (Inr floats, s3)"
      "ss_out t = scatter_rows ?H (original_indices b) floats (ss_out s3)"
    using run by (auto simp: stream_subbatch_def Let_def bindM_Inr_iff liftM_Inr_iff b layouts s0_def)
  have packs: "packed \<longleftrightarrow> packs (arch_inputs ?a) (ec_batch_layout cfg) b" by (auto simp: packs_def flags)
  note slots = resolved_slots [OF res n]
  obtain x where x: "arch_embedding_phase g ?a (eager_inputs dv (arch_inputs ?a) (ec_batch_layout cfg) b) = Inr x"
    "stored dv (ss_slots s1) (slot_of ?names ''x'') = Some x" "ss_out s1 = ss_out s"
    using embedding_phase_Inr [OF r(1) assms(2)] by (auto simp: embedding_inputs_same [OF packs] slots s0_def)
  obtain plans where plans: "mapE (\<lambda>l. arch_streaming_units g ?a (int l)) [0 ..< nat (ap_n_layer (em_params (sm_embedder m)))] = Inr plans"
    "list_all2 (layer_resolved ?names) plans (sm_layers m)" "names_ok ?names"
    using res by (auto simp: model_resolved_def)
  from layers_step [OF plans(1,2,3) assms(2) r(2) flags x(2)]
  obtain y where y: "foldE (\<lambda>l. arch_block g ?a (eager_inputs dv (arch_inputs ?a) (ec_batch_layout cfg) b) (int l))
      [0 ..< nat (ap_n_layer (em_params (sm_embedder m)))] x = Inr y"
    "stored dv (ss_slots s2) (slot_of ?names ''x'') = Some y" "ss_out s2 = ss_out s1" by blast
  obtain out where out: "eager_pool g dv (ec_pooling cfg) packed b (arch_final_phase g ?a y) = Inr out"
    "floats = dv_read dv (normalized g (ec_normalize cfg) out) (?H * batch_size b)" "ss_out s3 = ss_out s2"
    using final_phase_Inr [OF r(3)] y(2) by (auto simp: slots)
  have "arch_build_graph g ?a (eager_inputs dv (arch_inputs ?a) (ec_batch_layout cfg) b) = Inr (arch_final_phase g ?a y)"
    using x(1) y(1) by (simp add: arch_build_graph_phases em_params_def)
  then have "build_graph g dv ?a (ec_pooling cfg) (ec_normalize cfg) (ec_batch_layout cfg) b = Inr (normalized g (ec_normalize cfg) out)"
    using out(1) by (simp add: build_graph_parts flip: packs)
  then show ?thesis using b r(4) out(2,3) x(3) y(3) by (auto simp: mult.commute)
qed

lemma rethrow_Inr: "catchM m (\<lambda>e. bindM (f e) (\<lambda>_. throwM e)) s = (Inr x, t) \<longleftrightarrow> m s = (Inr x, t)"
proof (cases "m s")
  case (Pair r u)
  have "bindM (f e) (\<lambda>_. throwM e) u \<noteq> (Inr x, t)" for e by (simp add: bindM_Inr_iff)
  with Pair show ?thesis by (cases r) (simp_all add: catchM_def)
qed

lemma stream_embed_batch_fills:
  assumes "stream_embed_batch g dv hw advice m cfg texts False s = (Inr u, t)" and "texts \<noteq> []"
    and "slots_faithful g dv" and "reads_whole dv" and "model_resolved g m" and "0 < ap_n_layer (em_params (sm_embedder m))"
    and "length (ss_out s) = length texts * nat (ap_n_embed (em_params (sm_embedder m)))"
  shows "\<exists>plan. make_plan (sm_embedder m) cfg texts = Inr plan \<and> holds_rows g dv (sm_embedder m) cfg plan (ss_out t)
    \<and> length (ss_out t) = length (ss_out s)"
proof -
  define s1 where "s1 = s\<lparr>ss_threads := resolve_n_threads hw (ec_n_threads cfg),
    ss_slots := resize_slots (length (sm_slot_names m)) (ss_slots s)\<rparr>"
  obtain plan where plan: "make_plan (sm_embedder m) cfg texts = Inr plan"
    and run: "forM [0 ..< subbatch_count plan] (stream_subbatch g dv advice m cfg plan) s1 = (Inr (), t)"
    using assms(1,2) by (auto simp: stream_embed_batch_def Let_def bindM_Inr_iff liftM_Inr_iff rethrow_Inr s1_def)
  have "length (ss_out t) = length texts * nat (ap_n_embed (em_params (sm_embedder m)))
      \<and> holds_rows g dv (sm_embedder m) cfg plan (ss_out t)"
    by (rule scatter_all [OF plan assms(4) refl stream_subbatch_Inr [OF _ assms(3,5,6)] run]) (use assms(7) in \<open>simp_all add: s1_def\<close>)
  then show ?thesis using plan assms(7) by auto
qed

lemma streamed_output:
  assumes "create_streaming g em infos mapped page env advice = Inr (m, c)"
    and "stream_embed_batch g dv hw advice' m cfg texts False s = (Inr (), t)"
    and "embed_batch g dv hw' em cfg texts False s2 = (Inr (), t2)"
    and "slots_faithful g dv" and "reads_whole dv" and "0 < ap_n_layer (em_params em)" and "texts \<noteq> []"
    and "length (ss_out s) = length texts * nat (ap_n_embed (em_params em))" and "length (out_buf s2) = length (ss_out s)"
  shows "ss_out t = out_buf t2"
proof -
  note m = created_model [OF assms(1)]
  obtain plan where plan: "make_plan em cfg texts = Inr plan" "holds_rows g dv em cfg plan (ss_out t)" "length (ss_out t) = length (ss_out s)"
    using stream_embed_batch_fills [OF assms(2,7,4,5) m(1)] m(2) assms(6,8) by auto
  moreover obtain plan' where "make_plan em cfg texts = Inr plan'" "holds_rows g dv em cfg plan' (out_buf t2)"
    "length (out_buf t2) = length (out_buf s2)"
    using embed_batch_fills [OF assms(3,5,7)] assms(8,9) by auto
  ultimately show ?thesis
    using rows_determine_output [OF plan(1) refl plan(2)] assms(8,9) by auto
qed

text \<open>
  C2: streaming computes what eager execution computes. When a streaming model was created for an
  embedder and both runners return for the same texts and settings, the streaming output equals the
  eager one, bit for bit: whatever the partition preset, the number of sub-batches, the padding
  layout, the pooling and the family, and whatever the slots held before. The tensor library is
  arbitrary; of the device it is only used that a download fills its buffer and that a tensor
  downloaded and uploaded again is the same.
\<close>

theorem streaming_equals_eager:
  assumes "create_streaming g em infos mapped page env advice = Inr (m, c)"
    and "stream_embed_batch g dv hw advice' m cfg texts False s = (Inr (), t)"
    and "embed_batch g dv hw' em cfg texts False s2 = (Inr (), t2)"
    and "slots_faithful g dv" and "reads_whole dv" and "0 < ap_n_layer (em_params em)" and "texts \<noteq> []"
    and "length (ss_out s) = length texts * nat (ap_n_embed (em_params em))" and "length (out_buf s2) = length (ss_out s)"
  shows "ss_out t = out_buf t2"
  using assms by (rule streamed_output)

end
