(* ===== verification/StreamSafety.thy ===== *)
theory StreamSafety
  imports StreamFacts
begin

text \<open>
  What holds of the streaming runner however a call ends: the lease of every graph is given back, also
  when the graph, its inputs, the advice or the release fail, so between calls only the common weights
  are resident; and a call that fails after planning leaves no row that could be mistaken for a result.
\<close>

subsection \<open>The ranges a model leases\<close>

definition leases_planned :: "'t stream_model \<Rightarrow> bool" where
  "leases_planned m \<longleftrightarrow> (\<forall>layer\<in>set (sm_layers m). \<forall>gr\<in>set (rl_groups layer).
     \<exists>raw. page_align_and_coalesce raw (sm_mapped_size m) (sm_page_size m) = Inr (gr_ranges gr))"

lemma make_groups_ranges:
  assumes "make_groups key mapped page units runs exchanged = Inr groups" and "gr \<in> set groups"
  shows "\<exists>raw. page_align_and_coalesce raw mapped page = Inr (gr_ranges gr)"
proof -
  obtain members gs where "make_group key mapped page members gs = Inr gr"
    using mapE_Inr_from [OF assms(1) [unfolded make_groups_def] assms(2)] by (auto split: prod.splits)
  then obtain ranges where "page_align_and_coalesce (concat (map ru_raw_ranges members)) mapped page = Inr ranges" "gr_ranges gr = ranges"
    unfolding make_group_def Let_def bindE_Inr_iff
    by (cases "page_align_and_coalesce (concat (map ru_raw_ranges members)) mapped page") auto
  then show ?thesis by blast
qed

lemma resolve_layer_ranges:
  assumes "resolve_layer g a infos mapped page preset l previous s = (Inr (layer, rs, out), t)" and "gr \<in> set (rl_groups layer)"
  shows "\<exists>raw. page_align_and_coalesce raw mapped page = Inr (gr_ranges gr)"
proof -
  obtain units runs exchanged groups where
    "make_groups (''layer:'' @ nat_digits l) mapped page units runs exchanged = Inr groups" "rl_groups layer = groups"
    using assms(1) unfolding resolve_layer_def Let_def bindM_Inr_iff liftM_Inr_iff
    by (clarsimp simp: bindM_Inr_iff liftM_Inr_iff simp del: nat_digits.simps split: if_split_asm)
  then show ?thesis using make_groups_ranges assms(2) by blast
qed

lemma resolve_layers_ranges:
  "resolve_layers g a infos mapped page preset ls previous s = (Inr layers, t) \<Longrightarrow> layer \<in> set (map fst layers) \<Longrightarrow>
   gr \<in> set (rl_groups layer) \<Longrightarrow> \<exists>raw. page_align_and_coalesce raw mapped page = Inr (gr_ranges gr)"
proof (induction ls arbitrary: previous s layers)
  case (Cons l ls)
  then obtain l0 rs out s1 rest where
    run: "resolve_layer g a infos mapped page preset l previous s = (Inr (l0, rs, out), s1)"
      "resolve_layers g a infos mapped page preset ls (Some out) s1 = (Inr rest, t)" "layers = (l0, rs) # rest"
    by (auto simp: bindM_Inr_iff)
  then show ?case using Cons.IH [OF run(2)] Cons.prems(2,3) resolve_layer_ranges [OF run(1)] by auto
qed simp

lemma resolve_model_planned:
  assumes "resolve_model g em infos mapped page env s = (Inr (m, ranges), t)"
  shows "leases_planned m"
proof -
  obtain preset layers s2 s3 where
    "resolve_layers g (em_arch em) infos mapped page preset [0 ..< nat (ap_n_layer (arch_params_of (em_arch em)))] None s2 = (Inr layers, s3)"
    "sm_layers m = map fst layers" "sm_mapped_size m = mapped" "sm_page_size m = page"
    using assms unfolding resolve_model_def Let_def by (auto simp: bindM_Inr_iff liftM_Inr_iff split: if_splits)
  then show ?thesis unfolding leases_planned_def using resolve_layers_ranges by metis
qed

text \<open>The coordinator a new model starts with.\<close>

lemma mapped_Inr: "map_sum f (\<lambda>x. x) r = Inr x \<longleftrightarrow> r = Inr x"
  by (cases r) simp_all

lemma ran_Inr: "(case p of (Inl e, c') \<Rightarrow> Inl (f e) | (Inr u, c') \<Rightarrow> Inr c') = Inr c \<longleftrightarrow> (\<exists>u. p = (Inr u, c))"
  by (auto split: prod.splits sum.splits)

lemma start_residency_inv:
  assumes "start_residency advice m layer_ranges = Inr c"
    and "\<exists>raw. page_align_and_coalesce raw (sm_mapped_size m) (sm_page_size m) = Inr (sm_common_ranges m)"
  shows "coordinator_inv (sm_mapped_size m) (sm_page_size m) c" and "active c = []"
proof -
  let ?m = "sm_mapped_size m" and ?p = "sm_page_size m"
  obtain c0 token c1 where c0: "new_coordinator ?m ?p (Some advice) = Inr c0"
    and token: "page_align_and_coalesce [range_of (sm_token m)] ?m ?p = Inr token"
    and c1: "set_classification (sm_common_ranges m) token layer_ranges c0 = (Inr (), c1)"
    and c: "retain_common advice (sm_common_ranges m) c1 = (Inr (), c)"
    using assms(1) unfolding start_residency_def bindE_Inr_iff mapped_Inr ran_Inr by (auto simp: bindM_Inr_iff)
  have geometry: "planner_geometry (?m, ?p)" by (rule planned_if_page_align(1) [OF token])
  have "coordinator_inv ?m ?p c0"
    using initial_inv [OF c0 geometry] by (simp add: program_inv_def)
  moreover note f = set_classification_frame [OF c1]
  ultimately have c1_inv: "coordinator_inv ?m ?p c1" using coordinator_inv_cong by blast
  have "active c0 = []" using c0 by (auto simp: new_coordinator_def)
  then have "active c1 = []" using f by (simp add: books_defs)
  have "mapping_size c1 = ?m \<and> page_size c1 = ?p" using c1_inv by (simp add: coordinator_inv_def ranges_inv_def)
  then obtain raw where "page_align_and_coalesce raw (mapping_size c1) (page_size c1) = Inr (sm_common_ranges m)"
    using assms(2) by auto
  from retain_common_inv [OF c1_inv this c] \<open>active c1 = []\<close>
  show "coordinator_inv ?m ?p c" "active c = []" by simp_all
qed

lemma create_streaming_inv:
  assumes "create_streaming g em infos mapped page env advice = Inr (m, c)"
  shows "coordinator_inv mapped page c" and "active c = []" and "leases_planned m"
    and "sm_mapped_size m = mapped" and "sm_page_size m = page"
proof -
  obtain ranges t where r: "resolve_model g em infos mapped page env \<lparr>slot_names = [], owner = []\<rparr> = (Inr (m, ranges), t)"
    "start_residency advice m ranges = Inr c"
    using create_streaming_Inr [OF assms] by blast
  show "sm_mapped_size m = mapped" "sm_page_size m = page" using resolve_model_Inr [OF r(1)] by simp_all
  have "\<exists>raw. page_align_and_coalesce raw mapped page = Inr (sm_common_ranges m)"
    using r(1) unfolding resolve_model_def Let_def by (auto simp: bindM_Inr_iff liftM_Inr_iff split: if_splits)
  with start_residency_inv [OF r(2)] \<open>sm_mapped_size m = mapped\<close> \<open>sm_page_size m = page\<close>
  show "coordinator_inv mapped page c" "active c = []" by simp_all
  show "leases_planned m" by (rule resolve_model_planned [OF r(1)])
qed

subsection \<open>A lease is always given back\<close>

text \<open>The coordinator between graphs: its invariant holds, with these leases and retained ranges.\<close>

definition balanced :: "u64 \<Rightarrow> u64 \<Rightarrow> (nat \<times> active_lease) list \<Rightarrow> byte_range list \<Rightarrow> stream_state \<Rightarrow> bool" where
  "balanced mapped page leases kept s \<longleftrightarrow> coordinator_inv mapped page (ss_residency s)
     \<and> active (ss_residency s) = leases \<and> common (ss_residency s) = kept"

lemma finished_lease:
  assumes inv: "coordinator_inv m p c" and act: "active c = leases @ [(lease_id l, a)]" and key: "al_key a = lease_key l"
    and "lease_id l \<notin> fst ` set leases" and "owned l" and "compute_complete l"
    and run: "lease_release advice l c = ((res, c'), l')"
  shows "coordinator_inv m p c'" and "active c' = leases" and "common c' = common c" and "\<not> owned l'"
proof -
  have r: "release_lease advice (lease_id l) (lease_key l) True c = (res, c')" "l' = l\<lparr>owned := False\<rparr>"
    using run assms(5,6) by (simp_all add: lease_release_def)
  have match: "al_key b = lease_key l" if "(lease_id l, b) \<in> set (active c)" for b
    using that act key assms(4) by force
  have removed: "filter (\<lambda>(i, _). i \<noteq> lease_id l) (active c) = leases"
    using act assms(4) by (force simp: filter_id_conv)
  have "coordinator_inv m p c' \<and> active c' = leases \<and> common c' = common c"
    using inv r(1) match by (rule release_cases) (use act removed in auto)
  then show "coordinator_inv m p c'" "active c' = leases" "common c' = common c" by simp_all
  show "\<not> owned l'" by (simp add: r(2))
qed

text \<open>Bodies that do not touch the coordinator.\<close>

definition off_residency :: "'a run \<Rightarrow> bool" where
  "off_residency m \<longleftrightarrow> (\<forall>s. ss_residency (snd (m s)) = ss_residency s)"

lemma with_lease_balanced:
  assumes planned: "page_align_and_coalesce raw mapped page = Inr ranges" and body: "off_residency body"
  shows "keeps (balanced mapped page leases kept) (with_lease advice key ranges token_rows body)"
  unfolding keeps_def
proof (intro allI impI)
  fix s assume s: "balanced mapped page leases kept s"
  let ?c = "ss_residency s"
  have inv: "coordinator_inv mapped page ?c" "active ?c = leases" "common ?c = kept" using s by (simp_all add: balanced_def)
  obtain res c1 where acq: "acquire advice key ranges token_rows ?c = (res, c1)" by (cases "acquire advice key ranges token_rows ?c")
  note cases = acquire_cases [OF inv(1) planned_if_page_align(2,3) [OF planned] acq]
  show "balanced mapped page leases kept (snd (with_lease advice key ranges token_rows body s))"
  proof (cases res)
    case (Inl e)
    have "coordinator_inv mapped page c1 \<and> active c1 = leases \<and> common c1 = kept"
      by (rule cases) (use inv in \<open>simp_all add: Inl books_defs\<close>)
    then show ?thesis using acq Inl by (simp add: with_lease_def on_residency_def bindM_def balanced_def)
  next
    case (Inr l)
    have l: "l = \<lparr>owned = True, lease_id = next_id ?c, lease_key = key, lease_token_rows = token_rows, compute_complete = False\<rparr>
      \<and> coordinator_inv mapped page c1 \<and> active c1 = leases @ [(next_id ?c, \<lparr>al_key = key, al_ranges = ranges\<rparr>)] \<and> common c1 = kept"
      by (rule cases) (simp_all add: Inr inv(2,3))
    have fresh: "next_id ?c \<notin> fst ` set leases" using inv(1,2) by (force simp: coordinator_inv_def ids_inv_def)
    define ll where "ll = mark_compute_complete l"
    have done_lease: "coordinator_inv mapped page c2 \<and> active c2 = leases \<and> common c2 = kept \<and> \<not> owned l2"
      if "lease_release advice ll c1 = ((r, c2), l2)" for r c2 l2
      using finished_lease [of mapped page c1 leases ll "\<lparr>al_key = key, al_ranges = ranges\<rparr>", OF _ _ _ _ _ _ that] l fresh
      by (simp add: ll_def mark_compute_complete_def)
    obtain r t where run: "body (s\<lparr>ss_residency := c1\<rparr>) = (r, t)" by (cases "body (s\<lparr>ss_residency := c1\<rparr>)")
    have t: "ss_residency t = c1" 
      using body [unfolded off_residency_def, rule_format, of "s\<lparr>ss_residency := c1\<rparr>"] run by simp
    obtain r2 c2 l2 where rel: "lease_release advice ll c1 = ((r2, c2), l2)" by (metis surj_pair)
    note d = done_lease [OF rel]
    have gone: "lease_destroy advice (mark_compute_complete l2) c2 = c2"
      using d by (simp add: lease_destroy_def lease_release_def mark_compute_complete_def)
    have "with_lease advice key ranges token_rows body s = holding advice l body (s\<lparr>ss_residency := c1\<rparr>)"
      using acq Inr by (simp add: with_lease_def on_residency_def bindM_def)
    moreover have "ss_residency (snd (holding advice l body (s\<lparr>ss_residency := c1\<rparr>))) = c2"
    proof (cases r)
      case (Inl e)
      then show ?thesis using run t rel by (simp add: holding_def lease_destroy_def flip: ll_def)
    next
      case (Inr x)
      then show ?thesis using run t rel gone by (cases r2) (simp_all add: holding_def flip: ll_def)
    qed
    ultimately show ?thesis using d by (simp add: balanced_def)
  qed
qed

text \<open>The rest of the runner does not touch the coordinator.\<close>

named_theorems unleased

lemma off_bindM [unleased]: "off_residency m \<Longrightarrow> (\<And>x. off_residency (f x)) \<Longrightarrow> off_residency (bindM m f)"
  unfolding off_residency_def bindM_def by (auto split: prod.split sum.split) (metis snd_conv)+

lemma off_simple [unleased]:
  "off_residency (retM x)" "off_residency (throwM e)" "off_residency (getM f)" "off_residency (liftM c r)"
  "off_residency (needM ok e)"
  by (simp_all add: off_residency_def liftM_def needM_def)

lemma off_forM [unleased]: "(\<And>x. off_residency (f x)) \<Longrightarrow> off_residency (forM xs f)"
  by (induction xs) (auto intro: unleased)

lemma off_mapM [unleased]: "(\<And>x. off_residency (f x)) \<Longrightarrow> off_residency (mapM f xs)"
  by (induction xs) (auto intro: unleased)

lemma off_modifyM: "(\<And>s. ss_residency (f s) = ss_residency s) \<Longrightarrow> off_residency (modifyM f)"
  by (simp add: off_residency_def)

lemma off_slots [unleased]:
  "off_residency (entry_at sid)" "off_residency (download g dv sid t)" "off_residency (create_input dv sid)"
  "off_residency (add_copied n)" "off_residency (count_slot_copy sid)"
  unfolding entry_at_def download_def create_input_def add_copied_def count_slot_copy_def slot_nbytes_def
  by (auto intro!: unleased off_modifyM)

lemma off_graphs [unleased]:
  "off_residency (new_graph_context dv)" "off_residency (set_tensor dv x)" "off_residency (set_if dv tensor x)"
  "off_residency (allocate dv outs x)" "off_residency (compute_graph dv x)"
  unfolding new_graph_context_def set_tensor_def set_if_def allocate_def compute_graph_def
  by (auto intro!: unleased off_modifyM)

lemma off_bodies [unleased]:
  "off_residency (run_group g dv gr b packed per_sentence)" "off_residency (embedding_body g dv m b packed)"
  "off_residency (final_phase g dv m cfg b packed n)"
  unfolding run_group_def embedding_body_def final_phase_def Let_def
  by (auto intro!: unleased)

lemma off_balanced: "off_residency m \<Longrightarrow> keeps (balanced mapped page leases kept) m"
  by (simp add: off_residency_def keeps_def balanced_def)

lemmas kept_simple = off_simple [THEN off_balanced] off_graphs [THEN off_balanced] off_bodies [THEN off_balanced]
  off_modifyM [THEN off_balanced]

lemma embedding_phase_balanced:
  "keeps (balanced (sm_mapped_size m) (sm_page_size m) leases kept) (embedding_phase g dv advice m b packed)"
proof -
  have step: "keeps (balanced (sm_mapped_size m) (sm_page_size m) leases kept)
      (bindM (liftM StreamRange r) (\<lambda>rows. with_lease advice ''token'' rows True (embedding_body g dv m b packed)))"
    if planned: "\<And>rows. r = Inr rows \<Longrightarrow> \<exists>raw. page_align_and_coalesce raw (sm_mapped_size m) (sm_page_size m) = Inr rows" for r
  proof (cases r)
    case (Inl e)
    then show ?thesis by (simp add: keeps_def)
  next
    case (Inr rows)
    then obtain raw where "page_align_and_coalesce raw (sm_mapped_size m) (sm_page_size m) = Inr rows" using planned by blast
    from with_lease_balanced [OF this off_bodies(2)] show ?thesis by (simp add: keeps_def Inr)
  qed
  show ?thesis unfolding embedding_phase_def
    by (rule keeps_bindM [OF kept_simple(6)], rule step) (auto simp: token_row_ranges_def Let_def bindE_Inr_iff split: if_splits prod.splits)
qed

lemma group_phase_balanced:
  assumes "\<exists>raw. page_align_and_coalesce raw mapped page = Inr (gr_ranges gr)"
  shows "keeps (balanced mapped page leases kept) (group_phase g dv advice b packed per_sentence gr)"
proof -
  obtain raw where "page_align_and_coalesce raw mapped page = Inr (gr_ranges gr)" using assms ..
  from with_lease_balanced [OF this off_bodies(1)] show ?thesis
    unfolding group_phase_def by (intro keeps_bindM kept_simple)
qed

lemma keeps_forM_in: "(\<And>x. x \<in> set xs \<Longrightarrow> keeps I (f x)) \<Longrightarrow> keeps I (forM xs f)"
  by (induction xs) (auto simp: keeps_def [of I "retM ()"] intro: keeps_bindM)

lemma stream_subbatch_balanced:
  assumes "leases_planned m"
  shows "keeps (balanced (sm_mapped_size m) (sm_page_size m) leases kept) (stream_subbatch g dv advice m cfg plan j)"
proof -
  let ?I = "balanced (sm_mapped_size m) (sm_page_size m) leases kept"
  have layers: "keeps ?I (forM (sm_layers m) (\<lambda>layer. forM (rl_groups layer) (group_phase g dv advice b packed per_sentence)))"
    for b packed per_sentence
    using assms unfolding leases_planned_def by (intro keeps_forM_in group_phase_balanced) blast
  show ?thesis unfolding stream_subbatch_def Let_def
    by (auto intro!: keeps_bindM layers embedding_phase_balanced kept_simple split: prod.split)
qed

lemma keeps_catchM: "keeps I m \<Longrightarrow> (\<And>e. keeps I (h e)) \<Longrightarrow> keeps I (catchM m h)"
  unfolding keeps_def catchM_def by (auto split: prod.split sum.split)

lemma stream_embed_batch_balanced:
  assumes "leases_planned m"
  shows "keeps (balanced (sm_mapped_size m) (sm_page_size m) leases kept) (stream_embed_batch g dv hw advice m cfg texts out_null)"
proof -
  show ?thesis unfolding stream_embed_batch_def Let_def
    by (auto intro!: keeps_bindM keeps_catchM keeps_forM stream_subbatch_balanced [OF assms] kept_simple simp: poison_output_def)
qed

subsection \<open>Between calls\<close>

text \<open>What the bookkeeping says when no lease is active.\<close>

lemma idle_coordinator:
  assumes "coordinator_inv m p c" and "active c = []"
  shows "leases_acquired (diag c) = leases_released (diag c)" and "active_leases (diag c) = 0"
    and "cover (common c) \<subseteq> resident (advice_log c)"
    and "no_failed_advice c \<Longrightarrow> resident (advice_log c) = cover (common c)"
proof -
  have inv: "resident_inv c" "pending_inv c" "counts_inv c" using assms(1) by (simp_all add: coordinator_inv_def)
  show "leases_acquired (diag c) = leases_released (diag c)" "active_leases (diag c) = 0"
    using inv(3) assms(2) by (simp_all add: counts_inv_def)
  show common: "cover (common c) \<subseteq> resident (advice_log c)"
    using inv(1) by (auto simp: resident_inv_def protected_def)
  have "rg_pending (region_at c key) = []" for key
    using inv(2,3) assms(2) by (simp add: pending_inv_def counts_inv_def key_count_def)
  then have "pending_cover c = {}" by (simp add: pending_cover_def)
  then show "resident (advice_log c) = cover (common c)" if "no_failed_advice c"
    using inv(1) that common by (auto simp: resident_inv_def)
qed

text \<open>A sequence of calls with one context, whatever each of them does.\<close>

fun serve ::
  "'t ggml \<Rightarrow> 't device \<Rightarrow> u32 \<Rightarrow> advice_function \<Rightarrow> 't stream_model \<Rightarrow> (embedder_config \<times> string list \<times> bool) list
    \<Rightarrow> stream_state \<Rightarrow> stream_state" where
  "serve g dv hw advice m [] s = s"
| "serve g dv hw advice m ((cfg, texts, out_null) # rs) s =
     serve g dv hw advice m rs (snd (stream_embed_batch g dv hw advice m cfg texts out_null s))"

lemma serve_balanced:
  assumes "leases_planned m" and "balanced (sm_mapped_size m) (sm_page_size m) leases kept s"
  shows "balanced (sm_mapped_size m) (sm_page_size m) leases kept (serve g dv hw advice m requests s)"
  using assms(2)
proof (induction requests arbitrary: s)
  case (Cons r rs)
  obtain cfg texts out_null where r: "r = (cfg, texts, out_null)" by (cases r)
  have "balanced (sm_mapped_size m) (sm_page_size m) leases kept (snd (stream_embed_batch g dv hw advice m cfg texts out_null s))"
    using stream_embed_batch_balanced [OF assms(1)] Cons.prems by (simp add: keeps_def)
  from Cons.IH [OF this] show ?case by (simp add: r)
qed simp

text \<open>
  C4: between calls only the common weights stay. Start from the coordinator of a freshly created
  streaming model and serve any calls, in any state of the context, whatever the device, the advice
  and the graphs do, failures included: afterwards no lease is active, every lease acquired was
  released, the common weights are still resident and still the retained ones, and, when no advice
  call failed, nothing else of the file is.
\<close>

theorem streaming_leaves_common_only:
  assumes "create_streaming g em infos mapped page env advice = Inr (m, c)" and "ss_residency s = c"
    and "r = ss_residency (serve g dv hw advice' m requests s)"
  shows "active r = [] \<and> leases_acquired (diag r) = leases_released (diag r) \<and> common r = common c
    \<and> cover (common c) \<subseteq> resident (advice_log r)
    \<and> (no_failed_advice r \<longrightarrow> resident (advice_log r) = cover (common c))"
proof -
  note new = create_streaming_inv [OF assms(1)]
  have "balanced (sm_mapped_size m) (sm_page_size m) [] (common c) s"
    using new assms(2) by (simp add: balanced_def)
  from serve_balanced [OF new(3) this] have "coordinator_inv mapped page r" "active r = []" "common r = common c"
    by (simp_all add: balanced_def assms(3) new(4,5))
  with idle_coordinator [of mapped page r] show ?thesis by auto
qed

subsection \<open>Failures\<close>

text \<open>
  C5: how a call ends. A null output is refused and a batch that cannot be planned reports the
  planner's error, both without any effect; no texts is no effect; any later failure, in whatever
  graph, lease or allocation, leaves every one of the promised floats a NaN, so no row of an earlier
  sub-batch can be taken for a result.
\<close>

theorem streaming_failure_poisons:
  "case stream_embed_batch g dv hw advice m cfg texts out_null s of
     (Inr _, t) \<Rightarrow> \<not> out_null \<and> (if texts = [] then t = s else \<not> isl (make_plan (sm_embedder m) cfg texts))
   | (Inl e, t) \<Rightarrow>
       if out_null then e = StreamNullOutput \<and> t = s
       else texts \<noteq> [] \<and>
         (case make_plan (sm_embedder m) cfg texts of
            Inl pe \<Rightarrow> e = StreamBatch pe \<and> t = s
          | Inr plan \<Rightarrow> take (length texts * nat (ap_n_embed (em_params (sm_embedder m)))) (ss_out t)
              = replicate (length texts * nat (ap_n_embed (em_params (sm_embedder m)))) quiet_NaN \<and> f32_isnan quiet_NaN)"
proof -
  have nan: "f32_isnan quiet_NaN" by (simp add: f32_isnan_def f32_exponent_def f32_mantissa_def quiet_NaN_def)
  show ?thesis
  proof (cases "out_null \<or> texts = []")
    case True
    then show ?thesis by (auto simp: stream_embed_batch_def Let_def)
  next
    case False
    show ?thesis
    proof (cases "make_plan (sm_embedder m) cfg texts")
      case (Inl pe)
      then show ?thesis using False by (simp add: stream_embed_batch_def Let_def)
    next
      case (Inr plan)
      let ?s = "s\<lparr>ss_threads := resolve_n_threads hw (ec_n_threads cfg), ss_slots := resize_slots (length (sm_slot_names m)) (ss_slots s)\<rparr>"
      obtain r u where run: "forM [0 ..< subbatch_count plan] (stream_subbatch g dv advice m cfg plan) ?s = (r, u)"
        by (cases "forM [0 ..< subbatch_count plan] (stream_subbatch g dv advice m cfg plan) ?s")
      then show ?thesis using False Inr nan
        by (cases r) (simp_all add: stream_embed_batch_def Let_def catchM_def poison_output_def put_def)
    qed
  qed
qed

end
