(* ===== verification/StreamCreate.thy ===== *)
theory StreamCreate
  imports StreamFacts StreamSafety
begin

text \<open>
  When the streaming constructor succeeds: a file that holds exactly the tensors the family plans, each
  within the mapping, is accepted under every valid partition preset. The slots of either family come
  from a fixed set of names, so interning never runs out of identifiers.
\<close>

subsection \<open>The slots of both families\<close>

definition model_slots :: "string list" where
  "model_slots = [''x'', ''xa'', ''xn'', ''x1'', ''q'', ''k'', ''v'', ''h'', ''fn'', ''fh'', ''fd'']"

definition plan_small :: "'t layer_plan \<Rightarrow> bool" where
  "plan_small plan \<longleftrightarrow> length (lp_units plan) \<le> 8 \<and> plan_ok (lp_units plan)
     \<and> lp_input_slot plan = ''x'' \<and> lp_output_slot plan = ''x''
     \<and> (\<forall>u\<in>set (lp_units plan). set (su_inputs u) \<union> set (su_outputs u) \<subseteq> set model_slots)"

lemma units_small:
  assumes "0 \<le> l" and "l < ap_n_layer (arch_params_of a)"
  shows "\<exists>plan. arch_streaming_units g a l = Inr plan \<and> plan_small plan"
proof (cases a)
  case (BertModel m)
  then show ?thesis using assms bert_plan_ok [of g m l]
    by (auto simp: arch_streaming_units_def arch_params_of_def bert_streaming_units_def plan_small_def bert_unit_defs model_slots_def)
next
  case (GemmaModel m)
  then show ?thesis using assms gemma_plan_ok [of g m l]
    by (auto simp: arch_streaming_units_def arch_params_of_def gemma_streaming_units_def plan_small_def gemma_unit_defs model_slots_def)
qed

subsection \<open>Interning and claiming succeed\<close>

definition slots_known :: "plan_state \<Rightarrow> bool" where
  "slots_known s \<longleftrightarrow> names_ok (slot_names s) \<and> set (slot_names s) \<subseteq> set model_slots"

lemma intern_returns:
  assumes "slots_known s" and "n \<in> set model_slots"
  shows "\<exists>sid t. intern n s = (Inr sid, t) \<and> slots_known t \<and> claimed_names t = claimed_names s"
proof -
  have "length (slot_names s) = card (set (slot_names s))"
    using assms(1) by (simp add: slots_known_def names_ok_def distinct_card)
  also have "\<dots> \<le> length model_slots"
    using assms(1) card_mono [OF finite_set, of "set (slot_names s)" model_slots] card_length [of model_slots] unfolding slots_known_def by linarith
  finally have "length (slot_names s) \<le> 11" by (simp add: model_slots_def)
  then have "length (slot_names s) < 65535" by simp
  then have "\<exists>sid t. intern n s = (Inr sid, t) \<and> slot_names t \<in> {slot_names s, slot_names s @ [n]}"
    by (cases "position_of n (slot_names s)") (simp_all add: intern_def kInvalidSlot_value)
  then obtain sid t where t: "intern n s = (Inr sid, t)" "slot_names t \<in> {slot_names s, slot_names s @ [n]}" by blast
  have "names_ok (slot_names t)" "owner t = owner s"
    using intern_Inr [OF t(1)] assms(1) by (simp_all add: slots_known_def)
  then show ?thesis using t assms by (auto simp: slots_known_def claimed_names_def)
qed

lemma intern_all_returns:
  assumes "slots_known s" and "set ns \<subseteq> set model_slots"
  shows "\<exists>sids t. mapM intern ns s = (Inr sids, t) \<and> length sids = length ns \<and> slots_known t \<and> claimed_names t = claimed_names s"
  using assms
proof (induction ns arbitrary: s)
  case (Cons n ns)
  obtain sid s1 where one: "intern n s = (Inr sid, s1)" "slots_known s1" "claimed_names s1 = claimed_names s"
    using intern_returns [OF Cons.prems(1), of n] Cons.prems(2) by auto
  with Cons.IH [OF one(2)] Cons.prems(2) show ?case by (auto simp: bindM_eq)
qed simp

lemma take_all_returns:
  assumes "set ns \<subseteq> set (map ti_name infos)" and "distinct (claimed_names s @ ns)"
  shows "\<exists>is t. mapM (take_tensor infos who) ns s = (Inr is, t) \<and> set is \<subseteq> set infos \<and> length is = length ns
    \<and> slot_names t = slot_names s \<and> claimed_names t = claimed_names s @ ns"
  using assms
proof (induction ns arbitrary: s)
  case (Cons n ns)
  let ?t = "s\<lparr>owner := (n, who) # owner s\<rparr>"
  have "n \<notin> fst ` set (owner s)" using Cons.prems(2) by (auto simp: claimed_names_def)
  moreover obtain i where i: "map_of (map (\<lambda>i. (ti_name i, i)) infos) n = Some i"
    using Cons.prems(1) by (cases "map_of (map (\<lambda>i. (ti_name i, i)) infos) n") (auto simp: map_of_eq_None_iff image_image)
  ultimately have one: "take_tensor infos who n s = (Inr i, ?t)" "i \<in> set infos"
    by (auto simp: take_tensor_def map_of_eq_None_iff [symmetric] dest!: map_of_SomeD)
  have t: "claimed_names ?t = claimed_names s @ [n]" "slot_names ?t = slot_names s" by (simp_all add: claimed_names_def)
  with Cons.IH [of ?t] Cons.prems one show ?case by (auto simp: bindM_eq)
qed simp

subsection \<open>Units and groups\<close>

definition file_fits :: "tensor_info list \<Rightarrow> u64 \<Rightarrow> u64 \<Rightarrow> bool" where
  "file_fits infos mapped page \<longleftrightarrow> mapped \<noteq> 0 \<and> is_power_of_two page \<and> (\<forall>i\<in>set infos. in_file mapped (range_of i))"

lemma file_fits_planned:
  assumes "file_fits infos mapped page" and "set raw \<subseteq> range_of ` set infos"
  shows "\<exists>out. page_align_and_coalesce raw mapped page = Inr out"
  using assms by (auto simp: page_align_total file_fits_def)

lemma resolve_unit_returns:
  assumes "slots_known s" and "set (su_inputs u) \<union> set (su_outputs u) \<subseteq> set model_slots" and "su_outputs u \<noteq> []"
    and "set (su_weights u) \<subseteq> set (map ti_name infos)" and "distinct (claimed_names s @ su_weights u)"
  shows "\<exists>r t. resolve_unit infos key u s = (Inr r, t) \<and> slots_known t \<and> claimed_names t = claimed_names s @ su_weights u
    \<and> set (ru_raw_ranges r) \<subseteq> range_of ` set infos"
proof -
  obtain ins s1 where i: "mapM intern (su_inputs u) s = (Inr ins, s1)" "slots_known s1" "claimed_names s1 = claimed_names s"
    using intern_all_returns [OF assms(1), of "su_inputs u"] assms(2) by auto
  obtain outs s2 where o: "mapM intern (su_outputs u) s1 = (Inr outs, s2)" "length outs = length (su_outputs u)"
    "slots_known s2" "claimed_names s2 = claimed_names s"
    using intern_all_returns [OF i(2), of "su_outputs u"] assms(2) i(3) by auto
  obtain taken t where t: "mapM (take_tensor infos (key @ ''/'' @ su_name u)) (su_weights u) s2 = (Inr taken, t)" "set taken \<subseteq> set infos"
    "slot_names t = slot_names s2" "claimed_names t = claimed_names s @ su_weights u"
    using take_all_returns [OF assms(4), of s2 "key @ ''/'' @ su_name u"] assms(5) o(4) by auto
  have "outs \<noteq> []" using o(2) assms(3) by auto
  then show ?thesis using i(1) o(1,3) t by (auto simp: resolve_unit_def bindM_eq slots_known_def)
qed

lemma resolve_units_returns:
  assumes "slots_known s" and "\<And>u. u \<in> set us \<Longrightarrow> set (su_inputs u) \<union> set (su_outputs u) \<subseteq> set model_slots \<and> su_outputs u \<noteq> []"
    and "set (concat (map su_weights us)) \<subseteq> set (map ti_name infos)"
    and "distinct (claimed_names s @ concat (map su_weights us))"
  shows "\<exists>rs t. mapM (resolve_unit infos key) us s = (Inr rs, t) \<and> slots_known t
    \<and> claimed_names t = claimed_names s @ concat (map su_weights us)
    \<and> set (concat (map ru_raw_ranges rs)) \<subseteq> range_of ` set infos"
  using assms
proof (induction us arbitrary: s)
  case (Cons u us)
  obtain r s1 where one: "resolve_unit infos key u s = (Inr r, s1)" "slots_known s1" "claimed_names s1 = claimed_names s @ su_weights u"
    "set (ru_raw_ranges r) \<subseteq> range_of ` set infos"
    using resolve_unit_returns [OF Cons.prems(1), of u infos key] Cons.prems(2) [of u] Cons.prems(3,4) by (auto simp: inf_sup_distrib1)
  obtain rs t where "mapM (resolve_unit infos key) us s1 = (Inr rs, t)" "slots_known t"
    "claimed_names t = claimed_names s1 @ concat (map su_weights us)" "set (concat (map ru_raw_ranges rs)) \<subseteq> range_of ` set infos"
    using Cons.IH [OF one(2)] Cons.prems(2-4) one(3) by auto
  with one show ?case by (auto simp: bindM_eq)
qed simp

lemma list_all2_left: "list_all2 P xs ys \<Longrightarrow> x \<in> set xs \<Longrightarrow> \<exists>y\<in>set ys. P x y"
  by (induction rule: list_all2_induct) auto

lemma no_idle_resolved:
  assumes "no_idle us out" and "list_all2 (unit_resolved names) us rs"
  shows "no_idle_unit rs (slot_of names out)"
  using assms(2,1)
proof (induction rule: list_all2_induct)
  case (Cons u us r rs)
  have mem: "\<exists>k'\<in>set rs. slot_of names s \<in> set (unit_inputs k')" if k: "k \<in> set us" "s \<in> set (su_inputs k)" for k s
  proof -
    obtain k' where "k' \<in> set rs" "unit_resolved names k k'" using list_all2_left [OF Cons(2) k(1)] by blast
    then show ?thesis using k(2) by (auto simp: unit_resolved_def intro!: bexI [of _ k'])
  qed
  obtain s where s: "s \<in> set (su_outputs u)" "s = out \<or> (\<exists>k\<in>set us. s \<in> set (su_inputs k))" using Cons.prems by auto
  then have "slot_of names s \<in> set (unit_outputs r)" using Cons(1) by (simp add: unit_resolved_def)
  moreover have "slot_of names s = slot_of names out \<or> (\<exists>k'\<in>set rs. slot_of names s \<in> set (unit_inputs k'))"
    using s(2) mem by blast
  ultimately show ?case using Cons.IH Cons.prems by auto
qed simp

lemma mapE_returns: "(\<And>x. x \<in> set xs \<Longrightarrow> \<exists>y. f x = Inr y) \<Longrightarrow> \<exists>ys. mapE f xs = Inr ys"
proof (induction xs)
  case (Cons x xs)
  obtain y where "f x = Inr y" using Cons.prems [of x] by auto
  moreover obtain ys where "mapE f xs = Inr ys" using Cons.IH Cons.prems by auto
  ultimately show ?case by simp
qed simp

lemma set_chop: "b \<in> set (chop ns xs) \<Longrightarrow> set b \<subseteq> set xs"
  by (induction ns arbitrary: xs) (auto dest: in_set_takeD in_set_dropD)

lemma make_groups_returns:
  assumes "file_fits infos mapped page" and "set (concat (map ru_raw_ranges units)) \<subseteq> range_of ` set infos"
  shows "\<exists>groups. make_groups key mapped page units runs exchanged = Inr groups"
proof -
  have "\<exists>y. make_group key mapped page members gs = Inr y" if p: "(members, gs) \<in> set (zip (chop runs units) exchanged)" for members gs
  proof -
    have "set members \<subseteq> set units" using set_zip_leftD [OF p] by (rule set_chop)
    then have "set (concat (map ru_raw_ranges members)) \<subseteq> range_of ` set infos" using assms(2) by auto
    from file_fits_planned [OF assms(1) this] show ?thesis by (auto simp: make_group_def Let_def)
  qed
  then show ?thesis unfolding make_groups_def by (intro mapE_returns) auto
qed

lemma resolve_layer_returns:
  assumes plan: "arch_streaming_units g a (int l) = Inr plan" "plan_small plan" and "preset_valid preset"
    and fits: "file_fits infos mapped page" and s: "slots_known s" "set (concat (map su_weights (lp_units plan))) \<subseteq> set (map ti_name infos)"
      "distinct (claimed_names s @ concat (map su_weights (lp_units plan)))" and "previous \<in> {None, Some ''x''}"
  shows "\<exists>layer ranges t. resolve_layer g a infos mapped page preset l previous s = (Inr (layer, ranges, ''x''), t) \<and> slots_known t
    \<and> claimed_names t = claimed_names s @ concat (map su_weights (lp_units plan)) \<and> canonical ranges"
proof -
  define key where "key = ''layer:'' @ nat_digits l"
  have small: "length (lp_units plan) \<le> 8" "lp_units plan \<noteq> []" "lp_input_slot plan = ''x''" "lp_output_slot plan = ''x''"
    "no_idle (lp_units plan) ''x''" "\<And>u. u \<in> set (lp_units plan) \<Longrightarrow> set (su_inputs u) \<union> set (su_outputs u) \<subseteq> set model_slots \<and> su_outputs u \<noteq> []"
    using plan(2) by (auto simp: plan_small_def plan_ok_def)
  have x: "''x'' \<in> set model_slots" by (simp add: model_slots_def)
  obtain inslot s1 where i: "intern ''x'' s = (Inr inslot, s1)" "slots_known s1" "claimed_names s1 = claimed_names s"
    using intern_returns [OF s(1) x] by auto
  obtain outslot s2 where o: "intern ''x'' s1 = (Inr outslot, s2)" "slots_known s2" "claimed_names s2 = claimed_names s"
    using intern_returns [OF i(2) x] i(3) by auto
  obtain units t where u: "mapM (resolve_unit infos key) (lp_units plan) s2 = (Inr units, t)" "slots_known t"
    "claimed_names t = claimed_names s @ concat (map su_weights (lp_units plan))" "set (concat (map ru_raw_ranges units)) \<subseteq> range_of ` set infos"
    using resolve_units_returns [OF o(2) small(6) s(2), of key] s(3) o(3) by auto
  have ok: "names_ok (slot_names s1)" "names_ok (slot_names s2)" using i(2) o(2) by (simp_all add: slots_known_def)
  note r = resolve_units_Inr [OF u(1) ok(2)]
  then have len: "length units = length (lp_units plan)" by (auto dest: list_all2_lengthD)
  have "outslot = slot_of (slot_names t) ''x''"
    using intern_Inr(3,4) [OF o(1) ok(1)] r slot_of_prefix [of "slot_names s2" "slot_names t" "''x''"] by (simp add: plan_step_def)
  then have idle: "no_idle_unit units outslot" using no_idle_resolved [OF small(5)] r by simp
  obtain ranges where ranges: "page_align_and_coalesce (concat (map ru_raw_ranges units)) mapped page = Inr ranges"
    using file_fits_planned [OF fits u(4)] by blast
  obtain runs where runs: "partition_runs (map ru_weight_bytes units) (map (su_stage \<circ> ru_unit) units) preset = Inr runs"
    using partition_runs_ok [of "map ru_weight_bytes units" "map (su_stage \<circ> ru_unit) units" preset] len small(2) assms(3) by force
  have "sum_list runs = length units" "0 \<notin> set runs"
    using partition_runs_cover [of "map ru_weight_bytes units" "map (su_stage \<circ> ru_unit) units" preset] by (simp_all add: runs)
  then obtain exchanged where ex: "resolve_group_slots units runs outslot = Inr exchanged"
    using resolve_runs_ok [OF idle] total_run_length_ok [of runs] len small(1)
    by (auto simp: resolve_group_slots_def SIZE_MAX_def)
  obtain groups where groups: "make_groups key mapped page units runs exchanged = Inr groups"
    using make_groups_returns [OF fits u(4)] by blast
  have "resolve_layer g a infos mapped page preset l previous s
      = (Inr (\<lparr>rl_units = units, rl_groups = groups, rl_input_slot = inslot, rl_output_slot = outslot\<rparr>, ranges, ''x''), t)"
    using assms(8) small(2-4) plan(1) unfolding resolve_layer_def Let_def key_def [symmetric]
    by (auto simp: bindM_run i(1) o(1) u(1) ranges runs ex groups)
  then show ?thesis using u(2,3) planned_if_page_align(3) [OF ranges] by blast
qed

lemma resolve_layers_returns:
  assumes "list_all2 (\<lambda>l plan. arch_streaming_units g a (int l) = Inr plan \<and> plan_small plan) ls plans"
    and "preset_valid preset" and "file_fits infos mapped page" and "slots_known s"
    and "set (concat (map (\<lambda>p. concat (map su_weights (lp_units p))) plans)) \<subseteq> set (map ti_name infos)"
    and "distinct (claimed_names s @ concat (map (\<lambda>p. concat (map su_weights (lp_units p))) plans))"
    and "previous \<in> {None, Some ''x''}"
  shows "\<exists>layers t. resolve_layers g a infos mapped page preset ls previous s = (Inr layers, t)
    \<and> claimed_names t = claimed_names s @ concat (map (\<lambda>p. concat (map su_weights (lp_units p))) plans)
    \<and> list_all canonical (map snd layers)"
  using assms
proof (induction arbitrary: s previous rule: list_all2_induct)
  case (Cons l ls plan plans)
  have w: "set (concat (map su_weights (lp_units plan))) \<subseteq> set (map ti_name infos)"
    "distinct (claimed_names s @ concat (map su_weights (lp_units plan)))"
    using Cons.prems(4,5) by (auto simp: inf_sup_distrib1)
  obtain layer ranges t where one: "resolve_layer g a infos mapped page preset l previous s = (Inr (layer, ranges, ''x''), t)"
    "slots_known t" "claimed_names t = claimed_names s @ concat (map su_weights (lp_units plan))" "canonical ranges"
    using resolve_layer_returns [of g a l plan preset infos mapped page s previous] Cons.hyps(1) Cons.prems(1,2,3,6) w by auto
  obtain layers u where "resolve_layers g a infos mapped page preset ls (Some ''x'') t = (Inr layers, u)"
    "claimed_names u = claimed_names t @ concat (map (\<lambda>p. concat (map su_weights (lp_units p))) plans)" "list_all canonical (map snd layers)"
    using Cons.IH [OF Cons.prems(1,2) one(2), of "Some ''x''"] Cons.prems(4,5) one(3) by auto
  with one show ?case by (auto simp: bindM_run)
qed simp

subsection \<open>The model\<close>

lemma check_classified_returns:
  assumes "set (claimed_names s) = set (map ti_name infos)" and "distinct (claimed_names s)"
  shows "check_classified infos s = (Inr (), s)"
proof -
  have "length (owner s) = card (set (claimed_names s))"
    using distinct_card [OF assms(2)] by (simp add: claimed_names_def)
  then have "length (owner s) = length (remdups (map ti_name infos))" by (simp add: assms(1) length_remdups_card_conv)
  then show ?thesis by (simp add: check_classified_def Let_def)
qed

lemma take_one_returns:
  assumes "n \<in> set (map ti_name infos)" and "n \<notin> set (claimed_names s)"
  shows "\<exists>i t. take_tensor infos who n s = (Inr i, t) \<and> i \<in> set infos \<and> slot_names t = slot_names s
    \<and> claimed_names t = claimed_names s @ [n]"
proof -
  obtain i where i: "map_of (map (\<lambda>i. (ti_name i, i)) infos) n = Some i"
    using assms(1) by (cases "map_of (map (\<lambda>i. (ti_name i, i)) infos) n") (auto simp: map_of_eq_None_iff image_image)
  have "map_of (owner s) n = None" using assms(2) by (simp add: claimed_names_def map_of_eq_None_iff)
  with i show ?thesis by (auto simp: take_tensor_def claimed_names_def dest!: map_of_SomeD)
qed

definition model_plans :: "'t ggml \<Rightarrow> 't embedder \<Rightarrow> 't layer_plan list" where
  "model_plans g em = map (\<lambda>l. projr (arch_streaming_units g (em_arch em) (int l))) [0 ..< nat (ap_n_layer (em_params em))]"

lemma model_plans_small:
  "list_all2 (\<lambda>l plan. arch_streaming_units g (em_arch em) (int l) = Inr plan \<and> plan_small plan)
     [0 ..< nat (ap_n_layer (em_params em))] (model_plans g em)"
proof -
  have "arch_streaming_units g (em_arch em) (int l) = Inr (projr (arch_streaming_units g (em_arch em) (int l)))
      \<and> plan_small (projr (arch_streaming_units g (em_arch em) (int l)))"
    if l: "l < nat (ap_n_layer (em_params em))" for l
  proof -
    obtain plan where "arch_streaming_units g (em_arch em) (int l) = Inr plan" "plan_small plan"
      using units_small [of "int l" "em_arch em" g] l by (auto simp: em_params_def zless_nat_eq_int_zless)
    then show ?thesis by simp
  qed
  then show ?thesis by (auto simp: model_plans_def list_all2_conv_all_nth)
qed

definition preset_of :: "string option \<Rightarrow> string" where
  "preset_of env = (case env of Some e \<Rightarrow> if e \<noteq> [] then e else ''layer'' | None \<Rightarrow> ''layer'')"

text \<open>A file that streams: exactly the planned tensors, each once and within the mapping.\<close>

definition streamable :: "'t ggml \<Rightarrow> 't embedder \<Rightarrow> tensor_info list \<Rightarrow> u64 \<Rightarrow> u64 \<Rightarrow> bool" where
  "streamable g em infos mapped page \<longleftrightarrow> file_fits infos mapped page
     \<and> distinct (planned_tensors (em_arch em) (model_plans g em))
     \<and> set (planned_tensors (em_arch em) (model_plans g em)) = set (map ti_name infos)"

lemma resolve_model_returns:
  assumes "streamable g em infos mapped page" and "preset_valid (preset_of env)"
  shows "\<exists>m ranges t. resolve_model g em infos mapped page env \<lparr>slot_names = [], owner = []\<rparr> = (Inr (m, ranges), t)
    \<and> sm_mapped_size m = mapped \<and> sm_page_size m = page \<and> sm_token m \<in> set infos \<and> list_all canonical ranges
    \<and> (\<exists>raw. page_align_and_coalesce raw mapped page = Inr (sm_common_ranges m))"
proof -
  let ?s = "\<lparr>slot_names = [], owner = []\<rparr> :: plan_state" and ?a = "em_arch em" and ?plans = "model_plans g em"
  let ?token = "cp_token_embedding (arch_common_plan ?a)" and ?common = "cp_common (arch_common_plan ?a)"
  define weights where "weights = concat (map (\<lambda>p. concat (map su_weights (lp_units p))) ?plans)"
  have fits: "file_fits infos mapped page" and d: "distinct (?token # ?common @ weights)"
    "set (?token # ?common @ weights) = set (map ti_name infos)"
    using assms(1) by (simp_all add: streamable_def planned_tensors_def weights_def)
  have s: "claimed_names ?s = []" "slot_names ?s = []" by (simp_all add: claimed_names_def)
  obtain token s1 where t: "take_tensor infos ''token'' ?token ?s = (Inr token, s1)" "token \<in> set infos" "slot_names s1 = []"
    "claimed_names s1 = [?token]"
    using take_one_returns [of ?token infos ?s "''token''"] d(2) s by auto
  obtain commons s2 where c: "mapM (take_tensor infos ''common'') ?common s1 = (Inr commons, s2)" "set commons \<subseteq> set infos"
    "slot_names s2 = []" "claimed_names s2 = ?token # ?common"
    using take_all_returns [of ?common infos s1 "''common''"] d t(3,4) by auto
  obtain ranges where ranges: "page_align_and_coalesce (map range_of commons) mapped page = Inr ranges"
    using file_fits_planned [OF fits, of "map range_of commons"] c(2) by auto
  have known: "slots_known s2" by (simp add: slots_known_def names_ok_def c(3))
  obtain layers s3 where l: "resolve_layers g ?a infos mapped page (preset_of env) [0 ..< nat (ap_n_layer (em_params em))] None s2 = (Inr layers, s3)"
    "claimed_names s3 = ?token # ?common @ weights" "list_all canonical (map snd layers)"
    using resolve_layers_returns [OF model_plans_small [of g em] assms(2) fits known, folded weights_def, of None] d c(4) by auto
  have "check_classified infos s3 = (Inr (), s3)" by (rule check_classified_returns) (use l(2) d in simp_all)
  moreover have "?token \<noteq> []" by (simp add: arch_common_plan_def bert_common_plan_def gemma_common_plan_def split: model_arch.split)
  ultimately show ?thesis using t(2) l(3) ranges
    unfolding resolve_model_def Let_def preset_of_def [symmetric] em_params_def [symmetric]
    by (auto simp: bindM_run t(1) c(1) l(1))
qed

subsection \<open>The coordinator\<close>

definition advice_works :: "advice_function \<Rightarrow> bool" where
  "advice_works advice \<longleftrightarrow> (\<forall>log r kind. advice log r kind = None)"

lemma set_classification_returns:
  assumes "canonical kept" and "canonical token" and "list_all canonical layers"
  shows "\<exists>c'. set_classification kept token layers c = (Inr (), c')"
proof -
  have loop: "\<exists>c'. forM layers (\<lambda>layer.
       bindM (liftM PlannerFailed (byte_count layer)) (\<lambda>n.
       bindM (modifyM (update_diag (\<lambda>d. d\<lparr>layer_class_bytes := layer_class_bytes d + n\<rparr>))) (\<lambda>_.
       bindM (liftM PlannerFailed (page_count layer page)) (\<lambda>n.
       modifyM (update_diag (\<lambda>d. d\<lparr>layer_class_pages := layer_class_pages d + n\<rparr>)))))) c = (Inr (), c')" for page c
    using assms(3)
  proof (induction layers arbitrary: c)
    case (Cons rs layers)
    obtain b p where "byte_count rs = Inr b" "page_count rs page = Inr p"
      using byte_count_canonical [of rs] page_count_canonical [of rs page] Cons.prems by auto
    with Cons show ?case by (auto simp: bindM_run)
  qed simp
  obtain b1 b2 where b: "byte_count kept = Inr b1" "byte_count token = Inr b2"
    using byte_count_canonical assms(1,2) by blast
  obtain p1 p2 where p: "page_count kept (page_size c) = Inr p1" "page_count token (page_size c) = Inr p2"
    using page_count_canonical assms(1,2) by metis
  show ?thesis using b p loop unfolding set_classification_def by simp
qed

lemma retain_common_returns:
  assumes "coordinator_inv m p c" and "common c = []" and "page_align_and_coalesce raw (mapping_size c) (page_size c) = Inr ranges"
    and "advice_works advice"
  shows "\<exists>c'. retain_common advice ranges c = (Inr (), c')"
proof -
  have geo: "planner_geometry (m, p)" "mapping_size c = m" "page_size c = p"
    using assms(1) by (auto simp: coordinator_inv_def ranges_inv_def)
  have planned: "planned_ranges (m, p) ranges" "canonical ranges"
    using planned_if_page_align [OF assms(3)] by (simp_all add: geo)
  obtain n where n: "byte_count ranges = Inr n" "unat n = card (cover ranges)"
    using byte_count_canonical [OF planned(2)] by blast
  obtain c1 where adv: "forM ranges (call_advice advice WillNeed) c = (Inr (), c1)"
    using advise_succeeds [of ranges advice WillNeed c] assms(4) by (cases "forM ranges (call_advice advice WillNeed) c") (auto simp: advice_works_def)
  then have c1: "state_books c1 = state_books c" "lease_books (diag c1) = lease_books (diag c)"
    using advise_all [OF adv] by simp_all
  note cong = invariants_cong [OF c1]
  define c2 where "c2 = c1\<lparr>common := ranges, common_bytes := n\<rparr>"
  have "ranges_inv m p c1" using assms(1) cong by (simp add: coordinator_inv_def)
  then have "ranges_inv m p c2"
    using planned n(2) by (auto simp: ranges_inv_def c2_def cong region_at_def)
  then obtain c3 where "note_advised_peak c2 = (Inr (), c3)" using note_advised_peak_ok [OF geo(1)] by blast
  then show ?thesis using assms(2) by (simp add: retain_common_def bindM_run adv n(1) c2_def)
qed

lemma start_residency_returns:
  assumes "\<exists>raw. page_align_and_coalesce raw (sm_mapped_size m) (sm_page_size m) = Inr (sm_common_ranges m)"
    and "in_file (sm_mapped_size m) (range_of (sm_token m))" and "list_all canonical ranges" and "advice_works advice"
  shows "\<exists>c. start_residency advice m ranges = Inr c"
proof -
  let ?mapped = "sm_mapped_size m" and ?page = "sm_page_size m" and ?kept = "sm_common_ranges m"
  obtain raw where raw: "page_align_and_coalesce raw ?mapped ?page = Inr ?kept" using assms(1) by blast
  note kept = planned_if_page_align [OF raw]
  obtain token where token: "page_align_and_coalesce [range_of (sm_token m)] ?mapped ?page = Inr token"
    using kept(1) assms(2) page_align_total [of "[range_of (sm_token m)]"] by (auto simp: planner_geometry_def)
  obtain c where c: "new_coordinator ?mapped ?page (Some advice) = Inr c" by (simp add: new_coordinator_def)
  have new: "coordinator_inv ?mapped ?page c" "common c = []" "mapping_size c = ?mapped" "page_size c = ?page"
    using initial_inv [OF c kept(1)] c by (auto simp: program_inv_def new_coordinator_def)
  obtain c1 where c1: "set_classification ?kept token ranges c = (Inr (), c1)"
    using set_classification_returns [OF kept(3) planned_if_page_align(3) [OF token] assms(3)] by blast
  note frame = set_classification_frame [OF c1]
  then have inv: "coordinator_inv ?mapped ?page c1" "common c1 = []" "mapping_size c1 = ?mapped" "page_size c1 = ?page"
    using coordinator_inv_cong [OF new(1)] new invariants_cong [of c1 c] by auto
  obtain c2 where c2: "retain_common advice ?kept c1 = (Inr (), c2)"
    using retain_common_returns [OF inv(1,2)] raw inv(3,4) assms(4) by metis
  show ?thesis by (simp add: start_residency_def c token bindM_run c1 c2)
qed

subsection \<open>What a created model says of its file\<close>

definition info_named :: "tensor_info list \<Rightarrow> string \<Rightarrow> tensor_info" where
  "info_named infos n = the (map_of (map (\<lambda>i. (ti_name i, i)) infos) n)"

lemma info_named_self: "distinct (map ti_name infos) \<Longrightarrow> i \<in> set infos \<Longrightarrow> info_named infos (ti_name i) = i"
  unfolding info_named_def by (subst map_of_is_SomeI [of _ _ i]) (auto simp: o_def)

definition in_mapping :: "tensor_info list \<Rightarrow> u64 \<Rightarrow> string list \<Rightarrow> bool" where
  "in_mapping infos mapped ns \<longleftrightarrow> (\<forall>n\<in>set ns. in_file mapped (range_of (info_named infos n)))"

lemma take_tensor_info: "take_tensor infos who n s = (Inr i, t) \<Longrightarrow> i = info_named infos n"
  by (auto simp: take_tensor_def info_named_def split: option.splits)

lemma take_all_info: "mapM (take_tensor infos who) ns s = (Inr is, t) \<Longrightarrow> is = map (info_named infos) ns"
  by (induction ns arbitrary: s "is") (auto simp: bindM_Inr_iff dest: take_tensor_info)

lemma planned_in_mapping:
  "page_align_and_coalesce (map (range_of \<circ> info_named infos) ns) mapped page = Inr out \<Longrightarrow> in_mapping infos mapped ns"
  using page_align_total [of "map (range_of \<circ> info_named infos) ns" mapped page] by (auto simp: in_mapping_def)

lemma resolve_unit_ranges:
  "resolve_unit infos key u s = (Inr r, t) \<Longrightarrow> ru_raw_ranges r = map (range_of \<circ> info_named infos) (su_weights u)"
  by (auto simp: resolve_unit_def bindM_Inr_iff split: if_splits dest!: take_all_info)

lemma resolve_units_ranges:
  "mapM (resolve_unit infos key) us s = (Inr rs, t) \<Longrightarrow>
   concat (map ru_raw_ranges rs) = map (range_of \<circ> info_named infos) (concat (map su_weights us))"
  by (induction us arbitrary: s rs) (auto simp: bindM_Inr_iff dest!: resolve_unit_ranges)

lemma resolve_layer_accepted:
  assumes "resolve_layer g a infos mapped page preset l previous s = (Inr (layer, ranges, out), t)"
    and "arch_streaming_units g a (int l) = Inr plan"
  shows "in_mapping infos mapped (concat (map su_weights (lp_units plan))) \<and> preset_valid preset"
proof -
  obtain units runs s2 where run: "mapM (resolve_unit infos (''layer:'' @ nat_digits l)) (lp_units plan) s2 = (Inr units, t)"
    "page_align_and_coalesce (concat (map ru_raw_ranges units)) mapped page = Inr ranges"
    "partition_runs (map ru_weight_bytes units) (map (su_stage \<circ> ru_unit) units) preset = Inr runs"
    using assms unfolding resolve_layer_def Let_def bindM_Inr_iff liftM_Inr_iff
    by (clarsimp simp: bindM_Inr_iff liftM_Inr_iff simp del: nat_digits.simps split: if_split_asm)
  have "preset_valid preset"
    using partition_runs_cover [of "map ru_weight_bytes units" "map (su_stage \<circ> ru_unit) units" preset] by (simp add: run(3))
  then show ?thesis using planned_in_mapping run(2) by (simp add: resolve_units_ranges [OF run(1)])
qed

lemma resolve_layers_accepted:
  assumes "list_all2 (\<lambda>l plan. arch_streaming_units g a (int l) = Inr plan \<and> plan_small plan) ls plans"
    and "resolve_layers g a infos mapped page preset ls previous s = (Inr layers, t)"
  shows "in_mapping infos mapped (concat (map (\<lambda>p. concat (map su_weights (lp_units p))) plans)) \<and> (ls \<noteq> [] \<longrightarrow> preset_valid preset)"
  using assms
proof (induction arbitrary: s previous layers rule: list_all2_induct)
  case (Cons l ls plan plans)
  then obtain layer ranges out s1 rest where
    run: "resolve_layer g a infos mapped page preset l previous s = (Inr (layer, ranges, out), s1)"
      "resolve_layers g a infos mapped page preset ls (Some out) s1 = (Inr rest, t)"
    by (auto simp: bindM_Inr_iff)
  with Cons resolve_layer_accepted [OF run(1)] show ?case by (fastforce simp: in_mapping_def)
qed (simp add: in_mapping_def)

lemma model_plans_unique:
  "mapE (\<lambda>l. arch_streaming_units g (em_arch em) (int l)) [0 ..< nat (ap_n_layer (em_params em))] = Inr (model_plans g em)"
  using model_plans_small [of g em] unfolding mapE_Inr_iff by (rule list_all2_mono) simp

lemma create_streaming_fits:
  assumes "create_streaming g em infos mapped page env advice = Inr (m, c)" and "distinct (map ti_name infos)"
    and "0 < ap_n_layer (em_params em)"
  shows "streamable g em infos mapped page \<and> preset_valid (preset_of env)"
proof -
  let ?s = "\<lparr>slot_names = [], owner = []\<rparr> :: plan_state" and ?a = "em_arch em"
  obtain ranges t where r: "resolve_model g em infos mapped page env ?s = (Inr (m, ranges), t)"
    and c: "start_residency advice m ranges = Inr c"
    using create_streaming_Inr [OF assms(1)] by blast
  note m = resolve_model_Inr [OF r]
  have names: "distinct (planned_tensors ?a (model_plans g em))" "set (planned_tensors ?a (model_plans g em)) = set (map ti_name infos)"
    using m(3) by (auto simp: model_plans_unique)
  obtain token commons layers s1 s2 s3 where
    run: "take_tensor infos ''token'' (cp_token_embedding (arch_common_plan ?a)) ?s = (Inr token, s1)"
      "mapM (take_tensor infos ''common'') (cp_common (arch_common_plan ?a)) s1 = (Inr commons, s2)"
      "page_align_and_coalesce (map range_of commons) mapped page = Inr (sm_common_ranges m)"
      "resolve_layers g ?a infos mapped page (preset_of env) [0 ..< nat (ap_n_layer (em_params em))] None s2 = (Inr layers, s3)"
      "sm_token m = token"
    using r unfolding resolve_model_def Let_def preset_of_def [symmetric] em_params_def [symmetric]
    by (auto simp: bindM_Inr_iff liftM_Inr_iff split: if_splits)
  note layers = resolve_layers_accepted [OF model_plans_small run(4)]
  obtain out where "page_align_and_coalesce [range_of (sm_token m)] mapped page = Inr out"
    using c m(4,5) by (cases "page_align_and_coalesce [range_of (sm_token m)] mapped page") (auto simp: start_residency_def bindE_Inr_iff)
  then have token: "in_file mapped (range_of token)" "mapped \<noteq> 0" "is_power_of_two page"
    using page_align_total [of "[range_of (sm_token m)]" mapped page] by (auto simp: run(5))
  have "in_mapping infos mapped (planned_tensors ?a (model_plans g em))"
    using layers token(1) planned_in_mapping [of infos "cp_common (arch_common_plan ?a)" mapped page] run(3)
    by (auto simp: planned_tensors_def in_mapping_def take_tensor_info [OF run(1)] take_all_info [OF run(2)])
  then have "in_file mapped (range_of i)" if "i \<in> set infos" for i
    using names(2) that info_named_self [OF assms(2) that] by (force simp: in_mapping_def)
  with names token layers assms(3) show ?thesis by (simp add: streamable_def file_fits_def)
qed

lemma created_token:
  assumes "create_streaming g em infos mapped page env advice = Inr (m, c)"
  shows "sm_token m \<in> set infos"
proof -
  obtain ranges t where r: "resolve_model g em infos mapped page env \<lparr>slot_names = [], owner = []\<rparr> = (Inr (m, ranges), t)"
    using create_streaming_Inr [OF assms] by blast
  then obtain token s1 where "take_tensor infos ''token'' (cp_token_embedding (arch_common_plan (em_arch em))) \<lparr>slot_names = [], owner = []\<rparr> = (Inr token, s1)"
    "sm_token m = token"
    unfolding resolve_model_def Let_def by (auto simp: bindM_Inr_iff liftM_Inr_iff split: if_splits)
  then show ?thesis using take_tensor_Inr(6) by metis
qed

lemma create_streaming_returns:
  assumes "advice_works advice" and "streamable g em infos mapped page" and "preset_valid (preset_of env)"
  shows "\<exists>m c. create_streaming g em infos mapped page env advice = Inr (m, c)"
proof -
  obtain m ranges t where r: "resolve_model g em infos mapped page env \<lparr>slot_names = [], owner = []\<rparr> = (Inr (m, ranges), t)"
    "sm_mapped_size m = mapped" "sm_page_size m = page" "sm_token m \<in> set infos" "list_all canonical ranges"
    "\<exists>raw. page_align_and_coalesce raw mapped page = Inr (sm_common_ranges m)"
    using resolve_model_returns [OF assms(2,3)] by blast
  then obtain c where "start_residency advice m ranges = Inr c"
    using start_residency_returns [of m ranges advice] assms(1,2) by (auto simp: streamable_def file_fits_def)
  with r(1) show ?thesis by (simp add: create_streaming_def)
qed

text \<open>
  C3: which files stream. When advice works, the constructor succeeds exactly when the file holds the
  tensors the family plans and no others, each planned once and with its bytes inside the
  mapping, the page size is a power of two and the partition setting names a preset; for either
  family: no slot identifier runs out, no unit is idle, every layer can be cut into groups.
\<close>

theorem streaming_accepts:
  assumes "advice_works advice" and "distinct (map ti_name infos)" and "0 < ap_n_layer (em_params em)"
  shows "(\<exists>m c. create_streaming g em infos mapped page env advice = Inr (m, c))
    \<longleftrightarrow> streamable g em infos mapped page \<and> preset_valid (preset_of env)"
  using create_streaming_fits [OF _ assms(2,3)] create_streaming_returns [OF assms(1)] by blast

end
