(* ===== verification/StreamServe.thy ===== *)
theory StreamServe
  imports StreamRefine StreamCreate
begin

text \<open>
  When a streaming call returns. On a device that refuses nothing, with advice that works and tensors
  that can be downloaded, every text batch the eager runner serves the streaming runner serves too,
  with the same output, and the coordinator is ready for the next call.
\<close>

subsection \<open>Leases that are granted and returned\<close>

definition ready :: "u64 \<Rightarrow> u64 \<Rightarrow> coordinator \<Rightarrow> bool" where
  "ready mapped page c \<longleftrightarrow> coordinator_inv mapped page c \<and> active c = [] \<and> \<not> poisoned (diag c)"

text \<open>Operations that throw no advice error when advice works.\<close>

named_theorems heeded

definition heeds :: "('s, residency_error, 'a) action \<Rightarrow> bool" where
  "heeds m \<longleftrightarrow> (\<forall>s kind message. fst (m s) \<noteq> Inl (AdviceFailed kind message))"

lemma heeds_bindM [heeded]: "heeds m \<Longrightarrow> (\<And>x. heeds (f x)) \<Longrightarrow> heeds (bindM m f)"
  unfolding heeds_def bindM_def by (auto split: prod.split sum.split) (metis fst_conv)+

lemma heeds_simple [heeded]:
  "heeds (retM x)" "heeds (getM f)" "heeds (modifyM h)" "heeds (liftM PlannerFailed r)"
  "heeds (throwM EmptyLease)" "heeds (throwM CoordinatorPoisoned)" "heeds (throwM PrematureRelease)"
  "heeds (throwM AccountingUnderflow)"
  by (simp_all add: heeds_def liftM_def map_sum_def split: sum.split)

lemma heeds_advice: "advice_works advice \<Longrightarrow> heeds (forM rs (call_advice advice kind))"
  using advise_succeeds [of rs advice kind] by (simp add: heeds_def advice_works_def)

lemma heeds_acquire: "advice_works advice \<Longrightarrow> heeds (acquire advice key ranges token_rows)"
  unfolding acquire_def note_advised_peak_def count_token_rows_def by (auto intro!: heeded heeds_advice)

lemma catch_returns: "(\<And>s. fst (m s) = Inr ()) \<Longrightarrow> catchM m h = m"
  by (rule ext) (auto simp: catchM_def split: prod.split sum.split, (metis fst_conv sum.distinct(1))+)

lemma heeds_release:
  assumes "advice_works advice"
  shows "heeds (release_lease advice lid key computed)"
proof -
  have "fst (forM rs (call_advice advice DontNeed) d) = Inr ()" for rs d
    by (rule advise_succeeds) (use assms in \<open>simp add: advice_works_def\<close>)
  note caught = catch_returns [OF this]
  have "heeds (drop_region advice key)"
    unfolding drop_region_def caught by (auto intro!: heeded heeds_advice assms)
  then show ?thesis unfolding release_lease_def by (auto intro!: heeded)
qed

lemma acquire_returns:
  assumes "ready mapped page c" and planned: "page_align_and_coalesce raw mapped page = Inr ranges" and "ranges \<noteq> []"
    and "advice_works advice"
  shows "\<exists>l c'. acquire advice key ranges token_rows c = (Inr l, c')"
proof -
  have c: "coordinator_inv mapped page c" "\<not> poisoned (diag c)" using assms(1) by (simp_all add: ready_def)
  obtain res c' where run: "acquire advice key ranges token_rows c = (res, c')" by fastforce
  have granted: "res \<noteq> Inl (AdviceFailed WillNeed message)" for message
    using heeds_acquire [OF assms(4)] run unfolding heeds_def by (metis fst_conv)
  show ?thesis
    by (rule acquire_cases [OF c(1) planned_if_page_align(2,3) [OF planned] run]) (use granted assms(3) c(2) run in auto)
qed

lemma release_returns:
  assumes "advice_works advice" and "release_lease advice lid key True c = (res, c')"
  shows "res \<noteq> Inl (AdviceFailed DontNeed message)"
  using heeds_release [OF assms(1)] assms(2) unfolding heeds_def by (metis fst_conv)

lemma finished_lease_returns:
  assumes "coordinator_inv m p c" and "active c = [(lease_id l, a)]" and "al_key a = lease_key l"
    and "owned l" and "compute_complete l" and "\<not> poisoned (diag c)" and "advice_works advice"
  shows "\<exists>c'. lease_release advice l c = ((Inr (), c'), l\<lparr>owned := False\<rparr>) \<and> ready m p c'"
proof -
  obtain res c' where r: "release_lease advice (lease_id l) (lease_key l) True c = (res, c')" by fastforce
  have match: "al_key b = lease_key l" if "(lease_id l, b) \<in> set (active c)" for b using that assms(2,3) by simp
  have "res = Inr () \<and> ready m p c'" unfolding ready_def
    by (rule release_cases [OF assms(1) r match]) (use assms(2,6) release_returns [OF assms(7) r] in auto)
  then show ?thesis using r assms(4,5) by (simp add: lease_release_def)
qed

lemma with_lease_returns:
  assumes s: "ready mapped page (ss_residency s)" and planned: "page_align_and_coalesce raw mapped page = Inr ranges" "ranges \<noteq> []"
    and "advice_works advice" and off: "off_residency body"
    and body: "\<And>c. \<exists>x t. body (s\<lparr>ss_residency := c\<rparr>) = (Inr x, t) \<and> Q (ss_slots t) (ss_countdown t)"
  shows "\<exists>x t. with_lease advice key ranges token_rows body s = (Inr x, t) \<and> Q (ss_slots t) (ss_countdown t)
    \<and> ready mapped page (ss_residency t)"
proof -
  let ?c = "ss_residency s"
  have c: "coordinator_inv mapped page ?c" "active ?c = []" "\<not> poisoned (diag ?c)" using s by (simp_all add: ready_def)
  obtain l c1 where acq: "acquire advice key ranges token_rows ?c = (Inr l, c1)"
    using acquire_returns [OF s planned assms(4)] by blast
  define ll where "ll = mark_compute_complete l"
  have l: "coordinator_inv mapped page c1 \<and> active c1 = [(lease_id ll, \<lparr>al_key = key, al_ranges = ranges\<rparr>)]
      \<and> lease_key ll = key \<and> owned ll \<and> compute_complete ll \<and> \<not> poisoned (diag c1)"
    by (rule acquire_cases [OF c(1) planned_if_page_align(2,3) [OF planned(1)] acq])
      (use c(2) in \<open>auto simp: ll_def mark_compute_complete_def\<close>)
  obtain x t where run: "body (s\<lparr>ss_residency := c1\<rparr>) = (Inr x, t)" "Q (ss_slots t) (ss_countdown t)" using body by blast
  have t: "ss_residency t = c1"
    using off [unfolded off_residency_def, rule_format, of "s\<lparr>ss_residency := c1\<rparr>"] run(1) by simp
  obtain c2 where "lease_release advice ll c1 = ((Inr (), c2), ll\<lparr>owned := False\<rparr>)" "ready mapped page c2"
    using finished_lease_returns [of mapped page c1 ll "\<lparr>al_key = key, al_ranges = ranges\<rparr>" advice] l assms(4) by auto
  moreover have "with_lease advice key ranges token_rows body s = holding advice l body (s\<lparr>ss_residency := c1\<rparr>)"
    using acq by (simp add: with_lease_def on_residency_def bindM_def)
  ultimately have "with_lease advice key ranges token_rows body s = (Inr x, t\<lparr>ss_residency := c2\<rparr>)"
    using run(1) t by (simp add: holding_def ll_def)
  with run(2) \<open>ready mapped page c2\<close> show ?thesis by simp
qed

subsection \<open>Graphs on a device that works\<close>

definition device_works :: "'t device \<Rightarrow> bool" where
  "device_works dv \<longleftrightarrow> (\<forall>k. dv_context_ok dv k \<and> dv_alloc_ok dv k \<and> dv_backed dv k \<and> dv_compute_ok dv k)"

text \<open>No failure is being injected, and the store has a place for every slot.\<close>

definition going :: "nat \<Rightarrow> stream_state \<Rightarrow> bool" where
  "going n s \<longleftrightarrow> ss_countdown s < 0 \<and> length (ss_slots s) = n"

named_theorems smoothly

definition smooth :: "nat \<Rightarrow> 'a run \<Rightarrow> bool" where
  "smooth n m \<longleftrightarrow> (\<forall>s. going n s \<longrightarrow> (\<exists>x t. m s = (Inr x, t) \<and> going n t \<and> ss_slots t = ss_slots s))"

lemma smoothE:
  assumes "smooth n m" and "going n s"
  obtains x t where "m s = (Inr x, t)" "going n t" "ss_slots t = ss_slots s"
  using assms by (auto simp: smooth_def)

lemma smooth_bindM [smoothly]: "smooth n m \<Longrightarrow> (\<And>x. smooth n (f x)) \<Longrightarrow> smooth n (bindM m f)"
  unfolding smooth_def by (metis bindM_eq(1))

lemma smooth_simple [smoothly]:
  "smooth n (retM x)" "smooth n (add_copied k)"
  "(\<And>k. ok k) \<Longrightarrow> smooth n (needM ok e)"
  by (simp_all add: smooth_def needM_def going_def add_copied_def)

lemma smooth_forM: "(\<And>x. x \<in> set xs \<Longrightarrow> smooth n (f x)) \<Longrightarrow> smooth n (forM xs f)"
  by (induction xs) (auto intro: smoothly)

lemma smooth_graphs [smoothly]:
  assumes "device_works dv"
  shows "smooth n (new_graph_context dv)" "smooth n (set_tensor dv x)" "smooth n (set_if dv tensor x)"
    "smooth n (allocate dv outs x)" "smooth n (compute_graph dv x)"
proof -
  note works = assms [unfolded device_works_def]
  show set: "smooth n (set_tensor dv x)" unfolding set_tensor_def using works by (intro smoothly) simp
  show "smooth n (set_if dv tensor x)" unfolding set_if_def by (simp add: set smoothly)
  show "smooth n (new_graph_context dv)"
    using works by (auto simp: smooth_def new_graph_context_def needM_def going_def)
  show "smooth n (allocate dv outs x)"
    using works by (auto simp: smooth_def allocate_def needM_def going_def)
  show "smooth n (compute_graph dv x)"
    using works by (auto simp: smooth_def compute_graph_def needM_def going_def bindM_def)
qed

lemma smooth_count_copy: "unat sid < n \<Longrightarrow> smooth n (count_slot_copy sid)"
  by (auto simp: smooth_def going_def count_slot_copy_def slot_nbytes_def entry_at_def add_copied_def bindM_def)

lemma download_returns:
  assumes "going n s" and "g_f32_contiguous g v" and "unat sid < n"
  shows "\<exists>u t. download g dv sid v s = (Inr u, t) \<and> going n t"
  using assms by (auto simp: download_def entry_at_def going_def bindM_def)

lemma drain_returns:
  assumes "going n s" and "\<forall>(sid, v)\<in>set zs. g_f32_contiguous g v \<and> unat sid < n"
  shows "\<exists>u t. forM zs (\<lambda>(sid, t). bindM (download g dv sid t) (\<lambda>_. count_slot_copy sid)) s = (Inr u, t) \<and> going n t"
  using assms
proof (induction zs arbitrary: s)
  case (Cons z zs)
  obtain sid v where z: "z = (sid, v)" by (cases z)
  have ok: "g_f32_contiguous g v" "unat sid < n" using Cons.prems(2) z by simp_all
  obtain u s1 where s1: "download g dv sid v s = (Inr u, s1)" "going n s1"
    using download_returns [where g = g and dv = dv, OF Cons.prems(1) ok] by blast
  have "unat sid < n" by (fact ok)
  from smoothE [OF smooth_count_copy [OF this] s1(2)]
  obtain w s2 where s2: "count_slot_copy sid s1 = (Inr w, s2)" "going n s2" by blast
  from Cons.IH [OF s2(2)] Cons.prems(2) show ?case by (auto simp: z bindM_run s1(1) s2(1))
qed simp

lemma run_group_returns:
  assumes dv: "device_works dv" and s: "going n s" and ins: "\<forall>sid\<in>set (gr_inputs gr). stored dv (ss_slots s) sid \<noteq> None"
    and run: "foldE (run_member (group_graph_inputs dv (gr_graph_inputs gr) b packed per_sentence)) (gr_members gr)
        (bind_slots (gr_inputs gr) (map (\<lambda>sid. the (stored dv (ss_slots s) sid)) (gr_inputs gr)) Map.empty) = Inr tensors"
    and outs: "\<forall>sid\<in>set (gr_outputs gr). unat sid < n \<and> (\<exists>v. tensors sid = Some v \<and> g_f32_contiguous g v)"
  shows "\<exists>u t. run_group g dv gr b packed per_sentence s = (Inr u, t) \<and> going n t"
proof -
  let ?gi = "group_graph_inputs dv (gr_graph_inputs gr) b packed per_sentence"
  define quiet_part where "quiet_part outs =
      bindM (allocate dv outs (gr_key gr)) (\<lambda>_.
      bindM (forM (gr_inputs gr) (\<lambda>sid. bindM (set_tensor dv ''slot input'') (\<lambda>_. count_slot_copy sid))) (\<lambda>_.
      bindM (set_if dv (gi_learned_pos_ids ?gi) ''group_learned_position_ids'') (\<lambda>_.
      bindM (set_if dv (gi_rope_pos_ids ?gi) ''group_rope_position_ids'') (\<lambda>_.
      bindM (set_if dv (gi_type_ids ?gi) ''group_type_ids'') (\<lambda>_.
      bindM (set_if dv (gi_kq_mask ?gi) ''group_attention_mask'') (\<lambda>_.
      compute_graph dv (gr_key gr)))))))" for outs
  have range: "unat sid < n" if "sid \<in> set (gr_inputs gr)" for sid
    using ins that s by (auto simp: stored_def going_def split: if_splits)
  have smooth: "smooth n (quiet_part outs)" for outs
    unfolding quiet_part_def using dv by (intro smoothly smooth_forM smooth_count_copy range)
  let ?uploads = "map (\<lambda>sid. the (stored dv (ss_slots s) sid)) (gr_inputs gr)"
    and ?outs = "map (\<lambda>sid. the (tensors sid)) (gr_outputs gr)"
  have uploads: "mapM (create_input dv) (gr_inputs gr) s = (Inr ?uploads, s)"
    using ins by (auto simp: create_inputs_Inr list_all2_conv_all_nth)
  have "group_values gr tensors = Inr ?outs" unfolding group_values_def
    by (rule mapE_total) (use outs in \<open>auto split: option.split\<close>)
  moreover obtain u s1 where q: "quiet_part ?outs s = (Inr u, s1)" "going n s1" by (rule smoothE [OF smooth s])
  moreover obtain w t where "forM (zip (gr_outputs gr) ?outs) (\<lambda>(sid, t). bindM (download g dv sid t) (\<lambda>_. count_slot_copy sid)) s1 = (Inr w, t)" "going n t"
  proof -
    have "\<forall>(sid, v)\<in>set (zip (gr_outputs gr) ?outs). g_f32_contiguous g v \<and> unat sid < n"
      using outs by (simp add: zip_map2 zip_same_conv_map) force
    from drain_returns [OF q(2) this, of dv] show thesis using that by blast
  qed
  moreover have "run_group g dv gr b packed per_sentence s =
      bindM (quiet_part ?outs) (\<lambda>_. forM (zip (gr_outputs gr) ?outs) (\<lambda>(sid, t). bindM (download g dv sid t) (\<lambda>_. count_slot_copy sid))) s"
    if "group_values gr tensors = Inr ?outs"
    using that uploads run unfolding run_group_def Let_def quiet_part_def
    by (simp add: bindM_run split: prod.split sum.split)
  ultimately show ?thesis by (auto simp: bindM_run)
qed

subsection \<open>Units that run from what they read\<close>

text \<open>
  A unit that is given contiguous floats hands back one contiguous float tensor per declared output,
  and nothing else is in a set of slots.
\<close>

definition delivers :: "'t ggml \<Rightarrow> 't resolved_unit \<Rightarrow> bool" where
  "delivers g u \<longleftrightarrow> (\<forall>gi vs outs. call_unit (ru_unit u) gi vs = Inr outs \<longrightarrow> list_all (g_f32_contiguous g) vs \<longrightarrow>
     length outs = length (unit_outputs u) \<and> list_all (g_f32_contiguous g) outs)"

definition plain_on :: "'t ggml \<Rightarrow> slot_id set \<Rightarrow> 't slot_tensors \<Rightarrow> bool" where
  "plain_on g A e \<longleftrightarrow> (\<forall>sid\<in>A. \<forall>v. e sid = Some v \<longrightarrow> g_f32_contiguous g v)"

lemma bind_slots_bound:
  assumes "length vs = length sids" and "sid \<in> set sids"
  shows "\<exists>v\<in>set vs. bind_slots sids vs e sid = Some v \<and> bind_slots sids vs e' sid = Some v"
  using assms unfolding bind_slots_def
proof (induction sids arbitrary: vs e e')
  case (Cons a sids)
  then obtain v ws where vs: "vs = v # ws" "length ws = length sids" by (cases vs) auto
  show ?case
  proof (cases "sid \<in> set sids")
    case True
    then show ?thesis using Cons.IH [OF vs(2), of "e(a \<mapsto> v)" "e'(a \<mapsto> v)"] vs(1) by auto
  next
    case False
    then have "fold (\<lambda>(sid, v) t. t(sid \<mapsto> v)) (zip sids ws) f sid = f sid" for f
      using bind_slots_other [of sid sids ws f] by (simp add: bind_slots_def)
    moreover have "sid = a" using Cons.prems(2) False by simp
    ultimately show ?thesis by (simp add: vs(1) del: fun_upd_apply) (simp add: fun_upd_same)
  qed
qed simp

lemma run_member_restrict:
  assumes "run_member gi u e = Inr e'" and "same_on A b e" and "set (unit_inputs u) \<subseteq> A" and "delivers g u"
    and "\<And>vs. call_unit (ru_unit u) gi' vs = call_unit (ru_unit u) gi vs" and "plain_on g A b"
  shows "\<exists>b'. run_member gi' u b = Inr b' \<and> same_on (A \<union> set (unit_outputs u)) b' e'
    \<and> plain_on g (A \<union> set (unit_outputs u)) b'
    \<and> (\<forall>sid\<in>set (unit_outputs u). \<exists>v. b' sid = Some v \<and> g_f32_contiguous g v)"
proof -
  obtain vs outs where vs: "mapE (\<lambda>sid. case e sid of None \<Rightarrow> Inl (SlotNotBuilt (su_name (ru_unit u))) | Some v \<Rightarrow> Inr v) (unit_inputs u) = Inr vs"
    "call_unit (ru_unit u) gi vs = Inr outs" "e' = bind_slots (unit_outputs u) outs e"
    using assms(1) by (auto simp: run_member_def bindE_Inr_iff)
  have read: "list_all2 (\<lambda>sid v. b sid = Some v) (unit_inputs u) vs"
    using vs(1) assms(2,3) unfolding mapE_Inr_iff
    by (auto simp: same_on_def list_all2_conv_all_nth subset_iff split: option.splits)
  then have "mapE (\<lambda>sid. case b sid of None \<Rightarrow> Inl (SlotNotBuilt (su_name (ru_unit u))) | Some v \<Rightarrow> Inr v) (unit_inputs u) = Inr vs"
    unfolding mapE_Inr_iff by (auto simp: list_all2_conv_all_nth)
  then have "run_member gi' u b = Inr (bind_slots (unit_outputs u) outs b)"
    using vs(2) assms(5) by (simp add: run_member_def)
  moreover have "list_all (g_f32_contiguous g) vs"
    unfolding list_all_length
  proof (intro allI impI)
    fix i assume "i < length vs"
    then have "unit_inputs u ! i \<in> A" "b (unit_inputs u ! i) = Some (vs ! i)"
      using read assms(3) by (auto simp: list_all2_conv_all_nth)
    then show "g_f32_contiguous g (vs ! i)" using assms(6) by (auto simp: plain_on_def)
  qed
  then have len: "length outs = length (unit_outputs u)" "list_all (g_f32_contiguous g) outs"
    using assms(4) vs(2) by (auto simp: delivers_def)
  moreover have written: "\<forall>sid\<in>set (unit_outputs u). \<exists>v. bind_slots (unit_outputs u) outs b sid = Some v \<and> g_f32_contiguous g v"
    using bind_slots_bound [OF len(1), of _ b b] len(2) by (fastforce simp: list_all_iff)
  moreover have "plain_on g (A \<union> set (unit_outputs u)) (bind_slots (unit_outputs u) outs b)"
    unfolding plain_on_def
  proof (intro ballI allI impI)
    fix sid v assume sid: "sid \<in> A \<union> set (unit_outputs u)" "bind_slots (unit_outputs u) outs b sid = Some v"
    show "g_f32_contiguous g v"
      using written sid assms(6) bind_slots_other [of sid "unit_outputs u" outs b]
      by (cases "sid \<in> set (unit_outputs u)") (auto simp: plain_on_def)
  qed
  moreover have "bind_slots (unit_outputs u) outs b sid = e' sid" if "sid \<in> A \<union> set (unit_outputs u)" for sid
  proof (cases "sid \<in> set (unit_outputs u)")
    case True
    then show ?thesis using bind_slots_bound [OF len(1) True, of b e] by (auto simp: vs(3))
  next
    case False
    then show ?thesis using that assms(2) by (simp add: vs(3) bind_slots_other same_on_def)
  qed
  ultimately show ?thesis by (auto simp: same_on_def)
qed

lemma run_members_restrict:
  assumes "foldE (run_member gi) us e = Inr e'" and "same_on A b e" and "reads_first us \<subseteq> A"
    and "\<And>u. u \<in> set us \<Longrightarrow> delivers g u"
    and "\<And>u vs. u \<in> set us \<Longrightarrow> call_unit (ru_unit u) gi' vs = call_unit (ru_unit u) gi vs" and "plain_on g A b"
  shows "\<exists>b'. foldE (run_member gi') us b = Inr b' \<and> same_on (A \<union> writes us) b' e'
    \<and> (\<forall>sid\<in>writes us. \<exists>v. b' sid = Some v \<and> g_f32_contiguous g v)"
  using assms
proof (induction us arbitrary: e b A)
  case (Cons u us)
  obtain e1 where e1: "run_member gi u e = Inr e1" "foldE (run_member gi) us e1 = Inr e'"
    using Cons.prems(1) by (auto simp: bindE_Inr_iff)
  obtain b1 where b1: "run_member gi' u b = Inr b1" "same_on (A \<union> set (unit_outputs u)) b1 e1"
    "\<forall>sid\<in>set (unit_outputs u). \<exists>v. b1 sid = Some v \<and> g_f32_contiguous g v" "plain_on g (A \<union> set (unit_outputs u)) b1"
    using run_member_restrict [OF e1(1) Cons.prems(2), of g gi'] Cons.prems(3-6) by auto
  have sub: "reads_first us \<subseteq> A \<union> set (unit_outputs u)" using Cons.prems(3) by auto
  obtain b' where b': "foldE (run_member gi') us b1 = Inr b'" "same_on (A \<union> set (unit_outputs u) \<union> writes us) b' e'"
    "\<forall>sid\<in>writes us. \<exists>v. b' sid = Some v \<and> g_f32_contiguous g v"
    using Cons.IH [OF e1(2) b1(2) sub _ _ b1(4)] Cons.prems(4,5) by (meson list.set_intros(2))
  have "\<exists>v. b' sid = Some v \<and> g_f32_contiguous g v" if "sid \<in> writes (u # us)" for sid
  proof (cases "sid \<in> writes us")
    case False
    then show ?thesis using that b1(3) run_members_other [OF b'(1)] by auto
  qed (use b'(3) in blast)
  moreover have "same_on (A \<union> writes (u # us)) b' e'" using b'(2) by (simp add: Un_assoc)
  ultimately show ?case using b1(1) b'(1) by simp
qed simp

text \<open>An uploaded tensor is a new float tensor.\<close>

definition uploads_fresh :: "'t ggml \<Rightarrow> 't device \<Rightarrow> bool" where
  "uploads_fresh g dv \<longleftrightarrow> (\<forall>ne data. g_f32_contiguous g (dv_slot dv ne data))"

lemma stored_fresh: "uploads_fresh g dv \<Longrightarrow> stored dv es sid = Some v \<Longrightarrow> g_f32_contiguous g v"
  by (auto simp: uploads_fresh_def stored_def split: if_splits)

lemma group_returns:
  assumes "device_works dv" and fresh: "uploads_fresh g dv" and s: "going n s" and members: "gr_members gr = us" and ins: "set (gr_inputs gr) = reads_first us"
    and outs: "set (gr_outputs gr) \<subseteq> writes us" "\<And>sid. sid \<in> writes us \<Longrightarrow> unat sid < n"
    and run: "foldE (run_member gi) us e = Inr e'" and same: "same_on (reads_first us) (stored dv (ss_slots s)) e"
    and bound: "\<And>sid. sid \<in> reads_first us \<Longrightarrow> e sid \<noteq> None"
    and units: "\<And>u. u \<in> set us \<Longrightarrow> delivers g u"
    and agree: "\<And>u vs. u \<in> set us \<Longrightarrow>
      call_unit (ru_unit u) (group_graph_inputs dv (gr_graph_inputs gr) b packed per_sentence) vs = call_unit (ru_unit u) gi vs"
  shows "\<exists>u t. run_group g dv gr b packed per_sentence s = (Inr u, t) \<and> going n t"
proof -
  let ?uploads = "map (\<lambda>sid. the (stored dv (ss_slots s) sid)) (gr_inputs gr)"
  have here: "\<forall>sid\<in>set (gr_inputs gr). stored dv (ss_slots s) sid \<noteq> None"
    using ins same bound by (auto simp: same_on_def)
  then have "list_all2 (\<lambda>sid v. stored dv (ss_slots s) sid = Some v) (gr_inputs gr) ?uploads"
    by (auto simp: list_all2_conv_all_nth)
  note uploaded = bind_slots_values [OF this]
  have here': "same_on (reads_first us) (bind_slots (gr_inputs gr) ?uploads Map.empty) e"
    using same by (simp add: same_on_def uploaded ins)
  have "plain_on g (reads_first us) (bind_slots (gr_inputs gr) ?uploads Map.empty)"
    using stored_fresh [OF fresh] by (auto simp: plain_on_def uploaded ins)
  from run_members_restrict [OF run here' order_refl units agree this]
  obtain tensors where "foldE (run_member (group_graph_inputs dv (gr_graph_inputs gr) b packed per_sentence)) us
      (bind_slots (gr_inputs gr) ?uploads Map.empty) = Inr tensors"
    "\<forall>sid\<in>writes us. \<exists>v. tensors sid = Some v \<and> g_f32_contiguous g v" by blast
  then show ?thesis using outs by (intro run_group_returns [OF assms(1) s here]) (auto simp: members)
qed

subsection \<open>The groups of a layer return\<close>

lemma run_members_reads:
  "foldE (run_member gi) us e = Inr e' \<Longrightarrow> sid \<in> reads_first us \<Longrightarrow> e sid \<noteq> None"
proof (induction us arbitrary: e)
  case (Cons u us)
  obtain e1 where e1: "run_member gi u e = Inr e1" "foldE (run_member gi) us e1 = Inr e'"
    using Cons.prems(1) by (auto simp: bindE_Inr_iff)
  show ?case
  proof (cases "sid \<in> set (unit_inputs u)")
    case True
    then obtain v where "(case e sid of None \<Rightarrow> Inl (SlotNotBuilt (su_name (ru_unit u))) | Some v \<Rightarrow> Inr v) = Inr v"
      using e1(1) by (auto simp: run_member_def bindE_Inr_iff dest!: mapE_Inr_each)
    then show ?thesis by (cases "e sid") simp_all
  next
    case False
    then have "e1 sid \<noteq> None" "sid \<notin> set (unit_outputs u)" using Cons.IH [OF e1(2)] Cons.prems(2) by auto
    then show ?thesis using e1(1) by (auto simp: run_member_def bindE_Inr_iff bind_slots_other)
  qed
qed simp

definition serving :: "'t stream_model \<Rightarrow> stream_state \<Rightarrow> bool" where
  "serving m s \<longleftrightarrow> going (length (sm_slot_names m)) s \<and> ready (sm_mapped_size m) (sm_page_size m) (ss_residency s)"

lemma leased_returns:
  assumes s: "serving m s" and dv: "device_works dv" and advice: "advice_works advice"
    and planned: "page_align_and_coalesce raw (sm_mapped_size m) (sm_page_size m) = Inr ranges" "ranges \<noteq> []"
    and "off_residency body"
    and body: "\<And>t. going (length (sm_slot_names m)) t \<Longrightarrow> ss_slots t = ss_slots s \<Longrightarrow>
      \<exists>x u. body t = (Inr x, u) \<and> going (length (sm_slot_names m)) u"
  shows "\<exists>x t. bindM (new_graph_context dv) (\<lambda>_. with_lease advice key ranges token_rows body) s = (Inr x, t) \<and> serving m t"
proof -
  let ?n = "length (sm_slot_names m)"
  have "going ?n s" using s by (simp add: serving_def)
  from smoothE [OF smooth_graphs(1) [OF dv] this]
  obtain v s1 where s1: "new_graph_context dv s = (Inr v, s1)" "going ?n s1" "ss_slots s1 = ss_slots s" by blast
  have "ss_residency s1 = ss_residency s"
    using off_graphs(1) [of dv] s1(1) unfolding off_residency_def by (metis snd_conv)
  then have r: "ready (sm_mapped_size m) (sm_page_size m) (ss_residency s1)" using s by (simp add: serving_def)
  have b: "\<exists>x t. body (s1\<lparr>ss_residency := c\<rparr>) = (Inr x, t) \<and> (ss_countdown t < 0 \<and> length (ss_slots t) = ?n)" for c
    using body [of "s1\<lparr>ss_residency := c\<rparr>"] s1(2,3) by (auto simp: going_def)
  obtain x t where "with_lease advice key ranges token_rows body s1 = (Inr x, t)" "ss_countdown t < 0 \<and> length (ss_slots t) = ?n"
    "ready (sm_mapped_size m) (sm_page_size m) (ss_residency t)"
    using with_lease_returns [OF r planned advice assms(6), of "\<lambda>es k. k < 0 \<and> length es = ?n"] b by blast
  then show ?thesis using s1(1) by (auto simp: bindM_run serving_def going_def)
qed

lemma group_phase_returns:
  assumes "serving m s" and "device_works dv" and "advice_works advice"
    and "page_align_and_coalesce raw (sm_mapped_size m) (sm_page_size m) = Inr (gr_ranges gr)" "gr_ranges gr \<noteq> []"
    and "\<And>t. going (length (sm_slot_names m)) t \<Longrightarrow> ss_slots t = ss_slots s \<Longrightarrow>
      \<exists>x u. run_group g dv gr b packed per_sentence t = (Inr x, u) \<and> going (length (sm_slot_names m)) u"
  shows "\<exists>u t. group_phase g dv advice b packed per_sentence gr s = (Inr u, t) \<and> serving m t"
  using leased_returns [OF assms(1-5) off_bodies(1) assms(6)] by (simp add: group_phase_def)

definition leasable :: "'t stream_model \<Rightarrow> 't resolved_group \<Rightarrow> bool" where
  "leasable m gr \<longleftrightarrow> gr_ranges gr \<noteq> []
     \<and> (\<exists>raw. page_align_and_coalesce raw (sm_mapped_size m) (sm_page_size m) = Inr (gr_ranges gr))"

lemma groups_return:
  assumes "resolve_runs us ns out = Inr gs" and "sum_list ns = length us"
    and "list_all2 group_resolved (zip (chop ns us) gs) groups"
    and dv: "device_works dv" and advice: "advice_works advice" and faithful: "slots_faithful g dv" and fresh: "uploads_fresh g dv"
    and "\<And>gr u vs. gr \<in> set groups \<Longrightarrow> u \<in> set (gr_members gr) \<Longrightarrow>
      call_unit (ru_unit u) (group_graph_inputs dv (gr_graph_inputs gr) b packed per_sentence) vs = call_unit (ru_unit u) gi vs"
    and "\<And>gr. gr \<in> set groups \<Longrightarrow> leasable m gr"
    and "\<And>u. u \<in> set us \<Longrightarrow> delivers g u" and "\<And>sid. sid \<in> writes us \<Longrightarrow> unat sid < length (sm_slot_names m)"
    and "same_on (live us out) (stored dv (ss_slots s)) e" and "foldE (run_member gi) us e = Inr e'" and "serving m s"
  shows "\<exists>u t. forM groups (group_phase g dv advice b packed per_sentence) s = (Inr u, t) \<and> serving m t"
  using assms(1-3,8-14)
proof (induction ns arbitrary: us gs groups s e)
  case Nil
  then show ?case by simp
next
  case (Cons n ns)
  let ?run = "take n us" and ?later = "drop n us"
  obtain gs' where gs: "resolve_runs ?later ns out = Inr gs'"
    "gs = \<lparr>group_inputs = run_inputs [] ?run [], group_outputs = run_outputs ?run ?later out\<rparr> # gs'"
    using Cons.prems(1) by (auto simp: throwing Let_def split: if_splits)
  then obtain gr groups' where gr: "groups = gr # groups'" "gr_members gr = ?run"
    "gr_inputs gr = run_inputs [] ?run []" "gr_outputs gr = run_outputs ?run ?later out"
    "list_all2 group_resolved (zip (chop ns ?later) gs') groups'"
    using Cons.prems(3) by (auto simp: list_all2_Cons1 group_resolved_def)
  have ins: "set (gr_inputs gr) = reads_first ?run" by (simp only: gr(3) run_inputs_set) simp
  have outs: "set (gr_outputs gr) = writes ?run \<inter> live ?later out" by (simp only: gr(4) run_outputs_set)
  have "bindE (foldE (run_member gi) ?run e) (foldE (run_member gi) ?later) = Inr e'"
    using Cons.prems(9) foldE_append [of "run_member gi" ?run ?later e] by simp
  then obtain e1 where e1: "foldE (run_member gi) ?run e = Inr e1" "foldE (run_member gi) ?later e1 = Inr e'"
    by (auto simp: bindE_Inr_iff)
  have members: "u \<in> set us" if "u \<in> set ?run \<or> u \<in> set ?later" for u using that by (auto dest: in_set_takeD in_set_dropD)
  have agree: "call_unit (ru_unit u) (group_graph_inputs dv (gr_graph_inputs gr) b packed per_sentence) vs = call_unit (ru_unit u) gi vs"
    if "u \<in> set ?run" for u vs
    using Cons.prems(4) that by (simp add: gr)
  have range: "unat sid < length (sm_slot_names m)" if "sid \<in> writes ?run" for sid
    using Cons.prems(7) [of sid] that members by (auto simp: writes_def)
  have same: "same_on (live (?run @ ?later) out) (stored dv (ss_slots s)) e" using Cons.prems(8) by simp
  then have same_run: "same_on (reads_first ?run) (stored dv (ss_slots s)) e"
    using reads_first_live [of ?run ?later out] unfolding same_on_def by blast
  obtain raw where lease: "page_align_and_coalesce raw (sm_mapped_size m) (sm_page_size m) = Inr (gr_ranges gr)" "gr_ranges gr \<noteq> []"
    using Cons.prems(5) [of gr] by (auto simp: gr(1) leasable_def)
  have body: "\<exists>x u. run_group g dv gr b packed per_sentence t = (Inr x, u) \<and> going (length (sm_slot_names m)) u"
    if t: "going (length (sm_slot_names m)) t" "ss_slots t = ss_slots s" for t
  proof (rule group_returns [OF dv fresh t(1) gr(2) ins _ range e1(1) _ _ _ agree])
    show "set (gr_outputs gr) \<subseteq> writes ?run" using outs by blast
    show "same_on (reads_first ?run) (stored dv (ss_slots t)) e" using same_run by (simp add: t(2))
    show "e sid \<noteq> None" if "sid \<in> reads_first ?run" for sid using run_members_reads [OF e1(1) that] .
    show "delivers g u" if "u \<in> set ?run" for u using Cons.prems(6) members that by blast
  qed
  obtain v s1 where s1: "group_phase g dv advice b packed per_sentence gr s = (Inr v, s1)" "serving m s1"
    using group_phase_returns [OF Cons.prems(10) dv advice lease body] by blast
  obtain s0 t0 where phase: "run_group g dv gr b packed per_sentence s0 = (Inr v, t0)"
    "ss_slots s0 = ss_slots s" "ss_slots s1 = ss_slots t0"
    using group_phase_Inr [OF s1(1)] by blast
  have "\<exists>e'. foldE (run_member gi) ?run e = Inr e' \<and> same_on (live ?later out) (stored dv (ss_slots t0)) e' \<and> ss_out t0 = ss_out s0"
  proof (rule group_step [OF phase(1) faithful gr(2) _ outs _ agree])
    show "set (gr_inputs gr) \<subseteq> live (?run @ ?later) out" using reads_first_live [of ?run ?later out] ins by simp
    show "same_on (live (?run @ ?later) out) (stored dv (ss_slots s0)) e" using same by (simp add: phase(2))
  qed
  then have after: "same_on (live ?later out) (stored dv (ss_slots s1)) e1" using e1(1) by (simp add: phase(3))
  have "sum_list ns = length ?later" using Cons.prems(2) by simp
  moreover have "unat sid < length (sm_slot_names m)" if "sid \<in> writes ?later" for sid
    using Cons.prems(7) [of sid] that members by (auto simp: writes_def)
  moreover have "delivers g u" if "u \<in> set ?later" for u using Cons.prems(6) members that by blast
  ultimately have "\<exists>u t. forM groups' (group_phase g dv advice b packed per_sentence) s1 = (Inr u, t) \<and> serving m t"
    by (intro Cons.IH [OF gs(1) _ gr(5) _ _ _ _ after e1(2) s1(2)]) (use Cons.prems(4,5) in \<open>auto simp: gr(1)\<close>)
  then show ?case by (auto simp: gr(1) bindM_run s1(1))
qed

subsection \<open>A layer, and all of them\<close>

lemma run_member_from_names:
  assumes "unit_resolved names u r" and "names_ok names" and "apply_unit gi u (\<lambda>n. e (slot_of names n)) = Inr env"
  shows "\<exists>e'. run_member gi r e = Inr e' \<and> env = (\<lambda>n. e' (slot_of names n))"
proof -
  have r: "ru_unit r = u" "unit_inputs r = map (slot_of names) (su_inputs u)" using assms(1) by (auto simp: unit_resolved_def)
  obtain vs outs where "mapE (\<lambda>n. case e (slot_of names n) of None \<Rightarrow> Inl (SlotNotBuilt (su_name u)) | Some v \<Rightarrow> Inr v) (su_inputs u) = Inr vs"
    "call_unit u gi vs = Inr outs"
    using assms(3) by (auto simp: apply_unit_def bindE_Inr_iff)
  then have "run_member gi r e = Inr (bind_slots (unit_outputs r) outs e)" unfolding run_member_def r mapE_map by simp
  from this run_member_names [OF assms(1,2) this] assms(3) show ?thesis by auto
qed

lemma run_members_from_names:
  assumes "list_all2 (unit_resolved names) us rs" and "names_ok names"
    and "apply_units gi us (\<lambda>n. e (slot_of names n)) = Inr env"
  shows "\<exists>e'. foldE (run_member gi) rs e = Inr e'"
  using assms(1,3)
proof (induction arbitrary: e rule: list_all2_induct)
  case (Cons u us r rs)
  then obtain env1 where env1: "apply_unit gi u (\<lambda>n. e (slot_of names n)) = Inr env1" "apply_units gi us env1 = Inr env"
    by (auto simp: bindE_Inr_iff)
  obtain e1 where e1: "run_member gi r e = Inr e1" "env1 = (\<lambda>n. e1 (slot_of names n))"
    using run_member_from_names [OF Cons.hyps(1) assms(2) env1(1)] by blast
  with Cons.IH [of e1] env1(2) show ?case by simp
qed simp

subsection \<open>What the units hand on\<close>

text \<open>
  A permuted tensor or a view cannot be downloaded, so it must not be the output of a unit. In
  both families it is not: every output ends in an operation that allocates its result, and the
  embedding phase begins with a row lookup, which does unless the token table holds \<open>int32\<close>.
\<close>

definition float_table :: "'t ggml \<Rightarrow> 't model_arch \<Rightarrow> bool" where
  "float_table g a \<longleftrightarrow> (case a of BertModel m \<Rightarrow> \<not> g_i32 g (ew_tok (bm_embed_w m))
     | GemmaModel m \<Rightarrow> \<not> g_i32 g (gemma_tok_embed m))"

lemma linear_fresh: "fresh_results g \<Longrightarrow> g_f32_contiguous g (build_linear g w x)"
  by (simp add: build_linear_def Let_def fresh_simps)

lemma builders_fresh:
  assumes "fresh_results g"
  shows "g_f32_contiguous g x \<Longrightarrow> g_f32_contiguous g (build_rms_norm g x w eps)"
    and "\<not> g_i32 g t \<Longrightarrow> g_f32_contiguous g (embed_rows g t ids)"
    and "g_f32_contiguous g (proj_q (build_attention_projections g x aw))"
    and "g_f32_contiguous g (proj_k (build_attention_projections g x aw))"
    and "g_f32_contiguous g (proj_v (build_attention_projections g x aw))"
    and "g_f32_contiguous g x \<Longrightarrow> g_f32_contiguous g (build_attention_output g pr x mk n aw eps)"
    and "g_f32_contiguous g (build_ffn_up g x fw)"
    and "g_f32_contiguous g (build_ffn_down g h x fw eps)"
    and "g_f32_contiguous g (proj_q (build_gqa_projections g x qw))"
    and "g_f32_contiguous g (proj_k (build_gqa_projections g x qw))"
    and "g_f32_contiguous g (proj_v (build_gqa_projections g x qw))"
    and "g_f32_contiguous g (build_gated_ffn_gate_up g x dw act)"
    and "g_f32_contiguous g (build_gated_ffn_down g h dw)"
  using fresh_simps [OF assms] linear_fresh [OF assms]
  by (simp_all add: build_rms_norm_def embed_rows_def build_attention_projections_def build_attention_output_def
      build_ffn_up_def build_ffn_down_def build_gqa_projections_def build_gated_ffn_gate_up_def
      build_gated_ffn_down_def Let_def split: gate_activation.split)

lemma gqa_core_fresh:
  assumes "fresh_results g" and "build_gqa_attention_core g pr pos mk w p lens offs n = Inr y"
  shows "g_f32_contiguous g y"
  using assms(2) linear_fresh [OF assms(1)]
  by (auto simp: build_gqa_attention_core_def Let_def bindE_Inr_iff split: if_splits)

lemma embedding_fresh:
  assumes "fresh_results g" and "float_table g a" and "arch_embedding_phase g a gi = Inr x"
  shows "g_f32_contiguous g x"
proof (cases a)
  case (BertModel m)
  then show ?thesis using assms(2,3) fresh_simps [OF assms(1)] builders_fresh(2) [OF assms(1)]
    by (auto simp: float_table_def arch_embedding_phase_def bert_embedding_phase_def build_embed_layer_def Let_def
        split: option.splits)
next
  case (GemmaModel m)
  then show ?thesis using assms(2,3) fresh_simps [OF assms(1)]
    by (auto simp: float_table_def arch_embedding_phase_def gemma_embedding_phase_def gemma_embeddings_def Let_def
        split: option.splits if_splits)
qed

lemma units_fresh:
  assumes "fresh_results g" and plan: "arch_streaming_units g a l = Inr plan" and u: "u \<in> set (lp_units plan)"
    and run: "call_unit u gi vs = Inr outs" and vs: "list_all (g_f32_contiguous g) vs"
  shows "list_all (g_f32_contiguous g) outs"
proof -
  have at: "i < length vs \<Longrightarrow> g_f32_contiguous g (vs ! i)" for i using vs by (simp add: list_all_length)
  note fresh = fresh_simps [OF assms(1)] builders_fresh [OF assms(1)] gqa_core_fresh [OF assms(1)]
  show ?thesis
  proof (cases a)
    case (BertModel m)
    have "u \<in> {bert_attn_qkv g m l, bert_attn_out g m l, bert_ffn_up g m l, bert_ffn_down g m l}"
      using plan u BertModel by (auto simp: arch_streaming_units_def bert_streaming_units_def split: if_splits)
    then show ?thesis using run at fresh
      by (auto simp: bert_unit_defs slot_table_defs bindE_Inr_iff split: if_splits)
  next
    case (GemmaModel m)
    have "u \<in> set (gemma_units g m l)"
      using plan u GemmaModel by (auto simp: arch_streaming_units_def gemma_streaming_units_def split: if_splits)
    then show ?thesis using run at fresh
      by (auto simp: gemma_unit_defs slot_table_defs bindE_Inr_iff forwardE_def map_sum_def split: if_splits sum.splits)
  qed
qed

lemma unit_outputs_all:
  assumes "arch_streaming_units g a l = Inr plan" and "u \<in> set (lp_units plan)" and "call_unit u gi vs = Inr outs"
  shows "length outs = length (su_outputs u)"
proof (cases a)
  case (BertModel m)
  then show ?thesis using assms
    by (auto simp: arch_streaming_units_def bert_streaming_units_def bert_unit_defs slot_table_defs bindE_Inr_iff split: if_splits)
next
  case (GemmaModel m)
  then show ?thesis using assms
    by (auto simp: arch_streaming_units_def gemma_streaming_units_def gemma_unit_defs slot_table_defs bindE_Inr_iff split: if_splits)
qed

lemma layer_returns:
  assumes plan: "arch_streaming_units g a l = Inr plan" and layer: "layer_resolved (sm_slot_names m) plan layer"
    and names: "names_ok (sm_slot_names m)"
    and dv: "device_works dv" "advice_works advice" "slots_faithful g dv" "uploads_fresh g dv" and "fresh_results g"
    and flags: "per_sentence \<longleftrightarrow> padded b \<and> layout \<noteq> LayoutPadded \<and> consumes_seq_lengths (arch_inputs a)"
      "packed \<longleftrightarrow> per_sentence \<and> consumes_packed_batch (arch_inputs a)"
    and x: "stored dv (ss_slots s) (slot_of (sm_slot_names m) ''x'') = Some x"
    and leases: "\<And>gr. gr \<in> set (rl_groups layer) \<Longrightarrow> leasable m gr"
    and y: "arch_block g a (eager_inputs dv (arch_inputs a) layout b) l x = Inr y" and "serving m s"
  shows "\<exists>u t. forM (rl_groups layer) (group_phase g dv advice b packed per_sentence) s = (Inr u, t) \<and> serving m t"
proof -
  let ?gi = "eager_inputs dv (arch_inputs a) layout b" and ?names = "sm_slot_names m"
  have l: "0 \<le> l" "l < ap_n_layer (arch_params_of a)" using model.units_outside [of l a g] plan by force+
  then have out: "lp_output_slot plan = ''x''" using model.units_inside [of l a g] plan by auto
  obtain runs exchanged where r: "resolve_group_slots (rl_units layer) runs (slot_of ?names ''x'') = Inr exchanged"
    "list_all2 group_resolved (zip (chop runs (rl_units layer)) exchanged) (rl_groups layer)"
    and units: "list_all2 (unit_resolved ?names) (lp_units plan) (rl_units layer)"
    using layer out by (auto simp: layer_resolved_def)
  note res = resolve_group_slots_Inr [OF r(1)]
  have declared: "ru_unit v \<in> set (lp_units plan) \<and> unit_resolved ?names (ru_unit v) v" if v: "v \<in> set (rl_units layer)" for v
    using list_all2_right [OF units v] by (auto simp: unit_resolved_def)
  obtain env where "apply_units ?gi (lp_units plan) (\<lambda>n. stored dv (ss_slots s) (slot_of ?names n)) = Inr env"
    using model.units_block [OF l plan, of "\<lambda>n. stored dv (ss_slots s) (slot_of ?names n)" x ?gi] x y by auto
  then obtain e' where e': "foldE (run_member ?gi) (rl_units layer) (stored dv (ss_slots s)) = Inr e'"
    using run_members_from_names [OF units names] by blast
  show ?thesis
  proof (rule groups_return [OF res(3,1) r(2) dv _ leases _ _ _ e' assms(14)])
    show "call_unit (ru_unit v) (group_graph_inputs dv (gr_graph_inputs gr) b packed per_sentence) vs = call_unit (ru_unit v) ?gi vs"
      if gr: "gr \<in> set (rl_groups layer)" "v \<in> set (gr_members gr)" for gr v vs
      by (rule layer_agrees [OF plan layer flags gr])
    show "delivers g v" if v: "v \<in> set (rl_units layer)" for v
    proof -
      note u = declared [OF v]
      have "length outs = length (unit_outputs v) \<and> list_all (g_f32_contiguous g) outs"
        if c: "call_unit (ru_unit v) gi vs = Inr outs" "list_all (g_f32_contiguous g) vs" for gi vs outs
        using unit_outputs_all [OF plan _ c(1)] units_fresh [OF assms(8) plan _ c] u
        unfolding unit_resolved_def by (metis length_map)
      then show ?thesis by (simp add: delivers_def)
    qed
    show "unat sid < length ?names" if sid: "sid \<in> writes (rl_units layer)" for sid
    proof -
      obtain v where v: "v \<in> set (rl_units layer)" "sid \<in> set (unit_outputs v)" using sid by (auto simp: writes_def)
      then obtain n where "sid = slot_of ?names n" "n \<in> set ?names" using declared [OF v(1)] by (auto simp: unit_resolved_def)
      then show ?thesis using slot_of_in_range(1) [OF names] by simp
    qed
    show "same_on (live (rl_units layer) (slot_of ?names ''x'')) (stored dv (ss_slots s)) (stored dv (ss_slots s))"
      by (simp add: same_on_def)
  qed
qed

end
