(* ===== verification/StreamReturn.thy ===== *)
theory StreamReturn
  imports StreamServe
begin

text \<open>
  The phases around the layers return, and with them a whole call: every batch the eager runner
  serves is served by streaming too.
\<close>

subsection \<open>Every group has ranges to lease\<close>

lemma page_align_nonempty:
  assumes "page_align_and_coalesce raw m p = Inr out" and "raw \<noteq> []"
  shows "out \<noteq> []"
proof
  assume "out = []"
  obtain r where r: "r \<in> set raw" "in_file m r" using assms page_align_Inr [OF assms(1)] by (cases raw) auto
  then have "unat (offset r) \<in> cover raw" "unat (offset r) < unat m"
    using unat_gt_0 [of "len r"] by (auto simp: cover_def bytes_of_def in_file_def fin_of_def)
  then have "unat (offset r) \<in> cover out"
    unfolding planned_if_page_align(4) [OF assms(1)] by (auto simp: page_closure_def)
  then show False by (simp add: \<open>out = []\<close>)
qed

lemma chop_nonempty: "sum_list ns = length xs \<Longrightarrow> 0 \<notin> set ns \<Longrightarrow> b \<in> set (chop ns xs) \<Longrightarrow> b \<noteq> []"
proof (induction ns arbitrary: xs)
  case (Cons n ns)
  then have len: "sum_list ns = length (drop n xs)" by simp
  show ?case using Cons.IH [OF len] Cons.prems(2,3) \<open>sum_list (n # ns) = length xs\<close> by auto
qed simp

lemma units_have_weights:
  assumes "arch_streaming_units g a l = Inr plan" and "u \<in> set (lp_units plan)"
  shows "su_weights u \<noteq> []"
  using assms by (cases a) (auto simp: arch_streaming_units_def bert_streaming_units_def bert_unit_defs
      gemma_streaming_units_def gemma_unit_defs split: if_splits)

lemma resolve_units_each:
  "mapM (resolve_unit infos key) us s = (Inr rs, t) \<Longrightarrow> r \<in> set rs \<Longrightarrow>
   \<exists>u\<in>set us. ru_raw_ranges r = map (range_of \<circ> info_named infos) (su_weights u)"
proof (induction us arbitrary: s rs)
  case (Cons u us)
  then obtain r0 s1 rest where run: "resolve_unit infos key u s = (Inr r0, s1)" "mapM (resolve_unit infos key) us s1 = (Inr rest, t)"
    "rs = r0 # rest"
    by (auto simp: bindM_Inr_iff)
  then show ?case using Cons.IH [OF run(2)] Cons.prems(2) resolve_unit_ranges [OF run(1)] by auto
qed simp

lemma resolve_layer_nonempty:
  assumes "resolve_layer g a infos mapped page preset l previous s = (Inr (layer, rs, out), t)" and "gr \<in> set (rl_groups layer)"
  shows "gr_ranges gr \<noteq> []"
proof -
  obtain plan units runs outslot exchanged groups s2 where run: "arch_streaming_units g a (int l) = Inr plan"
    "mapM (resolve_unit infos (''layer:'' @ nat_digits l)) (lp_units plan) s2 = (Inr units, t)"
    "resolve_group_slots units runs outslot = Inr exchanged"
    "make_groups (''layer:'' @ nat_digits l) mapped page units runs exchanged = Inr groups" "rl_groups layer = groups"
    using assms(1) unfolding resolve_layer_def Let_def bindM_Inr_iff liftM_Inr_iff
    by (clarsimp simp: bindM_Inr_iff liftM_Inr_iff simp del: nat_digits.simps split: if_split_asm)
  obtain members gs where p: "(members, gs) \<in> set (zip (chop runs units) exchanged)"
    "make_group (''layer:'' @ nat_digits l) mapped page members gs = Inr gr"
    using mapE_Inr_from [OF run(4) [unfolded make_groups_def], of gr] assms(2) run(5) by (auto simp del: nat_digits.simps split: prod.splits)
  have "members \<in> set (chop runs units)" using p(1) by (rule set_zip_leftD)
  then obtain v where v: "v \<in> set members" "v \<in> set units"
    using chop_nonempty [OF resolve_group_slots_Inr(1,2) [OF run(3)]] set_chop by (metis last_in_set subsetD)
  have "ru_raw_ranges v \<noteq> []" using resolve_units_each [OF run(2) v(2)] units_have_weights [OF run(1)] by auto
  then have "concat (map ru_raw_ranges members) \<noteq> []" using v(1) by auto
  note nonempty = page_align_nonempty [OF _ this]
  show ?thesis using p(2) nonempty
    by (cases "page_align_and_coalesce (concat (map ru_raw_ranges members)) mapped page") (auto simp: make_group_def Let_def)
qed

lemma resolve_layers_nonempty:
  "resolve_layers g a infos mapped page preset ls previous s = (Inr layers, t) \<Longrightarrow> layer \<in> set (map fst layers) \<Longrightarrow>
   gr \<in> set (rl_groups layer) \<Longrightarrow> gr_ranges gr \<noteq> []"
proof (induction ls arbitrary: previous s layers)
  case (Cons l ls)
  then obtain l0 rs out s1 rest where
    run: "resolve_layer g a infos mapped page preset l previous s = (Inr (l0, rs, out), s1)"
      "resolve_layers g a infos mapped page preset ls (Some out) s1 = (Inr rest, t)" "layers = (l0, rs) # rest"
    by (auto simp: bindM_Inr_iff)
  then show ?case using Cons.IH [OF run(2)] Cons.prems(2,3) resolve_layer_nonempty [OF run(1)] by auto
qed simp

lemma created_leasable:
  assumes "create_streaming g em infos mapped page env advice = Inr (m, c)"
    and "layer \<in> set (sm_layers m)" and "gr \<in> set (rl_groups layer)"
  shows "leasable m gr"
proof -
  obtain ranges t where r: "resolve_model g em infos mapped page env \<lparr>slot_names = [], owner = []\<rparr> = (Inr (m, ranges), t)"
    using create_streaming_Inr [OF assms(1)] by blast
  obtain layers s2 s3 where "resolve_layers g (em_arch em) infos mapped page (preset_of env) [0 ..< nat (ap_n_layer (em_params em))] None s2 = (Inr layers, s3)"
    "sm_layers m = map fst layers"
    using r unfolding resolve_model_def Let_def preset_of_def [symmetric] em_params_def [symmetric]
    by (auto simp: bindM_Inr_iff liftM_Inr_iff split: if_splits)
  then have "gr_ranges gr \<noteq> []" using resolve_layers_nonempty assms(2,3) by metis
  moreover have "leases_planned m" using create_streaming_inv(3) [OF assms(1)] .
  ultimately show ?thesis using assms(2,3) by (auto simp: leasable_def leases_planned_def)
qed

text \<open>A fresh coordinator is ready.\<close>

lemma created_ready:
  assumes "create_streaming g em infos mapped page env advice = Inr (m, c)"
  shows "ready mapped page c"
proof -
  obtain ranges t where r: "resolve_model g em infos mapped page env \<lparr>slot_names = [], owner = []\<rparr> = (Inr (m, ranges), t)"
    "start_residency advice m ranges = Inr c"
    using create_streaming_Inr [OF assms] by blast
  note new = create_streaming_inv [OF assms]
  obtain c0 token c1 where c0: "new_coordinator mapped page (Some advice) = Inr c0"
    and token: "page_align_and_coalesce [range_of (sm_token m)] mapped page = Inr token"
    and c1: "set_classification (sm_common_ranges m) token ranges c0 = (Inr (), c1)"
    and c: "retain_common advice (sm_common_ranges m) c1 = (Inr (), c)"
    using r(2) unfolding start_residency_def bindE_Inr_iff mapped_Inr ran_Inr new(4,5) by (auto simp: bindM_Inr_iff)
  obtain raw where raw: "page_align_and_coalesce raw mapped page = Inr (sm_common_ranges m)"
    using r(1) unfolding resolve_model_def Let_def by (auto simp: bindM_Inr_iff liftM_Inr_iff split: if_splits)
  note frame = set_classification_frame [OF c1]
  have geometry: "planner_geometry (mapped, page)" by (rule planned_if_page_align(1) [OF token])
  have "coordinator_inv mapped page c0" using initial_inv [OF c0 geometry] by (simp add: program_inv_def)
  then have inv: "coordinator_inv mapped page c1" using coordinator_inv_cong frame by blast
  have "\<not> poisoned (diag c0)" using c0 by (auto simp: new_coordinator_def initial_diagnostics_def)
  then have ok: "\<not> poisoned (diag c1)" using frame by (simp add: lease_books_def)
  have "mapping_size c1 = mapped \<and> page_size c1 = page" using inv by (simp add: coordinator_inv_def ranges_inv_def)
  then show ?thesis using retain_common_inv [OF inv _ c, of raw] raw ok new(1,2) by (simp add: ready_def)
qed

subsection \<open>The embedding phase\<close>

definition table_fits :: "tensor_info \<Rightarrow> bool" where
  "table_fits i \<longleftrightarrow> 0 < ti_row_count i \<and> ti_row_count i < 2 ^ 63 \<and> ti_row_stride i \<noteq> 0
     \<and> nat (ti_row_count i) * unat (ti_row_stride i) \<le> unat (ti_nbytes i)"

definition ids_in_table :: "int \<Rightarrow> int list \<Rightarrow> bool" where
  "ids_in_table rows ids \<longleftrightarrow> ids \<noteq> [] \<and> list_all (\<lambda>i. 0 \<le> i \<and> i < rows) ids"

lemma token_rows_return:
  assumes "table_fits i" and "in_file mapped (range_of i)" and "is_power_of_two page" and "ids_in_table (ti_row_count i) ids"
  shows "\<exists>rows raw. token_row_ranges (ti_absolute_offset i) (ti_nbytes i) (ti_row_stride i) (ti_row_count i) ids mapped page = Inr rows
    \<and> rows \<noteq> [] \<and> page_align_and_coalesce raw mapped page = Inr rows"
proof -
  let ?off = "unat (ti_absolute_offset i)" and ?stride = "unat (ti_row_stride i)"
  have ids: "ids \<noteq> []" "\<forall>t\<in>set ids. 0 \<le> t \<and> t < ti_row_count i" using assms(4) by (simp_all add: ids_in_table_def list_all_iff)
  have fits: "0 < ti_row_count i" "ti_row_count i < 2 ^ 63" "ti_row_stride i \<noteq> 0" "nat (ti_row_count i) * ?stride \<le> unat (ti_nbytes i)"
    "?off + unat (ti_nbytes i) \<le> unat mapped"
    using assms(1,2) by (simp_all add: table_fits_def in_file_def range_of_def fin_of_def)
  obtain rows where rows: "token_row_ranges (ti_absolute_offset i) (ti_nbytes i) (ti_row_stride i) (ti_row_count i) ids mapped page = Inr rows"
    "cover rows = page_closure (unat page) (unat mapped) (\<Union>t\<in>set ids. row_bytes ?off ?stride t)"
    using token_row_ranges_exact [OF fits assms(3) ids(1)] ids(2) by auto
  obtain t where t: "t \<in> set ids" using ids(1) by (cases ids) auto
  have "nat t < nat (ti_row_count i)" using ids(2) t fits(1) by auto
  then have "nat t * ?stride + ?stride \<le> unat (ti_nbytes i)"
    using fits(4) by (metis Suc_leI add.commute le_trans mult_Suc mult_le_mono1)
  moreover have "0 < ?stride" using fits(3) by (simp add: unat_gt_0)
  ultimately have "?off + nat t * ?stride \<in> row_bytes ?off ?stride t" "?off + nat t * ?stride < unat mapped"
    using fits(5) by (simp_all add: row_bytes_def)
  then have "?off + nat t * ?stride \<in> cover rows" unfolding rows(2) page_closure_def using t by blast
  then have "rows \<noteq> []" by auto
  moreover have "\<exists>raw. page_align_and_coalesce raw mapped page = Inr rows"
    using rows(1) by (auto simp: token_row_ranges_def Let_def bindE_Inr_iff split: if_splits prod.splits)
  ultimately show ?thesis using rows(1) by blast
qed

lemma embedding_body_returns:
  assumes dv: "device_works dv" and s: "going n s" and slot: "unat (entry_slot m) < n"
    and x: "arch_embedding_phase g (em_arch (sm_embedder m))
        (embedding_graph_inputs dv (arch_embedding_inputs (em_arch (sm_embedder m))) b packed) = Inr x" "g_f32_contiguous g x"
  shows "\<exists>u t. embedding_body g dv m b packed s = (Inr u, t) \<and> going n t"
proof -
  let ?gi = "embedding_graph_inputs dv (arch_embedding_inputs (em_arch (sm_embedder m))) b packed"
  define quiet_part where "quiet_part = bindM (allocate dv [x] ''embedding'') (\<lambda>_.
      bindM (set_tensor dv ''token_ids'') (\<lambda>_.
      bindM (set_if dv (gi_learned_pos_ids ?gi) ''learned_position_ids'') (\<lambda>_.
      bindM (set_if dv (gi_rope_pos_ids ?gi) ''rope_position_ids'') (\<lambda>_.
      bindM (set_if dv (gi_type_ids ?gi) ''type_ids'') (\<lambda>_. compute_graph dv ''embedding'')))))"
  have "smooth n quiet_part" unfolding quiet_part_def using dv by (intro smoothly)
  from smoothE [OF this s] obtain v s1 where s1: "quiet_part s = (Inr v, s1)" "going n s1" by blast
  obtain w s2 where s2: "download g dv (entry_slot m) x s1 = (Inr w, s2)" "going n s2"
    using download_returns [where g = g and dv = dv, OF s1(2) x(2) slot] by blast
  from smoothE [OF smooth_count_copy [OF slot] s2(2)]
  obtain u t where t: "count_slot_copy (entry_slot m) s2 = (Inr u, t)" "going n t" by blast
  have "embedding_body g dv m b packed s = bindM quiet_part (\<lambda>_. bindM (download g dv (entry_slot m) x) (\<lambda>_. count_slot_copy (entry_slot m))) s"
    unfolding embedding_body_def Let_def quiet_part_def by (simp add: x(1) bindM_run split: prod.split sum.split)
  then show ?thesis using t by (simp add: bindM_run s1(1) s2(1))
qed

lemma embedding_phase_returns:
  assumes s: "serving m s" and dv: "device_works dv" "advice_works advice" and slot: "unat (entry_slot m) < length (sm_slot_names m)"
    and x: "arch_embedding_phase g (em_arch (sm_embedder m))
        (embedding_graph_inputs dv (arch_embedding_inputs (em_arch (sm_embedder m))) b packed) = Inr x" "g_f32_contiguous g x"
    and table: "table_fits (sm_token m)" "in_file (sm_mapped_size m) (range_of (sm_token m))" "is_power_of_two (sm_page_size m)"
      "ids_in_table (ti_row_count (sm_token m)) (token_ids b)"
  shows "\<exists>u t. embedding_phase g dv advice m b packed s = (Inr u, t) \<and> serving m t"
proof -
  obtain rows raw where rows: "token_row_ranges (ti_absolute_offset (sm_token m)) (ti_nbytes (sm_token m))
       (ti_row_stride (sm_token m)) (ti_row_count (sm_token m)) (token_ids b) (sm_mapped_size m) (sm_page_size m) = Inr rows"
    "rows \<noteq> []" "page_align_and_coalesce raw (sm_mapped_size m) (sm_page_size m) = Inr rows"
    using token_rows_return [OF table] by blast
  have "embedding_phase g dv advice m b packed s
      = bindM (new_graph_context dv) (\<lambda>_. with_lease advice ''token'' rows True (embedding_body g dv m b packed)) s"
    unfolding embedding_phase_def rows(1) by (simp add: bindM_run split: prod.split sum.split)
  then show ?thesis
    using leased_returns [OF s dv rows(3,2) off_bodies(2) embedding_body_returns [OF dv(1) _ slot x], where key = "''token''" and token_rows = True] by simp
qed

subsection \<open>The final phase\<close>

lemma final_phase_returns:
  assumes s: "serving m s" and dv: "device_works dv" and slot: "unat (exit_slot m) < length (sm_slot_names m)"
    and x: "stored dv (ss_slots s) (exit_slot m) = Some x"
    and pool: "eager_pool g dv (ec_pooling cfg) packed b (arch_final_phase g (em_arch (sm_embedder m)) x) = Inr out"
  shows "\<exists>floats t. final_phase g dv m cfg b packed n s = (Inr floats, t) \<and> serving m t"
proof -
  let ?n = "length (sm_slot_names m)"
  define pi :: "'a pool_inputs" where "pi = (if packed then \<lparr>pi_valid_mask = None, pi_mean_scale = None, pi_last_indices = None\<rparr>
    else pool_inputs_of dv (ec_pooling cfg) b)"
  define quiet_part where "quiet_part v = bindM (allocate dv [v] ''final'') (\<lambda>_.
      bindM (set_tensor dv ''final_activation'') (\<lambda>_.
      bindM (count_slot_copy (exit_slot m)) (\<lambda>_.
      bindM (set_if dv (pi_valid_mask pi) ''pool_valid_mask'') (\<lambda>_.
      bindM (set_if dv (pi_mean_scale pi) ''pool_mean_scale'') (\<lambda>_.
      bindM (set_if dv (pi_last_indices pi) ''pool_last_indices'') (\<lambda>_.
      bindM (compute_graph dv ''final'') (\<lambda>_.
      bindM (add_copied (word_of_nat (n * 4))) (\<lambda>_. retM (dv_read dv v n)))))))))" for v
  have smooth: "smooth ?n (quiet_part v)" for v unfolding quiet_part_def using dv by (intro smoothly smooth_count_copy slot)
  have pooled: "(if packed then build_packed_pool g y (ec_pooling cfg) (Some (offsets b)) (Some (lengths b)) (int (batch_size b))
      else build_pool_with g y (ec_pooling cfg) pi) = eager_pool g dv (ec_pooling cfg) packed b y" for y
    by (simp add: eager_pool_def pi_def)
  have "going ?n s" using s by (simp add: serving_def)
  from smoothE [OF smooth_graphs(1) [OF dv] this]
  obtain v s1 where s1: "new_graph_context dv s = (Inr v, s1)" "going ?n s1" "ss_slots s1 = ss_slots s" by blast
  have c: "create_input dv (exit_slot m) s1 = (Inr x, s1)" using x by (simp add: create_input_Inr s1(3))
  from smoothE [OF smooth s1(2)] obtain floats t where
    t: "quiet_part (normalized g (ec_normalize cfg) out) s1 = (Inr floats, t)" "going ?n t" by blast
  have run: "final_phase g dv m cfg b packed n s = (Inr floats, t)"
    unfolding final_phase_def Let_def pi_def [symmetric] quiet_part_def [symmetric] pooled
    by (simp add: bindM_run s1(1) c pool t(1))
  have "ss_residency t = ss_residency s" using off_bodies(3) [of g dv m cfg b packed n] run unfolding off_residency_def by (metis snd_conv)
  then show ?thesis using run t(2) s by (simp add: serving_def)
qed

subsection \<open>A sub-batch\<close>

lemma layers_return:
  assumes "mapE (\<lambda>l. arch_streaming_units g a (int l)) ls = Inr plans" and "list_all2 (layer_resolved (sm_slot_names m)) plans layers"
    and names: "names_ok (sm_slot_names m)"
    and dv: "device_works dv" "advice_works advice" "slots_faithful g dv" "uploads_fresh g dv" "fresh_results g"
    and flags: "per_sentence \<longleftrightarrow> padded b \<and> layout \<noteq> LayoutPadded \<and> consumes_seq_lengths (arch_inputs a)"
      "packed \<longleftrightarrow> per_sentence \<and> consumes_packed_batch (arch_inputs a)"
    and "\<And>layer gr. layer \<in> set layers \<Longrightarrow> gr \<in> set (rl_groups layer) \<Longrightarrow> leasable m gr"
    and "stored dv (ss_slots s) (slot_of (sm_slot_names m) ''x'') = Some x"
    and "foldE (\<lambda>l. arch_block g a (eager_inputs dv (arch_inputs a) layout b) (int l)) ls x = Inr y" and "serving m s"
  shows "\<exists>u t. forM layers (\<lambda>layer. forM (rl_groups layer) (group_phase g dv advice b packed per_sentence)) s = (Inr u, t) \<and> serving m t"
  using assms(1,2,11-14)
proof (induction ls arbitrary: plans layers s x)
  case Nil
  then show ?case by auto
next
  case (Cons l ls)
  let ?run = "\<lambda>layer. forM (rl_groups layer) (group_phase g dv advice b packed per_sentence)"
  obtain plan plans' where plans: "plans = plan # plans'" "arch_streaming_units g a (int l) = Inr plan"
    "mapE (\<lambda>l. arch_streaming_units g a (int l)) ls = Inr plans'"
    using Cons.prems(1) by (auto simp: bindE_Inr_iff)
  then obtain layer layers' where layers: "layers = layer # layers'" "layer_resolved (sm_slot_names m) plan layer"
    "list_all2 (layer_resolved (sm_slot_names m)) plans' layers'"
    using Cons.prems(2) by (auto simp: list_all2_Cons1)
  obtain x1 where x1: "arch_block g a (eager_inputs dv (arch_inputs a) layout b) (int l) x = Inr x1"
    "foldE (\<lambda>l. arch_block g a (eager_inputs dv (arch_inputs a) layout b) (int l)) ls x1 = Inr y"
    using Cons.prems(5) by (auto simp: bindE_Inr_iff)
  have lease: "leasable m gr" if "gr \<in> set (rl_groups layer)" for gr using Cons.prems(3) [of layer] that by (simp add: layers(1))
  obtain v s1 where s1: "?run layer s = (Inr v, s1)" "serving m s1"
    using layer_returns [OF plans(2) layers(2) names dv flags Cons.prems(4) lease x1(1) Cons.prems(6)] by blast
  have "stored dv (ss_slots s1) (slot_of (sm_slot_names m) ''x'') = Some x1"
    using layer_step [OF plans(2) layers(2) names s1(1) dv(3) flags Cons.prems(4)] x1(1) by auto
  then have "\<exists>u t. forM layers' ?run s1 = (Inr u, t) \<and> serving m t"
    by (intro Cons.IH [OF plans(3) layers(3) _ _ x1(2) s1(2)]) (use Cons.prems(3) in \<open>auto simp: layers(1)\<close>)
  then show ?case by (auto simp: layers(1) bindM_run s1(1))
qed

text \<open>What a created model brings to every call.\<close>

definition servable :: "'t ggml \<Rightarrow> 't device \<Rightarrow> 't stream_model \<Rightarrow> bool" where
  "servable g dv m \<longleftrightarrow> model_resolved g m \<and> 0 < ap_n_layer (em_params (sm_embedder m))
     \<and> (\<forall>layer\<in>set (sm_layers m). \<forall>gr\<in>set (rl_groups layer). leasable m gr)
     \<and> table_fits (sm_token m) \<and> in_file (sm_mapped_size m) (range_of (sm_token m)) \<and> is_power_of_two (sm_page_size m)
     \<and> device_works dv \<and> slots_faithful g dv \<and> uploads_fresh g dv \<and> fresh_results g
     \<and> float_table g (em_arch (sm_embedder m))"

lemma residual_slot:
  assumes "model_resolved g m" and "0 < ap_n_layer (em_params (sm_embedder m))"
  shows "unat (slot_of (sm_slot_names m) ''x'') < length (sm_slot_names m)"
proof -
  let ?n = "nat (ap_n_layer (em_params (sm_embedder m)))"
  obtain plans where plans: "names_ok (sm_slot_names m)"
    "mapE (\<lambda>l. arch_streaming_units g (em_arch (sm_embedder m)) (int l)) [0 ..< ?n] = Inr plans"
    "list_all2 (layer_resolved (sm_slot_names m)) plans (sm_layers m)"
    using assms(1) by (auto simp: model_resolved_def)
  obtain plan where plan: "plan \<in> set plans" "arch_streaming_units g (em_arch (sm_embedder m)) 0 = Inr plan"
    using mapE_Inr_each [OF plans(2), of 0] assms(2) by auto
  obtain layer where "layer_resolved (sm_slot_names m) plan layer" using list_all2_left [OF plans(3) plan(1)] by blast
  moreover have "lp_output_slot plan = ''x''"
    using model.units_inside [of 0 "em_arch (sm_embedder m)" g] plan(2) assms(2) by (auto simp: em_params_def)
  ultimately have "''x'' \<in> set (sm_slot_names m)" by (simp add: layer_resolved_def)
  then show ?thesis by (rule slot_of_in_range(1) [OF plans(1)])
qed

lemma stream_subbatch_returns:
  assumes m: "servable g dv m" and advice: "advice_works advice" and s: "serving m s"
    and b: "sub_batch (sm_embedder m) plan j = Inr b" and size: "\<not> batch_size b > SIZE_MAX div nat (ap_n_embed (em_params (sm_embedder m)))"
    and v: "build_graph g dv (em_arch (sm_embedder m)) (ec_pooling cfg) (ec_normalize cfg) (ec_batch_layout cfg) b = Inr v"
    and ids: "ids_in_table (ti_row_count (sm_token m)) (token_ids b)"
  shows "\<exists>u t. stream_subbatch g dv advice m cfg plan j s = (Inr u, t) \<and> serving m t"
proof -
  let ?a = "em_arch (sm_embedder m)" and ?names = "sm_slot_names m" and ?H = "nat (ap_n_embed (em_params (sm_embedder m)))"
  let ?gi = "eager_inputs dv (arch_inputs ?a) (ec_batch_layout cfg) b"
  note m = m [unfolded servable_def]
  define per_sentence packed where
    flags: "per_sentence \<longleftrightarrow> padded b \<and> ec_batch_layout cfg \<noteq> LayoutPadded \<and> consumes_seq_lengths (arch_inputs ?a)"
      "packed \<longleftrightarrow> per_sentence \<and> consumes_packed_batch (arch_inputs ?a)"
  have layouts: "batch_layouts m cfg b = (per_sentence, packed)" by (simp add: batch_layouts_def flags Let_def)
  have packs: "packed \<longleftrightarrow> packs (arch_inputs ?a) (ec_batch_layout cfg) b" by (auto simp: packs_def flags)
  have slots: "entry_slot m = slot_of ?names ''x''" "exit_slot m = slot_of ?names ''x''"
    "unat (slot_of ?names ''x'') < length ?names"
    using resolved_slots residual_slot m by blast+
  obtain x y out where x: "arch_embedding_phase g ?a ?gi = Inr x"
    and y: "foldE (\<lambda>l. arch_block g ?a ?gi (int l)) [0 ..< nat (ap_n_layer (em_params (sm_embedder m)))] x = Inr y"
    and out: "eager_pool g dv (ec_pooling cfg) packed b (arch_final_phase g ?a y) = Inr out"
    using v unfolding build_graph_parts arch_build_graph_phases packs [symmetric] em_params_def bindE_Inr_iff mapped_Inr by blast
  have x': "arch_embedding_phase g ?a (embedding_graph_inputs dv (arch_embedding_inputs ?a) b packed) = Inr x"
    using x by (simp add: embedding_inputs_same [OF packs])
  define s0 where "s0 = s\<lparr>ss_slots := invalidate_all (ss_slots s)\<rparr>"
  have s0: "serving m s0" using s by (simp add: serving_def going_def s0_def invalidate_all_def)
  obtain u1 s1 where s1: "embedding_phase g dv advice m b packed s0 = (Inr u1, s1)" "serving m s1"
    using embedding_phase_returns [OF s0 _ advice _ x'] embedding_fresh [OF _ _ x] m ids slots by metis
  have sx: "stored dv (ss_slots s1) (slot_of ?names ''x'') = Some x"
    using embedding_phase_Inr [OF s1(1)] m x' by (auto simp: slots)
  obtain plans where plans: "names_ok ?names" "mapE (\<lambda>l. arch_streaming_units g ?a (int l)) [0 ..< nat (ap_n_layer (em_params (sm_embedder m)))] = Inr plans"
    "list_all2 (layer_resolved ?names) plans (sm_layers m)"
    using m by (auto simp: model_resolved_def)
  have "\<exists>u t. forM (sm_layers m) (\<lambda>layer. forM (rl_groups layer) (group_phase g dv advice b packed per_sentence)) s1 = (Inr u, t) \<and> serving m t"
    by (rule layers_return [OF plans(2,3,1) _ advice _ _ _ flags _ sx y s1(2)]) (use m in auto)
  then obtain u2 s2 where s2: "forM (sm_layers m) (\<lambda>layer. forM (rl_groups layer) (group_phase g dv advice b packed per_sentence)) s1 = (Inr u2, s2)"
    "serving m s2" by blast
  have "stored dv (ss_slots s2) (slot_of ?names ''x'') = Some y"
    using layers_step [OF plans(2,3,1) _ s2(1) flags sx] m y by auto
  then obtain floats s3 where s3: "final_phase g dv m cfg b packed (?H * batch_size b) s2 = (Inr floats, s3)" "serving m s3"
    using final_phase_returns [OF s2(2) _ _ _ out] m slots by metis
  show ?thesis using s3 size
    by (simp add: stream_subbatch_def Let_def b layouts bindM_run s0_def [symmetric] s1(1) s2(1) liftM_def guardE_def serving_def going_def)
qed

subsection \<open>A call\<close>

text \<open>The token ids of every sub-batch name rows of a table with so many rows.\<close>

definition batch_in_table :: "'t embedder \<Rightarrow> embedder_config \<Rightarrow> string list \<Rightarrow> int \<Rightarrow> bool" where
  "batch_in_table em cfg texts rows \<longleftrightarrow> (case make_plan em cfg texts of Inl _ \<Rightarrow> False
     | Inr plan \<Rightarrow> list_all (\<lambda>j. case sub_batch em plan j of Inl _ \<Rightarrow> False
         | Inr b \<Rightarrow> ids_in_table rows (token_ids b)) [0 ..< subbatch_count plan])"

lemma forM_each: "forM xs f s = (Inr u, t) \<Longrightarrow> x \<in> set xs \<Longrightarrow> \<exists>s' t'. f x s' = (Inr (), t')"
  by (induction xs arbitrary: s) (auto simp: bindM_Inr_iff)

lemma embed_subbatch_Inr:
  assumes "embed_subbatch g dv em cfg plan j s = (Inr u, t)"
  shows "\<exists>b v. sub_batch em plan j = Inr b \<and> \<not> batch_size b > SIZE_MAX div nat (ap_n_embed (em_params em))
    \<and> build_graph g dv (em_arch em) (ec_pooling cfg) (ec_normalize cfg) (ec_batch_layout cfg) b = Inr v"
  using assms by (auto simp: embed_subbatch_def Let_def bindM_Inr_iff liftM_Inr_iff guardE_Inr_iff)

lemma serving_loop:
  assumes "\<And>j s. j \<in> set js \<Longrightarrow> serving m s \<Longrightarrow> \<exists>u t. step j s = (Inr u, t) \<and> serving m t" and "serving m s"
  shows "\<exists>u t. forM js step s = (Inr u, t) \<and> serving m t"
  using assms
proof (induction js arbitrary: s)
  case (Cons j js)
  obtain u s1 where s1: "step j s = (Inr u, s1)" "serving m s1" using Cons.prems by (meson list.set_intros(1))
  then have "\<exists>u t. forM js step s1 = (Inr u, t) \<and> serving m t" using Cons.prems(1) by (intro Cons.IH) auto
  then show ?case by (auto simp: bindM_run s1(1))
qed simp

lemma stream_embed_batch_returns:
  assumes m: "servable g dv m" and advice: "advice_works advice" and em: "sm_embedder m = em" and texts: "texts \<noteq> []"
    and eager: "embed_batch g dv hw' em cfg texts False s2 = (Inr (), t2)"
    and ids: "batch_in_table em cfg texts (ti_row_count (sm_token m))"
    and s: "ss_countdown s < 0" "ready (sm_mapped_size m) (sm_page_size m) (ss_residency s)"
  shows "\<exists>t. stream_embed_batch g dv hw advice m cfg texts False s = (Inr (), t) \<and> serving m t"
proof -
  obtain plan s3 where plan: "make_plan em cfg texts = Inr plan"
    and loop: "forM [0 ..< subbatch_count plan] (embed_subbatch g dv em cfg plan) s3 = (Inr (), t2)"
    using eager texts by (auto simp: embed_batch_def bindM_Inr_iff liftM_Inr_iff)
  define s1 where "s1 = s\<lparr>ss_threads := resolve_n_threads hw (ec_n_threads cfg),
    ss_slots := resize_slots (length (sm_slot_names m)) (ss_slots s)\<rparr>"
  have s1: "serving m s1" using s by (simp add: serving_def going_def s1_def resize_slots_def)
  have step: "\<exists>u t. stream_subbatch g dv advice m cfg plan j s = (Inr u, t) \<and> serving m t"
    if j: "j \<in> set [0 ..< subbatch_count plan]" and "serving m s" for j s
  proof -
    obtain s' t' where "embed_subbatch g dv em cfg plan j s' = (Inr (), t')" using forM_each [OF loop j] by blast
    from embed_subbatch_Inr [OF this] obtain b v where b: "sub_batch em plan j = Inr b"
      "\<not> batch_size b > SIZE_MAX div nat (ap_n_embed (em_params em))"
      "build_graph g dv (em_arch em) (ec_pooling cfg) (ec_normalize cfg) (ec_batch_layout cfg) b = Inr v" by blast
    have "ids_in_table (ti_row_count (sm_token m)) (token_ids b)"
      using ids j by (auto simp: batch_in_table_def plan list_all_iff b(1) split: sum.splits)
    then show ?thesis using stream_subbatch_returns [OF m advice \<open>serving m s\<close>] b unfolding em by blast
  qed
  obtain t where "forM [0 ..< subbatch_count plan] (stream_subbatch g dv advice m cfg plan) s1 = (Inr (), t)" "serving m t"
    using serving_loop [of "[0 ..< subbatch_count plan]" m "stream_subbatch g dv advice m cfg plan" s1, OF step s1] by auto
  then show ?thesis using texts
    by (auto simp: stream_embed_batch_def Let_def em plan catchM_def s1_def [symmetric] bindM_run)
qed

lemma created_servable:
  assumes "create_streaming g em infos mapped page env advice = Inr (m, c)" and "0 < ap_n_layer (em_params em)"
    and "table_fits (sm_token m)" and "device_works dv" and "slots_faithful g dv" and "uploads_fresh g dv" and "fresh_results g" and "float_table g (em_arch em)"
  shows "servable g dv m"
proof -
  obtain ranges t where r: "resolve_model g em infos mapped page env \<lparr>slot_names = [], owner = []\<rparr> = (Inr (m, ranges), t)"
    "start_residency advice m ranges = Inr c"
    using create_streaming_Inr [OF assms(1)] by blast
  note m = resolve_model_Inr [OF r(1)]
  obtain token where "page_align_and_coalesce [range_of (sm_token m)] mapped page = Inr token"
    using r(2) unfolding start_residency_def bindE_Inr_iff mapped_Inr m(4,5) by blast
  from page_align_Inr [OF this] show ?thesis
    using m created_leasable [OF assms(1)] assms(2-8) by (simp add: servable_def)
qed


end
