(* ===== verification/StreamDemo.thy ===== *)
theory StreamDemo
  imports StreamReturn "HOL-Library.Code_Target_Nat"
begin

text \<open>
  A concrete device and tensor library on which the streaming theorems are applied: a tensor is its four
  dimensions, a download gives the positions. The model is a one-layer BERT in a file of twenty-one tensors,
  the preset cuts its layer into two groups, and two texts of different length make a padded batch.
\<close>

type_synonym quad = "int \<times> int \<times> int \<times> int"

definition quad :: "(nat \<Rightarrow> int) \<Rightarrow> quad" where
  "quad t = (t 0, t 1, t 2, t 3)"

definition quad_sizes :: "quad \<Rightarrow> nat \<Rightarrow> int" where
  "quad_sizes q = (case q of (a, b, c, d) \<Rightarrow> dims [a, b, c, d])"

definition listed_ggml :: "quad ggml" where
  "listed_ggml = (let g = shape_ggml in
     \<lparr>g_ne = (\<lambda>a. g_ne g (quad_sizes a)), g_nb = (\<lambda>a. g_nb g (quad_sizes a)), g_f32_contiguous = (\<lambda>a. True), g_i32 = (\<lambda>a. False),
     g_mul_mat = (\<lambda>a b. quad (g_mul_mat g (quad_sizes a) (quad_sizes b))), g_add = (\<lambda>a b. quad (g_add g (quad_sizes a) (quad_sizes b))),
     g_mul = (\<lambda>a b. quad (g_mul g (quad_sizes a) (quad_sizes b))), g_scale = (\<lambda>a s. quad (g_scale g (quad_sizes a) s)),
     g_norm = (\<lambda>a e. quad (g_norm g (quad_sizes a) e)), g_rms_norm = (\<lambda>a e. quad (g_rms_norm g (quad_sizes a) e)),
     g_l2_norm = (\<lambda>a e. quad (g_l2_norm g (quad_sizes a) e)), g_get_rows = (\<lambda>a b. quad (g_get_rows g (quad_sizes a) (quad_sizes b))),
     g_gelu_erf = (\<lambda>a. quad (g_gelu_erf g (quad_sizes a))), g_geglu_split = (\<lambda>a b. quad (g_geglu_split g (quad_sizes a) (quad_sizes b))),
     g_swiglu_split = (\<lambda>a b. quad (g_swiglu_split g (quad_sizes a) (quad_sizes b))), g_cont = (\<lambda>a. quad (g_cont g (quad_sizes a))),
     g_transpose = (\<lambda>a. quad (g_transpose g (quad_sizes a))), g_mean = (\<lambda>a. quad (g_mean g (quad_sizes a))),
     g_sum_rows = (\<lambda>a. quad (g_sum_rows g (quad_sizes a))), g_permute = (\<lambda>a p0 p1 p2 p3. quad (g_permute g (quad_sizes a) p0 p1 p2 p3)),
     g_reshape = (\<lambda>a ds. quad (dims ds)), g_view = (\<lambda>a ds nbs off. quad (dims ds)),
     g_soft_max_ext = (\<lambda>a m s b. quad (g_soft_max_ext g (quad_sizes a) None s b)), g_diag_mask_inf = (\<lambda>a n. quad (quad_sizes a)),
     g_rope_ext = (\<lambda>a p f n m c fb fs ef af bf bs. quad (quad_sizes a)),
     g_pad = (\<lambda>a p0 p1 p2 p3. quad (g_pad g (quad_sizes a) p0 p1 p2 p3)), g_new_f32 = (\<lambda>ds. quad (dims ds)),
     g_set_inplace = (\<lambda>a b n1 n2 n3 off. quad (quad_sizes a)), g_concat = (\<lambda>a b d. quad (quad_sizes a)),
     g_div = g_div g, g_sqrt = g_sqrt g, g_f32_of_int = g_f32_of_int g\<rparr>)"

definition listed_device :: "quad device" where
  "listed_device = \<lparr>dv_i32 = (\<lambda>ds _. quad (dims ds)), dv_f16 = (\<lambda>ds _. quad (dims ds)),
     dv_f32 = (\<lambda>ds _. quad (dims ds)), dv_slot = (\<lambda>ds _. quad (dims ds)), dv_read = (\<lambda>_ n. map word_of_nat [0 ..< n]),
     dv_nodes = (\<lambda>outs. int (length outs)), dv_context_ok = (\<lambda>_. True), dv_reserve_ok = (\<lambda>_. True),
     dv_alloc_ok = (\<lambda>_. True), dv_backed = (\<lambda>_. True), dv_compute_ok = (\<lambda>_. True)\<rparr>"

definition listed_layer :: "quad layer_weights" where
  "listed_layer = \<lparr>lw_attn = \<lparr>aw_q_w = quad (dims [4, 4]), aw_q_b = quad (dims [4]), aw_k_w = quad (dims [4, 4]), aw_k_b = quad (dims [4]),
       aw_v_w = quad (dims [4, 4]), aw_v_b = quad (dims [4]), aw_o_w = quad (dims [4, 4]), aw_o_b = quad (dims [4]), aw_norm_w = quad (dims [4]), aw_norm_b = quad (dims [4])\<rparr>,
     lw_ffn = \<lparr>fw_up_w = quad (dims [4, 16]), fw_up_b = quad (dims [16]), fw_down_w = quad (dims [16, 4]), fw_down_b = quad (dims [4]), fw_norm_w = quad (dims [4]), fw_norm_b = quad (dims [4])\<rparr>\<rparr>"

definition listed_model :: "quad bert_model" where
  "listed_model = \<lparr>bm_manifest = bert_manifest_of demo_bert_file demo_bert_arch,
     bm_embed_w = \<lparr>ew_tok = quad (dims [4, 8]), ew_pos = quad (dims [4, 16]), ew_type = quad (dims [4, 2]), ew_norm_w = quad (dims [4]), ew_norm_b = quad (dims [4])\<rparr>,
     bm_layer_w = [listed_layer]\<rparr>"

definition listed_embedder :: "quad embedder" where
  "listed_embedder = \<lparr>em_arch = BertModel listed_model, em_tokenizer = WordPieceTokenizer tiny_wordpiece, em_sys = ideal_sys\<rparr>"

definition listed_infos :: "tensor_info list" where
  "listed_infos = map (\<lambda>(i, n). \<lparr>ti_name = n, ti_absolute_offset = word_of_nat (i * 1024), ti_nbytes = 128,
     ti_row_stride = 16, ti_row_count = 8, ti_elements_per_row = 4, ti_type = TypeF32\<rparr>)
     (enumerate 0 (map fst demo_bert_tensors))"

definition quiet_advice :: advice_function where
  "quiet_advice log r k = None"

definition listed_config :: embedder_config where
  "listed_config = default_embedder_config\<lparr>ec_max_batch := 2\<rparr>"

definition listed_state :: "coordinator \<Rightarrow> stream_state" where
  "listed_state c = \<lparr>clock = 0, ss_slots = [], ss_computes = 0, ss_copied = 0, ss_replans = 0, ss_batches = 0, ss_items = 0,
     ss_valid_tokens = 0, ss_padding_tokens = 0, ss_previous_nodes = - 1, ss_countdown = - 1, ss_threads = 0,
     ss_residency = c, ss_out = replicate 8 0\<rparr>"

subsection \<open>The hypotheses hold\<close>

definition listed_texts :: "string list" where
  "listed_texts = [''un'', ''unable'']"

lemma listed_layers: "ap_n_layer (em_params listed_embedder) = 1" "ap_n_embed (em_params listed_embedder) = 4"
  by (simp_all add: em_params_def listed_embedder_def arch_params_of_def listed_model_def bert_params_def Let_def demo_bert_arch_def)

lemma listed_library:
  "slots_faithful listed_ggml listed_device" "reads_whole listed_device" "device_works listed_device"
  "uploads_fresh listed_ggml listed_device" "fresh_results listed_ggml" "float_table listed_ggml a"
proof -
  have "quad (dims (shape listed_ggml t)) = t" for t
    by (cases t) (simp add: shape_def listed_ggml_def Let_def shape_ggml_def quad_def quad_sizes_def dims_def)
  then show "slots_faithful listed_ggml listed_device" by (simp add: slots_faithful_def listed_device_def)
  show "reads_whole listed_device" by (simp add: reads_whole_def listed_device_def)
  have "g_f32_contiguous listed_ggml t" for t by (simp add: listed_ggml_def Let_def)
  then show "uploads_fresh listed_ggml listed_device" "fresh_results listed_ggml"
    by (simp_all add: uploads_fresh_def fresh_results_def)
  show "float_table listed_ggml a" by (simp add: float_table_def listed_ggml_def Let_def split: model_arch.split)
  show "device_works listed_device" by (simp add: device_works_def listed_device_def)
qed

lemma listed_advice: "advice_works quiet_advice"
  by (simp add: advice_works_def quiet_advice_def)

lemma listed_names: "distinct (map ti_name listed_infos)"
  by code_simp

text \<open>The units name their weights whatever the tensor library is.\<close>

lemma listed_plan_tensors:
  "distinct (planned_tensors (em_arch listed_embedder) (model_plans g listed_embedder))"
  "set (planned_tensors (em_arch listed_embedder) (model_plans g listed_embedder)) = set (map ti_name listed_infos)"
  by code_simp+

lemma listed_streamable: "streamable listed_ggml listed_embedder listed_infos 32768 4096"
proof -
  have "file_fits listed_infos 32768 4096" by code_simp
  then show ?thesis unfolding streamable_def by (simp add: listed_plan_tensors)
qed

lemma listed_preset: "preset_valid (preset_of (Some ''attn-ffn''))"
  by (simp add: preset_of_def preset_valid_def)

lemma listed_table: "list_all table_fits listed_infos"
  by code_simp

lemma listed_batch: "batch_in_table listed_embedder listed_config listed_texts 8"
  by code_simp

lemma listed_plan:
  "case make_plan listed_embedder listed_config listed_texts of Inl _ \<Rightarrow> False
   | Inr plan \<Rightarrow> subbatch_count plan = 1 \<and> (case sub_batch listed_embedder plan 0 of Inl _ \<Rightarrow> False | Inr b \<Rightarrow> batch_size b = 2)"
  by code_simp

lemma listed_eager:
  "\<exists>t. embed_batch listed_ggml listed_device 0 listed_embedder listed_config listed_texts False (Embedder.demo_state out) = (Inr (), t)"
proof -
  obtain plan b where plan: "make_plan listed_embedder listed_config listed_texts = Inr plan" "subbatch_count plan = 1"
    "sub_batch listed_embedder plan 0 = Inr b" "batch_size b = 2"
    using listed_plan by (auto split: sum.splits)
  have "em_arch listed_embedder = BertModel listed_model" by (simp add: listed_embedder_def)
  from bert_graph_builds [OF this] obtain v where
    "build_graph listed_ggml listed_device (em_arch listed_embedder) (ec_pooling listed_config) (ec_normalize listed_config)
      (ec_batch_layout listed_config) b = Inr v" by blast
  then show ?thesis unfolding embed_batch_def plan(1)
    by (simp add: plan(2-4) embed_subbatch_def Let_def bindM_def needM_def listed_device_def Embedder.demo_state_def
        listed_layers SIZE_MAX_def guardE_def listed_texts_def)
qed

lemma listed_created:
  assumes "preset_valid (preset_of env)"
  shows "\<exists>m c. create_streaming listed_ggml listed_embedder listed_infos 32768 4096 env quiet_advice = Inr (m, c)
    \<and> table_fits (sm_token m) \<and> batch_in_table listed_embedder listed_config listed_texts (ti_row_count (sm_token m))
    \<and> ready 32768 4096 c"
proof -
  obtain m c where c: "create_streaming listed_ggml listed_embedder listed_infos 32768 4096 env quiet_advice = Inr (m, c)"
    using create_streaming_returns [OF listed_advice listed_streamable assms] by blast
  have token: "sm_token m \<in> set listed_infos" by (rule created_token [OF c])
  then have "ti_row_count (sm_token m) = 8" by (auto simp: listed_infos_def)
  with token c created_ready [OF c] listed_batch listed_table show ?thesis by (auto simp: list_all_iff)
qed

subsection \<open>The theorems applied\<close>

theorem streaming_accepts_witness:
  "\<exists>m c. create_streaming listed_ggml listed_embedder listed_infos 32768 4096 (Some ''attn-ffn'') quiet_advice = Inr (m, c)"
proof -
  have "0 < ap_n_layer (em_params listed_embedder)" by (simp add: listed_layers)
  from streaming_accepts [OF listed_advice listed_names this] listed_streamable listed_preset show ?thesis by blast
qed


lemma listed_served:
  "\<exists>m c t. create_streaming listed_ggml listed_embedder listed_infos 32768 4096 None quiet_advice = Inr (m, c)
    \<and> stream_embed_batch listed_ggml listed_device 0 quiet_advice m listed_config listed_texts False (listed_state c) = (Inr (), t)"
proof -
  have "preset_valid (preset_of None)" by (simp add: preset_of_def preset_valid_def)
  then obtain m c where m: "create_streaming listed_ggml listed_embedder listed_infos 32768 4096 None quiet_advice = Inr (m, c)"
    "table_fits (sm_token m)" "batch_in_table listed_embedder listed_config listed_texts (ti_row_count (sm_token m))" "ready 32768 4096 c"
    using listed_created by blast
  note em = created_model(2-4) [OF m(1)]
  have sv: "servable listed_ggml listed_device m"
    by (rule created_servable [OF m(1) _ m(2) listed_library(3,1,4-6)]) (simp add: listed_layers)
  obtain t2 where t2: "embed_batch listed_ggml listed_device 0 listed_embedder listed_config listed_texts False
      (Embedder.demo_state []) = (Inr (), t2)"
    using listed_eager by blast
  have start: "listed_texts \<noteq> []" "ss_countdown (listed_state c) < 0"
    "ready (sm_mapped_size m) (sm_page_size m) (ss_residency (listed_state c))"
    unfolding em(2,3) by (simp_all add: listed_texts_def listed_state_def m(4))
  from stream_embed_batch_returns [OF sv listed_advice em(1) start(1) t2 m(3) start(2,3)] m(1) show ?thesis by blast
qed

theorem streaming_equals_eager_witness:
  "\<exists>m c t t2. create_streaming listed_ggml listed_embedder listed_infos 32768 4096 None quiet_advice = Inr (m, c)
    \<and> stream_embed_batch listed_ggml listed_device 0 quiet_advice m listed_config listed_texts False (listed_state c) = (Inr (), t)
    \<and> embed_batch listed_ggml listed_device 0 listed_embedder listed_config listed_texts False (Embedder.demo_state (replicate 8 1)) = (Inr (), t2)
    \<and> ss_out t = out_buf t2"
proof -
  obtain m c t where s: "create_streaming listed_ggml listed_embedder listed_infos 32768 4096 None quiet_advice = Inr (m, c)"
    "stream_embed_batch listed_ggml listed_device 0 quiet_advice m listed_config listed_texts False (listed_state c) = (Inr (), t)"
    using listed_served by blast
  obtain t2 where t2: "embed_batch listed_ggml listed_device 0 listed_embedder listed_config listed_texts False
      (Embedder.demo_state (replicate 8 1)) = (Inr (), t2)"
    using listed_eager by blast
  have "ss_out t = out_buf t2"
    by (rule streaming_equals_eager [OF s t2 listed_library(1,2)])
      (simp_all add: listed_layers listed_texts_def listed_state_def Embedder.demo_state_def)
  with s t2 show ?thesis by blast
qed

text \<open>Three calls: one served, one without texts, one with a null output.\<close>

theorem streaming_leaves_common_only_witness:
  "\<exists>m c r. create_streaming listed_ggml listed_embedder listed_infos 32768 4096 (Some ''attn-ffn'') quiet_advice = Inr (m, c)
    \<and> r = ss_residency (serve listed_ggml listed_device 0 quiet_advice m
        [(listed_config, listed_texts, False), (listed_config, [], False), (listed_config, listed_texts, True)] (listed_state c))
    \<and> active r = [] \<and> leases_acquired (diag r) = leases_released (diag r) \<and> common r = common c"
proof -
  obtain m c where m: "create_streaming listed_ggml listed_embedder listed_infos 32768 4096 (Some ''attn-ffn'') quiet_advice = Inr (m, c)"
    using listed_created [OF listed_preset] by blast
  have "ss_residency (listed_state c) = c" by (simp add: listed_state_def)
  from streaming_leaves_common_only [OF m this refl] m show ?thesis by blast
qed

end
