(* ===== verification/Spec2Isabelle.thy ===== *)
theory Spec2Isabelle
  imports Ranges Partition Residency Batch Registry MappedStore Tokenizers Embedder
    StreamRun StreamReturn StreamDemo
begin

text \<open>
  A verification library for NanoEmbed (C++17), a text-embedding library that runs GGUF models either
  eagerly, with every weight loaded, or by streaming: the weights stay in a read-only file mapping, one
  group of operations runs at a time, and page advice brings its ranges in and sends them out again.

  The parts of the program and how they interact. A model file is scanned into a family's description
  (src/src/gguf_scanner.cpp, arch/registry.cpp, arch/bert_arch.cpp, arch/gemma3_arch.cpp). The eager embedder
  (embedder.cpp) loads its weights; a streaming model (streaming_execution.cpp) maps the file
  (mapped_weight_store.cpp), resolves every tensor to a byte range, cuts each layer's units into groups,
  and owns a residency coordinator. Both plan a batch (batch.cpp) with the model's tokenizer
  (tokenizer/wordpiece.cpp, or tokenizer/spm_bpe.cpp whose merge rules live in memory or in the file cache
  of tokenizer/disk_merge_index.cpp), build tensor graphs with the builders of forward/, and compute them
  with ggml. The streaming runner holds a lease of the coordinator while a group's graph computes.

  The theories, with the code each models:
    Prelude            error results, state actions, sized words, page covers, the locale of lease plans
    Ranges             streaming_execution.cpp 20-180: alignment, coalescing, subtraction, token rows
    Partition          streaming_execution.cpp: partition presets and the slots a group exchanges
    Residency          streaming_execution.cpp: ResidencyCoordinator and ResidencyLease
    Batch              batch.cpp: make_batch_plan, sub-batches, materialize_batch
    Ggml               the operations of the tensor library, a record of functions and a shape instance
    Forward            forward/: linear, norms, rope, attention, ffn, gqa attention, pooling
    Gguf               gguf_util.cpp: metadata readers and shape checks
    ModelArch, BertArch, Gemma3Arch, Registry
                       arch/: the units of a layer, both families, the dispatch between them
    MappedStore        mapped_weight_store.cpp: validation of tensor metadata, bind with rollback
    Tokenizer, WordPiece, SpmBpe, SpmMerge, SpmEncode, Tokenizers
                       tokenizer/: the interface, WordPiece, byte-pair merging and its two claims, the registry
    Bytes, Sha256      tokenizer/sha256.cpp
    MergeFormat, MergeIndex, MergeLookup, MergeImage, MergeOpen, MergeRoundtrip, MergePayload, MergeValid,
    MergeCache         tokenizer/disk_merge_index.cpp: file layout, writer, validation, paged lookup, cache
    Device, Embedder   embedder.cpp; the compute backend is a record of functions
    StreamPlan         the constructor of InternalStreamingModel and its partition report
    StreamRun          SlotStore, InternalStreamingContext and embed_batch
    StreamFacts        what the resolved plan holds: units, ranges and the tensors they take
    StreamRefine       streaming against eager execution
    StreamSafety       leases of the runner, failures
    StreamCreate       which files a streaming model can be created for
    StreamServe, StreamReturn
                       which calls return: groups and layers, then phases and batches
    StreamDemo         a concrete model, device and library to apply the theorems to

  How state and errors correspond. A struct is a record whose fields carry a prefix of its name, an enum a
  datatype; size_t and uint64_t are 64-bit words, int and int32_t are int with the casts of the source
  written out where it casts. A thrown exception is the left value of a sum; a method on mutable state
  is a function from the state to its result and the new state, so the state after an exception is the one the
  code leaves. A string is its list of bytes, one character each. Floats of the graphs are opaque values
  of the library; the one the code writes itself, the quiet NaN, is a bit pattern.

  Locales. lease_planner (Prelude) is what a coordinator needs of a range planner, interpreted in Ranges.
  streamed_family (ModelArch) is what streaming needs of a model family, namely that applying a layer's units
  to named slots is the family's block; it is interpreted in BertArch, Gemma3Arch and, for the dispatched model,
  Registry. merge_source (SpmMerge) is a lookup of merge rules; its instance in SpmEncode is the
  validated disk index.

  What the groups of lemmas show. Ranges: the page sets computed are exactly the pages of the requested
  bytes. Residency: pages of common weights and of active leases are never advised out, nothing leaks, and
  poisoning is permanent. Partition: cutting a layer into groups does not change what it computes. Batch:
  sub-batches cover the input and every buffer of a materialised batch is given cell by cell. Forward: the
  shapes of the built nodes. The tokenizers: each equals a reference (longest match, repeated best merge)
  and stays within the limits. Merge index: writing, validating and searching the cache gives back the
  table it was made from, and validation makes every later access safe. MappedStore: accepted
  tensors lie within the file; a failed bind publishes nothing. Embedder: one text is a batch of one.
  StreamRefine: when a streamed call and an eager call both finish with the same library, their outputs are
  equal. StreamSafety: whatever a call does, its leases are returned. StreamCreate, StreamReturn: a fitting file is accepted, and
  what the eager runner serves the streaming runner serves when device and advice work.

  Recursion. Every loop of the model is structural, bounded by a list or a counted fold, or a function
  with a termination proof by measure (the merge loop: candidates and live symbols; the binary searches:
  the interval; greedy matching: the rest of the word). No fuel is used.

  Parameters. ggml's operators and shapes (Ggml), the backend, allocator and arena (Device), the parsed
  GGUF file, madvise, file system calls, the page size, and hardware concurrency are arguments; the
  theorems that depend on how they behave say so in named hypotheses (slots_faithful, reads_whole,
  downloads, device_works, advice_works). Where the priority queue holds equally good candidates the model takes the first pushed.

  Not modelled. The command line tools and the benchmark of tools/ (printing, argument parsing, operating system counters);
  the branches for Windows and macOS; mutexes and threads, each public method being one step;
  exhaustion of the C++ heap except where the code handles it; slot_resident_bytes and
  diagnostic_resident_pages (mincore statistics); ownership and freeing of ggml and gguf contexts.
\<close>

end
